(* ===== verification/Xv6_Prelude.thy ===== *)
theory Xv6_Prelude
  imports Main "HOL-Library.Word"
begin

unbundle bit_operations_syntax

text \<open>
  Shared vocabulary of the development: the machine integer types of
  \<^verbatim>\<open>kernel/types.h\<close>, the result type of a kernel routine (a value, a
  \<^verbatim>\<open>panic\<close> or a call that would have to sleep), byte addressed physical memory with its
  little endian 64-bit accesses, the constants of \<^verbatim>\<open>kernel/param.h\<close>, and the generic
  lemmas that the component theories rely on.
\<close>

section \<open>Machine integers\<close>

type_synonym u8 = "8 word"
type_synonym u16 = "16 word"
type_synonym u32 = "32 word"
type_synonym u64 = "64 word"

section \<open>Collections of rewrite rules\<close>

named_theorems mem_simps \<open>reading and writing physical memory\<close>
named_theorems outcome_simps \<open>sequencing of kernel routines\<close>

section \<open>Results of kernel routines\<close>

text \<open>
  A routine returns (\<open>Ok\<close>), calls \<^verbatim>\<open>panic\<close> (\<open>Panic\<close> with the message; \<^verbatim>\<open>panic\<close>
  never returns), reaches a call of \<^verbatim>\<open>sleep\<close> whose wake-up condition does not hold, or a loop
  that does not end (\<open>Blocks\<close>), or leaves the behaviour that C defines, by an access outside
  an array (\<open>Undef\<close>).
\<close>

datatype 'a outcome = Ok 'a | Panic string | Blocks | Undef

definition bind_ok :: "'a outcome \<Rightarrow> ('a \<Rightarrow> 'b outcome) \<Rightarrow> 'b outcome" where
  "bind_ok m f = (case m of Ok x \<Rightarrow> f x | Panic e \<Rightarrow> Panic e | Blocks \<Rightarrow> Blocks
     | Undef \<Rightarrow> Undef)"

lemma bind_ok_simps [simp]:
  "bind_ok (Ok x) f = f x"
  "bind_ok (Panic e) f = Panic e"
  "bind_ok Blocks f = Blocks"
  "bind_ok Undef f = Undef"
  by (simp_all add: bind_ok_def)

lemma bind_ok_cong [fundef_cong]:
  "m = m' \<Longrightarrow> (\<And>x. m' = Ok x \<Longrightarrow> f x = f' x) \<Longrightarrow> bind_ok m f = bind_ok m' f'"
  by (cases m') auto

lemma bind_ok_eq_Ok [outcome_simps]:
  "bind_ok m f = Ok y \<longleftrightarrow> (\<exists>x. m = Ok x \<and> f x = Ok y)"
  by (cases m) auto

lemma bind_ok_eq_Panic [outcome_simps]:
  "bind_ok m f = Panic e \<longleftrightarrow> m = Panic e \<or> (\<exists>x. m = Ok x \<and> f x = Panic e)"
  by (cases m) auto

lemma bind_okE:
  assumes "bind_ok m f = Ok y"
  obtains x where "m = Ok x" and "f x = Ok y"
  using assms by (auto simp: bind_ok_eq_Ok)

definition is_ok :: "'a outcome \<Rightarrow> bool" where
  "is_ok m \<longleftrightarrow> (case m of Ok _ \<Rightarrow> True | _ \<Rightarrow> False)"

lemma is_ok_iff: "is_ok m \<longleftrightarrow> (\<exists>x. m = Ok x)"
  by (cases m) (auto simp: is_ok_def)

text \<open>A loop over a list of indices, stopped by the first iteration that does not return.\<close>

primrec for_ok :: "(nat \<Rightarrow> 's \<Rightarrow> 's outcome) \<Rightarrow> nat list \<Rightarrow> 's \<Rightarrow> 's outcome" where
  "for_ok f [] s = Ok s"
| "for_ok f (i # is) s = bind_ok (f i s) (for_ok f is)"

lemma for_ok_append: "for_ok f (is @ js) s = bind_ok (for_ok f is s) (for_ok f js)"
proof (induction "is" arbitrary: s)
  case (Cons i "is")
  then show ?case by (cases "f i s") simp_all
qed simp

text \<open>The first index of an array with some property.\<close>

lemma find_upt_Some: "find P [0..<n] = Some i \<longleftrightarrow> i < n \<and> P i \<and> (\<forall>j<i. \<not> P j)"
proof
  assume "find P [0..<n] = Some i"
  then show "i < n \<and> P i \<and> (\<forall>j<i. \<not> P j)" by (auto simp: find_Some_iff)
next
  assume "i < n \<and> P i \<and> (\<forall>j<i. \<not> P j)"
  then show "find P [0..<n] = Some i" unfolding find_Some_iff by (intro exI [of _ i]) auto
qed

lemma find_upt_None: "find P [0..<n] = None \<longleftrightarrow> (\<forall>i<n. \<not> P i)"
  by (auto simp: find_None_iff)

section \<open>Words\<close>

lemma unat_less_pow: "LENGTH('a) = n \<Longrightarrow> unat (w::'a::len word) < 2 ^ n"
  using unsigned_less [of w] by simp

lemma unat_u64_less: "unat (w::u64) < 18446744073709551616"
  using unsigned_less [of w] by simp

lemma unat_u32_less: "unat (w::u32) < 4294967296"
  using unsigned_less [of w] by simp

lemma unat_u8_less: "unat (w::u8) < 256"
  using unsigned_less [of w] by simp

lemma unat_of_nat_u64: "n < 2 ^ 64 \<Longrightarrow> unat (of_nat n :: u64) = n"
  by (simp add: unat_of_nat)

lemma unat_of_nat_u32: "n < 2 ^ 32 \<Longrightarrow> unat (of_nat n :: u32) = n"
  by (simp add: unat_of_nat)

lemma unat_plus_no_wrap:
  "unat a + unat b < 2 ^ LENGTH('a) \<Longrightarrow> unat (a + b :: 'a::len word) = unat a + unat b"
  by (simp add: unat_word_ariths)

lemma unat_minus_le:
  "b \<le> a \<Longrightarrow> unat (a - b :: 'a::len word) = unat a - unat b"
  by (rule unat_sub)

lemma unat_ucast_up:
  "LENGTH('a) \<le> LENGTH('b) \<Longrightarrow> unat (ucast (w :: 'a::len word) :: 'b::len word) = unat w"
  by transfer (simp add: min_def)

lemma unat_ucast_u32_u64 [simp]: "unat (ucast (w :: u32) :: u64) = unat w"
  by (rule unat_ucast_up) simp

lemma unat_minus_1_u64 [simp]: "unat (- 1 :: u64) = 18446744073709551615"
  by (simp add: unsigned_minus_1_eq_mask mask_eq_exp_minus_1)

text \<open>
  Distances between addresses: \<open>unat (x - a)\<close> is the offset of \<open>x\<close> from \<open>a\<close>, counted
  upwards and modulo the address space.
\<close>

lemma offset_of_nat [simp]: "n < 2 ^ 64 \<Longrightarrow> unat ((a + of_nat n) - a :: u64) = n"
  by (simp add: unat_of_nat)

lemma addr_offset: "a + of_nat (unat (x - a)) = (x::u64)"
  by simp

lemma addr_eq_iff: "x = a + of_nat n \<longleftrightarrow> unat (x - a) = n" if "n < 2 ^ 64" for x a :: u64
  using that by (metis addr_offset offset_of_nat)

section \<open>Physical memory\<close>

text \<open>
  Physical memory is a map from byte addresses to bytes. A C \<^verbatim>\<open>uint64\<close> (a pointer, a page
  table entry) occupies eight bytes, least significant first, as on RISC-V.
\<close>

type_synonym memory = "u64 \<Rightarrow> u8"

definition load64 :: "memory \<Rightarrow> u64 \<Rightarrow> u64" where
  "load64 m a =
     foldr (\<lambda>i v. push_bit 8 v OR ucast (m (a + of_nat i))) [0..<8] 0"

definition store64 :: "memory \<Rightarrow> u64 \<Rightarrow> u64 \<Rightarrow> memory" where
  "store64 m a v =
     (\<lambda>x. if unat (x - a) < 8 then ucast (drop_bit (8 * unat (x - a)) v) else m x)"

lemma upt_8: "[0..<8] = [0, 1, 2, 3, 4, 5, 6, 7::nat]"
  by (simp add: upt_rec)

lemma load64_cong:
  "(\<And>i. i < 8 \<Longrightarrow> m (a + of_nat i) = m' (a + of_nat i)) \<Longrightarrow> load64 m a = load64 m' a"
  unfolding load64_def by (rule foldr_cong) auto

text \<open>Bit \<open>n\<close> of a loaded word is bit \<open>n mod 8\<close> of byte \<open>n div 8\<close>.\<close>

lemma bit_of_bytes:
  "k \<le> 8 \<Longrightarrow>
   bit (foldr (\<lambda>i v. push_bit 8 v OR ucast (f i :: u8)) [j..<j + k] (0::u64)) n \<longleftrightarrow>
   n < 8 * k \<and> bit (f (j + n div 8)) (n mod 8)"
proof (induction k arbitrary: j n)
  case 0
  then show ?case by simp
next
  case (Suc k)
  have upt: "[j..<j + Suc k] = j # [Suc j..<Suc j + k]"
    by (simp add: upt_conv_Cons)
  show ?case
  proof (cases "n < 8")
    case True
    then show ?thesis
      by (simp only: upt foldr.simps o_apply) (simp add: bit_or_iff bit_push_bit_iff bit_ucast_iff)
  next
    case False
    then have n: "n = 8 + (n - 8)" by simp
    have byte: "\<not> bit (f j) n"
      using False by (auto dest: bit_imp_le_length)
    from Suc.prems have "8 * Suc k \<le> 64" by simp
    with False Suc.IH [of "Suc j" "n - 8"] Suc.prems show ?thesis
      by (simp only: upt foldr.simps o_apply)
        (auto simp: bit_or_iff bit_push_bit_iff bit_ucast_iff byte le_div_geq le_mod_geq)
  qed
qed

lemma bit_load64: "bit (load64 m a) n \<longleftrightarrow> n < 64 \<and> bit (m (a + of_nat (n div 8))) (n mod 8)"
  using bit_of_bytes [of 8 "\<lambda>i. m (a + of_nat i)" 0 n] by (simp add: load64_def)

lemma load64_store64_same [mem_simps]: "load64 (store64 m a v) a = v"
proof (rule bit_word_eqI)
  fix n assume "n < LENGTH(64)"
  then have n: "n < 64" by simp
  then have byte: "n div 8 < 8" by (simp add: less_mult_imp_div_less)
  then have "unat (of_nat (n div 8) :: u64) = n div 8"
    by (intro unat_of_nat_u64) simp
  with n byte show "bit (load64 (store64 m a v) a) n = bit v n"
    by (simp add: bit_load64 store64_def bit_ucast_iff bit_drop_bit_eq)
qed

lemma store64_outside: "8 \<le> unat (x - a) \<Longrightarrow> store64 m a v x = m x"
  by (simp add: store64_def)

lemma load64_0: "(\<And>i. i < 8 \<Longrightarrow> m (a + of_nat i) = 0) \<Longrightarrow> load64 m a = 0"
proof -
  assume "\<And>i. i < 8 \<Longrightarrow> m (a + of_nat i) = 0"
  then have "load64 m a = load64 (\<lambda>_. 0) a"
    by (intro load64_cong) simp
  then show ?thesis by (simp add: load64_def upt_8)
qed

section \<open>Compile-time parameters (kernel/param.h)\<close>

definition NPROC :: nat where [simp]: "NPROC = 64"
definition NCPU :: nat where [simp]: "NCPU = 8"
definition NOFILE :: nat where [simp]: "NOFILE = 16"
definition NFILE :: nat where [simp]: "NFILE = 100"
definition NINODE :: nat where [simp]: "NINODE = 50"
definition NDEV :: nat where [simp]: "NDEV = 10"
definition ROOTDEV :: u32 where [simp]: "ROOTDEV = 1"
definition MAXARG :: nat where [simp]: "MAXARG = 32"
definition MAXOPBLOCKS :: nat where [simp]: "MAXOPBLOCKS = 10"
definition LOGSIZE :: nat where [simp]: "LOGSIZE = MAXOPBLOCKS * 3"
definition NBUF :: nat where [simp]: "NBUF = MAXOPBLOCKS * 3"
definition FSSIZE :: nat where [simp]: "FSSIZE = 2000"
definition MAXPATH :: nat where [simp]: "MAXPATH = 128"

end
