(* ===== verification/Kstring.thy ===== *)
theory Kstring
  imports Xv6_Prelude
begin

text \<open>
  \<^verbatim>\<open>kernel/string.c\<close>. The block operations \<^verbatim>\<open>memset\<close>, \<^verbatim>\<open>memcmp\<close> and \<^verbatim>\<open>memmove\<close> act on
  physical memory; the string operations see a \<^verbatim>\<open>char *\<close> as the bytes from that pointer
  on, a function from offsets to bytes. The lemmas give each loop its closed form: what a
  block operation leaves at every address, overlapping moves included.
\<close>

type_synonym chars = "nat \<Rightarrow> u8"

definition chars_at :: "memory \<Rightarrow> u64 \<Rightarrow> chars" where
  "chars_at m a = (\<lambda>i. m (a + of_nat i))"

section \<open>Block operations\<close>

function memset_from :: "memory \<Rightarrow> u64 \<Rightarrow> u8 \<Rightarrow> nat \<Rightarrow> nat \<Rightarrow> memory" where
  "memset_from m dst c i n =
     (if i < n then memset_from (m(dst + of_nat i := c)) dst c (Suc i) n else m)"
  by pat_completeness auto
termination
  by (relation "measure (\<lambda>(m, dst, c, i, n). n - i)") auto

declare memset_from.simps [simp del]

definition memset :: "memory \<Rightarrow> u64 \<Rightarrow> u32 \<Rightarrow> u32 \<Rightarrow> memory" where
  "memset m dst c n = memset_from m dst (ucast c) 0 (unat n)"

fun memcmp_loop :: "chars \<Rightarrow> chars \<Rightarrow> nat \<Rightarrow> int" where
  "memcmp_loop s1 s2 0 = 0"
| "memcmp_loop s1 s2 (Suc n) =
     (if s1 0 \<noteq> s2 0 then uint (s1 0) - uint (s2 0)
      else memcmp_loop (\<lambda>i. s1 (Suc i)) (\<lambda>i. s2 (Suc i)) n)"

definition memcmp :: "memory \<Rightarrow> u64 \<Rightarrow> u64 \<Rightarrow> u32 \<Rightarrow> int" where
  "memcmp m v1 v2 n = memcmp_loop (chars_at m v1) (chars_at m v2) (unat n)"

fun move_up :: "memory \<Rightarrow> u64 \<Rightarrow> u64 \<Rightarrow> nat \<Rightarrow> memory" where
  "move_up m d s 0 = m"
| "move_up m d s (Suc n) = move_up (m(d := m s)) (d + 1) (s + 1) n"

fun move_down :: "memory \<Rightarrow> u64 \<Rightarrow> u64 \<Rightarrow> nat \<Rightarrow> memory" where
  "move_down m d s 0 = m"
| "move_down m d s (Suc n) = move_down (m(d - 1 := m (s - 1))) (d - 1) (s - 1) n"

definition memmove :: "memory \<Rightarrow> u64 \<Rightarrow> u64 \<Rightarrow> u32 \<Rightarrow> memory" where
  "memmove m dst src n =
     (if n = 0 then m
      else if src < dst \<and> src + ucast n > dst
      then move_down m (dst + ucast n) (src + ucast n) (unat n)
      else move_up m dst src (unat n))"

definition memcpy :: "memory \<Rightarrow> u64 \<Rightarrow> u64 \<Rightarrow> u32 \<Rightarrow> memory" where
  "memcpy m dst src n = memmove m dst src n"

section \<open>Strings\<close>

text \<open>
  \<^verbatim>\<open>while(n > 0 && *p && *p == *q) n--, p++, q++;\<close> followed by the comparison of the bytes
  the loop stopped at.
\<close>

fun strncmp :: "chars \<Rightarrow> chars \<Rightarrow> nat \<Rightarrow> int" where
  "strncmp p q 0 = 0"
| "strncmp p q (Suc n) =
     (if p 0 \<noteq> 0 \<and> p 0 = q 0 then strncmp (\<lambda>i. p (Suc i)) (\<lambda>i. q (Suc i)) n
      else uint (p 0) - uint (q 0))"

text \<open>
  The two loops of \<^verbatim>\<open>strncpy\<close>, at offset \<open>i\<close> of both strings with \<open>n\<close> bytes to go: the
  first copies up to and including a NUL, the second pads with NULs.
\<close>

fun strncpy_pad :: "chars \<Rightarrow> nat \<Rightarrow> nat \<Rightarrow> chars" where
  "strncpy_pad s i 0 = s"
| "strncpy_pad s i (Suc n) = strncpy_pad (s(i := 0)) (Suc i) n"

fun strncpy_copy :: "chars \<Rightarrow> chars \<Rightarrow> nat \<Rightarrow> nat \<Rightarrow> chars" where
  "strncpy_copy s t i 0 = s"
| "strncpy_copy s t i (Suc n) =
     (let s = s(i := t i)
      in if t i \<noteq> 0 then strncpy_copy s t (Suc i) n else strncpy_pad s (Suc i) n)"

definition strncpy :: "chars \<Rightarrow> chars \<Rightarrow> int \<Rightarrow> chars" where
  "strncpy s t n = strncpy_copy s t 0 (nat n)"

fun safestrcpy_copy :: "chars \<Rightarrow> chars \<Rightarrow> nat \<Rightarrow> nat \<Rightarrow> chars" where
  "safestrcpy_copy s t i 0 = s(i := 0)"
| "safestrcpy_copy s t i (Suc n) =
     (let s = s(i := t i)
      in if t i \<noteq> 0 then safestrcpy_copy s t (Suc i) n else s(Suc i := 0))"

definition safestrcpy :: "chars \<Rightarrow> chars \<Rightarrow> int \<Rightarrow> chars" where
  "safestrcpy s t n = (if n \<le> 0 then s else safestrcpy_copy s t 0 (nat (n - 1)))"

partial_function (option) strlen_from :: "chars \<Rightarrow> nat \<Rightarrow> nat option" where
  "strlen_from s n = (if s n \<noteq> 0 then strlen_from s (Suc n) else Some n)"

definition strlen :: "chars \<Rightarrow> nat option" where
  "strlen s = strlen_from s 0"

section \<open>Closed forms of the block operations\<close>

lemma memset_from_apply:
  assumes "n \<le> 2 ^ 64"
  shows "memset_from m dst c i n x =
    (if i \<le> unat (x - dst) \<and> unat (x - dst) < n then c else m x)"
proof (induction "n - i" arbitrary: m i)
  case 0
  then show ?case by (auto simp: memset_from.simps [of m dst c i n])
next
  case (Suc k)
  then have "i < n" and k: "k = n - Suc i" by simp_all
  with assms have "i < 2 ^ 64" by simp
  then have eq: "x = dst + of_nat i \<longleftrightarrow> unat (x - dst) = i" by (rule addr_eq_iff)
  have "memset_from m dst c i n x = memset_from (m(dst + of_nat i := c)) dst c (Suc i) n x"
    using \<open>i < n\<close> by (simp add: memset_from.simps [of m dst c i n])
  also have "\<dots> = (if Suc i \<le> unat (x - dst) \<and> unat (x - dst) < n then c
      else (m(dst + of_nat i := c)) x)"
    by (rule Suc.hyps(1) [OF k])
  also have "\<dots> = (if i \<le> unat (x - dst) \<and> unat (x - dst) < n then c else m x)"
    using eq \<open>i < n\<close> by auto
  finally show ?case .
qed

lemma memset_apply [mem_simps]:
  "memset m dst c n x = (if unat (x - dst) < unat n then ucast c else m x)"
proof -
  have "unat n \<le> 2 ^ 64" by (rule order.trans [OF less_imp_le [OF unat_u32_less]]) simp
  then show ?thesis by (simp add: memset_def memset_from_apply)
qed

lemma memcmp_loop_0_iff: "memcmp_loop s1 s2 n = 0 \<longleftrightarrow> (\<forall>i<n. s1 i = s2 i)"
  by (induction s1 s2 n rule: memcmp_loop.induct) (auto simp: less_Suc_eq_0_disj word_uint_eq_iff)

text \<open>
  The upward loop is right unless the destination starts inside the source, the downward one
  unless the source starts inside the destination; both conditions are about the distance
  between the two pointers, which the loops keep.
\<close>

lemma move_up_apply:
  assumes "d = s \<or> n \<le> unat (d - s)" "n \<le> 2 ^ 64"
  shows "move_up m d s n x = (if unat (x - d) < n then m (s + (x - d)) else m x)"
  using assms
proof (induction n arbitrary: m d s)
  case 0
  then show ?case by simp
next
  case (Suc n)
  have d: "(d + 1) - (s + 1) = d - s" by simp
  from Suc.prems have IH: "move_up m d s (Suc n) x =
      (if unat (x - (d + 1)) < n then (m(d := m s)) (s + 1 + (x - (d + 1)))
       else (m(d := m s)) x)"
    using Suc.IH unfolding move_up.simps by (subst Suc.IH) (auto simp: d)
  show ?case
  proof (cases "x = d")
    case True
    have "unat (- 1 :: u64) = 2 ^ 64 - 1" by simp
    with True Suc.prems have "\<not> unat (x - (d + 1)) < n" by simp
    with True show ?thesis unfolding IH by simp
  next
    case False
    then have off: "unat (x - d) = Suc (unat (x - (d + 1)))"
      using unat_minus_one [of "x - d"] by (simp add: algebra_simps unat_gt_0)
    have "s + (x - d) \<noteq> d" if "unat (x - d) < Suc n"
    proof
      assume "s + (x - d) = d"
      then have "x - d = d - s" by (simp add: algebra_simps)
      with Suc.prems that False show False by auto
    qed
    with off False show ?thesis unfolding IH by (auto simp: algebra_simps)
  qed
qed

lemma move_down_apply:
  assumes "s = d \<or> n \<le> unat (s - d)" "n \<le> 2 ^ 64"
  shows "move_down m d s n x = (if unat (d - 1 - x) < n then m (s - (d - x)) else m x)"
  using assms
proof (induction n arbitrary: m d s)
  case 0
  then show ?case by simp
next
  case (Suc n)
  have d: "(s - 1) - (d - 1) = s - d" by simp
  from Suc.prems have IH: "move_down m d s (Suc n) x =
      (if unat (d - 1 - 1 - x) < n then (m(d - 1 := m (s - 1))) (s - 1 - (d - 1 - x))
       else (m(d - 1 := m (s - 1))) x)"
    using Suc.IH unfolding move_down.simps by (subst Suc.IH) (auto simp: d)
  show ?case
  proof (cases "x = d - 1")
    case True
    have "unat (- 1 :: u64) = 2 ^ 64 - 1" by simp
    with True Suc.prems have "\<not> unat (d - 1 - 1 - x) < n" by simp
    with True show ?thesis unfolding IH by simp
  next
    case False
    then have off: "unat (d - 1 - x) = Suc (unat (d - 1 - 1 - x))"
      using unat_minus_one [of "d - 1 - x"] by (simp add: algebra_simps unat_gt_0)
    have "s - (d - x) \<noteq> d - 1" if "unat (d - 1 - x) < Suc n"
    proof
      assume "s - (d - x) = d - 1"
      then have "s - d = d - 1 - x" by (simp add: algebra_simps)
      with Suc.prems that False show False by auto
    qed
    with off False show ?thesis unfolding IH by (auto simp: algebra_simps)
  qed
qed

lemma offset_from_end:
  assumes "n \<le> 2 ^ 64"
  shows "unat (d + of_nat n - 1 - x) < n \<longleftrightarrow> unat (x - d :: u64) < n"
proof (cases "n = 0")
  case False
  let ?k = "of_nat n - 1 :: u64"
  have k: "unat ?k = n - 1"
  proof -
    from False obtain l where "n = Suc l" by (cases n) auto
    with assms show ?thesis by (simp add: unat_of_nat)
  qed
  have "unat (?k - y) < n \<longleftrightarrow> unat y < n" for y :: u64
  proof (cases "y \<le> ?k")
    case True
    then show ?thesis using k False by (simp add: unat_sub word_le_nat_alt)
  next
    case neq: False
    then have "unat (?k - y) = 2 ^ 64 + unat ?k - unat y"
      by (simp add: unat_sub_if' word_le_nat_alt)
    with neq k False show ?thesis using unat_u64_less [of y] by (simp add: word_le_nat_alt) linarith
  qed
  from this [of "x - d"] show ?thesis by (simp add: algebra_simps)
qed simp

lemma memmove_apply [mem_simps]:
  assumes "unat src + unat n < 2 ^ 64"
  shows "memmove m dst src n x =
    (if unat (x - dst) < unat n then m (src + (x - dst)) else m x)"
proof -
  have n: "unat n \<le> 2 ^ 64" using assms by simp
  have end_src: "unat (src + ucast n) = unat src + unat n"
    using assms by (simp add: unat_plus_no_wrap)
  show ?thesis
  proof (cases "src < dst \<and> dst < src + ucast n")
    case True
    then have "unat (dst - src) < unat n" and pos: "0 < unat (dst - src)"
      using end_src by (auto simp: word_less_nat_alt unat_sub word_le_nat_alt)
    moreover have "unat (src - dst) = 18446744073709551616 - unat (dst - src)"
      using True by (simp add: unat_sub_if' word_less_nat_alt)
    ultimately have "unat n \<le> unat (src - dst)"
      using unat_u32_less [of n] by linarith
    then have "move_down m (dst + ucast n) (src + ucast n) (unat n) x =
        (if unat (dst + ucast n - 1 - x) < unat n then m (src + ucast n - (dst + ucast n - x))
         else m x)"
      using n by (intro move_down_apply) simp_all
    moreover have "(of_nat (unat n) :: u64) = ucast n"
      by (simp add: word_unat_eq_iff)
    ultimately show ?thesis
      using True offset_from_end [OF n, of dst x] by (auto simp: memmove_def algebra_simps)
  next
    case False
    have "dst = src \<or> unat n \<le> unat (dst - src)"
      using False end_src assms
      by (auto simp: word_less_nat_alt unat_sub_if' not_less word_unat_eq_iff)
    then show ?thesis
      using False n by (auto simp: memmove_def move_up_apply)
  qed
qed

section \<open>What the string operations compute\<close>

text \<open>The C string at a pointer, looked at through a window of \<open>n\<close> bytes.\<close>

definition cstring :: "nat \<Rightarrow> chars \<Rightarrow> u8 list" where
  "cstring n p = takeWhile (\<lambda>c. c \<noteq> 0) (map p [0..<n])"

lemma cstring_0 [simp]: "cstring 0 p = []"
  by (simp add: cstring_def)

lemma map_upt_Suc_shift: "map p [0..<Suc n] = p 0 # map (\<lambda>i. p (Suc i)) [0..<n]"
proof -
  have "map p [0..<Suc n] = map p (0 # map Suc [0..<n])"
    by (simp only: upt_conv_Cons zero_less_Suc map_Suc_upt)
  then show ?thesis by simp
qed

lemma cstring_Suc:
  "cstring (Suc n) p = (if p 0 = 0 then [] else p 0 # cstring n (\<lambda>i. p (Suc i)))"
  by (simp only: cstring_def map_upt_Suc_shift) simp

lemma length_cstring: "length (cstring n p) \<le> n"
  unfolding cstring_def using length_takeWhile_le [of _ "map p [0..<n]"] by simp

lemma strncmp_0_iff: "strncmp p q n = 0 \<longleftrightarrow> cstring n p = cstring n q"
  by (induction p q n rule: strncmp.induct) (auto simp: cstring_Suc word_uint_eq_iff)

lemma strncpy_pad_apply:
  "strncpy_pad s i n k = (if i \<le> k \<and> k < i + n then 0 else s k)"
  by (induction n arbitrary: s i) auto

lemma strncpy_copy_apply:
  "strncpy_copy s t i n k =
     (if i \<le> k \<and> k < i + n then (if \<exists>j. i \<le> j \<and> j < k \<and> t j = 0 then 0 else t k) else s k)"
proof (induction n arbitrary: s i)
  case (Suc n)
  show ?case
  proof (cases "t i = 0")
    case True
    then show ?thesis by (auto simp: strncpy_pad_apply Let_def)
  next
    case False
    have "(\<exists>j. Suc i \<le> j \<and> j < k \<and> t j = 0) = (\<exists>j. i \<le> j \<and> j < k \<and> t j = 0)"
      using False by (metis Suc_leD Suc_leI le_neq_implies_less)
    moreover have "strncpy_copy s t i (Suc n) k = strncpy_copy (s(i := t i)) t (Suc i) n k"
      using False by simp
    moreover have "strncpy_copy (s(i := t i)) t (Suc i) n k =
        (if Suc i \<le> k \<and> k < Suc i + n
         then (if \<exists>j. Suc i \<le> j \<and> j < k \<and> t j = 0 then 0 else t k) else (s(i := t i)) k)"
      by (rule Suc.IH)
    ultimately show ?thesis using False by auto
  qed
qed auto

lemma cstring_cong:
  assumes "\<And>k. k < n \<Longrightarrow> (\<forall>j<k. p j \<noteq> 0) \<Longrightarrow> p k = q k"
  shows "cstring n p = cstring n q"
  using assms
proof (induction n arbitrary: p q)
  case (Suc n)
  from Suc.prems [of 0] have "p 0 = q 0" by simp
  moreover have "p 0 \<noteq> 0 \<Longrightarrow> cstring n (\<lambda>i. p (Suc i)) = cstring n (\<lambda>i. q (Suc i))"
  proof (rule Suc.IH)
    fix k assume "p 0 \<noteq> 0" "k < n" "\<forall>j<k. p (Suc j) \<noteq> 0"
    then show "p (Suc k) = q (Suc k)"
      using Suc.prems [of "Suc k"] by (auto simp: less_Suc_eq_0_disj)
  qed
  ultimately show ?case by (simp add: cstring_Suc)
qed simp

lemma strncpy_apply:
  "strncpy s t n k =
     (if k < nat n then (if \<exists>j<k. t j = 0 then 0 else t k) else s k)"
  by (simp add: strncpy_def strncpy_copy_apply)

lemma cstring_strncpy: "cstring (nat n) (strncpy s t n) = cstring (nat n) t"
proof (rule cstring_cong [symmetric])
  fix k assume "k < nat n" "\<forall>j<k. t j \<noteq> 0"
  then show "t k = strncpy s t n k" by (auto simp: strncpy_apply)
qed

lemma strlen_from_first:
  "s (i + k) = 0 \<Longrightarrow> (\<And>j. j < k \<Longrightarrow> s (i + j) \<noteq> 0) \<Longrightarrow> strlen_from s i = Some (i + k)"
proof (induction k arbitrary: i)
  case 0
  then show ?case by (simp add: strlen_from.simps [of s i])
next
  case (Suc k)
  have "s (Suc i + k) = 0" using Suc.prems(1) by simp
  moreover have "\<And>j. j < k \<Longrightarrow> s (Suc i + j) \<noteq> 0"
    using Suc.prems(2) by (metis Suc_mono add_Suc_right add_Suc)
  ultimately have "strlen_from s (Suc i) = Some (Suc i + k)" by (rule Suc.IH)
  moreover have "s i \<noteq> 0" using Suc.prems(2) [of 0] by simp
  ultimately show ?case by (simp add: strlen_from.simps [of s i])
qed

lemma strlen_first:
  assumes "s k = 0" and "\<And>j. j < k \<Longrightarrow> s j \<noteq> 0"
  shows "strlen s = Some k"
  using strlen_from_first [of s 0 k] assms by (simp add: strlen_def)

lemma strlen_terminates:
  assumes "s k = 0"
  shows "\<exists>l\<le>k. strlen s = Some l \<and> s l = 0 \<and> (\<forall>j<l. s j \<noteq> 0)"
proof -
  let ?l = "LEAST j. s j = 0"
  have zero: "s ?l = 0" using assms by (rule LeastI)
  have nonzero: "s j \<noteq> 0" if "j < ?l" for j using that by (rule not_less_Least)
  have "strlen s = Some ?l" using zero nonzero by (rule strlen_first)
  then show ?thesis using zero nonzero Least_le [of "\<lambda>j. s j = 0", OF assms] by blast
qed

text \<open>
  \<^verbatim>\<open>safestrcpy\<close> writes only within its \<open>n\<close> bytes, and always leaves a terminated string:
  the source cut to \<open>n - 1\<close> bytes.
\<close>

lemma safestrcpy_copy_outside: "i + n < k \<Longrightarrow> safestrcpy_copy s t i n k = s k"
  by (induction n arbitrary: s i) (auto simp: Let_def)

lemma safestrcpy_copy_below: "k < i \<Longrightarrow> safestrcpy_copy s t i n k = s k"
  by (induction n arbitrary: s i) (auto simp: Let_def)

lemma safestrcpy_copy_terminated:
  "\<exists>l\<le>n. safestrcpy_copy s t i n (i + l) = 0 \<and>
     (\<forall>j<l. safestrcpy_copy s t i n (i + j) = t (i + j) \<and> t (i + j) \<noteq> 0) \<and>
     (l < n \<longrightarrow> t (i + l) = 0)"
proof (induction n arbitrary: s i)
  case (Suc n)
  show ?case
  proof (cases "t i = 0")
    case True
    then show ?thesis by (intro exI [of _ 0]) (simp add: Let_def)
  next
    case False
    let ?s = "s(i := t i)"
    from Suc.IH [of ?s "Suc i"] obtain l where l: "l \<le> n"
        "safestrcpy_copy ?s t (Suc i) n (Suc i + l) = 0"
        "\<forall>j<l. safestrcpy_copy ?s t (Suc i) n (Suc i + j) = t (Suc i + j) \<and> t (Suc i + j) \<noteq> 0"
        "l < n \<longrightarrow> t (Suc i + l) = 0"
      by blast
    have "safestrcpy_copy ?s t (Suc i) n i = t i" by (simp add: safestrcpy_copy_below)
    with l False show ?thesis
      by (intro exI [of _ "Suc l"]) (auto simp: Let_def less_Suc_eq_0_disj)
  qed
qed simp

end
