(* ===== verification/Memlayout.thy ===== *)
theory Memlayout
  imports Xv6_Prelude
begin

text \<open>
  The address arithmetic of \<^verbatim>\<open>kernel/riscv.h\<close> (pages, page table entries, page table
  indices) and the layout constants of \<^verbatim>\<open>kernel/memlayout.h\<close>, with the facts about pages
  that the allocator and the page table code rely on: rounding, disjointness of distinct
  pages, the entry/address conversions being inverse on page addresses, and the
  decomposition of a virtual address into its three indices.
\<close>

section \<open>Definitions of riscv.h and memlayout.h\<close>

definition PGSIZE :: u64 where [simp]: "PGSIZE = 4096"

definition PGROUNDUP :: "u64 \<Rightarrow> u64" where
  "PGROUNDUP sz = (sz + PGSIZE - 1) AND NOT (PGSIZE - 1)"

definition PGROUNDDOWN :: "u64 \<Rightarrow> u64" where
  "PGROUNDDOWN a = a AND NOT (PGSIZE - 1)"

definition PTE_V :: u64 where "PTE_V = push_bit 0 1"
definition PTE_R :: u64 where "PTE_R = push_bit 1 1"
definition PTE_W :: u64 where "PTE_W = push_bit 2 1"
definition PTE_X :: u64 where "PTE_X = push_bit 3 1"
definition PTE_U :: u64 where "PTE_U = push_bit 4 1"

definition PA2PTE :: "u64 \<Rightarrow> u64" where
  "PA2PTE pa = push_bit 10 (drop_bit 12 pa)"

definition PTE2PA :: "u64 \<Rightarrow> u64" where
  "PTE2PA pte = push_bit 12 (drop_bit 10 pte)"

definition PTE_FLAGS :: "u64 \<Rightarrow> u64" where
  "PTE_FLAGS pte = pte AND 0x3FF"

definition PXSHIFT :: "nat \<Rightarrow> nat" where
  "PXSHIFT level = 12 + 9 * level"

definition PX :: "nat \<Rightarrow> u64 \<Rightarrow> u64" where
  "PX level va = drop_bit (PXSHIFT level) va AND 0x1FF"

definition MAXVA :: u64 where
  "MAXVA = push_bit (9 + 9 + 9 + 12 - 1) 1"

definition KERNBASE :: u64 where [simp]: "KERNBASE = 0x80000000"
definition PHYSTOP :: u64 where [simp]: "PHYSTOP = KERNBASE + 128 * 1024 * 1024"
definition TRAMPOLINE :: u64 where "TRAMPOLINE = MAXVA - PGSIZE"
definition TRAPFRAME :: u64 where "TRAPFRAME = TRAMPOLINE - PGSIZE"
definition KSTACK :: "u64 \<Rightarrow> u64" where "KSTACK p = TRAMPOLINE - (p + 1) * 2 * PGSIZE"
definition UART0 :: u64 where "UART0 = 0x10000000"
definition VIRTIO0 :: u64 where "VIRTIO0 = 0x10001000"
definition PLIC :: u64 where "PLIC = 0x0c000000"

lemmas pte_bit_defs = PTE_V_def PTE_R_def PTE_W_def PTE_X_def PTE_U_def

lemma MAXVA_eq: "MAXVA = 0x4000000000"
  by (simp add: MAXVA_def push_bit_eq_mult)

section \<open>Pages\<close>

lemma unat_PGROUNDDOWN: "unat (PGROUNDDOWN a) = unat a div 4096 * 4096"
proof -
  have "PGROUNDDOWN a = push_bit 12 (drop_bit 12 a)"
    by (rule bit_word_eqI)
      (auto simp: PGROUNDDOWN_def bit_and_iff bit_not_iff bit_push_bit_iff bit_drop_bit_eq
        mask_eq_exp_minus_1 [of 12, where 'a = u64, simplified, symmetric] bit_mask_iff)
  moreover have "take_bit 64 (unat a) = unat a"
    by (rule take_bit_nat_eq_self) (simp add: unat_u64_less)
  ultimately have "unat (PGROUNDDOWN a) = take_bit 64 (unat a div 4096 * 4096)"
    by (simp only: unsigned_push_bit_eq unsigned_drop_bit_eq)
      (simp add: push_bit_eq_mult drop_bit_eq_div)
  moreover have "unat a div 4096 * 4096 < 2 ^ 64"
    using unat_u64_less [of a] div_times_less_eq_dividend [of "unat a" 4096] by simp
  ultimately show ?thesis by (simp add: take_bit_nat_eq_self)
qed

text \<open>Page aligned addresses.\<close>

definition aligned :: "u64 \<Rightarrow> bool" where
  "aligned p \<longleftrightarrow> p mod PGSIZE = 0"

lemma aligned_iff: "aligned p \<longleftrightarrow> unat p mod 4096 = 0"
  by (simp add: aligned_def word_unat_eq_iff unat_mod)

lemma PGROUNDDOWN_aligned: "aligned (PGROUNDDOWN a)"
  by (simp add: aligned_iff unat_PGROUNDDOWN)

lemma PGROUNDDOWN_idem [simp]: "aligned p \<Longrightarrow> PGROUNDDOWN p = p"
  by (rule word_unat_eq_iff [THEN iffD2]) (auto simp: aligned_iff unat_PGROUNDDOWN)

lemma PGROUNDDOWN_le: "PGROUNDDOWN a \<le> a"
  by (simp add: word_le_nat_alt unat_PGROUNDDOWN)

lemma PGROUNDDOWN_offset: "unat (a - PGROUNDDOWN a) = unat a mod 4096"
  using PGROUNDDOWN_le [of a] by (simp add: unat_sub unat_PGROUNDDOWN minus_div_mult_eq_mod)

lemma aligned_le: "aligned p \<Longrightarrow> unat p \<le> 2 ^ 64 - 4096" for p :: u64
  using unat_u64_less [of p] by (auto simp: aligned_iff)

text \<open>The bytes of a page are those whose address rounds down to it.\<close>

lemma in_page_iff: "aligned p \<Longrightarrow> unat (x - p) < 4096 \<longleftrightarrow> PGROUNDDOWN x = p" for p :: u64
proof
  assume p: "aligned p" and x: "unat (x - p) < 4096"
  have "unat x = unat (p + (x - p))" by simp
  also have "\<dots> = unat p + unat (x - p)"
    using aligned_le [OF p] x by (intro unat_plus_no_wrap) simp
  finally have "unat x = unat p + unat (x - p)" .
  with p x show "PGROUNDDOWN x = p"
    by (intro word_unat_eq_iff [THEN iffD2]) (auto simp: aligned_iff unat_PGROUNDDOWN)
next
  assume "PGROUNDDOWN x = p"
  then show "unat (x - p) < 4096" using PGROUNDDOWN_offset [of x] by simp
qed

lemma pages_disjoint:
  "aligned p \<Longrightarrow> aligned q \<Longrightarrow> unat (x - p) < 4096 \<Longrightarrow> unat (x - q) < 4096 \<Longrightarrow> p = q"
  for p q :: u64
  by (simp add: in_page_iff)

lemma unat_PGROUNDUP:
  assumes "unat a \<le> 2 ^ 64 - 4096"
  shows "unat (PGROUNDUP a) = (unat a + 4095) div 4096 * 4096"
proof -
  have "PGROUNDUP a = PGROUNDDOWN (a + 4095)"
    by (simp add: PGROUNDUP_def PGROUNDDOWN_def add.commute)
  moreover have "unat (a + 4095) = unat a + 4095"
    using assms by (subst unat_plus_no_wrap) simp_all
  ultimately show ?thesis by (simp add: unat_PGROUNDDOWN)
qed

lemma PGROUNDUP_aligned: "aligned (PGROUNDUP a)"
  using PGROUNDDOWN_aligned [of "a + 4095"] by (simp add: PGROUNDUP_def PGROUNDDOWN_def add.commute)

section \<open>Page table entries and indices\<close>

lemma flags_mask: "(0x3FF :: u64) = mask 10" and index_mask: "(0x1FF :: u64) = mask 9"
  by (simp_all add: mask_eq_exp_minus_1)

lemma aligned_bit: "aligned p \<Longrightarrow> n < 12 \<Longrightarrow> \<not> bit p n" for p :: u64
proof -
  assume "aligned p" "n < 12"
  then have "take_bit 12 p = 0" by (simp add: aligned_def take_bit_eq_mod)
  then have "\<not> bit (take_bit 12 p) n" by simp
  with \<open>n < 12\<close> show ?thesis by (simp add: bit_take_bit_iff)
qed

lemma less_pow_bit: "a < 2 ^ k \<Longrightarrow> k \<le> n \<Longrightarrow> \<not> bit a n" for a :: u64
proof
  assume "a < 2 ^ k" "k \<le> n" "bit a n"
  then have n: "n < 64" and "k < 64" using bit_imp_le_length [of a n] by auto
  then have "unat (2 ^ k :: u64) = 2 ^ k"
    by (metis One_nat_def unat_of_nat_u64 of_nat_power of_nat_numeral power_strict_increasing
        lessI numeral_2_eq_2)
  with \<open>a < 2 ^ k\<close> have "unat a < 2 ^ k" by (simp add: word_less_nat_alt)
  then have "take_bit k (unat a) = unat a" by (rule take_bit_nat_eq_self)
  moreover have "bit (unat a) n" using \<open>bit a n\<close> by (simp add: bit_unsigned_iff n)
  ultimately have "bit (take_bit k (unat a)) n" by simp
  with \<open>k \<le> n\<close> show False by (simp add: bit_take_bit_iff)
qed

lemma PTE2PA_PA2PTE:
  assumes "aligned pa" "pa < 2 ^ 56" "PTE_FLAGS flags = flags"
  shows "PTE2PA (PA2PTE pa OR flags) = pa"
proof (rule bit_word_eqI)
  fix n assume "n < LENGTH(64)"
  then have n: "n < 64" by simp
  have "\<not> bit flags k" if "10 \<le> k" for k
  proof -
    have "bit flags k = bit (flags AND mask 10) k"
      using assms(3) by (simp add: PTE_FLAGS_def flags_mask)
    with that show ?thesis by (simp add: bit_and_iff bit_mask_iff)
  qed
  moreover have "n < 12 \<Longrightarrow> \<not> bit pa n" using assms(1) by (rule aligned_bit)
  moreover have "56 \<le> n \<Longrightarrow> \<not> bit pa n" using assms(2) by (rule less_pow_bit)
  ultimately show "bit (PTE2PA (PA2PTE pa OR flags)) n = bit pa n"
    using n by (cases "n < 12") (auto simp: PTE2PA_def PA2PTE_def bit_or_iff bit_push_bit_iff bit_drop_bit_eq)
qed

lemma PTE_FLAGS_PA2PTE:
  assumes "PTE_FLAGS flags = flags"
  shows "PTE_FLAGS (PA2PTE pa OR flags) = flags"
proof -
  have "PA2PTE pa AND mask 10 = 0"
    by (rule bit_word_eqI) (auto simp: PA2PTE_def bit_and_iff bit_push_bit_iff bit_mask_iff)
  moreover have "(PA2PTE pa OR flags) AND mask 10 = (PA2PTE pa AND mask 10) OR (flags AND mask 10)"
    by (rule bit.conj_disj_distrib2)
  ultimately show ?thesis using assms by (simp add: PTE_FLAGS_def flags_mask)
qed

lemma PX_bound: "unat (PX level va) < 512"
proof -
  have "unat (PX level va) \<le> unat (0x1FF :: u64)"
    unfolding PX_def by (rule word_and_le1 [THEN word_le_nat_alt [THEN iffD1]])
  then show ?thesis by simp
qed

lemma bit_PX: "bit (PX level va) n \<longleftrightarrow> n < 9 \<and> bit va (12 + 9 * level + n)"
  by (auto simp: PX_def PXSHIFT_def index_mask bit_and_iff bit_drop_bit_eq bit_mask_iff)

text \<open>Two page addresses of 39 bits with the same three indices are equal.\<close>

lemma PX_inj:
  assumes "va < 2 ^ 39" "vb < 2 ^ 39" "aligned va" "aligned vb"
    and "PX 2 va = PX 2 vb" "PX 1 va = PX 1 vb" "PX 0 va = PX 0 vb"
  shows "va = vb"
proof (rule bit_word_eqI)
  fix n assume "n < LENGTH(64)"
  have *: "bit va (12 + 9 * l + k) = bit vb (12 + 9 * l + k)" if "PX l va = PX l vb" "k < 9" for l k
    using that bit_PX [of l va k] bit_PX [of l vb k] by simp
  note high = less_pow_bit [OF assms(1)] less_pow_bit [OF assms(2)]
  consider "n < 12" | "12 \<le> n" "n < 21" | "21 \<le> n" "n < 30" | "30 \<le> n" "n < 39" | "39 \<le> n"
    by linarith
  then show "bit va n = bit vb n"
  proof cases
    case 1 then show ?thesis using assms by (simp add: aligned_bit)
  next
    case 2 then show ?thesis using * [of 0 "n - 12"] assms by simp
  next
    case 3 then show ?thesis using * [of 1 "n - 21"] assms by simp
  next
    case 4 then show ?thesis using * [of 2 "n - 30"] assms by simp
  next
    case 5 then show ?thesis using high by simp
  qed
qed

end
