(* ===== verification/Kalloc.thy ===== *)
theory Kalloc
  imports Memlayout Kstring
begin

text \<open>
  \<^verbatim>\<open>kernel/kalloc.c\<close>: the physical page allocator. Its state is physical memory together
  with the head of the free list; the links of the list are stored in the free pages
  themselves. Every operation runs inside \<^verbatim>\<open>kmem.lock\<close>, so it is one atomic step. The
  address \<^verbatim>\<open>end\<close>, which the linker script defines, is the field \<open>kend\<close> that no operation
  writes.

  The section on the invariant relates the in-memory list to a HOL list of pages; the locale
  \<open>resource_pool\<close> is the contract of an allocator, interpreted here for pages and by other
  components for their own resources.
\<close>

section \<open>The allocator\<close>

record kmem =
  phys :: memory
  freelist :: u64
  kend :: u64

definition kfree :: "u64 \<Rightarrow> 'a kmem_scheme \<Rightarrow> 'a kmem_scheme outcome" where
  "kfree pa s =
     (if pa mod PGSIZE \<noteq> 0 \<or> pa < kend s \<or> pa \<ge> PHYSTOP then Panic ''kfree''
      else let m = memset (phys s) pa 1 (ucast PGSIZE);
               m = store64 m pa (freelist s)
           in Ok (s\<lparr>phys := m, freelist := pa\<rparr>))"

definition kalloc :: "'a kmem_scheme \<Rightarrow> u64 \<times> 'a kmem_scheme" where
  "kalloc s =
     (let r = freelist s;
          s = (if r \<noteq> 0 then s\<lparr>freelist := load64 (phys s) r\<rparr> else s);
          s = (if r \<noteq> 0 then s\<lparr>phys := memset (phys s) r 5 (ucast PGSIZE)\<rparr> else s)
      in (r, s))"

lemma kfree_Ok_less: "kfree pa s = Ok s' \<Longrightarrow> pa < PHYSTOP"
  by (auto simp: kfree_def split: if_splits)

function freerange_from :: "u64 \<Rightarrow> u64 \<Rightarrow> 'a kmem_scheme \<Rightarrow> 'a kmem_scheme outcome" where
  "freerange_from p pa_end s =
     (if p + PGSIZE \<le> pa_end
      then bind_ok (kfree p s) (\<lambda>s. freerange_from (p + PGSIZE) pa_end s)
      else Ok s)"
  by pat_completeness auto
termination
proof (relation "measure (\<lambda>(p, e, s). 2 ^ 64 - unat p)", goal_cases)
  case (2 p pa_end s s')
  then have "unat p < unat PHYSTOP" by (auto dest: kfree_Ok_less simp: word_less_nat_alt)
  then have "unat (p + PGSIZE) = unat p + 4096" by (subst unat_plus_no_wrap) simp_all
  with \<open>unat p < unat PHYSTOP\<close> show ?case by simp
qed simp

declare freerange_from.simps [simp del]

definition freerange :: "u64 \<Rightarrow> u64 \<Rightarrow> 'a kmem_scheme \<Rightarrow> 'a kmem_scheme outcome" where
  "freerange pa_start pa_end s = freerange_from (PGROUNDUP pa_start) pa_end s"

definition kinit :: "'a kmem_scheme \<Rightarrow> 'a kmem_scheme outcome" where
  "kinit s = freerange (kend s) PHYSTOP s"

partial_function (option) availmemory_from :: "memory \<Rightarrow> u64 \<Rightarrow> u64 \<Rightarrow> u64 option" where
  "availmemory_from m r availmem =
     (if r \<noteq> 0 then availmemory_from m (load64 m r) (availmem + PGSIZE) else Some availmem)"

definition availmemory :: "'a kmem_scheme \<Rightarrow> u64 option" where
  "availmemory s = availmemory_from (phys s) (freelist s) 0"

section \<open>The contract of an allocator\<close>

text \<open>
  \<open>alloc\<close> hands out a free resource and returns \<open>None\<close> exactly when there is none; \<open>free\<close>
  gives back one that is not free; \<open>invar s F\<close> says that in state \<open>s\<close> the free resources are
  the set \<open>F\<close>, out of the resources \<open>valid s\<close> the pool manages.
\<close>

locale resource_pool =
  fixes alloc :: "'s \<Rightarrow> ('r \<times> 's) option"
    and free :: "'r \<Rightarrow> 's \<Rightarrow> 's outcome"
    and invar :: "'s \<Rightarrow> 'r set \<Rightarrow> bool"
    and valid :: "'s \<Rightarrow> 'r \<Rightarrow> bool"
  assumes alloc_some: "invar s F \<Longrightarrow> alloc s = Some (r, s') \<Longrightarrow> r \<in> F \<and> invar s' (F - {r})"
    and alloc_none: "invar s F \<Longrightarrow> alloc s = None \<Longrightarrow> F = {}"
    and alloc_valid: "alloc s = Some (r, s') \<Longrightarrow> valid s' = valid s"
    and free_ok: "invar s F \<Longrightarrow> valid s r \<Longrightarrow> r \<notin> F \<Longrightarrow>
      \<exists>s'. free r s = Ok s' \<and> invar s' (insert r F) \<and> valid s' = valid s"
    and free_invalid: "\<not> valid s r \<Longrightarrow> \<not> is_ok (free r s)"
begin

text \<open>A list of allocations, oldest first, as a client that keeps what it gets performs it.\<close>

inductive allocs :: "'s \<Rightarrow> 'r list \<Rightarrow> 's \<Rightarrow> bool" where
  none: "allocs s [] s"
| more: "alloc s = Some (r, s') \<Longrightarrow> allocs s' rs s'' \<Longrightarrow> allocs s (r # rs) s''"

lemma allocs_distinct:
  "allocs s rs s' \<Longrightarrow> invar s F \<Longrightarrow> distinct rs \<and> set rs \<subseteq> F \<and> invar s' (F - set rs)"
proof (induction arbitrary: F rule: allocs.induct)
  case (none s)
  then show ?case by simp
next
  case (more s r s' rs s'')
  then have r: "r \<in> F" and "invar s' (F - {r})" using alloc_some by blast+
  then have "distinct rs \<and> set rs \<subseteq> F - {r} \<and> invar s'' (F - {r} - set rs)"
    using more.IH by blast
  moreover have "F - {r} - set rs = F - set (r # rs)" by auto
  ultimately show ?case using r by auto
qed

lemma alloc_succeeds: "invar s F \<Longrightarrow> F \<noteq> {} \<Longrightarrow> \<exists>r s'. alloc s = Some (r, s')"
  using alloc_none by (cases "alloc s") auto

lemma alloc_then_free:
  assumes "invar s F" "alloc s = Some (r, s')" "valid s r"
  shows "\<exists>s''. free r s' = Ok s'' \<and> invar s'' F"
proof -
  from assms alloc_some have "r \<in> F" "invar s' (F - {r})" by blast+
  moreover have "valid s' r" using assms alloc_valid by auto
  ultimately show ?thesis
    using free_ok [of s' "F - {r}" r] by (auto simp: insert_absorb)
qed

end

section \<open>Frame facts about pages\<close>

lemma PGROUNDDOWN_in_page:
  assumes "aligned p" "k < 4096"
  shows "PGROUNDDOWN (p + of_nat k) = p"
proof -
  have "unat (p + of_nat k - p) < 4096" using assms(2) by (simp add: unat_of_nat)
  with assms(1) show ?thesis using in_page_iff [of p "p + of_nat k"] by simp
qed

lemma memset_page_apply:
  assumes "aligned p"
  shows "memset m p c (ucast PGSIZE) x = (if PGROUNDDOWN x = p then ucast c else m x)"
proof -
  have "unat (ucast PGSIZE :: u32) = 4096" by simp
  then show ?thesis using in_page_iff [OF assms, of x] by (simp only: memset_apply)
qed

lemma store64_page_frame:
  assumes "aligned p" "k + 8 \<le> 4096" "PGROUNDDOWN x \<noteq> p"
  shows "store64 m (p + of_nat k) v x = m x"
proof (rule store64_outside, rule ccontr)
  assume "\<not> 8 \<le> unat (x - (p + of_nat k))"
  then obtain j where j: "j < 8" "unat (x - (p + of_nat k)) = j" by auto
  then have "x = p + of_nat k + of_nat j"
    using addr_eq_iff [of j x "p + of_nat k"] by simp
  then have "x = p + of_nat (k + j)" by (simp add: add.assoc)
  with j assms have "PGROUNDDOWN x = p" by (simp only: PGROUNDDOWN_in_page)
  with assms(3) show False by simp
qed

lemma load64_page_cong:
  assumes "aligned p" "k + 8 \<le> 4096" "\<And>x. PGROUNDDOWN x = p \<Longrightarrow> m' x = m x"
  shows "load64 m' (p + of_nat k) = load64 m (p + of_nat k)"
proof (rule load64_cong)
  fix i :: nat assume "i < 8"
  have "p + of_nat k + of_nat i = p + of_nat (k + i)" by (simp add: add.assoc)
  with \<open>i < 8\<close> assms show "m' (p + of_nat k + of_nat i) = m (p + of_nat k + of_nat i)"
    by (simp only: assms(3) PGROUNDDOWN_in_page)
qed

section \<open>The free list\<close>

fun free_chain :: "memory \<Rightarrow> u64 \<Rightarrow> u64 list \<Rightarrow> bool" where
  "free_chain m p [] \<longleftrightarrow> p = 0"
| "free_chain m p (x # xs) \<longleftrightarrow> p = x \<and> x \<noteq> 0 \<and> free_chain m (load64 m x) xs"

definition page_ok :: "u64 \<Rightarrow> u64 \<Rightarrow> bool" where
  "page_ok e p \<longleftrightarrow> aligned p \<and> e \<le> p \<and> p < PHYSTOP"

definition kmem_inv :: "'a kmem_scheme \<Rightarrow> u64 list \<Rightarrow> bool" where
  "kmem_inv s xs \<longleftrightarrow>
     free_chain (phys s) (freelist s) xs \<and> distinct xs \<and> (\<forall>p\<in>set xs. page_ok (kend s) p) \<and> 0 < kend s"

lemma page_ok_aligned: "page_ok e p \<Longrightarrow> aligned p"
  by (simp add: page_ok_def)

lemma page_ok_nonzero: "0 < e \<Longrightarrow> page_ok e p \<Longrightarrow> p \<noteq> 0"
  by (auto simp: page_ok_def)

lemma free_chain_cong:
  assumes "\<And>y. PGROUNDDOWN y \<in> set xs \<Longrightarrow> m' y = m y"
    and "\<And>x. x \<in> set xs \<Longrightarrow> aligned x"
  shows "free_chain m' p xs = free_chain m p xs"
  using assms
proof (induction xs arbitrary: p)
  case (Cons x xs)
  have "load64 m' (x + of_nat 0) = load64 m (x + of_nat 0)"
    using Cons.prems by (intro load64_page_cong) auto
  moreover have "free_chain m' p xs = free_chain m p xs" for p
    using Cons.prems by (intro Cons.IH) auto
  ultimately show ?case by simp
qed simp

lemma free_chain_unique: "free_chain m p xs \<Longrightarrow> free_chain m p ys \<Longrightarrow> xs = ys"
proof (induction xs arbitrary: p ys)
  case Nil
  then show ?case by (cases ys) auto
next
  case (Cons x xs)
  then show ?case by (cases ys) auto
qed

lemma kmem_inv_pages: "kmem_inv s xs \<Longrightarrow> x \<in> set xs \<Longrightarrow> page_ok (kend s) x"
  by (simp add: kmem_inv_def)

lemma kmem_inv_cong:
  assumes "kmem_inv s xs" "freelist s' = freelist s" "kend s' = kend s"
    and "\<And>y. PGROUNDDOWN y \<in> set xs \<Longrightarrow> phys s' y = phys s y"
  shows "kmem_inv s' xs"
proof -
  have "free_chain (phys s') (freelist s) xs = free_chain (phys s) (freelist s) xs"
    using assms by (intro free_chain_cong) (auto simp: kmem_inv_def page_ok_def)
  with assms(1-3) show ?thesis by (simp add: kmem_inv_def)
qed

text \<open>Allocation takes the head of the list; outside the page it returns, memory is unchanged.\<close>

lemma kalloc_Nil: "kmem_inv s [] \<Longrightarrow> kalloc s = (0, s)"
  by (simp add: kmem_inv_def kalloc_def)

lemma kalloc_fields:
  assumes "kalloc s = (r, s')"
  shows "r = freelist s" and "kend s' = kend s" and "kmem.more s' = kmem.more s"
    and "freelist s' = (if r = 0 then freelist s else load64 (phys s) r)"
    and "phys s' = (if r = 0 then phys s else memset (phys s) r 5 (ucast PGSIZE))"
  using assms by (auto simp: kalloc_def Let_def split: if_splits)

lemma kalloc_Cons:
  assumes "kmem_inv s (x # xs)"
  obtains s' where "kalloc s = (x, s')" and "kmem_inv s' xs" and "kend s' = kend s"
    and "kmem.more s' = kmem.more s"
    and "\<And>y. PGROUNDDOWN y \<noteq> x \<Longrightarrow> phys s' y = phys s y"
proof -
  from assms have x: "freelist s = x" "x \<noteq> 0" "aligned x" "x \<notin> set xs"
    by (auto simp: kmem_inv_def page_ok_def)
  obtain s' where k: "kalloc s = (x, s')" using x by (simp add: kalloc_def Let_def)
  note f = kalloc_fields [OF k]
  have mem: "phys s' y = (if PGROUNDDOWN y = x then 5 else phys s y)" for y
    using f(5) x memset_page_apply [of x "phys s" 5 y] by simp
  have "free_chain (phys s') (load64 (phys s) x) xs = free_chain (phys s) (load64 (phys s) x) xs"
    using assms x by (intro free_chain_cong) (auto simp: kmem_inv_def page_ok_def mem)
  with assms x f(2,4) have "kmem_inv s' xs" by (simp add: kmem_inv_def)
  then show thesis using that k f(2,3) mem by auto
qed

text \<open>Freeing pushes the page; outside it, memory is unchanged.\<close>

lemma kfree_ok:
  assumes "kmem_inv s xs" "page_ok (kend s) p" "p \<notin> set xs"
  obtains s' where "kfree p s = Ok s'" and "kmem_inv s' (p # xs)" and "kend s' = kend s"
    and "kmem.more s' = kmem.more s"
    and "\<And>y. PGROUNDDOWN y \<noteq> p \<Longrightarrow> phys s' y = phys s y"
proof -
  let ?m = "store64 (memset (phys s) p 1 (ucast PGSIZE)) p (freelist s)"
  let ?s = "s\<lparr>phys := ?m, freelist := p\<rparr>"
  from assms have p: "aligned p" "p \<noteq> 0"
    by (auto simp: page_ok_def kmem_inv_def dest: page_ok_nonzero)
  have k: "kfree p s = Ok ?s"
    using assms(2) by (auto simp: kfree_def page_ok_def aligned_def Let_def)
  have frame: "?m y = phys s y" if "PGROUNDDOWN y \<noteq> p" for y
    using store64_page_frame [of p 0 y] memset_page_apply [of p "phys s" 1 y] p that by simp
  have "free_chain ?m (freelist s) xs = free_chain (phys s) (freelist s) xs"
    using assms by (intro free_chain_cong frame) (auto simp: kmem_inv_def page_ok_def)
  then have "kmem_inv ?s (p # xs)"
    using assms p by (simp add: kmem_inv_def load64_store64_same)
  then show thesis using that k frame by simp
qed

lemma kfree_panics: "\<not> page_ok (kend s) p \<Longrightarrow> kfree p s = Panic ''kfree''"
  unfolding kfree_def page_ok_def aligned_def by (simp only: not_le not_less if_P de_Morgan_conj)

interpretation pages: resource_pool
  "\<lambda>s :: 'a kmem_scheme. case kalloc s of (r, s') \<Rightarrow> if r = 0 then None else Some (r, s')"
  kfree "\<lambda>s F. \<exists>xs. kmem_inv s xs \<and> set xs = F" "\<lambda>s. page_ok (kend s)"
proof (unfold_locales, goal_cases)
  case (1 s F r s')
  then obtain xs where inv: "kmem_inv s xs" "set xs = F" by blast
  then obtain y ys where xs: "xs = y # ys" using 1(2) by (cases xs) (auto simp: kalloc_Nil)
  from inv(1) [unfolded xs] obtain t where t: "kalloc s = (y, t)" "kmem_inv t ys"
    by (rule kalloc_Cons) blast
  with 1(2) have "r = y" "s' = t" by (auto split: if_splits)
  moreover have "distinct xs" using inv by (simp add: kmem_inv_def)
  ultimately show ?case using inv xs t by (auto intro!: exI [of _ ys])
next
  case (2 s F)
  then obtain xs where inv: "kmem_inv s xs" "set xs = F" by blast
  show ?case
  proof (cases xs)
    case (Cons y ys)
    with inv obtain t where "kalloc s = (y, t)" by (metis kalloc_Cons)
    moreover have "y \<noteq> 0" using inv Cons by (auto simp: kmem_inv_def)
    ultimately show ?thesis using 2 by simp
  qed (use inv in simp)
next
  case (3 s r s')
  then show ?case by (auto split: prod.splits if_splits dest: kalloc_fields)
next
  case (4 s F r)
  then obtain xs where inv: "kmem_inv s xs" "set xs = F" by blast
  with 4 have "r \<notin> set xs" by simp
  from inv(1) 4(2) this obtain t where "kfree r s = Ok t" "kmem_inv t (r # xs)" "kend t = kend s"
    by (rule kfree_ok)
  with inv show ?case by (metis list.simps(15))
next
  case (5 s r)
  then show ?case by (simp add: kfree_panics is_ok_def)
qed

section \<open>Boot and accounting\<close>

text \<open>The pages of a range, first page \<open>p\<close>.\<close>

definition page_range :: "u64 \<Rightarrow> nat \<Rightarrow> u64 list" where
  "page_range p n = map (\<lambda>i. p + of_nat (4096 * i)) [0..<n]"

lemma page_range_Suc: "page_range p (Suc n) = p # page_range (p + 4096) n"
proof -
  have "page_range p (Suc n) = map (\<lambda>i. p + of_nat (4096 * i)) (0 # map Suc [0..<n])"
    by (simp only: page_range_def upt_conv_Cons zero_less_Suc map_Suc_upt)
  then show ?thesis by (simp add: page_range_def algebra_simps)
qed

lemma page_range_0 [simp]: "page_range p 0 = []"
  by (simp add: page_range_def)

lemma unat_next_page:
  fixes p e :: u64
  assumes "unat p + 4096 \<le> unat e"
  shows "unat (p + 4096) = unat p + 4096"
  using assms unat_u64_less [of e] by (subst unat_plus_no_wrap) simp_all

lemma freerange_from_ok:
  assumes "kmem_inv s xs" "aligned p" "kend s \<le> p" "unat e \<le> unat PHYSTOP"
    and "unat p + 4096 * n \<le> unat e" "unat e < unat p + 4096 * Suc n" "\<forall>x\<in>set xs. x < p"
  shows "\<exists>s'. freerange_from p e s = Ok s' \<and> kmem_inv s' (rev (page_range p n) @ xs) \<and>
    kend s' = kend s \<and> kmem.more s' = kmem.more s"
  using assms
proof (induction n arbitrary: p s xs)
  case 0
  have "unat (p + 4096) = unat p + 4096"
    using 0 by (subst unat_plus_no_wrap) simp_all
  with 0 show ?case
    by (simp add: freerange_from.simps [of p e s] word_le_nat_alt)
next
  case (Suc n)
  have next_p: "unat (p + 4096) = unat p + 4096"
    using Suc.prems by (intro unat_next_page [of p e]) simp
  have "p < PHYSTOP" using Suc.prems by (simp add: word_less_nat_alt)
  with Suc.prems have "page_ok (kend s) p" "p \<notin> set xs" by (auto simp: page_ok_def)
  with Suc.prems(1) obtain t where t: "kfree p s = Ok t" "kmem_inv t (p # xs)" "kend t = kend s"
      "kmem.more t = kmem.more s"
    by (rule kfree_ok)
  have "\<exists>s'. freerange_from (p + 4096) e t = Ok s' \<and>
      kmem_inv s' (rev (page_range (p + 4096) n) @ (p # xs)) \<and>
      kend s' = kend t \<and> kmem.more s' = kmem.more t"
  proof (rule Suc.IH)
    show "aligned (p + 4096)" using Suc.prems(2) next_p by (simp add: aligned_iff)
    show "kend t \<le> p + 4096" "\<forall>x\<in>set (p # xs). x < p + 4096"
      using Suc.prems next_p t by (auto simp: word_le_nat_alt word_less_nat_alt)
  qed (use Suc.prems t next_p in simp_all)
  moreover have "p + 4096 \<le> e" using Suc.prems next_p by (simp add: word_le_nat_alt)
  ultimately show ?case
    using t by (simp add: freerange_from.simps [of p e s] page_range_Suc)
qed

lemma availmemory_from_chain:
  "free_chain m p xs \<Longrightarrow> availmemory_from m p acc = Some (acc + of_nat (4096 * length xs))"
proof (induction xs arbitrary: p acc)
  case Nil
  then show ?case by (simp add: availmemory_from.simps [of m 0])
next
  case (Cons x xs)
  then have p: "p = x" "x \<noteq> 0" and "free_chain m (load64 m x) xs" by simp_all
  from this(3) have "availmemory_from m (load64 m x) (acc + 4096) =
      Some (acc + 4096 + of_nat (4096 * length xs))"
    by (rule Cons.IH)
  with p show ?case by (simp add: availmemory_from.simps [of m x] algebra_simps)
qed

lemma kinit_ok:
  assumes "freelist s = 0" "0 < kend s" "kend s \<le> PHYSTOP"
  shows "\<exists>s'. kinit s = Ok s' \<and>
    kmem_inv s' (rev (page_range (PGROUNDUP (kend s)) ((unat PHYSTOP - unat (PGROUNDUP (kend s))) div 4096)))"
proof -
  let ?p = "PGROUNDUP (kend s)"
  have le: "unat (kend s) \<le> unat PHYSTOP" using assms by (simp add: word_le_nat_alt)
  then have p: "unat ?p = (unat (kend s) + 4095) div 4096 * 4096"
    by (intro unat_PGROUNDUP) simp
  have "kmem_inv s []" using assms by (simp add: kmem_inv_def)
  moreover have "kend s \<le> ?p" using p by (simp add: word_le_nat_alt)
  moreover have "unat ?p \<le> unat PHYSTOP" using p le by simp
  moreover define n where "n = (unat PHYSTOP - unat ?p) div 4096"
  moreover have "4096 * n \<le> unat PHYSTOP - unat ?p" "unat PHYSTOP - unat ?p < 4096 * n + 4096"
    unfolding n_def by linarith+
  ultimately have "\<exists>s'. freerange_from ?p PHYSTOP s = Ok s' \<and>
      kmem_inv s' (rev (page_range ?p n) @ []) \<and>
      kend s' = kend s \<and> kmem.more s' = kmem.more s"
    by (intro freerange_from_ok PGROUNDUP_aligned) auto
  then show ?thesis by (auto simp: kinit_def freerange_def n_def)
qed

text \<open>
  C6: \<^verbatim>\<open>kinit\<close> ends, and leaves on the free list exactly the whole pages between the end of
  the kernel and \<^verbatim>\<open>PHYSTOP\<close>, each once.
\<close>

theorem kinit_pages:
  assumes "freelist s = 0" "0 < kend s" "kend s \<le> PHYSTOP"
  shows "\<exists>s'. kinit s = Ok s' \<and>
    kmem_inv s' (rev (page_range (PGROUNDUP (kend s)) ((unat PHYSTOP - unat (PGROUNDUP (kend s))) div 4096)))"
  using assms by (rule kinit_ok)

theorem kinit_pages_witness:
  "\<exists>s'. kinit \<lparr>phys = (\<lambda>_. 0), freelist = 0, kend = 0x87FFE001\<rparr> = Ok s' \<and>
    kmem_inv s' [0x87FFF000]"
proof -
  have "PGROUNDUP 0x87FFE001 = 0x87FFF000" by (simp add: PGROUNDUP_def)
  moreover have "page_range 0x87FFF000 1 = [0x87FFF000]" by (simp add: page_range_def)
  ultimately show ?thesis
    using kinit_pages [of "\<lparr>phys = (\<lambda>_. 0), freelist = 0, kend = 0x87FFE001\<rparr>"] by simp
qed

text \<open>
  C9: \<^verbatim>\<open>availmemory\<close>, the system call \<^verbatim>\<open>sysinfo\<close>'s count of free memory, returns, and its
  result is the page size times the number of free pages.
\<close>

theorem availmemory_exact:
  assumes "kmem_inv s xs"
  shows "availmemory s = Some (of_nat (4096 * length xs))"
  using assms availmemory_from_chain [of "phys s" "freelist s" xs 0]
  by (simp add: availmemory_def kmem_inv_def)

text \<open>A client that calls \<^verbatim>\<open>kalloc\<close> until it has \<open>n\<close> pages or memory runs out.\<close>

fun kalloc_times :: "nat \<Rightarrow> 'a kmem_scheme \<Rightarrow> u64 list \<times> 'a kmem_scheme" where
  "kalloc_times 0 s = ([], s)"
| "kalloc_times (Suc n) s =
     (case kalloc s of (r, s) \<Rightarrow>
        if r = 0 then ([], s) else (case kalloc_times n s of (rs, s) \<Rightarrow> (r # rs, s)))"

lemma kalloc_times_allocs: "kalloc_times n s = (rs, s') \<Longrightarrow> pages.allocs s rs s'"
proof (induction n arbitrary: s rs)
  case 0
  then show ?case by (auto intro: pages.allocs.none)
next
  case (Suc n)
  have "kalloc s = (0, s)" if "fst (kalloc s) = 0"
    using that by (auto simp: kalloc_def Let_def)
  with Suc show ?case
    by (fastforce split: prod.splits if_splits intro: pages.allocs.intros)
qed

lemma kalloc_times_length:
  "kmem_inv s xs \<Longrightarrow> kalloc_times n s = (rs, s') \<Longrightarrow> length rs = min n (length xs)"
proof (induction n arbitrary: s rs xs)
  case (Suc n)
  show ?case
  proof (cases xs)
    case Nil
    with Suc.prems show ?thesis by (simp add: kalloc_Nil)
  next
    case (Cons y ys)
    with Suc.prems(1) obtain t where "kalloc s = (y, t)" "kmem_inv t ys" by (metis kalloc_Cons)
    moreover have "y \<noteq> 0" using Suc.prems(1) Cons by (simp add: kmem_inv_def)
    ultimately show ?thesis
      using Suc.prems Cons Suc.IH by (auto split: prod.splits)
  qed
qed simp

text \<open>
  C7: as long as nothing is freed, no page is handed out twice: the pages that a run of
  \<^verbatim>\<open>kalloc\<close> calls returns are distinct pages of the free list, as many as were asked for if
  there are so many, and the rest stays free.
\<close>

theorem kalloc_no_page_twice:
  assumes "kmem_inv s xs" "kalloc_times n s = (rs, s')"
  shows "distinct rs \<and> set rs \<subseteq> set xs \<and> length rs = min n (length xs) \<and>
    (\<exists>ys. kmem_inv s' ys \<and> set ys = set xs - set rs)"
  using pages.allocs_distinct [OF kalloc_times_allocs [OF assms(2)], of "set xs"]
    kalloc_times_length [OF assms] assms(1) by blast

text \<open>A free list of two pages, for the witnesses.\<close>

definition two_pages :: kmem where
  "two_pages =
     \<lparr>phys = store64 (\<lambda>_. 0) 0x80001000 0x80002000, freelist = 0x80001000, kend = 0x80000001\<rparr>"

lemma two_pages_inv: "kmem_inv two_pages [0x80001000, 0x80002000]"
proof -
  have "load64 (phys two_pages) 0x80001000 = 0x80002000"
    by (simp add: two_pages_def load64_store64_same)
  moreover have "load64 (phys two_pages) (0x80002000 + of_nat 0) =
      load64 (\<lambda>_. 0) (0x80002000 + of_nat 0)"
  proof (rule load64_page_cong)
    fix x :: u64 assume "PGROUNDDOWN x = 0x80002000"
    then show "phys two_pages x = 0"
      using store64_page_frame [of "0x80001000" 0 x] by (simp add: two_pages_def aligned_def)
  qed (simp_all add: aligned_def)
  then have "load64 (phys two_pages) 0x80002000 = 0" by (simp add: load64_0)
  ultimately show ?thesis
    by (simp add: kmem_inv_def page_ok_def aligned_def) (simp add: two_pages_def)
qed

theorem availmemory_exact_witness:
  "kmem_inv two_pages [0x80001000, 0x80002000] \<and> availmemory two_pages = Some 8192"
  using two_pages_inv availmemory_exact [OF two_pages_inv] by simp

theorem kalloc_no_page_twice_witness:
  "\<exists>rs s'. kalloc_times 3 two_pages = (rs, s') \<and> distinct rs \<and> length rs = 2 \<and>
     set rs \<subseteq> {0x80001000, 0x80002000}"
proof -
  obtain rs s' where k: "kalloc_times 3 two_pages = (rs, s')" by fastforce
  from kalloc_no_page_twice [OF two_pages_inv k] k show ?thesis by auto
qed

text \<open>
  C8: \<^verbatim>\<open>kfree\<close> refuses (panics on) an address that is not an aligned page between the kernel
  and \<^verbatim>\<open>PHYSTOP\<close>; a page that is not free it puts at the head of the list, and it writes no
  byte outside that page.
\<close>

theorem kfree_spec:
  assumes "kmem_inv s xs" "p \<notin> set xs"
  shows "if page_ok (kend s) p
    then \<exists>s'. kfree p s = Ok s' \<and> kmem_inv s' (p # xs) \<and>
      (\<forall>y. PGROUNDDOWN y \<noteq> p \<longrightarrow> phys s' y = phys s y)
    else kfree p s = Panic ''kfree''"
proof (cases "page_ok (kend s) p")
  case True
  from assms(1) True assms(2) show ?thesis by (rule kfree_ok) (use True in auto)
next
  case False
  then show ?thesis by (simp add: kfree_panics)
qed

theorem kfree_spec_witness:
  "\<exists>s'. kfree 0x80003000 two_pages = Ok s' \<and>
     kmem_inv s' [0x80003000, 0x80001000, 0x80002000]"
proof -
  have "page_ok (kend two_pages) 0x80003000"
    by (simp add: two_pages_def page_ok_def aligned_def)
  with kfree_spec [OF two_pages_inv, of "0x80003000"] show ?thesis by auto
qed

end
