(* ===== verification/Vm.thy ===== *)
theory Vm
  imports Kalloc
begin

text \<open>
  \<^verbatim>\<open>kernel/vm.c\<close>: page tables and the transfer of data between kernel and user space. A
  page table is what the code makes of it, a tree of pages in physical memory whose entries
  are read and written with the eight byte accesses of the prelude; the operations take the
  address of the root and the allocator's state. Return values are those of the C functions
  (0 for a null pointer, \<open>-1\<close> for an error).

  A buffer inside the kernel appears as the list of its bytes: \<^verbatim>\<open>copyout\<close> takes the bytes
  to copy, \<^verbatim>\<open>copyin\<close> and \<^verbatim>\<open>copyinstr\<close> return those they stored before they stopped, also when
  they fail.
\<close>

section \<open>Walking and changing a page table\<close>

text \<open>The loop of \<^verbatim>\<open>walk\<close> from \<open>level\<close> down, \<open>pagetable\<close> being the table of that level.\<close>

fun walk_level :: "nat \<Rightarrow> u64 \<Rightarrow> u64 \<Rightarrow> bool \<Rightarrow> 'a kmem_scheme \<Rightarrow> u64 \<times> 'a kmem_scheme" where
  "walk_level 0 pagetable va alloc s = (pagetable + 8 * PX 0 va, s)"
| "walk_level (Suc level) pagetable va alloc s =
     (let pte = pagetable + 8 * PX (Suc level) va
      in if load64 (phys s) pte AND PTE_V \<noteq> 0
         then walk_level level (PTE2PA (load64 (phys s) pte)) va alloc s
         else if \<not> alloc then (0, s)
         else (case kalloc s of (pagetable, s) \<Rightarrow>
           if pagetable = 0 then (0, s)
           else let m = memset (phys s) pagetable 0 (ucast PGSIZE);
                    m = store64 m pte (PA2PTE pagetable OR PTE_V)
                in walk_level level pagetable va alloc (s\<lparr>phys := m\<rparr>)))"

definition walk :: "u64 \<Rightarrow> u64 \<Rightarrow> bool \<Rightarrow> 'a kmem_scheme \<Rightarrow> (u64 \<times> 'a kmem_scheme) outcome" where
  "walk pagetable va alloc s =
     (if va \<ge> MAXVA then Panic ''walk'' else Ok (walk_level 2 pagetable va alloc s))"

definition walkaddr :: "u64 \<Rightarrow> u64 \<Rightarrow> 'a kmem_scheme \<Rightarrow> u64 outcome" where
  "walkaddr pagetable va s =
     (if va \<ge> MAXVA then Ok 0
      else bind_ok (walk pagetable va False s) (\<lambda>(pte, s).
        if pte = 0 then Ok 0
        else if load64 (phys s) pte AND PTE_V = 0 then Ok 0
        else if load64 (phys s) pte AND PTE_U = 0 then Ok 0
        else Ok (PTE2PA (load64 (phys s) pte))))"

lemma walk_Ok_less: "walk pagetable va alloc s = Ok x \<Longrightarrow> va < MAXVA"
  by (auto simp: walk_def split: if_splits)

lemma below_MAXVA_next: "va < MAXVA \<Longrightarrow> unat (va + PGSIZE) = unat va + 4096"
  by (subst unat_plus_no_wrap) (simp_all add: MAXVA_eq word_less_nat_alt)

function mappages_from ::
  "u64 \<Rightarrow> u64 \<Rightarrow> u64 \<Rightarrow> u64 \<Rightarrow> u64 \<Rightarrow> 'a kmem_scheme \<Rightarrow> (int \<times> 'a kmem_scheme) outcome" where
  "mappages_from pagetable a a_last pa perm s =
     bind_ok (walk pagetable a True s) (\<lambda>(pte, s).
       if pte = 0 then Ok (-1, s)
       else if load64 (phys s) pte AND PTE_V \<noteq> 0 then Panic ''mappages: remap''
       else let s = s\<lparr>phys := store64 (phys s) pte (PA2PTE pa OR perm OR PTE_V)\<rparr>
            in if a = a_last then Ok (0, s)
               else mappages_from pagetable (a + PGSIZE) a_last (pa + PGSIZE) perm s)"
  by pat_completeness auto
termination
proof (relation "measure (\<lambda>(pt, a, a_last, pa, perm, s). 2 ^ 64 - unat a)", goal_cases)
  case (2 pt a a_last pa perm s)
  then have "a < MAXVA" by (auto dest: walk_Ok_less)
  then show ?case using below_MAXVA_next [of a] unat_u64_less [of a] by simp
qed simp

declare mappages_from.simps [simp del]

definition mappages ::
  "u64 \<Rightarrow> u64 \<Rightarrow> u64 \<Rightarrow> u64 \<Rightarrow> u64 \<Rightarrow> 'a kmem_scheme \<Rightarrow> (int \<times> 'a kmem_scheme) outcome" where
  "mappages pagetable va sz pa perm s =
     (if sz = 0 then Panic ''mappages: size''
      else mappages_from pagetable (PGROUNDDOWN va) (PGROUNDDOWN (va + sz - 1)) pa perm s)"

function uvmunmap_from ::
  "u64 \<Rightarrow> u64 \<Rightarrow> u64 \<Rightarrow> bool \<Rightarrow> 'a kmem_scheme \<Rightarrow> 'a kmem_scheme outcome" where
  "uvmunmap_from pagetable a a_end do_free s =
     (if a < a_end
      then bind_ok (walk pagetable a False s) (\<lambda>(pte, s).
        if pte = 0 then Panic ''uvmunmap: walk''
        else if load64 (phys s) pte AND PTE_V = 0 then Panic ''uvmunmap: not mapped''
        else if PTE_FLAGS (load64 (phys s) pte) = PTE_V then Panic ''uvmunmap: not a leaf''
        else bind_ok (if do_free then kfree (PTE2PA (load64 (phys s) pte)) s else Ok s) (\<lambda>s.
          uvmunmap_from pagetable (a + PGSIZE) a_end do_free
            (s\<lparr>phys := store64 (phys s) pte 0\<rparr>)))
      else Ok s)"
  by pat_completeness auto
termination
proof (relation "measure (\<lambda>(pt, a, e, f, s). 2 ^ 64 - unat a)", goal_cases)
  case (2 pt a e f s)
  then have "a < MAXVA" by (auto dest: walk_Ok_less)
  then show ?case using below_MAXVA_next [of a] unat_u64_less [of a] by simp
qed simp

declare uvmunmap_from.simps [simp del]

definition uvmunmap ::
  "u64 \<Rightarrow> u64 \<Rightarrow> u64 \<Rightarrow> bool \<Rightarrow> 'a kmem_scheme \<Rightarrow> 'a kmem_scheme outcome" where
  "uvmunmap pagetable va npages do_free s =
     (if va mod PGSIZE \<noteq> 0 then Panic ''uvmunmap: not aligned''
      else uvmunmap_from pagetable va (va + npages * PGSIZE) do_free s)"

definition uvmcreate :: "'a kmem_scheme \<Rightarrow> u64 \<times> 'a kmem_scheme" where
  "uvmcreate s =
     (case kalloc s of (pagetable, s) \<Rightarrow>
        if pagetable = 0 then (0, s)
        else (pagetable, s\<lparr>phys := memset (phys s) pagetable 0 (ucast PGSIZE)\<rparr>))"

definition kvmmap :: "u64 \<Rightarrow> u64 \<Rightarrow> u64 \<Rightarrow> u64 \<Rightarrow> u64 \<Rightarrow> 'a kmem_scheme \<Rightarrow> 'a kmem_scheme outcome" where
  "kvmmap kpgtbl va pa sz perm s =
     bind_ok (mappages kpgtbl va sz pa perm s) (\<lambda>(r, s). if r \<noteq> 0 then Panic ''kvmmap'' else Ok s)"

definition uvmclear :: "u64 \<Rightarrow> u64 \<Rightarrow> 'a kmem_scheme \<Rightarrow> 'a kmem_scheme outcome" where
  "uvmclear pagetable va s =
     bind_ok (walk pagetable va False s) (\<lambda>(pte, s).
       if pte = 0 then Panic ''uvmclear''
       else Ok (s\<lparr>phys := store64 (phys s) pte (load64 (phys s) pte AND NOT PTE_U)\<rparr>))"

section \<open>Growing, shrinking, copying and freeing user memory\<close>

definition uvmdealloc :: "u64 \<Rightarrow> u64 \<Rightarrow> u64 \<Rightarrow> 'a kmem_scheme \<Rightarrow> (u64 \<times> 'a kmem_scheme) outcome" where
  "uvmdealloc pagetable oldsz newsz s =
     (if newsz \<ge> oldsz then Ok (oldsz, s)
      else if PGROUNDUP newsz < PGROUNDUP oldsz
      then let npages = (ucast ((PGROUNDUP oldsz - PGROUNDUP newsz) div PGSIZE) :: u32)
           in bind_ok (uvmunmap pagetable (PGROUNDUP newsz) (scast npages) True s)
                (\<lambda>s. Ok (newsz, s))
      else Ok (newsz, s))"

lemma mappages_Ok_less:
  assumes "mappages pagetable va sz pa perm s = Ok x"
  shows "PGROUNDDOWN va < MAXVA"
  using assms
  by (auto simp: mappages_def mappages_from.simps [of pagetable "PGROUNDDOWN va"] bind_ok_eq_Ok
      split: if_splits dest: walk_Ok_less)

function uvmalloc_from ::
  "u64 \<Rightarrow> u64 \<Rightarrow> u64 \<Rightarrow> u64 \<Rightarrow> u64 \<Rightarrow> 'a kmem_scheme \<Rightarrow> (u64 \<times> 'a kmem_scheme) outcome" where
  "uvmalloc_from pagetable oldsz a newsz xperm s =
     (if a < newsz
      then case kalloc s of (mem, s) \<Rightarrow>
        if mem = 0
        then bind_ok (uvmdealloc pagetable a oldsz s) (\<lambda>(_, s). Ok (0, s))
        else let s = s\<lparr>phys := memset (phys s) mem 0 (ucast PGSIZE)\<rparr>
             in bind_ok (mappages pagetable a PGSIZE mem (PTE_R OR PTE_U OR xperm) s) (\<lambda>(r, s).
               if r \<noteq> 0
               then bind_ok (kfree mem s) (\<lambda>s.
                 bind_ok (uvmdealloc pagetable a oldsz s) (\<lambda>(_, s). Ok (0, s)))
               else uvmalloc_from pagetable oldsz (a + PGSIZE) newsz xperm s)
      else Ok (newsz, s))"
  by pat_completeness auto
termination
proof (relation "measure (\<lambda>(pt, os, a, ns, x, s). 2 ^ 64 - unat a)", goal_cases)
  case (2 pt oldsz a newsz xperm s)
  then have "PGROUNDDOWN a < MAXVA" by (auto dest: mappages_Ok_less)
  moreover have "unat a mod 4096 < 4096" "unat (PGROUNDDOWN a) = unat a - unat a mod 4096"
    by (simp_all add: unat_PGROUNDDOWN minus_mod_eq_div_mult)
  ultimately have "unat a + 4096 < 2 ^ 64"
    by (simp add: MAXVA_eq word_less_nat_alt)
  then have "unat (a + PGSIZE) = unat a + 4096" by (subst unat_plus_no_wrap) simp_all
  with \<open>unat a + 4096 < 2 ^ 64\<close> show ?case by simp
qed simp

declare uvmalloc_from.simps [simp del]

definition uvmalloc :: "u64 \<Rightarrow> u64 \<Rightarrow> u64 \<Rightarrow> u64 \<Rightarrow> 'a kmem_scheme \<Rightarrow> (u64 \<times> 'a kmem_scheme) outcome" where
  "uvmalloc pagetable oldsz newsz xperm s =
     (if newsz < oldsz then Ok (oldsz, s)
      else let oldsz = PGROUNDUP oldsz in uvmalloc_from pagetable oldsz oldsz newsz xperm s)"

text \<open>
  The recursion of \<^verbatim>\<open>freewalk\<close> follows the entries of the tables; \<open>depth\<close> bounds it (a table
  that contains itself would make the C code recurse forever). The inner function is the loop
  over the entries \<open>i\<close>, \<open>i + 1\<close>, \dots of one table.
\<close>

fun freewalk_depth :: "nat \<Rightarrow> u64 \<Rightarrow> 'a kmem_scheme \<Rightarrow> 'a kmem_scheme outcome"
  and freewalk_entries :: "nat \<Rightarrow> nat \<Rightarrow> u64 \<Rightarrow> 'a kmem_scheme \<Rightarrow> 'a kmem_scheme outcome" where
  "freewalk_depth 0 pagetable s = Blocks"
| "freewalk_depth (Suc depth) pagetable s =
     bind_ok (freewalk_entries depth 512 pagetable s) (\<lambda>s. kfree pagetable s)"
| "freewalk_entries depth 0 pagetable s = Ok s"
| "freewalk_entries depth (Suc left) pagetable s =
     (let i = 511 - left;
          pte = load64 (phys s) (pagetable + of_nat (8 * i))
      in if pte AND PTE_V \<noteq> 0 \<and> pte AND (PTE_R OR PTE_W OR PTE_X) = 0
         then bind_ok (freewalk_depth depth (PTE2PA pte) s) (\<lambda>s.
                freewalk_entries depth left pagetable
                  (s\<lparr>phys := store64 (phys s) (pagetable + of_nat (8 * i)) 0\<rparr>))
         else if pte AND PTE_V \<noteq> 0 then Panic ''freewalk: leaf''
         else freewalk_entries depth left pagetable s)"

text \<open>Sv39 page tables have three levels.\<close>

definition freewalk :: "u64 \<Rightarrow> 'a kmem_scheme \<Rightarrow> 'a kmem_scheme outcome" where
  "freewalk pagetable s = freewalk_depth 3 pagetable s"

definition uvmfree :: "u64 \<Rightarrow> u64 \<Rightarrow> 'a kmem_scheme \<Rightarrow> 'a kmem_scheme outcome" where
  "uvmfree pagetable sz s =
     bind_ok (if sz > 0 then uvmunmap pagetable 0 (PGROUNDUP sz div PGSIZE) True s else Ok s)
       (\<lambda>s. freewalk pagetable s)"

function uvmcopy_from ::
  "u64 \<Rightarrow> u64 \<Rightarrow> u64 \<Rightarrow> u64 \<Rightarrow> 'a kmem_scheme \<Rightarrow> (int \<times> 'a kmem_scheme) outcome" where
  "uvmcopy_from old new i sz s =
     (if i < sz
      then bind_ok (walk old i False s) (\<lambda>(pte, s).
        if pte = 0 then Panic ''uvmcopy: pte should exist''
        else if load64 (phys s) pte AND PTE_V = 0 then Panic ''uvmcopy: page not present''
        else let pa = PTE2PA (load64 (phys s) pte);
                 flags = PTE_FLAGS (load64 (phys s) pte);
                 err = (\<lambda>s. bind_ok (uvmunmap new 0 (i div PGSIZE) True s) (\<lambda>s. Ok (-1, s)))
             in case kalloc s of (mem, s) \<Rightarrow>
               if mem = 0 then err s
               else let s = s\<lparr>phys := memmove (phys s) mem pa (ucast PGSIZE)\<rparr>
                    in bind_ok (mappages new i PGSIZE mem flags s) (\<lambda>(r, s).
                      if r \<noteq> 0 then bind_ok (kfree mem s) err
                      else uvmcopy_from old new (i + PGSIZE) sz s))
      else Ok (0, s))"
  by pat_completeness auto
termination
proof (relation "measure (\<lambda>(old, new, i, sz, s). 2 ^ 64 - unat i)", goal_cases)
  case (2 old new i sz s)
  then have "i < MAXVA" by (auto dest: walk_Ok_less)
  then show ?case using below_MAXVA_next [of i] unat_u64_less [of i] by simp
qed simp

declare uvmcopy_from.simps [simp del]

definition uvmcopy :: "u64 \<Rightarrow> u64 \<Rightarrow> u64 \<Rightarrow> 'a kmem_scheme \<Rightarrow> (int \<times> 'a kmem_scheme) outcome" where
  "uvmcopy old new sz s = uvmcopy_from old new 0 sz s"

text \<open>
  \<^verbatim>\<open>uvmfirst\<close> does not look at the results of \<^verbatim>\<open>kalloc\<close> and \<^verbatim>\<open>mappages\<close>; \<open>src\<close> is the address
  of the first program in the kernel's data.
\<close>

definition uvmfirst :: "u64 \<Rightarrow> u64 \<Rightarrow> u32 \<Rightarrow> 'a kmem_scheme \<Rightarrow> 'a kmem_scheme outcome" where
  "uvmfirst pagetable src sz s =
     (if ucast sz \<ge> PGSIZE then Panic ''uvmfirst: more than a page''
      else case kalloc s of (mem, s) \<Rightarrow>
        let s = s\<lparr>phys := memset (phys s) mem 0 (ucast PGSIZE)\<rparr>
        in bind_ok (mappages pagetable 0 PGSIZE mem (PTE_W OR PTE_R OR PTE_X OR PTE_U) s) (\<lambda>(r, s).
             Ok (s\<lparr>phys := memmove (phys s) mem src sz\<rparr>)))"

section \<open>Copying between kernel and user space\<close>

text \<open>The bytes that \<^verbatim>\<open>memmove\<close> transfers between a kernel buffer and physical memory.\<close>

definition read_bytes :: "memory \<Rightarrow> u64 \<Rightarrow> nat \<Rightarrow> u8 list" where
  "read_bytes m a n = map (\<lambda>i. m (a + of_nat i)) [0..<n]"

definition write_bytes :: "memory \<Rightarrow> u64 \<Rightarrow> u8 list \<Rightarrow> memory" where
  "write_bytes m a bs =
     (\<lambda>x. if unat (x - a) < length bs then bs ! unat (x - a) else m x)"

lemma page_rest_pos: "0 < unat (PGSIZE - (a - PGROUNDDOWN a))"
proof -
  have "unat (a - PGROUNDDOWN a) < 4096" by (simp add: PGROUNDDOWN_offset)
  then have "a - PGROUNDDOWN a \<noteq> PGSIZE" by auto
  then show ?thesis by (simp add: unat_gt_0)
qed

function copyout :: "u64 \<Rightarrow> u64 \<Rightarrow> u8 list \<Rightarrow> 'a kmem_scheme \<Rightarrow> (int \<times> 'a kmem_scheme) outcome" where
  "copyout pagetable dstva src s =
     (if src \<noteq> []
      then let va0 = PGROUNDDOWN dstva
           in bind_ok (walkaddr pagetable va0 s) (\<lambda>pa0.
             if pa0 = 0 then Ok (-1, s)
             else let n = min (unat (PGSIZE - (dstva - va0))) (length src);
                      m = write_bytes (phys s) (pa0 + (dstva - va0)) (take n src)
                  in copyout pagetable (va0 + PGSIZE) (drop n src) (s\<lparr>phys := m\<rparr>))
      else Ok (0, s))"
  by pat_completeness auto
termination
proof (relation "measure (\<lambda>(pt, va, src, s). length src)", goal_cases)
  case (2 pt va src s)
  then show ?case using page_rest_pos [of va] by simp
qed simp

declare copyout.simps [simp del]

function copyin_from :: "u64 \<Rightarrow> u64 \<Rightarrow> nat \<Rightarrow> u8 list \<Rightarrow> 'a kmem_scheme \<Rightarrow> (int \<times> u8 list) outcome" where
  "copyin_from pagetable srcva len dst s =
     (if len > 0
      then let va0 = PGROUNDDOWN srcva
           in bind_ok (walkaddr pagetable va0 s) (\<lambda>pa0.
             if pa0 = 0 then Ok (-1, dst)
             else let n = min (unat (PGSIZE - (srcva - va0))) len
                  in copyin_from pagetable (va0 + PGSIZE) (len - n)
                       (dst @ read_bytes (phys s) (pa0 + (srcva - va0)) n) s)
      else Ok (0, dst))"
  by pat_completeness auto
termination
proof (relation "measure (\<lambda>(pt, va, len, dst, s). len)", goal_cases)
  case (2 pt va len dst s)
  then show ?case using page_rest_pos [of va] by simp
qed simp

declare copyin_from.simps [simp del]

definition copyin :: "u64 \<Rightarrow> u64 \<Rightarrow> nat \<Rightarrow> 'a kmem_scheme \<Rightarrow> (int \<times> u8 list) outcome" where
  "copyin pagetable srcva len s = copyin_from pagetable srcva len [] s"

text \<open>
  The inner loop of \<^verbatim>\<open>copyinstr\<close>: at most \<open>n\<close> bytes from \<open>p\<close>; the flag says whether a NUL was
  found, and the bytes are those stored, the NUL included.
\<close>

fun copyinstr_page :: "memory \<Rightarrow> u64 \<Rightarrow> nat \<Rightarrow> bool \<times> u8 list" where
  "copyinstr_page m p 0 = (False, [])"
| "copyinstr_page m p (Suc n) =
     (if m p = 0 then (True, [0])
      else case copyinstr_page m (p + 1) n of (got, bs) \<Rightarrow> (got, m p # bs))"

function copyinstr_from ::
  "u64 \<Rightarrow> u64 \<Rightarrow> nat \<Rightarrow> u8 list \<Rightarrow> 'a kmem_scheme \<Rightarrow> (int \<times> u8 list) outcome" where
  "copyinstr_from pagetable srcva left dst s =
     (if left > 0
      then let va0 = PGROUNDDOWN srcva
           in bind_ok (walkaddr pagetable va0 s) (\<lambda>pa0.
             if pa0 = 0 then Ok (-1, dst)
             else let n = min (unat (PGSIZE - (srcva - va0))) left
                  in case copyinstr_page (phys s) (pa0 + (srcva - va0)) n of (got_null, bs) \<Rightarrow>
                    if got_null then Ok (0, dst @ bs)
                    else copyinstr_from pagetable (va0 + PGSIZE) (left - n) (dst @ bs) s)
      else Ok (-1, dst))"
  by pat_completeness auto
termination
proof (relation "measure (\<lambda>(pt, va, left, dst, s). left)", goal_cases)
  case (2 pt va left dst s)
  then show ?case using page_rest_pos [of va] by simp
qed simp

declare copyinstr_from.simps [simp del]

definition copyinstr :: "u64 \<Rightarrow> u64 \<Rightarrow> nat \<Rightarrow> 'a kmem_scheme \<Rightarrow> (int \<times> u8 list) outcome" where
  "copyinstr pagetable srcva max_len s = copyinstr_from pagetable srcva max_len [] s"

section \<open>The kernel's page table\<close>

text \<open>
  \<open>etext\<close> and \<open>trampoline\<close> are addresses the linker defines. \<^verbatim>\<open>proc_mapstacks\<close>
  (\<^verbatim>\<open>kernel/proc.c\<close>) allocates and maps one kernel stack per process slot.
\<close>

fun proc_mapstacks_from :: "nat \<Rightarrow> u64 \<Rightarrow> 'a kmem_scheme \<Rightarrow> 'a kmem_scheme outcome" where
  "proc_mapstacks_from 0 kpgtbl s = Ok s"
| "proc_mapstacks_from (Suc left) kpgtbl s =
     (case kalloc s of (pa, s) \<Rightarrow>
        if pa = 0 then Panic ''kalloc''
        else let va = KSTACK (of_nat (NPROC - Suc left))
             in bind_ok (kvmmap kpgtbl va pa PGSIZE (PTE_R OR PTE_W) s)
                  (\<lambda>s. proc_mapstacks_from left kpgtbl s))"

definition proc_mapstacks :: "u64 \<Rightarrow> 'a kmem_scheme \<Rightarrow> 'a kmem_scheme outcome" where
  "proc_mapstacks kpgtbl s = proc_mapstacks_from NPROC kpgtbl s"

definition kvmmake :: "u64 \<Rightarrow> u64 \<Rightarrow> 'a kmem_scheme \<Rightarrow> (u64 \<times> 'a kmem_scheme) outcome" where
  "kvmmake etext trampoline s =
     (case kalloc s of (kpgtbl, s) \<Rightarrow>
        let s = s\<lparr>phys := memset (phys s) kpgtbl 0 (ucast PGSIZE)\<rparr>
        in bind_ok (kvmmap kpgtbl UART0 UART0 PGSIZE (PTE_R OR PTE_W) s) (\<lambda>s.
           bind_ok (kvmmap kpgtbl VIRTIO0 VIRTIO0 PGSIZE (PTE_R OR PTE_W) s) (\<lambda>s.
           bind_ok (kvmmap kpgtbl PLIC PLIC 0x400000 (PTE_R OR PTE_W) s) (\<lambda>s.
           bind_ok (kvmmap kpgtbl KERNBASE KERNBASE (etext - KERNBASE) (PTE_R OR PTE_X) s) (\<lambda>s.
           bind_ok (kvmmap kpgtbl etext etext (PHYSTOP - etext) (PTE_R OR PTE_W) s) (\<lambda>s.
           bind_ok (kvmmap kpgtbl TRAMPOLINE trampoline PGSIZE (PTE_R OR PTE_X) s) (\<lambda>s.
           bind_ok (proc_mapstacks kpgtbl s) (\<lambda>s. Ok (kpgtbl, s)))))))))"

end
