(* ===== verification/Vm_Tables.thy ===== *)
theory Vm_Tables
  imports Vm
begin

text \<open>
  What the page tables of \<^verbatim>\<open>kernel/vm.c\<close> mean. A table of level \<open>l\<close> at address \<open>pt\<close> occupies
  the pages \<open>tset m l pt\<close>; in a separated table (\<open>sep\<close>) no page is used twice; \<open>lookup\<close> is the
  leaf entry a virtual address selects. The lemmas say how the operations change these: a
  walk that allocates adds zeroed tables and keeps every leaf entry, a store to a leaf entry
  changes the entries of one virtual page.
\<close>

section \<open>Entries of one page\<close>

lemma PX_addr: "pt + 8 * PX l va = pt + of_nat (8 * unat (PX l va))"
  by simp

lemma entry_in_page: "aligned pt \<Longrightarrow> i < 512 \<Longrightarrow> PGROUNDDOWN (pt + of_nat (8 * i)) = pt"
  by (rule PGROUNDDOWN_in_page) simp_all

lemma entry_nonzero:
  assumes "aligned pt" "pt \<noteq> 0" "i < 512"
  shows "pt + of_nat (8 * i) \<noteq> 0"
proof
  assume "pt + of_nat (8 * i) = 0"
  then have "PGROUNDDOWN 0 = pt" using entry_in_page [OF assms(1,3)] by simp
  with assms(2) show False by (simp add: PGROUNDDOWN_def)
qed

lemma entry_load_cong:
  assumes "aligned pt" "i < 512" "\<And>x. PGROUNDDOWN x = pt \<Longrightarrow> m' x = m x"
  shows "load64 m' (pt + of_nat (8 * i)) = load64 m (pt + of_nat (8 * i))"
  by (rule load64_page_cong) (use assms in auto)

lemma entry_store_frame:
  assumes "aligned pt" "i < 512" "PGROUNDDOWN x \<noteq> pt"
  shows "store64 m (pt + of_nat (8 * i)) v x = m x"
  by (rule store64_page_frame) (use assms in auto)

text \<open>Two entries of a page do not overlap.\<close>

lemma entry_load_store:
  assumes "i < 512" "j < 512"
  shows "load64 (store64 m (pt + of_nat (8 * i)) v) (pt + of_nat (8 * j)) =
    (if i = j then v else load64 m (pt + of_nat (8 * j)))"
proof (cases "i = j")
  case True
  then show ?thesis by (simp add: load64_store64_same)
next
  case False
  have "store64 m (pt + of_nat (8 * i)) v (pt + of_nat (8 * j) + of_nat k) =
      m (pt + of_nat (8 * j) + of_nat k)" if "k < 8" for k
  proof (rule store64_outside)
    have "pt + of_nat (8 * j) + of_nat k - (pt + of_nat (8 * i)) =
        (of_nat (8 * j + k) - of_nat (8 * i) :: u64)" by simp
    moreover have "8 \<le> unat (of_nat (8 * j + k) - of_nat (8 * i) :: u64)"
    proof (cases "i < j")
      case True
      then have "of_nat (8 * j + k) - of_nat (8 * i) = (of_nat (8 * j + k - 8 * i) :: u64)"
        by (subst of_nat_diff) auto
      moreover have "unat (of_nat (8 * j + k - 8 * i) :: u64) = 8 * j + k - 8 * i"
        using assms that by (intro unat_of_nat_u64) simp
      ultimately show ?thesis using True by simp
    next
      case False
      with \<open>i \<noteq> j\<close> have ij: "8 * j + k < 8 * i" using that by simp
      then have "of_nat (8 * j + k) - of_nat (8 * i) = - (of_nat (8 * i - (8 * j + k)) :: u64)"
        by (subst of_nat_diff) auto
      moreover have u: "unat (of_nat (8 * i - (8 * j + k)) :: u64) = 8 * i - (8 * j + k)"
        using assms that by (intro unat_of_nat_u64) simp
      moreover have "unat (- w) = 18446744073709551616 - unat w" if "w \<noteq> 0" for w :: u64
      proof -
        have "(unat w + unat (- w)) mod 2 ^ 64 = 0"
          using unat_word_ariths(1) [of w "- w"] by simp
        moreover have "0 < unat w" using that by (simp add: unat_gt_0)
        ultimately show ?thesis using unat_u64_less [of w] unat_u64_less [of "- w"]
          by (cases "unat w + unat (- w) < 2 ^ 64") (auto simp: le_mod_geq)
      qed
      moreover have "(of_nat (8 * i - (8 * j + k)) :: u64) \<noteq> 0"
        using u ij by (metis unat_0 zero_less_diff less_numeral_extra(3))
      ultimately show ?thesis using assms by simp
    qed
    ultimately show "8 \<le> unat (pt + of_nat (8 * j) + of_nat k - (pt + of_nat (8 * i)))"
      by (simp only:)
  qed
  then have "load64 (store64 m (pt + of_nat (8 * i)) v) (pt + of_nat (8 * j)) =
      load64 m (pt + of_nat (8 * j))"
    by (rule load64_cong)
  with False show ?thesis by simp
qed

section \<open>Tables as trees of pages\<close>

text \<open>
  \<open>entry m pt i\<close> is entry \<open>i\<close> of the table at \<open>pt\<close>. In an inner table a valid entry refers to
  another table and has no permission bits, which is how \<^verbatim>\<open>freewalk\<close> recognises it.
\<close>

definition entry :: "memory \<Rightarrow> u64 \<Rightarrow> nat \<Rightarrow> u64" where
  "entry m pt i = load64 m (pt + of_nat (8 * i))"

definition child :: "memory \<Rightarrow> u64 \<Rightarrow> nat \<Rightarrow> u64 option" where
  "child m pt i = (if entry m pt i AND PTE_V \<noteq> 0 then Some (PTE2PA (entry m pt i)) else None)"

definition no_perm :: "u64 \<Rightarrow> bool" where
  "no_perm pte \<longleftrightarrow> pte AND (PTE_R OR PTE_W OR PTE_X) = 0"

fun tset :: "memory \<Rightarrow> nat \<Rightarrow> u64 \<Rightarrow> u64 set" where
  "tset m 0 pt = {pt}"
| "tset m (Suc l) pt = insert pt (\<Union>c\<in>{c. \<exists>i<512. child m pt i = Some c}. tset m l c)"

fun sep :: "memory \<Rightarrow> nat \<Rightarrow> u64 \<Rightarrow> bool" where
  "sep m 0 pt \<longleftrightarrow> aligned pt"
| "sep m (Suc l) pt \<longleftrightarrow> aligned pt \<and>
     (\<forall>i c. i < 512 \<and> child m pt i = Some c \<longrightarrow>
        no_perm (entry m pt i) \<and> sep m l c \<and> pt \<notin> tset m l c \<and>
        (\<forall>j d. j < 512 \<and> child m pt j = Some d \<and> j \<noteq> i \<longrightarrow> tset m l c \<inter> tset m l d = {}))"

fun slot :: "memory \<Rightarrow> nat \<Rightarrow> u64 \<Rightarrow> u64 \<Rightarrow> u64 option" where
  "slot m 0 pt va = Some (pt + of_nat (8 * unat (PX 0 va)))"
| "slot m (Suc l) pt va =
     (case child m pt (unat (PX (Suc l) va)) of None \<Rightarrow> None | Some c \<Rightarrow> slot m l c va)"

definition lookup :: "memory \<Rightarrow> nat \<Rightarrow> u64 \<Rightarrow> u64 \<Rightarrow> u64" where
  "lookup m l pt va = (case slot m l pt va of None \<Rightarrow> 0 | Some p \<Rightarrow> load64 m p)"

lemma lookup_0: "lookup m 0 pt va = load64 m (pt + of_nat (8 * unat (PX 0 va)))"
  by (simp add: lookup_def)

lemma lookup_Suc:
  "lookup m (Suc l) pt va =
     (case child m pt (unat (PX (Suc l) va)) of None \<Rightarrow> 0 | Some c \<Rightarrow> lookup m l c va)"
  by (simp add: lookup_def split: option.splits)

lemma sep_aligned: "sep m l pt \<Longrightarrow> aligned pt"
  by (cases l) auto

lemma root_in_tset [simp]: "pt \<in> tset m l pt"
  by (cases l) auto

lemma tset_child: "child m pt i = Some c \<Longrightarrow> i < 512 \<Longrightarrow> tset m l c \<subseteq> tset m (Suc l) pt"
  by auto

lemma sep_child: "sep m (Suc l) pt \<Longrightarrow> child m pt i = Some c \<Longrightarrow> i < 512 \<Longrightarrow>
    sep m l c \<and> pt \<notin> tset m l c \<and> no_perm (entry m pt i)"
  by auto

lemma sep_tset_aligned: "sep m l pt \<Longrightarrow> p \<in> tset m l pt \<Longrightarrow> aligned p"
  by (induction l arbitrary: pt) auto

lemma entry_cong:
  assumes "aligned pt" "i < 512" "\<And>x. PGROUNDDOWN x = pt \<Longrightarrow> m' x = m x"
  shows "entry m' pt i = entry m pt i"
  unfolding entry_def by (rule entry_load_cong [OF assms])

lemma child_entry: "entry m' pt i = entry m pt i \<Longrightarrow> child m' pt i = child m pt i"
  by (simp add: child_def)

lemma entry_store:
  "i < 512 \<Longrightarrow> j < 512 \<Longrightarrow>
    entry (store64 m (pt + of_nat (8 * i)) v) pt j = (if i = j then v else entry m pt j)"
  unfolding entry_def by (rule entry_load_store)

text \<open>A table depends on its own pages only.\<close>

lemma table_frame:
  assumes "sep m l pt" "\<And>x. PGROUNDDOWN x \<in> tset m l pt \<Longrightarrow> m' x = m x"
  shows "tset m' l pt = tset m l pt \<and> sep m' l pt \<and>
    (\<forall>va. slot m' l pt va = slot m l pt va \<and> lookup m' l pt va = lookup m l pt va)"
  using assms
proof (induction l arbitrary: pt)
  case 0
  then show ?case
    using entry_load_cong [of pt _ m' m, OF _ PX_bound] by (auto simp: lookup_0)
next
  case (Suc l)
  have en: "entry m' pt i = entry m pt i" if "i < 512" for i
    using Suc.prems that by (intro entry_cong) auto
  note ch = child_entry [OF en]
  have sub: "tset m' l c = tset m l c \<and> sep m' l c \<and>
      (\<forall>va. slot m' l c va = slot m l c va \<and> lookup m' l c va = lookup m l c va)"
    if "child m pt i = Some c" "i < 512" for i c
    using Suc.prems that by (intro Suc.IH) auto
  have "{c. \<exists>i<512. child m' pt i = Some c} = {c. \<exists>i<512. child m pt i = Some c}" using ch by auto
  moreover have "tset m' l c = tset m l c" if "c \<in> {c. \<exists>i<512. child m pt i = Some c}" for c
    using sub that by auto
  ultimately have "tset m' (Suc l) pt = tset m (Suc l) pt" by simp
  moreover have "no_perm (entry m' pt i) \<and> sep m' l c \<and> pt \<notin> tset m' l c \<and>
      (\<forall>j d. j < 512 \<and> child m' pt j = Some d \<and> j \<noteq> i \<longrightarrow> tset m' l c \<inter> tset m' l d = {})"
    if i: "i < 512" "child m' pt i = Some c" for i c
  proof -
    have c: "child m pt i = Some c" using i ch by simp
    have "tset m' l c \<inter> tset m' l d = {}" if j: "j < 512" "child m' pt j = Some d" "j \<noteq> i" for j d
    proof -
      have d: "child m pt j = Some d" using j ch by simp
      then have "tset m l c \<inter> tset m l d = {}"
        using Suc.prems(1) c i(1) j(1,3) by (simp only: sep.simps)
      then show ?thesis using sub [OF c i(1)] sub [OF d j(1)] by simp
    qed
    then show ?thesis using sub [OF c i(1)] sep_child [OF Suc.prems(1) c i(1)] en [OF i(1)]
      by (simp, blast)
  qed
  then have "sep m' (Suc l) pt"
    using sep_aligned [OF Suc.prems(1)] by (simp only: sep.simps) blast
  moreover have "slot m' (Suc l) pt va = slot m (Suc l) pt va" for va
    using ch [OF PX_bound] sub [OF _ PX_bound] by (auto split: option.splits)
  moreover have "lookup m' (Suc l) pt va = lookup m (Suc l) pt va" for va
    using ch [OF PX_bound] sub [OF _ PX_bound] by (auto simp: lookup_Suc split: option.splits)
  ultimately show ?case by blast
qed

text \<open>A page of zeros is an empty table.\<close>

lemma table_zero:
  assumes "aligned pt" "\<And>x. PGROUNDDOWN x = pt \<Longrightarrow> m x = 0"
  shows "tset m l pt = {pt} \<and> sep m l pt \<and> lookup m l pt va = 0"
proof -
  have "load64 m (pt + of_nat (8 * i)) = 0" if "i < 512" for i
  proof (rule load64_0)
    fix k :: nat assume "k < 8"
    have "pt + of_nat (8 * i) + of_nat k = pt + of_nat (8 * i + k)" by simp
    moreover have "PGROUNDDOWN (pt + of_nat (8 * i + k)) = pt"
      using assms(1) that \<open>k < 8\<close> by (intro PGROUNDDOWN_in_page) auto
    ultimately show "m (pt + of_nat (8 * i) + of_nat k) = 0" using assms(2) by metis
  qed
  then have z: "load64 m (pt + of_nat (8 * i)) = 0" if "i < 512" for i using that by blast
  then have "child m pt i = None" if "i < 512" for i using that by (simp add: child_def entry_def)
  then show ?thesis using assms(1) z [OF PX_bound] PX_bound
    by (cases l) (auto simp: lookup_0 lookup_Suc)
qed

lemma tset_split:
  assumes "child m pt i = Some c" "i < 512"
  shows "tset m (Suc l) pt = tset m l c \<union>
    insert pt (\<Union>d\<in>{d. \<exists>j<512. j \<noteq> i \<and> child m pt j = Some d}. tset m l d)"
proof -
  have "{d. \<exists>j<512. child m pt j = Some d} = insert c {d. \<exists>j<512. j \<noteq> i \<and> child m pt j = Some d}"
    using assms by (auto intro: exI [of _ i])
  then show ?thesis by auto
qed

text \<open>One subtree of a table changes and everything else stays.\<close>

lemma table_replace:
  assumes sep: "sep m (Suc l) pt" and i: "i < 512"
    and ci: "child m' pt i = Some c" "no_perm (entry m' pt i)"
    and others: "\<forall>j<512. j \<noteq> i \<longrightarrow> entry m' pt j = entry m pt j"
    and new: "sep m' l c" "pt \<notin> tset m' l c"
    and apart: "\<forall>j d. j < 512 \<and> j \<noteq> i \<and> child m pt j = Some d \<longrightarrow>
      tset m' l c \<inter> tset m l d = {} \<and> (\<forall>x. PGROUNDDOWN x \<in> tset m l d \<longrightarrow> m' x = m x)"
  shows "sep m' (Suc l) pt"
    and "tset m' (Suc l) pt = tset m' l c \<union>
      insert pt (\<Union>d\<in>{d. \<exists>j<512. j \<noteq> i \<and> child m pt j = Some d}. tset m l d)"
    and "slot m' (Suc l) pt va =
      (if unat (PX (Suc l) va) = i then slot m' l c va else slot m (Suc l) pt va)"
    and "lookup m' (Suc l) pt va =
      (if unat (PX (Suc l) va) = i then lookup m' l c va else lookup m (Suc l) pt va)"
proof -
  note en = others [rule_format]
  note ch = ci(1) child_entry [OF en]
  have disj: "tset m' l c \<inter> tset m l d = {}"
    and same: "\<And>x. PGROUNDDOWN x \<in> tset m l d \<Longrightarrow> m' x = m x"
    if "j < 512" "j \<noteq> i" "child m pt j = Some d" for j d
    using apart that by blast+
  have fr: "tset m' l d = tset m l d" "sep m' l d" "slot m' l d va = slot m l d va"
      "lookup m' l d va = lookup m l d va"
    if "j < 512" "j \<noteq> i" "child m pt j = Some d" for j d va
    using table_frame [of m l d m'] sep_child [OF sep that(3,1)] same [OF that] by blast+
  have ex: "child m' pt j = Some d \<longleftrightarrow> (if j = i then d = c else child m pt j = Some d)"
    if "j < 512" for j d using ch that by auto
  have "no_perm (entry m' pt j) \<and> sep m' l d \<and> pt \<notin> tset m' l d \<and>
      (\<forall>k e. k < 512 \<and> child m' pt k = Some e \<and> k \<noteq> j \<longrightarrow> tset m' l d \<inter> tset m' l e = {})"
    if j: "j < 512" "child m' pt j = Some d" for j d
  proof (cases "j = i")
    case True
    then have "d = c" using j ch by simp
    moreover have "tset m' l c \<inter> tset m' l e = {}"
      if "k < 512" "child m' pt k = Some e" "k \<noteq> j" for k e
      using that True disj [of k e] fr(1) [of k e] ex [of k e] by simp
    ultimately show ?thesis using new ci(2) True by blast
  next
    case False
    then have d: "child m pt j = Some d" using j ch by simp
    have "tset m' l d \<inter> tset m' l e = {}" if "k < 512" "child m' pt k = Some e" "k \<noteq> j" for k e
    proof (cases "k = i")
      case True
      with that ch disj [OF j(1) False d] fr(1) [OF j(1) False d] show ?thesis by auto
    next
      case False
      with that ch have "child m pt k = Some e" by simp
      with sep d j(1) that(1,3) have "tset m l d \<inter> tset m l e = {}" by auto
      then show ?thesis
        using fr(1) [OF j(1) \<open>j \<noteq> i\<close> d] fr(1) [OF that(1) False \<open>child m pt k = Some e\<close>] by simp
    qed
    moreover have "pt \<notin> tset m' l d \<and> no_perm (entry m' pt j)"
      using sep_child [OF sep d j(1)] fr(1) [OF j(1) False d] en [OF j(1) False] by simp
    ultimately show ?thesis using fr(2) [OF j(1) False d] by blast
  qed
  with sep_aligned [OF sep] show "sep m' (Suc l) pt" by (simp only: sep.simps) blast
  show "tset m' (Suc l) pt = tset m' l c \<union>
      insert pt (\<Union>d\<in>{d. \<exists>j<512. j \<noteq> i \<and> child m pt j = Some d}. tset m l d)" (is "?L = ?R")
  proof
    show "?L \<subseteq> ?R"
    proof
      fix x assume "x \<in> ?L"
      then consider "x = pt" | j d where "j < 512" "child m' pt j = Some d" "x \<in> tset m' l d" by auto
      then show "x \<in> ?R"
      proof cases
        case 2
        then show ?thesis using ex [of j d] fr(1) [of j d] by (cases "j = i") auto
      qed simp
    qed
    show "?R \<subseteq> ?L"
    proof
      fix x assume "x \<in> ?R"
      then consider "x = pt" | "x \<in> tset m' l c"
        | j d where "j < 512" "j \<noteq> i" "child m pt j = Some d" "x \<in> tset m l d" by auto
      then show "x \<in> ?L"
      proof cases
        case 2
        then show ?thesis using ch(1) i by auto
      next
        case 3
        then have "child m' pt j = Some d" "x \<in> tset m' l d" using ch(2) fr(1) by auto
        with 3(1) show ?thesis by auto
      qed simp
    qed
  qed
  show "slot m' (Suc l) pt va =
      (if unat (PX (Suc l) va) = i then slot m' l c va else slot m (Suc l) pt va)"
    using ch(1) ex [OF PX_bound] ch(2) [OF PX_bound] fr(3) [OF PX_bound]
    by (auto split: option.splits)
  show "lookup m' (Suc l) pt va =
      (if unat (PX (Suc l) va) = i then lookup m' l c va else lookup m (Suc l) pt va)"
    using ch(1) ex [OF PX_bound] ch(2) [OF PX_bound] fr(4) [OF PX_bound]
    by (auto simp: lookup_Suc split: option.splits)
qed

section \<open>Walks\<close>

text \<open>Without allocation a walk reads the slot and changes nothing.\<close>

lemma walk_level_read:
  "walk_level l pt va False s = (case slot (phys s) l pt va of None \<Rightarrow> 0 | Some p \<Rightarrow> p, s)"
proof (induction l arbitrary: pt)
  case (Suc l)
  then show ?case by (simp add: child_def entry_def Let_def)
qed simp

text \<open>The slot lies in one of the table's pages.\<close>

lemma slot_in_tset:
  assumes "sep m l pt" "slot m l pt va = Some p"
  shows "\<exists>q i. q \<in> tset m l pt \<and> aligned q \<and> i < 512 \<and> p = q + of_nat (8 * i)"
  using assms
proof (induction l arbitrary: pt)
  case 0
  then show ?case using PX_bound [of 0 va] by auto
next
  case (Suc l)
  then obtain c where c: "child m pt (unat (PX (Suc l) va)) = Some c" "slot m l c va = Some p"
    by (auto split: option.splits)
  from Suc.IH [OF _ c(2)] sep_child [OF Suc.prems(1) c(1) PX_bound]
  obtain q i where "q \<in> tset m l c" "aligned q" "i < 512" "p = q + of_nat (8 * i)" by blast
  then show ?case using tset_child [OF c(1) PX_bound, of l] by blast
qed

text \<open>A store to the slot of \<open>va\<close> changes the leaf entry of the virtual page of \<open>va\<close> alone.\<close>

definition same_slot :: "nat \<Rightarrow> u64 \<Rightarrow> u64 \<Rightarrow> bool" where
  "same_slot l va vb \<longleftrightarrow> (\<forall>k\<le>l. PX k va = PX k vb)"

lemma same_slot_Suc: "same_slot (Suc l) va vb \<longleftrightarrow> PX (Suc l) va = PX (Suc l) vb \<and> same_slot l va vb"
  by (auto simp: same_slot_def le_Suc_eq)

lemma leaf_store:
  assumes "sep m l pt" "slot m l pt va = Some p" and m': "m' = store64 m p v"
  shows "tset m' l pt = tset m l pt \<and> sep m' l pt \<and> slot m' l pt vb = slot m l pt vb \<and>
    lookup m' l pt vb = (if same_slot l va vb then v else lookup m l pt vb) \<and>
    (\<forall>x. PGROUNDDOWN x \<notin> tset m l pt \<longrightarrow> m' x = m x)"
  using assms(1,2)
proof (induction l arbitrary: pt vb)
  case 0
  then have p: "p = pt + of_nat (8 * unat (PX 0 va))" by simp
  have "lookup m' 0 pt vb = (if same_slot 0 va vb then v else lookup m 0 pt vb)"
    unfolding lookup_0 m' p entry_load_store [OF PX_bound PX_bound]
    by (simp add: same_slot_def word_unat_eq_iff)
  moreover have "m' x = m x" if "PGROUNDDOWN x \<notin> tset m 0 pt" for x
    unfolding m' p by (rule entry_store_frame) (use 0 that PX_bound in auto)
  ultimately show ?case using 0 by simp
next
  case (Suc l)
  let ?i = "unat (PX (Suc l) va)"
  obtain c where c: "child m pt ?i = Some c" "slot m l c va = Some p"
    using Suc.prems(2) by (auto split: option.splits)
  note sc = sep_child [OF Suc.prems(1) c(1) PX_bound]
  have IH: "tset m' l c = tset m l c" "sep m' l c" "slot m' l c vb = slot m l c vb"
      "lookup m' l c vb = (if same_slot l va vb then v else lookup m l c vb)"
      "\<And>x. PGROUNDDOWN x \<notin> tset m l c \<Longrightarrow> m' x = m x" for vb
    using Suc.IH [OF conjunct1 [OF sc] c(2), of vb] by blast+
  have al: "aligned pt" using Suc.prems(1) by (rule sep_aligned)
  have en: "entry m' pt j = entry m pt j" if "j < 512" for j
    using al that sc IH(5) by (intro entry_cong) auto
  note ch = child_entry [OF en]
  have disj: "tset m l c \<inter> tset m l d = {}" if "j < 512" "j \<noteq> ?i" "child m pt j = Some d" for j d
    using Suc.prems(1) c(1) PX_bound [of "Suc l" va] that by (simp only: sep.simps)
  have ci: "child m' pt ?i = Some c" "no_perm (entry m' pt ?i)"
    using ch [OF PX_bound] en [OF PX_bound] c(1) sc by simp_all
  have others: "\<forall>j<512. j \<noteq> ?i \<longrightarrow> entry m' pt j = entry m pt j" using en by simp
  have pt: "pt \<notin> tset m' l c" using sc IH(1) by simp
  have apart: "\<forall>j d. j < 512 \<and> j \<noteq> ?i \<and> child m pt j = Some d \<longrightarrow>
      tset m' l c \<inter> tset m l d = {} \<and> (\<forall>x. PGROUNDDOWN x \<in> tset m l d \<longrightarrow> m' x = m x)"
    using disj IH(1,5) by blast
  note rep = table_replace [OF Suc.prems(1) PX_bound ci others IH(2) pt apart]
  have "tset m' (Suc l) pt = tset m (Suc l) pt"
    using rep(2) by (simp only: IH(1) tset_split [OF c(1) PX_bound])
  moreover have "slot m' (Suc l) pt vb = slot m (Suc l) pt vb"
    using rep(3) [of vb] IH(3) c(1) by auto
  moreover have "lookup m' (Suc l) pt vb = (if same_slot (Suc l) va vb then v else lookup m (Suc l) pt vb)"
    using rep(4) [of vb] IH(4) c(1) by (auto simp: lookup_Suc same_slot_Suc word_unat_eq_iff)
  moreover have "m' x = m x" if "PGROUNDDOWN x \<notin> tset m (Suc l) pt" for x
    using IH(5) that tset_child [OF c(1) PX_bound, of l] by blast
  ultimately show ?case using rep(1) by blast
qed

section \<open>Walks that allocate\<close>

lemma valid_flags: "pte AND PTE_V \<noteq> 0 \<longleftrightarrow> PTE_FLAGS pte AND PTE_V \<noteq> 0"
  by (simp add: PTE_FLAGS_def PTE_V_def and.assoc)

lemma no_perm_flags: "no_perm pte \<longleftrightarrow> PTE_FLAGS pte AND (PTE_R OR PTE_W OR PTE_X) = 0"
  by (simp add: no_perm_def PTE_FLAGS_def pte_bit_defs and.assoc)

definition table_inv :: "'a kmem_scheme \<Rightarrow> nat \<Rightarrow> u64 \<Rightarrow> u64 list \<Rightarrow> bool" where
  "table_inv s l pt xs \<longleftrightarrow> kmem_inv s xs \<and> sep (phys s) l pt \<and> tset (phys s) l pt \<inter> set xs = {} \<and>
     (\<forall>p\<in>tset (phys s) l pt. page_ok (kend s) p)"

text \<open>How a walk that allocates may change the state: it moves free pages into the table.\<close>

definition table_grows :: "nat \<Rightarrow> u64 \<Rightarrow> 'a kmem_scheme \<Rightarrow> u64 list \<Rightarrow> 'a kmem_scheme \<Rightarrow> u64 list \<Rightarrow> bool" where
  "table_grows l pt s xs s' ys \<longleftrightarrow>
     kend s' = kend s \<and> kmem.more s' = kmem.more s \<and> set ys \<subseteq> set xs \<and>
     tset (phys s') l pt = tset (phys s) l pt \<union> (set xs - set ys) \<and>
     (\<forall>va. lookup (phys s') l pt va = lookup (phys s) l pt va) \<and>
     (\<forall>x. PGROUNDDOWN x \<notin> tset (phys s') l pt \<longrightarrow> phys s' x = phys s x)"

lemma table_grows_refl: "table_grows l pt s xs s xs"
  by (simp add: table_grows_def)

text \<open>
  The step of the loop: \<open>s2\<close> is the state in which entry \<open>i\<close> refers to a table at \<open>c\<close>, the old
  one or a new empty one, and the walk continues there.
\<close>

definition old_set :: "'a kmem_scheme \<Rightarrow> nat \<Rightarrow> u64 \<Rightarrow> nat \<Rightarrow> u64 set" where
  "old_set s l pt i = (case child (phys s) pt i of None \<Rightarrow> {} | Some c \<Rightarrow> tset (phys s) l c)"

definition old_lookup :: "'a kmem_scheme \<Rightarrow> nat \<Rightarrow> u64 \<Rightarrow> nat \<Rightarrow> u64 \<Rightarrow> u64" where
  "old_lookup s l pt i va = (case child (phys s) pt i of None \<Rightarrow> 0 | Some c \<Rightarrow> lookup (phys s) l c va)"

lemma tset_old:
  "i < 512 \<Longrightarrow> tset (phys s) (Suc l) pt = old_set s l pt i \<union>
    insert pt (\<Union>d\<in>{d. \<exists>j<512. j \<noteq> i \<and> child (phys s) pt j = Some d}. tset (phys s) l d)"
proof (cases "child (phys s) pt i")
  case None
  then have "{d. \<exists>j<512. child (phys s) pt j = Some d} =
      {d. \<exists>j<512. j \<noteq> i \<and> child (phys s) pt j = Some d}"
    by (metis option.distinct(1))
  with None show ?thesis by (simp add: old_set_def)
next
  case (Some c)
  assume "i < 512"
  with Some tset_split [OF Some, of l] show ?thesis by (simp add: old_set_def)
qed

lemma walk_step:
  assumes inv: "table_inv s (Suc l) pt xs" and i: "i < 512"
    and c: "child (phys s2) pt i = Some c" "no_perm (entry (phys s2) pt i)"
    and others: "\<forall>j<512. j \<noteq> i \<longrightarrow> entry (phys s2) pt j = entry (phys s) pt j"
    and set2: "tset (phys s2) l c = old_set s l pt i \<union> (set xs - set zs)" and zs: "set zs \<subseteq> set xs"
    and mem2: "\<forall>x. PGROUNDDOWN x \<notin> insert pt (tset (phys s2) l c) \<longrightarrow> phys s2 x = phys s x"
    and look2: "\<forall>va. lookup (phys s2) l c va = old_lookup s l pt i va"
    and fields2: "kend s2 = kend s" "kmem.more s2 = kmem.more s"
    and inv': "table_inv s' l c ys" and grow: "table_grows l c s2 zs s' ys"
  shows "table_inv s' (Suc l) pt ys \<and> table_grows (Suc l) pt s xs s' ys \<and>
    (\<forall>va. unat (PX (Suc l) va) = i \<longrightarrow> slot (phys s') (Suc l) pt va = slot (phys s') l c va)"
proof -
  let ?m = "phys s" and ?m' = "phys s'"
  from inv have sep: "sep ?m (Suc l) pt" and free: "tset ?m (Suc l) pt \<inter> set xs = {}"
    and ok: "\<forall>p\<in>tset ?m (Suc l) pt. page_ok (kend s) p" and kx: "kmem_inv s xs"
    by (auto simp: table_inv_def simp del: sep.simps tset.simps)
  from grow have ys: "set ys \<subseteq> set zs" and set': "tset ?m' l c = tset (phys s2) l c \<union> (set zs - set ys)"
    and mem': "\<And>x. PGROUNDDOWN x \<notin> tset ?m' l c \<Longrightarrow> ?m' x = phys s2 x"
    and look': "\<And>va. lookup ?m' l c va = lookup (phys s2) l c va"
    and fields': "kend s' = kend s2" "kmem.more s' = kmem.more s2"
    by (auto simp: table_grows_def)
  have all': "tset ?m' l c = old_set s l pt i \<union> (set xs - set ys)" using set' set2 zs ys by blast
  have pt: "pt \<notin> old_set s l pt i"
    using sep_child [OF sep _ i] by (auto simp: old_set_def split: option.splits)
  have pt_free: "pt \<notin> set xs" using free root_in_tset by blast
  have pt': "pt \<notin> tset ?m' l c" using all' pt pt_free by simp
  have al: "aligned pt" using sep by (rule sep_aligned)
  have en: "entry ?m' pt j = entry (phys s2) pt j" if "j < 512" for j
    using al that by (rule entry_cong) (use mem' pt' in auto)
  have apart: "\<forall>j d. j < 512 \<and> j \<noteq> i \<and> child ?m pt j = Some d \<longrightarrow>
      tset ?m' l c \<inter> tset ?m l d = {} \<and> (\<forall>x. PGROUNDDOWN x \<in> tset ?m l d \<longrightarrow> ?m' x = ?m x)"
  proof (intro allI impI, elim conjE)
    fix j d assume j: "j < 512" "j \<noteq> i" "child ?m pt j = Some d"
    have "old_set s l pt i \<inter> tset ?m l d = {}"
      using sep i j by (auto simp: old_set_def simp del: tset.simps split: option.splits)
    moreover have "tset ?m l d \<inter> set xs = {}" using tset_child [OF j(3,1), of l] free by blast
    moreover have "pt \<notin> tset ?m l d" using sep_child [OF sep j(3,1)] by blast
    ultimately have dis: "tset ?m' l c \<inter> tset ?m l d = {}" unfolding all' by blast
    have "?m' x = ?m x" if x: "PGROUNDDOWN x \<in> tset ?m l d" for x
    proof -
      have "PGROUNDDOWN x \<notin> tset ?m' l c" using dis x by blast
      moreover from this have "PGROUNDDOWN x \<notin> insert pt (tset (phys s2) l c)"
        using set' x \<open>pt \<notin> tset ?m l d\<close> by auto
      ultimately show ?thesis using mem' mem2 by simp
    qed
    with dis show "tset ?m' l c \<inter> tset ?m l d = {} \<and> (\<forall>x. PGROUNDDOWN x \<in> tset ?m l d \<longrightarrow> ?m' x = ?m x)"
      by blast
  qed
  have ci: "child ?m' pt i = Some c" "no_perm (entry ?m' pt i)"
    using child_entry [OF en [OF i]] en [OF i] c by simp_all
  have oth': "\<forall>j<512. j \<noteq> i \<longrightarrow> entry ?m' pt j = entry ?m pt j" using en others by simp
  have sep_c: "sep ?m' l c" using inv' by (simp add: table_inv_def)
  note rep = table_replace [OF sep i ci oth' sep_c pt' apart]
  have tset': "tset ?m' (Suc l) pt = tset ?m (Suc l) pt \<union> (set xs - set ys)"
    by (simp only: rep(2) tset_old [of i s, OF i] all' Un_ac)
  have "kmem_inv s' ys" using inv' by (simp add: table_inv_def)
  moreover have "tset ?m' (Suc l) pt \<inter> set ys = {}" using tset' free ys zs by blast
  moreover have "page_ok (kend s') p" if "p \<in> tset ?m' (Suc l) pt" for p
    using that ok kmem_inv_pages [OF kx] fields2 fields' by (auto simp: tset' simp del: tset.simps)
  ultimately have "table_inv s' (Suc l) pt ys"
    using rep(1) by (simp add: table_inv_def del: tset.simps sep.simps)
  moreover have "lookup ?m' (Suc l) pt va = lookup ?m (Suc l) pt va" for va
    using rep(4) [of va] look' look2
    by (auto simp: old_lookup_def lookup_Suc)
  moreover have "?m' x = ?m x" if "PGROUNDDOWN x \<notin> tset ?m' (Suc l) pt" for x
  proof -
    have "PGROUNDDOWN x \<notin> tset ?m' l c" "PGROUNDDOWN x \<noteq> pt" 
      using that tset_child [OF ci(1) i, of l] root_in_tset by blast+
    then show ?thesis using mem' mem2 set' by (metis UnI1 insertE)
  qed
  ultimately show ?thesis
    using tset' ys zs fields' fields2 rep(3)
    by (simp add: table_grows_def del: tset.simps sep.simps slot.simps)
qed

text \<open>Installing a new empty table in an invalid entry.\<close>

lemma new_table:
  assumes inv: "table_inv s (Suc l) pt (c # zs)" and i: "i < 512" and none: "child (phys s) pt i = None"
    and k: "kalloc s = (c, s1)"
    and s2: "s2 = s1\<lparr>phys := store64 (memset (phys s1) c 0 (ucast PGSIZE)) (pt + of_nat (8 * i)) (PA2PTE c OR PTE_V)\<rparr>"
  shows "table_inv s2 l c zs" "child (phys s2) pt i = Some c" "no_perm (entry (phys s2) pt i)"
    "\<forall>j<512. j \<noteq> i \<longrightarrow> entry (phys s2) pt j = entry (phys s) pt j"
    "tset (phys s2) l c = {c}" "\<forall>va. lookup (phys s2) l c va = 0"
    "\<forall>x. PGROUNDDOWN x \<notin> {pt, c} \<longrightarrow> phys s2 x = phys s x"
    "kend s2 = kend s" "kmem.more s2 = kmem.more s"
proof -
  from inv have kx: "kmem_inv s (c # zs)" and free: "tset (phys s) (Suc l) pt \<inter> set (c # zs) = {}"
    and al: "aligned pt" by (auto simp: table_inv_def dest: sep_aligned)
  from kx k have s1: "kmem_inv s1 zs" "kend s1 = kend s" "kmem.more s1 = kmem.more s"
    and mem1: "\<And>y. PGROUNDDOWN y \<noteq> c \<Longrightarrow> phys s1 y = phys s y"
    by (auto elim!: kalloc_Cons)
  have c: "page_ok (kend s) c" "c \<notin> set zs" using kx by (auto simp: kmem_inv_def)
  then have alc: "aligned c" and cmax: "c < 2 ^ 56"
    by (auto simp: page_ok_def elim!: order_less_trans)
  have ptc: "pt \<noteq> c" "pt \<notin> set zs" using free root_in_tset [of pt "phys s" "Suc l"] by auto
  have mem: "phys s2 x = (if PGROUNDDOWN x = c then 0 else phys s x)" if "PGROUNDDOWN x \<noteq> pt" for x
    using that mem1 [of x] entry_store_frame [OF al i that]
    by (simp add: s2 memset_page_apply [OF alc, simplified] del: of_nat_mult)
  have ld: "entry (memset (phys s1) c 0 (ucast PGSIZE)) pt j = entry (phys s) pt j" if "j < 512" for j
    using al that by (rule entry_cong) (use ptc mem1 in \<open>auto simp: memset_page_apply [OF alc, simplified]\<close>)
  have zero: "tset (phys s2) l c = {c} \<and> sep (phys s2) l c \<and> lookup (phys s2) l c va = 0" for va
    using alc by (rule table_zero) (use mem ptc in auto)
  have "PTE_FLAGS PTE_V = PTE_V" by (simp add: PTE_FLAGS_def PTE_V_def)
  then have "PTE2PA (PA2PTE c OR PTE_V) = c" "PTE_FLAGS (PA2PTE c OR PTE_V) = PTE_V"
    using alc cmax by (simp_all add: PTE2PA_PA2PTE PTE_FLAGS_PA2PTE)
  moreover from this(2) have "(PA2PTE c OR PTE_V) AND PTE_V \<noteq> 0" "no_perm (PA2PTE c OR PTE_V)"
    by (auto simp: no_perm_flags valid_flags pte_bit_defs)
  ultimately show "child (phys s2) pt i = Some c" "no_perm (entry (phys s2) pt i)"
    using i by (simp_all add: s2 child_def entry_store del: of_nat_mult)
  show "\<forall>j<512. j \<noteq> i \<longrightarrow> entry (phys s2) pt j = entry (phys s) pt j"
    using i ld by (simp add: s2 entry_store del: of_nat_mult)
  show mem2: "\<forall>x. PGROUNDDOWN x \<notin> {pt, c} \<longrightarrow> phys s2 x = phys s x" using mem by simp
  show "tset (phys s2) l c = {c}" "\<forall>va. lookup (phys s2) l c va = 0" using zero by auto
  show "kend s2 = kend s" "kmem.more s2 = kmem.more s" using s1 by (simp_all add: s2)
  have "kmem_inv s2 zs"
  proof (rule kmem_inv_cong [OF s1(1)])
    fix y assume y: "PGROUNDDOWN y \<in> set zs"
    then have "PGROUNDDOWN y \<notin> {pt, c}" using ptc c by auto
    then show "phys s2 y = phys s1 y" using mem2 mem1 by simp
  qed (simp_all add: s2)
  then show "table_inv s2 l c zs" using zero c s1 by (simp add: table_inv_def s2)
qed

lemma walk_level_alloc:
  assumes "table_inv s l pt xs" "walk_level l pt va True s = (pte, s')"
  shows "\<exists>ys. table_inv s' l pt ys \<and> table_grows l pt s xs s' ys \<and> length xs \<le> length ys + l \<and>
    (if pte = 0 then ys = [] else slot (phys s') l pt va = Some pte)"
  using assms
proof (induction l arbitrary: pt s xs)
  case 0
  then have "aligned pt" "pt \<noteq> 0" by (auto simp: table_inv_def kmem_inv_def dest: page_ok_nonzero)
  then show ?case using 0 entry_nonzero [of pt, OF _ _ PX_bound [of 0 va]]
    by (auto intro!: exI [of _ xs] simp: table_grows_refl)
next
  case (Suc l)
  let ?i = "unat (PX (Suc l) va)"
  have i: "?i < 512" by (rule PX_bound)
  show ?case
  proof (cases "child (phys s) pt ?i")
    case (Some c)
    then have w: "walk_level l c va True s = (pte, s')"
      using Suc.prems(2) by (auto simp: child_def entry_def Let_def split: if_splits)
    have inv: "table_inv s l c xs"
      using Suc.prems(1) sep_child [OF _ Some i] tset_child [OF Some i, of l]
      by (auto simp: table_inv_def simp del: tset.simps sep.simps)
    from Suc.IH [OF inv w] obtain ys where ys: "table_inv s' l c ys" "table_grows l c s xs s' ys" "length xs \<le> length ys + l"
      "if pte = 0 then ys = [] else slot (phys s') l c va = Some pte" by blast
    have "table_inv s' (Suc l) pt ys \<and> table_grows (Suc l) pt s xs s' ys \<and>
        (\<forall>va. unat (PX (Suc l) va) = ?i \<longrightarrow> slot (phys s') (Suc l) pt va = slot (phys s') l c va)"
      by (rule walk_step [OF Suc.prems(1) i Some _ _ _ _ _ _ _ _ ys(1,2)])
        (use Suc.prems(1) sep_child [OF _ Some i] in
          \<open>auto simp: table_inv_def old_set_def old_lookup_def Some simp del: sep.simps\<close>)
    moreover have "length xs \<le> length ys + Suc l" using ys(3) by simp
    ultimately show ?thesis using ys(4) by (metis (no_types, lifting))
  next
    case None
    then have v: "load64 (phys s) (pt + 8 * PX (Suc l) va) AND PTE_V = 0"
      by (auto simp: child_def entry_def Let_def split: if_splits)
    show ?thesis
    proof (cases xs)
      case Nil
      then have "kalloc s = (0, s)" using Suc.prems(1) by (simp add: table_inv_def kalloc_Nil)
      then have "pte = 0" "s' = s" using Suc.prems(2) v by simp_all
      then show ?thesis using Suc.prems(1) Nil table_grows_refl [of "Suc l" pt s "[]"] by auto
    next
      case (Cons c zs)
      have "kmem_inv s (c # zs)" using Suc.prems(1) Cons by (simp add: table_inv_def)
      then obtain s1 where k: "kalloc s = (c, s1)" by (rule kalloc_Cons)
      have "c \<noteq> 0" using \<open>kmem_inv s (c # zs)\<close> by (simp add: kmem_inv_def)
      define s2 where "s2 = s1\<lparr>phys := store64 (memset (phys s1) c 0 (ucast PGSIZE))
        (pt + of_nat (8 * ?i)) (PA2PTE c OR PTE_V)\<rparr>"
      note new = new_table [OF Suc.prems(1) [unfolded Cons] i None k s2_def]
      have w: "walk_level l c va True s2 = (pte, s')"
        using Suc.prems(2) v k \<open>c \<noteq> 0\<close> by (simp add: s2_def Let_def)
      from Suc.IH [OF new(1) w] obtain ys where ys: "table_inv s' l c ys"
        "table_grows l c s2 zs s' ys" "length zs \<le> length ys + l"
        "if pte = 0 then ys = [] else slot (phys s') l c va = Some pte" by blast
      have "c \<notin> set zs" using \<open>kmem_inv s (c # zs)\<close> by (simp add: kmem_inv_def)
      then have "table_inv s' (Suc l) pt ys \<and> table_grows (Suc l) pt s xs s' ys \<and>
          (\<forall>va. unat (PX (Suc l) va) = ?i \<longrightarrow> slot (phys s') (Suc l) pt va = slot (phys s') l c va)"
        by (intro walk_step [OF Suc.prems(1) i new(2-4) _ _ _ _ new(8,9) ys(1,2)])
          (use new(5-7) in \<open>auto simp: old_set_def old_lookup_def None Cons\<close>)
      moreover have "length xs \<le> length ys + Suc l" using ys(3) Cons by simp
      ultimately show ?thesis using ys(4) by (metis (no_types, lifting))
    qed
  qed
qed

end
