(* ===== verification/Uvm.thy ===== *)
theory Uvm
  imports Vm_Tables
begin

text \<open>
  User address spaces. A process of xv6 has a page table whose virtual pages \<open>0\<close>, \<open>1\<close>, \dots up
  to its size are mapped to pages of its own and whose two topmost pages are the trampoline
  and the trap frame. \<open>uvm s pt xs M T\<close> is the invariant that this theory keeps: \<open>M\<close> are the
  numbers of the mapped pages of user memory, \<open>T\<close> those of the two topmost pages that are
  mapped, and the pages of \<open>M\<close>, the pages of the table and the free pages \<open>xs\<close> are pairwise
  different.
\<close>

section \<open>Virtual page numbers\<close>

definition va_of :: "nat \<Rightarrow> u64" where
  "va_of i = of_nat (4096 * i)"

definition VPNS :: nat where [simp]: "VPNS = 67108864"
definition UPAGES :: nat where [simp]: "UPAGES = 67108862"

lemma unat_va_of: "i < 2 ^ 50 \<Longrightarrow> unat (va_of i) = 4096 * i"
  unfolding va_of_def by (rule unat_of_nat_u64) simp

lemma va_of_aligned: "i < 2 ^ 50 \<Longrightarrow> aligned (va_of i)"
  by (simp add: aligned_iff unat_va_of)

lemma va_of_less_MAXVA: "i < VPNS \<Longrightarrow> va_of i < MAXVA"
  using unat_va_of [of i] by (simp add: word_less_nat_alt MAXVA_eq)

lemma va_of_Suc: "va_of i + PGSIZE = va_of (Suc i)"
  by (simp add: va_of_def)

lemma va_of_0 [simp]: "va_of 0 = 0"
  by (simp add: va_of_def)

lemma same_slot_va_of:
  assumes "i < 2 * VPNS" "j < 2 * VPNS"
  shows "same_slot 2 (va_of i) (va_of j) \<longleftrightarrow> i = j"
proof
  have u: "unat (va_of i) = 4096 * i" "unat (va_of j) = 4096 * j"
    using assms by (simp_all add: unat_va_of)
  have l: "va_of i < 2 ^ 39" "va_of j < 2 ^ 39" using u assms by (simp_all add: word_less_nat_alt)
  assume "same_slot 2 (va_of i) (va_of j)"
  then have px: "PX 2 (va_of i) = PX 2 (va_of j)" "PX 1 (va_of i) = PX 1 (va_of j)"
      "PX 0 (va_of i) = PX 0 (va_of j)"
    by (simp_all add: same_slot_def)
  have al: "aligned (va_of i)" "aligned (va_of j)" using assms by (simp_all add: va_of_aligned)
  have "va_of i = va_of j" by (rule PX_inj [OF l al px])
  then have "unat (va_of i) = unat (va_of j)" by (rule arg_cong)
  then show "i = j" unfolding u by simp
qed (simp add: same_slot_def)

definition leaf :: "memory \<Rightarrow> u64 \<Rightarrow> nat \<Rightarrow> u64" where
  "leaf m pt i = lookup m 2 pt (va_of i)"

section \<open>One page at a time\<close>

lemma walk_read:
  "i < VPNS \<Longrightarrow> walk pt (va_of i) False s =
     Ok (case slot (phys s) 2 pt (va_of i) of None \<Rightarrow> 0 | Some p \<Rightarrow> p, s)"
  using va_of_less_MAXVA [of i] by (simp add: walk_def walk_level_read)

text \<open>Slots are never at address 0, so a valid leaf entry is one that the walk finds.\<close>

lemma slot_nonzero:
  assumes "table_inv s l pt xs" "slot (phys s) l pt va = Some p"
  shows "p \<noteq> 0"
proof -
  from assms slot_in_tset [of "phys s" l pt va p]
  obtain q i where q: "q \<in> tset (phys s) l pt" "aligned q" "i < 512" "p = q + of_nat (8 * i)"
    by (auto simp: table_inv_def)
  moreover have "q \<noteq> 0" using assms(1) q(1) page_ok_nonzero [of "kend s" q]
    by (auto simp: table_inv_def kmem_inv_def)
  ultimately show ?thesis using entry_nonzero [of q i] by simp
qed

lemma walk_valid:
  assumes "table_inv s 2 pt xs" "i < VPNS" "leaf (phys s) pt i AND PTE_V \<noteq> 0"
  obtains p where "walk pt (va_of i) False s = Ok (p, s)" "p \<noteq> 0"
    "load64 (phys s) p = leaf (phys s) pt i" "slot (phys s) 2 pt (va_of i) = Some p"
proof -
  obtain p where p: "slot (phys s) 2 pt (va_of i) = Some p" "load64 (phys s) p = leaf (phys s) pt i"
    using assms(3) by (auto simp: leaf_def lookup_def split: option.splits)
  then show thesis
    using that [of p] slot_nonzero [OF assms(1) p(1)] walk_read [OF assms(2), of pt s] by simp
qed

lemma leaf_update:
  assumes inv: "table_inv s 2 pt xs" and i: "i < VPNS" and p: "slot (phys s) 2 pt (va_of i) = Some p"
    and s': "s' = s\<lparr>phys := store64 (phys s) p v\<rparr>"
  shows "table_inv s' 2 pt xs" "tset (phys s') 2 pt = tset (phys s) 2 pt"
    "\<forall>j<2 * VPNS. leaf (phys s') pt j = (if j = i then v else leaf (phys s) pt j)"
    "\<forall>x. PGROUNDDOWN x \<notin> tset (phys s) 2 pt \<longrightarrow> phys s' x = phys s x"
proof -
  from inv have sep: "sep (phys s) 2 pt" and free: "tset (phys s) 2 pt \<inter> set xs = {}"
    by (auto simp: table_inv_def)
  have *: "tset (phys s') 2 pt = tset (phys s) 2 pt \<and> sep (phys s') 2 pt \<and>
      slot (phys s') 2 pt vb = slot (phys s) 2 pt vb \<and>
      lookup (phys s') 2 pt vb = (if same_slot 2 (va_of i) vb then v else lookup (phys s) 2 pt vb) \<and>
      (\<forall>x. PGROUNDDOWN x \<notin> tset (phys s) 2 pt \<longrightarrow> phys s' x = phys s x)" for vb
    using sep p by (rule leaf_store) (simp add: s')
  then have mem: "\<And>x. PGROUNDDOWN x \<notin> tset (phys s) 2 pt \<Longrightarrow> phys s' x = phys s x"
    and ts: "tset (phys s') 2 pt = tset (phys s) 2 pt" and sep': "sep (phys s') 2 pt" by blast+
  from inv have "kmem_inv s xs" by (simp add: table_inv_def)
  then have "kmem_inv s' xs"
  proof (rule kmem_inv_cong)
    show "phys s' y = phys s y" if "PGROUNDDOWN y \<in> set xs" for y using mem that free by blast
  qed (simp_all add: s')
  then show "table_inv s' 2 pt xs"
    using inv sep' ts by (simp add: table_inv_def) (simp add: s')
  show "tset (phys s') 2 pt = tset (phys s) 2 pt" by (rule ts)
  show "\<forall>x. PGROUNDDOWN x \<notin> tset (phys s) 2 pt \<longrightarrow> phys s' x = phys s x" using mem by blast
  have "leaf (phys s') pt j = (if same_slot 2 (va_of i) (va_of j) then v else leaf (phys s) pt j)" for j
    using * [of "va_of j"] by (simp add: leaf_def)
  then show "\<forall>j<2 * VPNS. leaf (phys s') pt j = (if j = i then v else leaf (phys s) pt j)"
    using same_slot_va_of [of i] i by auto
qed

text \<open>Mapping one page: either the entry is set, or memory ran out and every entry is as before.\<close>

lemma mappages_page:
  assumes inv: "table_inv s 2 pt xs" and i: "i < VPNS" and "leaf (phys s) pt i AND PTE_V = 0"
  shows "\<exists>r s' ys. mappages pt (va_of i) PGSIZE pa perm s = Ok (r, s') \<and> table_inv s' 2 pt ys \<and>
    kend s' = kend s \<and> kmem.more s' = kmem.more s \<and> set ys \<subseteq> set xs \<and> length xs \<le> length ys + 2 \<and>
    tset (phys s') 2 pt = tset (phys s) 2 pt \<union> (set xs - set ys) \<and>
    (\<forall>x. PGROUNDDOWN x \<notin> tset (phys s') 2 pt \<longrightarrow> phys s' x = phys s x) \<and>
    (r = 0 \<and> (\<forall>j<2 * VPNS. leaf (phys s') pt j =
       (if j = i then PA2PTE pa OR perm OR PTE_V else leaf (phys s) pt j)) \<or>
     r = -1 \<and> ys = [] \<and> (\<forall>j. leaf (phys s') pt j = leaf (phys s) pt j))"
proof -
  have al: "aligned (va_of i)" using i by (intro va_of_aligned) simp
  then have first: "PGROUNDDOWN (va_of i) = va_of i" by simp
  have "va_of i + PGSIZE - 1 = va_of i + of_nat 4095" by simp
  then have final: "PGROUNDDOWN (va_of i + PGSIZE - 1) = va_of i"
    using PGROUNDDOWN_in_page [OF al, of 4095] by (simp add: add.commute)
  obtain p s1 where w: "walk_level 2 pt (va_of i) True s = (p, s1)" by fastforce
  from walk_level_alloc [OF inv w] obtain ys where ys: "table_inv s1 2 pt ys"
    "table_grows 2 pt s xs s1 ys" "length xs \<le> length ys + 2" "if p = 0 then ys = [] else slot (phys s1) 2 pt (va_of i) = Some p"
    by blast
  have l1: "leaf (phys s1) pt j = leaf (phys s) pt j" for j
    using ys(2) by (simp add: table_grows_def leaf_def)
  have wk: "walk pt (va_of i) True s = Ok (p, s1)"
    using va_of_less_MAXVA [OF i] w by (simp add: walk_def)
  have m: "mappages pt (va_of i) PGSIZE pa perm s =
      (if p = 0 then Ok (-1, s1)
       else if load64 (phys s1) p AND PTE_V \<noteq> 0 then Panic ''mappages: remap''
       else Ok (0, s1\<lparr>phys := store64 (phys s1) p (PA2PTE pa OR perm OR PTE_V)\<rparr>))"
    using first final wk
    by (simp add: mappages_def mappages_from.simps [of pt "va_of i" "va_of i"])
  show ?thesis
  proof (cases "p = 0")
    case True
    then show ?thesis using m ys l1 by (auto simp: table_grows_def)
  next
    case False
    then have sl: "slot (phys s1) 2 pt (va_of i) = Some p" using ys(4) by simp
    then have "load64 (phys s1) p = leaf (phys s1) pt i" by (simp add: leaf_def lookup_def)
    then have "load64 (phys s1) p AND PTE_V = 0" using l1 assms(3) by simp
    moreover define s' where "s' = s1\<lparr>phys := store64 (phys s1) p (PA2PTE pa OR perm OR PTE_V)\<rparr>"
    ultimately have m2: "mappages pt (va_of i) PGSIZE pa perm s = Ok (0, s')" using m False by simp
    have f: "kend s' = kend s1" "kmem.more s' = kmem.more s1" by (simp_all add: s'_def)
    note u = leaf_update [OF ys(1) i sl s'_def]
    show ?thesis
      by (intro exI [of _ 0] exI [of _ s'] exI [of _ ys])
        (use m2 ys(2,3) u l1 f in \<open>auto simp: table_grows_def\<close>)
  qed
qed

section \<open>The invariant\<close>

definition leaf_ok :: "u64 \<Rightarrow> u64 \<Rightarrow> bool" where
  "leaf_ok e pte \<longleftrightarrow> pte AND PTE_V \<noteq> 0 \<and> PTE_FLAGS pte \<noteq> PTE_V \<and> page_ok e (PTE2PA pte)"

abbreviation upage :: "'a kmem_scheme \<Rightarrow> u64 \<Rightarrow> nat \<Rightarrow> u64" where
  "upage s pt i \<equiv> PTE2PA (leaf (phys s) pt i)"

definition uvm :: "'a kmem_scheme \<Rightarrow> u64 \<Rightarrow> u64 list \<Rightarrow> nat set \<Rightarrow> nat set \<Rightarrow> bool" where
  "uvm s pt xs M T \<longleftrightarrow> table_inv s 2 pt xs \<and> M \<subseteq> {..<UPAGES} \<and> T \<subseteq> {UPAGES..<VPNS} \<and>
     (\<forall>i\<in>M. leaf_ok (kend s) (leaf (phys s) pt i)) \<and> inj_on (upage s pt) M \<and>
     upage s pt ` M \<inter> (tset (phys s) 2 pt \<union> set xs) = {} \<and>
     (\<forall>i\<in>T. leaf (phys s) pt i AND PTE_V \<noteq> 0 \<and> PTE_FLAGS (leaf (phys s) pt i) \<noteq> PTE_V) \<and>
     (\<forall>i<2 * VPNS. i \<notin> M \<union> T \<longrightarrow> leaf (phys s) pt i AND PTE_V = 0)"

text \<open>The pages a table and its memory consist of, together with the free ones.\<close>

definition pool :: "'a kmem_scheme \<Rightarrow> u64 \<Rightarrow> u64 list \<Rightarrow> nat set \<Rightarrow> u64 set" where
  "pool s pt xs M = set xs \<union> tset (phys s) 2 pt \<union> upage s pt ` M"

lemma uvm_table: "uvm s pt xs M T \<Longrightarrow> table_inv s 2 pt xs"
  by (simp add: uvm_def)

lemma uvm_free: "uvm s pt xs M T \<Longrightarrow> kmem_inv s xs"
  by (simp add: uvm_def table_inv_def)

lemma uvm_leaf: "uvm s pt xs M T \<Longrightarrow> i \<in> M \<Longrightarrow> leaf_ok (kend s) (leaf (phys s) pt i) \<and> i < UPAGES"
  by (auto simp: uvm_def)

text \<open>The entries stay while the table or the free list change.\<close>

lemma uvm_keep:
  assumes u: "uvm s pt xs M T" and s': "table_inv s' 2 pt ys" "kend s' = kend s"
    and l: "\<forall>j<2 * VPNS. leaf (phys s') pt j = leaf (phys s) pt j"
    and apart: "upage s pt ` M \<inter> (tset (phys s') 2 pt \<union> set ys) = {}"
  shows "uvm s' pt ys M T" "upage s' pt ` M = upage s pt ` M"
proof -
  have M: "\<And>j. j \<in> M \<union> T \<Longrightarrow> j < 2 * VPNS" using u by (auto simp: uvm_def)
  have lM: "leaf (phys s') pt j = leaf (phys s) pt j" if "j \<in> M \<union> T" for j
    using l that M [of j] by auto
  show im: "upage s' pt ` M = upage s pt ` M" using lM by (intro image_cong) auto
  have "inj_on (upage s' pt) M" using u lM by (simp add: uvm_def inj_on_def)
  moreover have "leaf_ok (kend s') (leaf (phys s') pt j)" if "j \<in> M" for j
    using that lM [of j] u s'(2) by (simp add: uvm_def)
  moreover have "leaf (phys s') pt j AND PTE_V \<noteq> 0 \<and> PTE_FLAGS (leaf (phys s') pt j) \<noteq> PTE_V"
    if "j \<in> T" for j using that lM [of j] u by (simp add: uvm_def)
  moreover have "leaf (phys s') pt j AND PTE_V = 0" if "j < 2 * VPNS" "j \<notin> M \<union> T" for j
    using that l u by (simp add: uvm_def)
  moreover have "M \<subseteq> {..<UPAGES}" "T \<subseteq> {UPAGES..<VPNS}" using u by (auto simp: uvm_def)
  ultimately show "uvm s' pt ys M T" using s'(1) apart unfolding im [symmetric] uvm_def by blast
qed

text \<open>Adding page \<open>i\<close> with entry \<open>v\<close>, and removing it.\<close>

lemma uvm_insert:
  assumes u: "uvm s pt xs M T" and i: "i < UPAGES" "i \<notin> M"
    and s': "table_inv s' 2 pt ys" "kend s' = kend s" "set ys \<subseteq> set xs"
      "tset (phys s') 2 pt = tset (phys s) 2 pt \<union> (set xs - set ys)"
    and l: "\<forall>j<2 * VPNS. leaf (phys s') pt j = (if j = i then v else leaf (phys s) pt j)"
    and v: "leaf_ok (kend s) v" "PTE2PA v \<notin> pool s pt xs M"
  shows "uvm s' pt ys (insert i M) T" "pool s' pt ys (insert i M) = insert (PTE2PA v) (pool s pt xs M)"
proof -
  have M: "\<And>j. j \<in> M \<Longrightarrow> j < 2 * VPNS \<and> j \<noteq> i" and T: "\<And>j. j \<in> T \<Longrightarrow> j < 2 * VPNS \<and> j \<noteq> i"
    using u i by (auto simp: uvm_def)
  have lv: "leaf (phys s') pt i = v" using l i by simp
  have lM: "leaf (phys s') pt j = leaf (phys s) pt j" if "j \<in> M \<union> T" for j
    using l that M [of j] T [of j] by auto
  have lU: "leaf (phys s') pt j = leaf (phys s) pt j" if "j < 2 * VPNS" "j \<noteq> i" for j
    using l that by auto
  have imM: "upage s' pt ` M = upage s pt ` M" using lM by (intro image_cong) auto
  have inj: "inj_on (upage s' pt) M \<longleftrightarrow> inj_on (upage s pt) M" using lM by (intro inj_on_cong) auto
  have img: "upage s pt ` M \<inter> (tset (phys s) 2 pt \<union> set xs) = {}" "inj_on (upage s pt) M"
    "M \<subseteq> {..<UPAGES}" "T \<subseteq> {UPAGES..<VPNS}" "\<And>j. j \<in> M \<Longrightarrow> leaf_ok (kend s) (leaf (phys s) pt j)"
    "\<And>j. j \<in> T \<Longrightarrow> leaf (phys s) pt j AND PTE_V \<noteq> 0 \<and> PTE_FLAGS (leaf (phys s) pt j) \<noteq> PTE_V"
    "\<And>j. j < 2 * VPNS \<Longrightarrow> j \<notin> M \<union> T \<Longrightarrow> leaf (phys s) pt j AND PTE_V = 0"
    using u by (auto simp: uvm_def)
  have new: "PTE2PA v \<notin> upage s pt ` M" "PTE2PA v \<notin> tset (phys s) 2 pt \<union> set xs"
    using v(2) by (auto simp: pool_def)
  have "inj_on (upage s' pt) (insert i M)"
    using i inj img(2) new(1) imM lv by (simp add: inj_on_insert)
  moreover have "upage s' pt ` insert i M \<inter> (tset (phys s') 2 pt \<union> set ys) = {}"
    using img(1) new imM lv s'(3,4) by auto
  moreover have "leaf_ok (kend s') (leaf (phys s') pt j)" if "j \<in> insert i M" for j
    using that lv v(1) lM [of j] img(5) [of j] s'(2) by auto
  moreover have "leaf (phys s') pt j AND PTE_V = 0" if "j < 2 * VPNS" "j \<notin> insert i M \<union> T" for j
    using img(7) [of j] that lU by simp
  moreover have "leaf (phys s') pt j AND PTE_V \<noteq> 0 \<and> PTE_FLAGS (leaf (phys s') pt j) \<noteq> PTE_V"
    if "j \<in> T" for j using that lM [of j] img(6) by simp
  ultimately show "uvm s' pt ys (insert i M) T" using s'(1) img(3,4) i unfolding uvm_def by simp
  show "pool s' pt ys (insert i M) = insert (PTE2PA v) (pool s pt xs M)"
    using imM lv s'(3,4) by (auto simp: pool_def)
qed

lemma disjoint_shrink: "A \<subseteq> B \<Longrightarrow> B \<inter> (C \<union> X) = {} \<Longrightarrow> p \<notin> A \<Longrightarrow> Y \<subseteq> insert p X \<Longrightarrow> A \<inter> Y = {}"
  by blast

lemma disjoint_sub: "A \<subseteq> B \<Longrightarrow> B \<inter> (C \<union> X) = {} \<Longrightarrow> Y \<subseteq> X \<Longrightarrow> A \<inter> Y = {}"
  by blast

lemma disjoint_mono: "A \<subseteq> B \<Longrightarrow> B \<inter> C = {} \<Longrightarrow> A \<inter> C = {}"
  by blast

lemma uvm_remove:
  assumes u: "uvm s pt xs M T" and i: "i \<in> M \<union> T"
    and s': "table_inv s' 2 pt ys" "kend s' = kend s" "tset (phys s') 2 pt = tset (phys s) 2 pt"
    and ys: "set ys \<subseteq> set xs \<union> (if i \<in> M then {upage s pt i} else {})"
    and l: "\<forall>j<2 * VPNS. leaf (phys s') pt j = (if j = i then 0 else leaf (phys s) pt j)"
  shows "uvm s' pt ys (M - {i}) (T - {i})"
proof -
  have M: "\<And>j. j \<in> M \<union> T \<Longrightarrow> j < 2 * VPNS" using u by (auto simp: uvm_def)
  have lM: "leaf (phys s') pt j = leaf (phys s) pt j" if "j \<in> (M - {i}) \<union> (T - {i})" for j
    using l that M [of j] by auto
  have lU: "leaf (phys s') pt j AND PTE_V = 0"
    if "j < 2 * VPNS" "j \<notin> (M - {i}) \<union> (T - {i})" for j
  proof (cases "j = i")
    case True
    then show ?thesis using l that by simp
  next
    case False
    then have "leaf (phys s) pt j AND PTE_V = 0" using u that by (simp add: uvm_def)
    then show ?thesis using l that False by simp
  qed
  have im: "upage s' pt ` (M - {i}) = upage s pt ` (M - {i})" using lM by (intro image_cong) auto
  have injM: "inj_on (upage s pt) M" using u by (simp add: uvm_def)
  then have "inj_on (upage s pt) (M - {i})" by (rule inj_on_subset) auto
  then have "inj_on (upage s' pt) (M - {i})" using lM by (simp add: inj_on_def)
  moreover have img: "upage s pt ` M \<inter> (tset (phys s) 2 pt \<union> set xs) = {}" using u by (simp add: uvm_def)
  have sub: "upage s pt ` (M - {i}) \<subseteq> upage s pt ` M" by (rule image_mono) auto
  have "upage s pt ` (M - {i}) \<inter> set ys = {}"
  proof (cases "i \<in> M")
    case True
    then have "upage s pt i \<notin> upage s pt ` (M - {i})" using injM by (auto simp: inj_on_def)
    moreover have "set ys \<subseteq> insert (upage s pt i) (set xs)" using ys True by simp
    ultimately show ?thesis by (rule disjoint_shrink [OF sub img])
  next
    case False
    then have "set ys \<subseteq> set xs" using ys by simp
    then show ?thesis by (rule disjoint_sub [OF sub img])
  qed
  then have "upage s' pt ` (M - {i}) \<inter> (tset (phys s') 2 pt \<union> set ys) = {}"
    unfolding im s'(3) using disjoint_mono [OF sub img] by (simp add: Int_Un_distrib)
  moreover have "leaf_ok (kend s') (leaf (phys s') pt j)" if "j \<in> M - {i}" for j
    using that lM [of j] u s'(2) by (simp add: uvm_def)
  moreover have "leaf (phys s') pt j AND PTE_V \<noteq> 0 \<and> PTE_FLAGS (leaf (phys s') pt j) \<noteq> PTE_V"
    if "j \<in> T - {i}" for j using that lM [of j] u by (simp add: uvm_def)
  moreover have "M - {i} \<subseteq> {..<UPAGES}" "T - {i} \<subseteq> {UPAGES..<VPNS}" using u by (auto simp: uvm_def)
  ultimately show ?thesis using s'(1) lU unfolding uvm_def by blast
qed

end
