(* ===== verification/Uvm_Ops.thy ===== *)
theory Uvm_Ops
  imports Uvm
begin

text \<open>
  Unmapping pages of user memory, and the relation \<open>uvm_step\<close> by which the theories on user
  address spaces say what an operation leaves alone.
\<close>

section \<open>Unmapping\<close>

lemma table_inv_frame:
  assumes inv: "table_inv s l pt xs" and s': "kmem_inv s' ys" "kend s' = kend s"
    "tset (phys s) l pt \<inter> set ys = {}" and mem: "\<And>x. PGROUNDDOWN x \<in> tset (phys s) l pt \<Longrightarrow> phys s' x = phys s x"
  shows "table_inv s' l pt ys" "tset (phys s') l pt = tset (phys s) l pt"
    "slot (phys s') l pt va = slot (phys s) l pt va" "lookup (phys s') l pt va = lookup (phys s) l pt va"
proof -
  have "sep (phys s) l pt" using inv by (simp add: table_inv_def)
  note f = table_frame [OF this mem]
  show "table_inv s' l pt ys" using inv s' f by (simp add: table_inv_def)
  show "tset (phys s') l pt = tset (phys s) l pt"
    "slot (phys s') l pt va = slot (phys s) l pt va" "lookup (phys s') l pt va = lookup (phys s) l pt va"
    using f by blast+
qed

text \<open>One iteration of the loop of \<^verbatim>\<open>uvmunmap\<close>, with and without freeing the page.\<close>

lemma unmap_step:
  assumes u: "uvm s pt xs M T" and i: "i \<in> M" and n: "i < n" "n \<le> UPAGES"
  obtains s' where "uvmunmap_from pt (va_of i) (va_of n) True s = uvmunmap_from pt (va_of (Suc i)) (va_of n) True s'"
    "uvm s' pt (upage s pt i # xs) (M - {i}) T" "kend s' = kend s" "kmem.more s' = kmem.more s"
    "tset (phys s') 2 pt = tset (phys s) 2 pt"
    "\<forall>j<2 * VPNS. leaf (phys s') pt j = (if j = i then 0 else leaf (phys s) pt j)"
    "\<forall>x. PGROUNDDOWN x \<notin> insert (upage s pt i) (tset (phys s) 2 pt) \<longrightarrow> phys s' x = phys s x"
proof -
  let ?p = "upage s pt i"
  have ok: "leaf_ok (kend s) (leaf (phys s) pt i)" and iU: "i < UPAGES" using uvm_leaf [OF u i] by auto
  then have iV: "i < VPNS" by simp
  have pfree: "?p \<notin> set xs" "?p \<notin> tset (phys s) 2 pt" using u i by (auto simp: uvm_def)
  from uvm_table [OF u] iV obtain q where q: "walk pt (va_of i) False s = Ok (q, s)" "q \<noteq> 0"
    "load64 (phys s) q = leaf (phys s) pt i" "slot (phys s) 2 pt (va_of i) = Some q"
    by (rule walk_valid) (use ok in \<open>auto simp: leaf_ok_def\<close>)
  from uvm_free [OF u] obtain s1 where s1: "kfree ?p s = Ok s1" "kmem_inv s1 (?p # xs)"
    "kend s1 = kend s" "kmem.more s1 = kmem.more s" "\<And>y. PGROUNDDOWN y \<noteq> ?p \<Longrightarrow> phys s1 y = phys s y"
    by (rule kfree_ok) (use ok pfree in \<open>auto simp: leaf_ok_def\<close>)
  have disj: "tset (phys s) 2 pt \<inter> set (?p # xs) = {}"
    using uvm_table [OF u] pfree by (auto simp: table_inv_def)
  have mem: "phys s1 x = phys s x" if "PGROUNDDOWN x \<in> tset (phys s) 2 pt" for x
    using s1(5) [of x] that pfree(2) by metis
  note f = table_inv_frame [OF uvm_table [OF u] s1(2,3) disj mem]
  define s2 where "s2 = s1\<lparr>phys := store64 (phys s1) q 0\<rparr>"
  have sl: "slot (phys s1) 2 pt (va_of i) = Some q" using f(3) q(4) by simp
  note w = leaf_update [OF f(1) iV sl s2_def]
  have lf: "leaf (phys s1) pt j = leaf (phys s) pt j" for j using f(4) by (simp add: leaf_def)
  have leaf2: "\<forall>j<2 * VPNS. leaf (phys s2) pt j = (if j = i then 0 else leaf (phys s) pt j)"
    using w(3) lf by simp
  have "T - {i} = T" using u iU by (auto simp: uvm_def)
  then have u2: "uvm s2 pt (?p # xs) (M - {i}) T"
    using uvm_remove [OF u UnI1 [OF i] w(1) _ _ _ leaf2] s1(3) w(2) f(2) i by (simp add: s2_def)
  have lt: "va_of i < va_of n" using n by (simp add: word_less_nat_alt unat_va_of)
  have step: "uvmunmap_from pt (va_of i) (va_of n) True s = uvmunmap_from pt (va_of (Suc i)) (va_of n) True s2"
    unfolding uvmunmap_from.simps [of pt "va_of i"] using lt q ok s1(1) va_of_Suc [of i]
    by (simp add: leaf_ok_def s2_def)
  have mem2: "\<forall>x. PGROUNDDOWN x \<notin> insert ?p (tset (phys s) 2 pt) \<longrightarrow> phys s2 x = phys s x"
    using w(4) f(2) s1(5) by simp
  show thesis
    by (rule that [OF step u2 _ _ _ leaf2 mem2]) (use s1 w(2) f(2) in \<open>simp_all add: s2_def\<close>)
qed

lemma uvmunmap_free:
  assumes "uvm s pt xs M T" "{k..<n} \<subseteq> M" "k \<le> n" "n \<le> UPAGES"
  shows "\<exists>s'. uvmunmap_from pt (va_of k) (va_of n) True s = Ok s' \<and>
    uvm s' pt (rev (map (upage s pt) [k..<n]) @ xs) (M - {k..<n}) T \<and>
    kend s' = kend s \<and> kmem.more s' = kmem.more s \<and> tset (phys s') 2 pt = tset (phys s) 2 pt \<and>
    (\<forall>j<2 * VPNS. leaf (phys s') pt j = (if j \<in> {k..<n} then 0 else leaf (phys s) pt j)) \<and>
    (\<forall>x. PGROUNDDOWN x \<notin> upage s pt ` {k..<n} \<union> tset (phys s) 2 pt \<longrightarrow> phys s' x = phys s x)"
  using assms
proof (induction "n - k" arbitrary: k s xs M)
  case 0
  then have "k = n" by simp
  then show ?case using 0 by (simp add: uvmunmap_from.simps)
next
  case (Suc d)
  then have k: "k < n" "k \<in> M" by auto
  from Suc.prems(1) k(2,1) Suc.prems(4) obtain s1 where s1:
    "uvmunmap_from pt (va_of k) (va_of n) True s = uvmunmap_from pt (va_of (Suc k)) (va_of n) True s1"
    "uvm s1 pt (upage s pt k # xs) (M - {k}) T" "kend s1 = kend s" "kmem.more s1 = kmem.more s"
    "tset (phys s1) 2 pt = tset (phys s) 2 pt"
    "\<forall>j<2 * VPNS. leaf (phys s1) pt j = (if j = k then 0 else leaf (phys s) pt j)"
    "\<forall>x. PGROUNDDOWN x \<notin> insert (upage s pt k) (tset (phys s) 2 pt) \<longrightarrow> phys s1 x = phys s x"
    by (rule unmap_step)
  have "\<exists>s'. uvmunmap_from pt (va_of (Suc k)) (va_of n) True s1 = Ok s' \<and>
    uvm s' pt (rev (map (upage s1 pt) [Suc k..<n]) @ upage s pt k # xs) (M - {k} - {Suc k..<n}) T \<and>
    kend s' = kend s1 \<and> kmem.more s' = kmem.more s1 \<and> tset (phys s') 2 pt = tset (phys s1) 2 pt \<and>
    (\<forall>j<2 * VPNS. leaf (phys s') pt j = (if j \<in> {Suc k..<n} then 0 else leaf (phys s1) pt j)) \<and>
    (\<forall>x. PGROUNDDOWN x \<notin> upage s1 pt ` {Suc k..<n} \<union> tset (phys s1) 2 pt \<longrightarrow> phys s' x = phys s1 x)"
    using Suc.hyps(2) Suc.prems k by (intro Suc.hyps(1) s1(2)) auto
  then obtain s' where s': "uvmunmap_from pt (va_of (Suc k)) (va_of n) True s1 = Ok s'"
    "uvm s' pt (rev (map (upage s1 pt) [Suc k..<n]) @ upage s pt k # xs) (M - {k} - {Suc k..<n}) T"
    "kend s' = kend s1" "kmem.more s' = kmem.more s1" "tset (phys s') 2 pt = tset (phys s1) 2 pt"
    "\<forall>j<2 * VPNS. leaf (phys s') pt j = (if j \<in> {Suc k..<n} then 0 else leaf (phys s1) pt j)"
    "\<forall>x. PGROUNDDOWN x \<notin> upage s1 pt ` {Suc k..<n} \<union> tset (phys s1) 2 pt \<longrightarrow> phys s' x = phys s1 x"
    by blast
  have same: "upage s1 pt j = upage s pt j" if "j \<in> {Suc k..<n}" for j
    using s1(6) that Suc.prems(4) by auto
  then have im: "upage s1 pt ` {Suc k..<n} = upage s pt ` {Suc k..<n}" by (intro image_cong) auto
  have ls: "map (upage s1 pt) [Suc k..<n] = map (upage s pt) [Suc k..<n]" using same by simp
  have range: "{k..<n} = insert k {Suc k..<n}" "[k..<n] = k # [Suc k..<n]"
    using k by (auto simp: upt_conv_Cons)
  have "M - {k} - {Suc k..<n} = M - {k..<n}" unfolding range(1) by blast
  with s'(2) have "uvm s' pt (rev (map (upage s pt) [k..<n]) @ xs) (M - {k..<n}) T"
    unfolding ls range(2) by simp
  moreover have "\<forall>j<2 * VPNS. leaf (phys s') pt j = (if j \<in> {k..<n} then 0 else leaf (phys s) pt j)"
    using s'(6) s1(6) unfolding range(1) by simp
  moreover have "\<forall>x. PGROUNDDOWN x \<notin> upage s pt ` {k..<n} \<union> tset (phys s) 2 pt \<longrightarrow> phys s' x = phys s x"
    using s'(7) s1(7) unfolding range(1) im s1(5) by simp
  ultimately show ?case using s' s1 by simp
qed

section \<open>What an operation leaves alone\<close>

text \<open>
  \<open>uvm_step\<close>: from mapped pages \<open>M\<close> to \<open>M'\<close> no page appears or disappears from the pool, and the
  entries and contents of the pages in both stay, as does all memory outside the pool.
\<close>

definition uvm_step ::
  "u64 \<Rightarrow> 'a kmem_scheme \<Rightarrow> u64 list \<Rightarrow> nat set \<Rightarrow> 'a kmem_scheme \<Rightarrow> u64 list \<Rightarrow> nat set \<Rightarrow> bool" where
  "uvm_step pt s xs M s' ys M' \<longleftrightarrow>
     kend s' = kend s \<and> kmem.more s' = kmem.more s \<and> pool s' pt ys M' = pool s pt xs M \<and>
     (\<forall>j<2 * VPNS. j \<in> M \<inter> M' \<or> UPAGES \<le> j \<longrightarrow> leaf (phys s') pt j = leaf (phys s) pt j) \<and>
     (\<forall>x. PGROUNDDOWN x \<notin> pool s pt xs M \<or> PGROUNDDOWN x \<in> upage s pt ` (M \<inter> M') \<longrightarrow> phys s' x = phys s x)"

lemma uvm_step_refl: "uvm_step pt s xs M s xs M"
  by (simp add: uvm_step_def)

lemma uvm_step_trans:
  assumes "uvm_step pt s xs M s1 zs M1" "uvm_step pt s1 zs M1 s' ys M'" "M \<inter> M' \<subseteq> M1"
    and U: "M \<subseteq> {..<UPAGES}"
  shows "uvm_step pt s xs M s' ys M'"
proof -
  have l1: "leaf (phys s1) pt j = leaf (phys s) pt j" if "j < 2 * VPNS" "j \<in> M \<inter> M1 \<or> UPAGES \<le> j" for j
    using assms(1) that unfolding uvm_step_def by blast
  have l2: "leaf (phys s') pt j = leaf (phys s1) pt j" if "j < 2 * VPNS" "j \<in> M1 \<inter> M' \<or> UPAGES \<le> j" for j
    using assms(2) that unfolding uvm_step_def by blast
  have m1: "phys s1 x = phys s x" if "PGROUNDDOWN x \<notin> pool s pt xs M \<or> PGROUNDDOWN x \<in> upage s pt ` (M \<inter> M1)" for x
    using assms(1) that unfolding uvm_step_def by blast
  have m2: "phys s' x = phys s1 x" if "PGROUNDDOWN x \<notin> pool s1 pt zs M1 \<or> PGROUNDDOWN x \<in> upage s1 pt ` (M1 \<inter> M')" for x
    using assms(2) that unfolding uvm_step_def by blast
  have p: "pool s1 pt zs M1 = pool s pt xs M" using assms(1) by (simp add: uvm_step_def)
  have "phys s' x = phys s x"
    if x: "PGROUNDDOWN x \<notin> pool s pt xs M \<or> PGROUNDDOWN x \<in> upage s pt ` (M \<inter> M')" for x
    using x
  proof
    assume "PGROUNDDOWN x \<in> upage s pt ` (M \<inter> M')"
    then obtain j where j: "j \<in> M" "j \<in> M'" "PGROUNDDOWN x = upage s pt j" by blast
    then have j1: "j \<in> M1" "j < 2 * VPNS" using assms(3) U by auto
    then have "upage s1 pt j = upage s pt j" using l1 j by simp
    then show ?thesis using m1 m2 j j1 by (metis IntI image_eqI)
  qed (use m1 m2 p in simp)
  moreover have "leaf (phys s') pt j = leaf (phys s) pt j"
    if "j < 2 * VPNS" "j \<in> M \<inter> M' \<or> UPAGES \<le> j" for j
    using l1 [of j] l2 [of j] that assms(3) by auto
  ultimately show ?thesis using assms(1,2) by (simp add: uvm_step_def)
qed

lemma uvm_apart: "uvm s pt xs M T \<Longrightarrow> upage s pt ` M \<inter> (tset (phys s) 2 pt \<union> set xs) = {}"
  by (simp add: uvm_def)

lemma uvm_user: "uvm s pt xs M T \<Longrightarrow> M \<subseteq> {..<UPAGES}"
  by (simp add: uvm_def)

lemma disjointD: "A \<inter> B = {} \<Longrightarrow> x \<in> A \<Longrightarrow> x \<notin> B"
  by blast

text \<open>Freeing a range of pages is such a step.\<close>

lemma uvmunmap_step:
  assumes u: "uvm s pt xs M T" and "{k..<n} \<subseteq> M" "k \<le> n" "n \<le> UPAGES"
  shows "\<exists>s' ys. uvmunmap_from pt (va_of k) (va_of n) True s = Ok s' \<and>
    uvm s' pt ys (M - {k..<n}) T \<and> uvm_step pt s xs M s' ys (M - {k..<n}) \<and>
    ys = rev (map (upage s pt) [k..<n]) @ xs \<and> tset (phys s') 2 pt = tset (phys s) 2 pt"
proof -
  let ?ys = "rev (map (upage s pt) [k..<n]) @ xs" and ?M' = "M - {k..<n}"
  from uvmunmap_free [OF assms] obtain s' where s':
    "uvmunmap_from pt (va_of k) (va_of n) True s = Ok s'" "uvm s' pt ?ys ?M' T"
    "kend s' = kend s" "kmem.more s' = kmem.more s" "tset (phys s') 2 pt = tset (phys s) 2 pt"
    "\<forall>j<2 * VPNS. leaf (phys s') pt j = (if j \<in> {k..<n} then 0 else leaf (phys s) pt j)"
    "\<forall>x. PGROUNDDOWN x \<notin> upage s pt ` {k..<n} \<union> tset (phys s) 2 pt \<longrightarrow> phys s' x = phys s x"
    by blast
  have M: "j < 2 * VPNS" if "j \<in> M" for j using uvm_user [OF u] that by auto
  have im: "upage s' pt ` ?M' = upage s pt ` ?M'" using s'(6) M by (intro image_cong) auto
  have "M = ?M' \<union> {k..<n}" using assms(2) by blast
  then have "upage s pt ` M = upage s pt ` (?M' \<union> {k..<n})" by (rule arg_cong)
  also have "\<dots> = upage s pt ` ?M' \<union> upage s pt ` {k..<n}" by (rule image_Un)
  finally have split: "upage s pt ` M = upage s pt ` ?M' \<union> upage s pt ` {k..<n}" .
  have "set ?ys = upage s pt ` {k..<n} \<union> set xs" by simp
  then have pool: "pool s' pt ?ys ?M' = pool s pt xs M"
    by (simp only: pool_def s'(5) im split Un_ac)
  have inj: "inj_on (upage s pt) M" using u by (simp add: uvm_def)
  have "upage s pt ` ?M' \<inter> upage s pt ` {k..<n} = {}"
    using inj assms(2) by (subst inj_on_image_Int [OF inj, symmetric]) auto
  moreover have "upage s pt ` ?M' \<inter> tset (phys s) 2 pt = {}"
    by (rule disjoint_mono [OF image_mono uvm_apart [OF u, unfolded Int_Un_distrib Un_empty, THEN conjunct1]]) auto
  ultimately have apart: "upage s pt ` ?M' \<inter> (upage s pt ` {k..<n} \<union> tset (phys s) 2 pt) = {}"
    by (simp only: Int_Un_distrib Un_empty_left)
  have sub: "upage s pt ` {k..<n} \<union> tset (phys s) 2 pt \<subseteq> pool s pt xs M"
    by (rule subsetI) (simp only: pool_def split Un_iff, metis)
  have "M \<inter> ?M' = ?M'" by blast
  then have mem: "phys s' x = phys s x"
    if "PGROUNDDOWN x \<notin> pool s pt xs M \<or> PGROUNDDOWN x \<in> upage s pt ` (M \<inter> ?M')" for x
    using that s'(7) contra_subsetD [OF sub, of "PGROUNDDOWN x"] disjointD [OF apart, of "PGROUNDDOWN x"]
    by metis
  have "uvm_step pt s xs M s' ?ys ?M'"
    unfolding uvm_step_def using s'(3,4,6) pool mem assms(4) by auto
  then show ?thesis using s'(1,2,5) by blast
qed

end
