(* ===== verification/Uvm_Alloc.thy ===== *)
theory Uvm_Alloc
  imports Uvm_Ops
begin

text \<open>
  \<^verbatim>\<open>uvmalloc\<close> and \<^verbatim>\<open>uvmdealloc\<close>: sizes in bytes and in pages, shrinking, and growing by fresh zeroed
  pages, with the way back when memory runs out.
\<close>

section \<open>Sizes\<close>

definition npages :: "u64 \<Rightarrow> nat" where
  "npages sz = (unat sz + 4095) div 4096"

lemma TRAPFRAME_eq: "TRAPFRAME = 0x3FFFFFE000"
  by (simp add: TRAPFRAME_def TRAMPOLINE_def MAXVA_eq)

lemma npages_le: "sz \<le> TRAPFRAME \<Longrightarrow> npages sz \<le> UPAGES"
  by (simp add: npages_def TRAPFRAME_eq word_le_nat_alt)

lemma PGROUNDUP_npages:
  assumes "sz \<le> TRAPFRAME"
  shows "PGROUNDUP sz = va_of (npages sz)"
proof -
  have "unat sz \<le> 0x3FFFFFE000" using assms by (simp add: TRAPFRAME_eq word_le_nat_alt)
  then have "unat (PGROUNDUP sz) = npages sz * 4096"
    by (subst unat_PGROUNDUP) (simp_all add: npages_def)
  moreover have "unat (va_of (npages sz)) = 4096 * npages sz"
    using npages_le [OF assms] by (intro unat_va_of) simp
  ultimately show ?thesis by (simp add: word_unat_eq_iff)
qed

lemma npages_mono: "a \<le> b \<Longrightarrow> npages a \<le> npages b"
  by (simp add: npages_def word_le_nat_alt div_le_mono)

lemma npages_va_of: "k \<le> UPAGES \<Longrightarrow> npages (va_of k) = k"
  by (simp add: npages_def unat_va_of)

lemma va_of_le: "k \<le> UPAGES \<Longrightarrow> va_of k \<le> TRAPFRAME"
  by (simp add: word_le_nat_alt unat_va_of TRAPFRAME_eq)

lemma va_of_less_iff: "j \<le> VPNS \<Longrightarrow> k \<le> VPNS \<Longrightarrow> va_of j < va_of k \<longleftrightarrow> j < k"
  by (simp add: word_less_nat_alt unat_va_of)

text \<open>The \<^verbatim>\<open>int\<close> that holds the number of pages is wide enough.\<close>

lemma int_npages:
  assumes "k < 2 ^ 31"
  shows "scast (ucast (of_nat k :: u64) :: u32) = (of_nat k :: u64)"
proof -
  have "(ucast (of_nat k :: u64) :: u32) = of_nat k"
    by (rule word_unat_eq_iff [THEN iffD2])
      (use assms in \<open>simp add: unsigned_ucast_eq unat_of_nat take_bit_nat_eq_self\<close>)
  moreover have "sint (of_nat k :: u32) = int k"
    using assms by (simp add: sint_uint uint_nat unat_of_nat signed_take_bit_int_eq_self)
  ultimately show ?thesis by (simp add: scast_eq)
qed

lemma unmap_range:
  assumes "k \<le> n" "n \<le> UPAGES"
  shows "scast (ucast ((va_of n - va_of k) div PGSIZE) :: u32) = (of_nat (n - k) :: u64)"
    and "va_of k + of_nat (n - k) * PGSIZE = va_of n"
proof -
  have "va_of n - va_of k = of_nat (4096 * (n - k))"
    using assms by (simp add: va_of_def right_diff_distrib)
  moreover have div: "of_nat (4096 * d) div PGSIZE = (of_nat d :: u64)" if "d < 2 ^ 50" for d
  proof (rule word_unat_eq_iff [THEN iffD2])
    have "unat (of_nat (4096 * d) :: u64) = 4096 * d" "unat (of_nat d :: u64) = d"
      by (rule unat_of_nat_u64, use that in simp)+
    then show "unat (of_nat (4096 * d) div PGSIZE :: u64) = unat (of_nat d :: u64)"
      by (simp only: unat_div) simp
  qed
  moreover have "n - k < 2 ^ 50" using assms by simp
  ultimately show "scast (ucast ((va_of n - va_of k) div PGSIZE) :: u32) = (of_nat (n - k) :: u64)"
    using assms by (simp only: div [of "n - k"]) (rule int_npages, simp)
  show "va_of k + of_nat (n - k) * PGSIZE = va_of n"
    using assms by (simp add: va_of_def right_diff_distrib)
qed

section \<open>Shrinking and growing\<close>

lemma uvmdealloc_step:
  assumes u: "uvm s pt xs {..<npages oldsz} T" and sz: "oldsz \<le> TRAPFRAME"
  shows "\<exists>s' ys. uvmdealloc pt oldsz newsz s = Ok (min oldsz newsz, s') \<and>
    uvm s' pt ys {..<npages (min oldsz newsz)} T \<and>
    uvm_step pt s xs {..<npages oldsz} s' ys {..<npages (min oldsz newsz)}"
proof (cases "newsz < oldsz \<and> npages newsz < npages oldsz")
  case False
  show ?thesis
  proof (cases "newsz < oldsz")
    case True
    then have "npages newsz = npages oldsz" using False npages_mono [of newsz oldsz] by simp
    moreover have "newsz \<le> TRAPFRAME" using True sz by simp
    ultimately show ?thesis using u sz True
      by (auto simp: uvmdealloc_def PGROUNDUP_npages min_def intro!: exI [of _ xs] uvm_step_refl)
  next
    case False
    then have "min oldsz newsz = oldsz" by (simp add: min_def not_less)
    then show ?thesis using u False
      by (auto simp: uvmdealloc_def intro!: exI [of _ xs] uvm_step_refl)
  qed
next
  case True
  let ?k = "npages newsz" and ?n = "npages oldsz"
  have nsz: "newsz \<le> TRAPFRAME" "min oldsz newsz = newsz" using True sz by (auto simp: min_def)
  have n: "?n \<le> UPAGES" using npages_le [OF sz] .
  have "{?k..<?n} \<subseteq> {..<?n}" "?k \<le> ?n" using True by auto
  from uvmunmap_step [OF u this n] obtain s' ys where s':
    "uvmunmap_from pt (va_of ?k) (va_of ?n) True s = Ok s'" "uvm s' pt ys ({..<?n} - {?k..<?n}) T"
    "uvm_step pt s xs {..<?n} s' ys ({..<?n} - {?k..<?n})" by blast
  have M': "{..<?n} - {?k..<?n} = {..<?k}" using True by auto
  have "va_of ?k mod PGSIZE = 0"
    using va_of_aligned [of ?k] n True by (simp add: aligned_def)
  moreover have "va_of ?k < va_of ?n" using True n by (subst va_of_less_iff) auto
  moreover have "\<not> oldsz \<le> newsz" using True by (simp add: not_le)
  moreover note unmap_range [of ?k ?n]
  ultimately have "uvmdealloc pt oldsz newsz s = Ok (newsz, s')"
    using True sz nsz s'(1) n by (simp add: uvmdealloc_def PGROUNDUP_npages uvmunmap_def Let_def)
  then show ?thesis using s'(2,3) unfolding M' nsz(2) by blast
qed

lemma uvm_unmapped:
  assumes "uvm s pt xs M T" "k < UPAGES" "k \<notin> M"
  shows "leaf (phys s) pt k AND PTE_V = 0"
proof -
  have "k \<notin> T" using assms(1,2) by (auto simp: uvm_def)
  then show ?thesis using assms by (simp add: uvm_def)
qed

text \<open>A fresh page: taken from the free list, filled, and not yet mapped.\<close>

lemma kalloc_fill:
  assumes u: "uvm s pt (c # zs) M T" and k: "kalloc s = (c, s1)"
    and s2: "s2 = s1\<lparr>phys := m\<rparr>" and m: "\<forall>x. PGROUNDDOWN x \<noteq> c \<longrightarrow> m x = phys s1 x"
  shows "uvm s2 pt zs M T" "page_ok (kend s) c" "c \<notin> pool s2 pt zs M"
    "kend s2 = kend s" "kmem.more s2 = kmem.more s" "insert c (pool s2 pt zs M) = pool s pt (c # zs) M"
    "\<forall>j. leaf (phys s2) pt j = leaf (phys s) pt j"
    "\<forall>x. PGROUNDDOWN x \<noteq> c \<longrightarrow> phys s2 x = phys s x"
proof -
  from uvm_free [OF u] k have s1: "kmem_inv s1 zs" "kend s1 = kend s"
    "kmem.more s1 = kmem.more s" "\<And>y. PGROUNDDOWN y \<noteq> c \<Longrightarrow> phys s1 y = phys s y"
    by (auto elim!: kalloc_Cons)
  have c: "page_ok (kend s) c" "c \<notin> set zs" using uvm_free [OF u] by (auto simp: kmem_inv_def)
  have ct: "c \<notin> tset (phys s) 2 pt" using uvm_table [OF u] by (auto simp: table_inv_def)
  have mem: "phys s2 x = phys s x" if "PGROUNDDOWN x \<noteq> c" for x using that m s1(4) by (simp add: s2)
  have k2: "kmem_inv s2 zs"
  proof (rule kmem_inv_cong [OF s1(1)])
    show "phys s2 y = phys s1 y" if "PGROUNDDOWN y \<in> set zs" for y
      using that c(2) mem [of y] s1(4) [of y] by metis
  qed (simp_all add: s2)
  have ke: "kend s2 = kend s" using s1(2) by (simp add: s2)
  have disj: "tset (phys s) 2 pt \<inter> set zs = {}" using uvm_table [OF u] by (auto simp: table_inv_def)
  have mem': "phys s2 x = phys s x" if "PGROUNDDOWN x \<in> tset (phys s) 2 pt" for x
    using that ct mem [of x] by auto
  note f = table_inv_frame [OF uvm_table [OF u] k2 ke disj mem']
  have lf: "leaf (phys s2) pt j = leaf (phys s) pt j" for j using f(4) by (simp add: leaf_def)
  have "upage s pt ` M \<inter> (tset (phys s2) 2 pt \<union> set zs) = {}" using uvm_apart [OF u] f(2) by auto
  note kp = uvm_keep [OF u f(1) ke _ this]
  have "c \<notin> upage s pt ` M" using uvm_apart [OF u] by auto
  then show "c \<notin> pool s2 pt zs M" using lf c(2) ct f(2) by (simp add: pool_def)
  show "insert c (pool s2 pt zs M) = pool s pt (c # zs) M" using lf f(2) by (simp add: pool_def)
  show "uvm s2 pt zs M T" using kp(1) lf by simp
  show "\<forall>j. leaf (phys s2) pt j = leaf (phys s) pt j" using lf by simp
  show "page_ok (kend s) c" "kend s2 = kend s" by (fact c ke)+
  show "kmem.more s2 = kmem.more s" using s1(3) by (simp add: s2)
  show "\<forall>x. PGROUNDDOWN x \<noteq> c \<longrightarrow> phys s2 x = phys s x" using mem by simp
qed

lemma uvm_step_fresh:
  assumes "insert c (pool s2 pt zs M) = pool s pt xs M" "c \<notin> pool s2 pt zs M"
    and "c \<in> set xs" "uvm s pt xs M T"
    and "\<forall>j. leaf (phys s2) pt j = leaf (phys s) pt j"
    and "\<forall>x. PGROUNDDOWN x \<noteq> c \<longrightarrow> phys s2 x = phys s x"
    and s': "kend s' = kend s" "kmem.more s' = kmem.more s" "pool s' pt ys M' = insert c (pool s2 pt zs M)"
    and l: "\<forall>j<2 * VPNS. j \<in> M \<or> UPAGES \<le> j \<longrightarrow> leaf (phys s') pt j = leaf (phys s2) pt j"
    and m: "\<forall>x. PGROUNDDOWN x \<notin> insert c (tset (phys s') 2 pt) \<longrightarrow> phys s' x = phys s2 x"
    and ts: "upage s pt ` M \<inter> tset (phys s') 2 pt = {}" "tset (phys s') 2 pt \<subseteq> pool s pt xs M"
  shows "uvm_step pt s xs M s' ys M'"
proof -
  have "c \<notin> upage s pt ` M" using uvm_apart [OF assms(4)] assms(3) by blast
  then have "phys s' x = phys s x"
    if "PGROUNDDOWN x \<notin> pool s pt xs M \<or> PGROUNDDOWN x \<in> upage s pt ` (M \<inter> M')" for x
  proof -
    have "PGROUNDDOWN x \<noteq> c \<and> PGROUNDDOWN x \<notin> tset (phys s') 2 pt"
      using that
    proof
      assume "PGROUNDDOWN x \<notin> pool s pt xs M"
      then show ?thesis using ts(2) assms(3) by (auto simp: pool_def)
    next
      assume "PGROUNDDOWN x \<in> upage s pt ` (M \<inter> M')"
      then have "PGROUNDDOWN x \<in> upage s pt ` M" by (rule image_mono [THEN subsetD, rotated]) simp
      then show ?thesis using \<open>c \<notin> upage s pt ` M\<close> disjointD [OF ts(1)] by metis
    qed
    then show ?thesis using m assms(6) by simp
  qed
  then show ?thesis using s' assms(1,5) l unfolding uvm_step_def by auto
qed

lemma fresh_pte:
  assumes "page_ok e c" "PTE_FLAGS perm = perm"
  shows "PTE2PA (PA2PTE c OR perm OR PTE_V) = c" "PTE_FLAGS (PA2PTE c OR perm OR PTE_V) = perm OR PTE_V"
proof -
  have "c < 2 ^ 56" using assms(1) by (auto simp: page_ok_def elim!: order_less_trans)
  moreover have "PTE_FLAGS (perm OR PTE_V) = perm OR PTE_V"
    using assms(2) by (simp add: PTE_FLAGS_def PTE_V_def bit.conj_disj_distrib2)
  ultimately show "PTE2PA (PA2PTE c OR perm OR PTE_V) = c"
      "PTE_FLAGS (PA2PTE c OR perm OR PTE_V) = perm OR PTE_V"
    using page_ok_aligned [OF assms(1)] by (simp_all add: PTE2PA_PA2PTE PTE_FLAGS_PA2PTE)
qed

text \<open>
  Mapping a fresh page \<open>c\<close> as page \<open>k\<close>: it becomes part of user memory, or memory for the
  tables ran out and nothing but the tables has changed.
\<close>

lemma map_fresh:
  assumes u: "uvm s2 pt zs M T" and k: "k < UPAGES" "k \<notin> M"
    and c: "page_ok (kend s2) c" "c \<notin> pool s2 pt zs M"
    and perm: "PTE_FLAGS perm = perm" "perm OR PTE_V \<noteq> PTE_V"
  shows "\<exists>r s' ys. mappages pt (va_of k) PGSIZE c perm s2 = Ok (r, s') \<and>
    kend s' = kend s2 \<and> kmem.more s' = kmem.more s2 \<and> length zs \<le> length ys + 2 \<and> c \<notin> tset (phys s') 2 pt \<and>
    tset (phys s') 2 pt \<subseteq> pool s2 pt zs M \<and> upage s2 pt ` M \<inter> tset (phys s') 2 pt = {} \<and>
    (\<forall>x. PGROUNDDOWN x \<notin> tset (phys s') 2 pt \<longrightarrow> phys s' x = phys s2 x) \<and>
    (r = 0 \<and> uvm s' pt ys (insert k M) T \<and> pool s' pt ys (insert k M) = insert c (pool s2 pt zs M) \<and>
       (\<forall>j<2 * VPNS. leaf (phys s') pt j = (if j = k then PA2PTE c OR perm OR PTE_V else leaf (phys s2) pt j)) \<or>
     r = -1 \<and> ys = [] \<and> uvm s' pt ys M T \<and> pool s' pt ys M = pool s2 pt zs M \<and> c \<notin> set ys \<and>
       (\<forall>j. leaf (phys s') pt j = leaf (phys s2) pt j))"
proof -
  have kV: "k < VPNS" using k by simp
  have "leaf (phys s2) pt k AND PTE_V = 0" by (rule uvm_unmapped [OF u k])
  from mappages_page [OF uvm_table [OF u] kV this, of c perm] obtain r s' ys where m:
    "mappages pt (va_of k) PGSIZE c perm s2 = Ok (r, s')" "table_inv s' 2 pt ys"
    "kend s' = kend s2" "kmem.more s' = kmem.more s2" "set ys \<subseteq> set zs" "length zs \<le> length ys + 2"
    "tset (phys s') 2 pt = tset (phys s2) 2 pt \<union> (set zs - set ys)"
    "\<forall>x. PGROUNDDOWN x \<notin> tset (phys s') 2 pt \<longrightarrow> phys s' x = phys s2 x"
    "r = 0 \<and> (\<forall>j<2 * VPNS. leaf (phys s') pt j =
       (if j = k then PA2PTE c OR perm OR PTE_V else leaf (phys s2) pt j)) \<or>
     r = -1 \<and> ys = [] \<and> (\<forall>j. leaf (phys s') pt j = leaf (phys s2) pt j)"
    by blast
  have ts: "tset (phys s') 2 pt \<union> set ys = tset (phys s2) 2 pt \<union> set zs" using m(5,7) by blast
  then have sub: "tset (phys s') 2 pt \<subseteq> pool s2 pt zs M" unfolding pool_def by auto
  have apart: "upage s2 pt ` M \<inter> (tset (phys s') 2 pt \<union> set ys) = {}"
    unfolding ts by (rule uvm_apart [OF u])
  then have apart': "upage s2 pt ` M \<inter> tset (phys s') 2 pt = {}" by (simp add: Int_Un_distrib)
  note pa = fresh_pte(1) [OF c(1) perm(1)] and fl = fresh_pte(2) [OF c(1) perm(1)]
  have v: "(perm OR PTE_V) AND PTE_V \<noteq> 0" by (simp add: bit.conj_disj_distrib2 PTE_V_def)
  have ok: "leaf_ok (kend s2) (PA2PTE c OR perm OR PTE_V)"
    unfolding leaf_ok_def pa fl using c(1) perm(2) v fl by (subst valid_flags) simp
  show ?thesis using m(9)
  proof
    assume r: "r = 0 \<and> (\<forall>j<2 * VPNS. leaf (phys s') pt j =
       (if j = k then PA2PTE c OR perm OR PTE_V else leaf (phys s2) pt j))"
    then have l: "\<forall>j<2 * VPNS. leaf (phys s') pt j =
       (if j = k then PA2PTE c OR perm OR PTE_V else leaf (phys s2) pt j)" by blast
    note i = uvm_insert [OF u k m(2,3,5,7) l ok, unfolded pa, OF c(2)]
    show ?thesis using m(1,3,4,6,8) i sub apart' c(2) r by blast
  next
    assume r: "r = -1 \<and> ys = [] \<and> (\<forall>j. leaf (phys s') pt j = leaf (phys s2) pt j)"
    note k = uvm_keep [OF u m(2,3) _ apart]
    have "pool s' pt ys M = pool s2 pt zs M"
      using k(2) r ts unfolding pool_def by (simp add: Un_ac)
    then show ?thesis using m(1,3,4,6,8) k(1) sub apart' c(2) r by auto
  qed
qed

lemma va_of_less_sz:
  assumes "k \<le> UPAGES"
  shows "va_of k < sz \<longleftrightarrow> k < npages sz"
proof -
  have "unat (va_of k) = 4096 * k" using assms by (intro unat_va_of) simp
  then show ?thesis by (auto simp: word_less_nat_alt npages_def)
qed

text \<open>Giving a page back that was not mapped after all.\<close>

lemma kfree_unmapped:
  assumes u: "uvm s pt xs M T" and c: "page_ok (kend s) c" "c \<notin> pool s pt xs M"
  obtains s' where "kfree c s = Ok s'" "uvm s' pt (c # xs) M T" "kend s' = kend s"
    "kmem.more s' = kmem.more s" "pool s' pt (c # xs) M = insert c (pool s pt xs M)"
    "\<forall>j. leaf (phys s') pt j = leaf (phys s) pt j" "\<forall>x. PGROUNDDOWN x \<noteq> c \<longrightarrow> phys s' x = phys s x"
    "tset (phys s') 2 pt = tset (phys s) 2 pt"
proof -
  have c': "c \<notin> set xs" "c \<notin> tset (phys s) 2 pt" "c \<notin> upage s pt ` M" using c(2) by (auto simp: pool_def)
  from uvm_free [OF u] c(1) c'(1) obtain s' where s': "kfree c s = Ok s'" "kmem_inv s' (c # xs)"
    "kend s' = kend s" "kmem.more s' = kmem.more s" "\<And>y. PGROUNDDOWN y \<noteq> c \<Longrightarrow> phys s' y = phys s y"
    by (rule kfree_ok) auto
  have disj: "tset (phys s) 2 pt \<inter> set (c # xs) = {}"
    using uvm_table [OF u] c'(2) by (auto simp: table_inv_def)
  have mem: "phys s' x = phys s x" if "PGROUNDDOWN x \<in> tset (phys s) 2 pt" for x
    using that c'(2) s'(5) [of x] by auto
  note f = table_inv_frame [OF uvm_table [OF u] s'(2,3) disj mem]
  have lf: "leaf (phys s') pt j = leaf (phys s) pt j" for j using f(4) by (simp add: leaf_def)
  have "upage s pt ` M \<inter> (tset (phys s') 2 pt \<union> set (c # xs)) = {}"
    using uvm_apart [OF u] f(2) c'(3) by auto
  note k = uvm_keep [OF u f(1) s'(3) _ this]
  show thesis
    using that [OF s'(1)] s'(3-5) k lf f(2) by (simp add: pool_def)
qed

text \<open>
  The body of the loops of \<^verbatim>\<open>uvmalloc\<close> and \<^verbatim>\<open>uvmcopy\<close>: allocate a page, fill it, map it, and give
  it back if that fails.
\<close>

lemma grow_page:
  assumes u: "uvm s pt (c # zs) M T" and k: "k < UPAGES" "k \<notin> M" and kc: "kalloc s = (c, s1)"
    and s2: "s2 = s1\<lparr>phys := m\<rparr>" and m: "\<forall>x. PGROUNDDOWN x \<noteq> c \<longrightarrow> m x = phys s1 x"
    and perm: "PTE_FLAGS perm = perm" "perm OR PTE_V \<noteq> PTE_V"
  shows "\<exists>r s3 ys. mappages pt (va_of k) PGSIZE c perm s2 = Ok (r, s3) \<and>
    length zs \<le> length ys + 2 \<and> (r = 0 \<and> uvm s3 pt ys (insert k M) T \<and> uvm_step pt s (c # zs) M s3 ys (insert k M) \<and>
       leaf (phys s3) pt k = PA2PTE c OR perm OR PTE_V \<and> (\<forall>x. PGROUNDDOWN x = c \<longrightarrow> phys s3 x = m x) \<or>
     r = -1 \<and> ys = [] \<and> (\<exists>s4. kfree c s3 = Ok s4 \<and> uvm s4 pt (c # ys) M T \<and> uvm_step pt s (c # zs) M s4 (c # ys) M))"
proof -
  note f = kalloc_fill [OF u kc s2 m]
  from f(1) k obtain r s3 ys where r: "mappages pt (va_of k) PGSIZE c perm s2 = Ok (r, s3)"
    "kend s3 = kend s2" "kmem.more s3 = kmem.more s2" "length zs \<le> length ys + 2" "c \<notin> tset (phys s3) 2 pt"
    "tset (phys s3) 2 pt \<subseteq> pool s2 pt zs M" "upage s2 pt ` M \<inter> tset (phys s3) 2 pt = {}"
    "\<forall>x. PGROUNDDOWN x \<notin> tset (phys s3) 2 pt \<longrightarrow> phys s3 x = phys s2 x"
    "r = 0 \<and> uvm s3 pt ys (insert k M) T \<and> pool s3 pt ys (insert k M) = insert c (pool s2 pt zs M) \<and>
       (\<forall>j<2 * VPNS. leaf (phys s3) pt j = (if j = k then PA2PTE c OR perm OR PTE_V else leaf (phys s2) pt j)) \<or>
     r = -1 \<and> ys = [] \<and> uvm s3 pt ys M T \<and> pool s3 pt ys M = pool s2 pt zs M \<and> c \<notin> set ys \<and>
       (\<forall>j. leaf (phys s3) pt j = leaf (phys s2) pt j)"
    using map_fresh [OF f(1) k _ f(3) perm] f(2,4) by auto
  have cx: "c \<in> set (c # zs)" by simp
  have up: "upage s pt ` M \<inter> tset (phys s3) 2 pt = {}" using r(7) f(7) by simp
  have sub: "tset (phys s3) 2 pt \<subseteq> pool s pt (c # zs) M" using r(6) f(6) by blast
  note step = uvm_step_fresh [OF f(6) f(3) cx u f(7,8)]
  show ?thesis using r(9)
  proof
    assume a: "r = 0 \<and> uvm s3 pt ys (insert k M) T \<and> pool s3 pt ys (insert k M) = insert c (pool s2 pt zs M) \<and>
       (\<forall>j<2 * VPNS. leaf (phys s3) pt j = (if j = k then PA2PTE c OR perm OR PTE_V else leaf (phys s2) pt j))"
    have "uvm_step pt s (c # zs) M s3 ys (insert k M)"
      by (rule step) (use a r f up sub k in auto)
    moreover have "phys s3 x = m x" if "PGROUNDDOWN x = c" for x using r(5,8) that by (simp add: s2)
    ultimately show ?thesis using a r(1,4) k by auto
  next
    assume a: "r = -1 \<and> ys = [] \<and> uvm s3 pt ys M T \<and> pool s3 pt ys M = pool s2 pt zs M \<and> c \<notin> set ys \<and>
       (\<forall>j. leaf (phys s3) pt j = leaf (phys s2) pt j)"
    then have "uvm s3 pt ys M T" "page_ok (kend s3) c" "c \<notin> pool s3 pt ys M" using f r(2) by auto
    then obtain s4 where s4: "kfree c s3 = Ok s4" "uvm s4 pt (c # ys) M T" "kend s4 = kend s3"
      "kmem.more s4 = kmem.more s3" "pool s4 pt (c # ys) M = insert c (pool s3 pt ys M)"
      "\<forall>j. leaf (phys s4) pt j = leaf (phys s3) pt j" "\<forall>x. PGROUNDDOWN x \<noteq> c \<longrightarrow> phys s4 x = phys s3 x"
      "tset (phys s4) 2 pt = tset (phys s3) 2 pt"
      by (rule kfree_unmapped)
    have "uvm_step pt s (c # zs) M s4 (c # ys) M"
      by (rule step) (use a r f up sub s4 in auto)
    then show ?thesis using a r(1,4) s4(1,2) by auto
  qed
qed

text \<open>Page \<open>j\<close> is all zeros and mapped with the permissions asked for.\<close>

definition fresh_user_page :: "'a kmem_scheme \<Rightarrow> u64 \<Rightarrow> u64 \<Rightarrow> nat \<Rightarrow> bool" where
  "fresh_user_page s pt perm j \<longleftrightarrow> PTE_FLAGS (leaf (phys s) pt j) = perm OR PTE_V \<and>
     (\<forall>x. PGROUNDDOWN x = upage s pt j \<longrightarrow> phys s x = 0)"

lemma uvm_step_page:
  assumes "uvm_step pt s xs M s' ys M'" "j \<in> M \<inter> M'" "j < UPAGES"
  shows "leaf (phys s') pt j = leaf (phys s) pt j"
    "\<forall>x. PGROUNDDOWN x = upage s pt j \<longrightarrow> phys s' x = phys s x"
  using assms unfolding uvm_step_def by auto

lemma user_perm:
  assumes "PTE_FLAGS x = x"
  shows "PTE_FLAGS (PTE_R OR PTE_U OR x) = PTE_R OR PTE_U OR x"
    and "(PTE_R OR PTE_U OR x) OR PTE_V \<noteq> PTE_V"
proof -
  show "PTE_FLAGS (PTE_R OR PTE_U OR x) = PTE_R OR PTE_U OR x"
    using assms by (simp add: PTE_FLAGS_def pte_bit_defs bit.conj_disj_distrib2)
  have "bit ((PTE_R OR PTE_U OR x) OR PTE_V) 1" by (simp add: pte_bit_defs bit_or_iff)
  moreover have "\<not> bit PTE_V 1" by (simp add: PTE_V_def bit_1_iff)
  ultimately show "(PTE_R OR PTE_U OR x) OR PTE_V \<noteq> PTE_V" by metis
qed

lemma uvmalloc_from_step:
  assumes "uvm s pt xs {..<k} T" "k0 \<le> k" "k \<le> npages newsz" "newsz \<le> TRAPFRAME"
    and perm: "PTE_FLAGS xperm = xperm"
  shows "\<exists>r s' ys. uvmalloc_from pt (va_of k0) (va_of k) newsz xperm s = Ok (r, s') \<and>
    (r = newsz \<and> length xs \<le> length ys + 3 * (npages newsz - k) \<and> uvm s' pt ys {..<npages newsz} T \<and>
       uvm_step pt s xs {..<k} s' ys {..<npages newsz} \<and>
       (\<forall>j\<in>{k..<npages newsz}. fresh_user_page s' pt (PTE_R OR PTE_U OR xperm) j) \<or>
     r = 0 \<and> length xs \<le> 3 * (npages newsz - k) \<and> uvm s' pt ys {..<k0} T \<and>
       uvm_step pt s xs {..<k} s' ys {..<k0})"
  using assms(1-4)
proof (induction "npages newsz - k" arbitrary: k s xs)
  case 0
  then have "k = npages newsz" by simp
  moreover have "\<not> va_of k < newsz"
    using calculation va_of_less_sz [of k newsz] npages_le [OF 0(5)] by simp
  ultimately show ?case using 0 uvm_step_refl by (simp add: uvmalloc_from.simps) blast
next
  case (Suc d)
  let ?n = "npages newsz" and ?perm = "PTE_R OR PTE_U OR xperm"
  have k: "k < ?n" "k < UPAGES" using Suc npages_le [OF Suc.prems(4)] by auto
  have lt: "va_of k < newsz" using va_of_less_sz [of k newsz] k by simp
  have give_up: "\<exists>s' ys. bind_ok (uvmdealloc pt (va_of k) (va_of k0) t) (\<lambda>(_, s). Ok (0, s)) =
        Ok (0 :: u64, s') \<and> uvm s' pt ys {..<k0} T \<and> uvm_step pt t zs {..<k} s' ys {..<k0}"
    if t: "uvm t pt zs {..<k} T" for t :: "'a kmem_scheme" and zs
  proof -
    have "npages (va_of k) = k" "npages (va_of k0) = k0" "va_of k \<le> TRAPFRAME"
      "min (va_of k) (va_of k0) = va_of k0"
      using k Suc.prems(2) by (auto simp: npages_va_of va_of_le min_def word_le_nat_alt unat_va_of TRAPFRAME_eq)
    then show ?thesis using uvmdealloc_step [of t pt zs "va_of k" T "va_of k0"] t by auto
  qed
  show ?case
  proof (cases xs)
    case Nil
    then have "kalloc s = (0, s)" using uvm_free [OF Suc.prems(1)] by (simp add: kalloc_Nil)
    then have "uvmalloc_from pt (va_of k0) (va_of k) newsz xperm s =
        bind_ok (uvmdealloc pt (va_of k) (va_of k0) s) (\<lambda>(_, s). Ok (0, s))"
      using lt by (simp add: uvmalloc_from.simps [of _ _ "va_of k"])
    then show ?thesis using give_up [OF Suc.prems(1)] Nil by auto
  next
    case (Cons c zs)
    note u = Suc.prems(1) [unfolded Cons]
    obtain s1 where s1: "kalloc s = (c, s1)" using uvm_free [OF u] by (auto elim: kalloc_Cons)
    have c: "c \<noteq> 0" "aligned c" using uvm_free [OF u] by (auto simp: kmem_inv_def page_ok_def)
    define s2 where "s2 = s1\<lparr>phys := memset (phys s1) c 0 (ucast PGSIZE)\<rparr>"
    have kM: "k \<notin> {..<k}" by simp
    have mem: "\<forall>x. PGROUNDDOWN x \<noteq> c \<longrightarrow> memset (phys s1) c 0 (ucast PGSIZE) x = phys s1 x"
      using memset_page_apply [OF c(2)] by simp
    have zero: "memset (phys s1) c 0 (ucast PGSIZE) x = 0" if "PGROUNDDOWN x = c" for x
      using memset_page_apply [OF c(2)] that by simp
    have unf: "uvmalloc_from pt (va_of k0) (va_of k) newsz xperm s =
        bind_ok (mappages pt (va_of k) PGSIZE c ?perm s2) (\<lambda>(r, s).
          if r \<noteq> 0
          then bind_ok (kfree c s) (\<lambda>s.
            bind_ok (uvmdealloc pt (va_of k) (va_of k0) s) (\<lambda>(_, s). Ok (0, s)))
          else uvmalloc_from pt (va_of k0) (va_of (Suc k)) newsz xperm s)"
      unfolding uvmalloc_from.simps [of pt "va_of k0" "va_of k"] va_of_Suc s2_def
      using lt s1 c(1) by simp
    from grow_page [OF u k(2) kM s1 s2_def mem user_perm [OF perm]] obtain r s3 ys where r:
      "mappages pt (va_of k) PGSIZE c ?perm s2 = Ok (r, s3)"
      "length zs \<le> length ys + 2"
      "r = 0 \<and> uvm s3 pt ys (insert k {..<k}) T \<and> uvm_step pt s (c # zs) {..<k} s3 ys (insert k {..<k}) \<and>
         leaf (phys s3) pt k = PA2PTE c OR ?perm OR PTE_V \<and>
         (\<forall>x. PGROUNDDOWN x = c \<longrightarrow> phys s3 x = memset (phys s1) c 0 (ucast PGSIZE) x) \<or>
       r = -1 \<and> ys = [] \<and> (\<exists>s4. kfree c s3 = Ok s4 \<and> uvm s4 pt (c # ys) {..<k} T \<and>
         uvm_step pt s (c # zs) {..<k} s4 (c # ys) {..<k})" by blast
    have kU: "{..<k} \<subseteq> {..<UPAGES}" "insert k {..<k} = {..<Suc k}" using k by auto
    show ?thesis using r(3)
    proof (elim disjE conjE exE)
      assume r0: "r = 0" and u3: "uvm s3 pt ys (insert k {..<k}) T"
        and st: "uvm_step pt s (c # zs) {..<k} s3 ys (insert k {..<k})"
        and lf: "leaf (phys s3) pt k = PA2PTE c OR ?perm OR PTE_V"
        and ze: "\<forall>x. PGROUNDDOWN x = c \<longrightarrow> phys s3 x = memset (phys s1) c 0 (ucast PGSIZE) x"
      have "\<exists>r s' ys'. uvmalloc_from pt (va_of k0) (va_of (Suc k)) newsz xperm s3 = Ok (r, s') \<and>
          (r = newsz \<and> length ys \<le> length ys' + 3 * (?n - Suc k) \<and> uvm s' pt ys' {..<?n} T \<and> uvm_step pt s3 ys {..<Suc k} s' ys' {..<?n} \<and>
             (\<forall>j\<in>{Suc k..<?n}. fresh_user_page s' pt ?perm j) \<or>
           r = 0 \<and> length ys \<le> 3 * (?n - Suc k) \<and> uvm s' pt ys' {..<k0} T \<and> uvm_step pt s3 ys {..<Suc k} s' ys' {..<k0})"
        using Suc.hyps(2) Suc.prems k u3 kU(2) by (intro Suc.hyps(1)) auto
      then obtain r' s' ys' where s': "uvmalloc_from pt (va_of k0) (va_of (Suc k)) newsz xperm s3 = Ok (r', s')"
        "r' = newsz \<and> length ys \<le> length ys' + 3 * (?n - Suc k) \<and> uvm s' pt ys' {..<?n} T \<and> uvm_step pt s3 ys {..<Suc k} s' ys' {..<?n} \<and>
             (\<forall>j\<in>{Suc k..<?n}. fresh_user_page s' pt ?perm j) \<or>
         r' = 0 \<and> length ys \<le> 3 * (?n - Suc k) \<and> uvm s' pt ys' {..<k0} T \<and> uvm_step pt s3 ys {..<Suc k} s' ys' {..<k0}" by blast
      have "fresh_user_page s3 pt ?perm k"
        using zero ze lf fresh_pte [of "kend s" c ?perm] user_perm [OF perm] kmem_inv_pages [OF uvm_free [OF u]]
        by (simp add: fresh_user_page_def)
      then have fresh: "fresh_user_page s' pt ?perm k"
        if "uvm_step pt s3 ys {..<Suc k} s' ys' {..<?n}"
        using uvm_step_page [OF that, of k] k by (simp add: fresh_user_page_def)
      have trans: "uvm_step pt s (c # zs) {..<k} s' ys' M'"
        if "uvm_step pt s3 ys {..<Suc k} s' ys' M'" for M'
        by (rule uvm_step_trans [OF st _ _ kU(1)]) (use that kU(2) in auto)
      have "{k..<?n} = insert k {Suc k..<?n}" using k by auto
      moreover have "length xs \<le> 3 * (?n - k)" if "length ys \<le> 3 * (?n - Suc k)"
        using that r(2) Cons k by simp
      moreover have "length xs \<le> length ys' + 3 * (?n - k)" if "length ys \<le> length ys' + 3 * (?n - Suc k)"
        using that r(2) Cons k by simp
      ultimately show ?thesis using s' fresh trans unf r(1) r0 Cons by auto
    next
      fix s4 assume rm: "r = -1" "ys = []" and s4: "kfree c s3 = Ok s4" "uvm s4 pt (c # ys) {..<k} T"
        "uvm_step pt s (c # zs) {..<k} s4 (c # ys) {..<k}"
      from give_up [OF s4(2)] obtain s' ys' where g:
        "bind_ok (uvmdealloc pt (va_of k) (va_of k0) s4) (\<lambda>(_, s). Ok (0, s)) = Ok (0 :: u64, s')"
        "uvm s' pt ys' {..<k0} T" "uvm_step pt s4 (c # ys) {..<k} s' ys' {..<k0}" by blast
      have "uvm_step pt s (c # zs) {..<k} s' ys' {..<k0}"
        by (rule uvm_step_trans [OF s4(3) g(3) _ kU(1)]) auto
      moreover have "length xs \<le> 3 * (?n - k)" using r(2) rm(2) Cons k by simp
      ultimately show ?thesis using unf r(1) rm s4(1) g(1,2) Cons by auto
    qed
  qed
qed

end
