(* ===== verification/Uvm_Free.thy ===== *)
theory Uvm_Free
  imports Uvm_Alloc
begin

text \<open>
  Tearing an address space down: \<^verbatim>\<open>freewalk\<close> and \<^verbatim>\<open>uvmfree\<close> return every page of the table and
  of user memory to the allocator.
\<close>

section \<open>Addresses with given indices\<close>

lemma slot_cong: "same_slot l va vb \<Longrightarrow> slot m l pt va = slot m l pt vb"
  by (induction l arbitrary: pt) (auto simp: same_slot_Suc same_slot_def split: option.splits)

lemma lookup_cong: "same_slot l va vb \<Longrightarrow> lookup m l pt va = lookup m l pt vb"
  by (simp add: lookup_def slot_cong [of l va vb])

lemma PX_choose:
  assumes "i < 512" "l \<le> 3"
  shows "\<exists>vb. same_slot l va vb \<and> unat (PX (Suc l) vb) = i"
proof -
  let ?N = "12 + 9 * Suc l"
  define vb where "vb = (take_bit ?N va) OR push_bit ?N (of_nat i :: u64)"
  have "PX k va = PX k vb" if "k \<le> l" for k
    by (rule bit_word_eqI)
      (use that in \<open>auto simp: bit_PX vb_def bit_or_iff bit_take_bit_iff bit_push_bit_iff\<close>)
  moreover have "PX (Suc l) vb = of_nat i"
  proof (rule bit_word_eqI)
    fix n assume n: "n < LENGTH(64)"
    have small: "(of_nat i :: u64) < 2 ^ 9"
      using assms(1) by (simp add: word_less_nat_alt unat_of_nat take_bit_nat_eq_self)
    have lt: "n < 9" if "bit (of_nat i :: u64) n"
      using less_pow_bit [OF small, of n] that by (cases "n < 9") auto
    show "bit (PX (Suc l) vb) n = bit (of_nat i :: u64) n"
      using assms(2) lt by (auto simp: bit_PX vb_def bit_or_iff bit_take_bit_iff bit_push_bit_iff)
  qed
  ultimately show ?thesis
    using assms(1) by (intro exI [of _ vb]) (simp add: same_slot_def unat_of_nat take_bit_nat_eq_self)
qed

definition no_leaf :: "memory \<Rightarrow> nat \<Rightarrow> u64 \<Rightarrow> bool" where
  "no_leaf m l pt \<longleftrightarrow> (\<forall>va. lookup m l pt va AND PTE_V = 0)"

lemma no_leaf_child:
  assumes "no_leaf m (Suc l) pt" "child m pt i = Some c" "i < 512" "l \<le> 3"
  shows "no_leaf m l c"
  unfolding no_leaf_def
proof
  fix va
  from PX_choose [OF assms(3,4), of va] obtain vb where vb: "same_slot l va vb" "unat (PX (Suc l) vb) = i"
    by blast
  have "lookup m (Suc l) pt vb = lookup m l c vb" using assms(2) vb(2) by (simp add: lookup_Suc)
  then show "lookup m l c va AND PTE_V = 0"
    using assms(1) lookup_cong [OF vb(1)] by (simp add: no_leaf_def) metis
qed

lemma no_leaf_0:
  assumes "no_leaf m 0 pt" "i < 512"
  shows "entry m pt i AND PTE_V = 0"
proof -
  have "PX 0 (of_nat (4096 * i)) = of_nat i"
  proof (rule bit_word_eqI)
    fix n assume n: "n < LENGTH(64)"
    have small: "(of_nat i :: u64) < 2 ^ 9"
      using assms(2) by (simp add: word_less_nat_alt unat_of_nat take_bit_nat_eq_self)
    have "n < 9" if "bit (of_nat i :: u64) n"
      using less_pow_bit [OF small, of n] that by (cases "n < 9") auto
    moreover have "(of_nat (4096 * i) :: u64) = push_bit 12 (of_nat i)" by (simp add: push_bit_eq_mult)
    ultimately show "bit (PX 0 (of_nat (4096 * i))) n = bit (of_nat i :: u64) n"
      by (auto simp: bit_PX bit_push_bit_iff simp del: of_nat_mult)
  qed
  then have "unat (PX 0 (of_nat (4096 * i))) = i"
    using assms(2) by (simp add: unat_of_nat take_bit_nat_eq_self)
  then show ?thesis using assms(1) unfolding no_leaf_def lookup_0 entry_def by metis
qed

section \<open>Freeing a table\<close>

text \<open>An entry is cleared and its subtree given up.\<close>

lemma table_remove:
  assumes sep: "sep m (Suc l) pt" and i: "i < 512" and zero: "entry m' pt i = 0"
    and others: "\<forall>j<512. j \<noteq> i \<longrightarrow> entry m' pt j = entry m pt j"
    and same: "\<forall>j d. j < 512 \<and> j \<noteq> i \<and> child m pt j = Some d \<longrightarrow>
      (\<forall>x. PGROUNDDOWN x \<in> tset m l d \<longrightarrow> m' x = m x)"
  shows "sep m' (Suc l) pt"
    and "tset m' (Suc l) pt = insert pt (\<Union>d\<in>{d. \<exists>j<512. j \<noteq> i \<and> child m pt j = Some d}. tset m l d)"
    and "lookup m' (Suc l) pt va = (if unat (PX (Suc l) va) = i then 0 else lookup m (Suc l) pt va)"
proof -
  have ch: "child m' pt j = (if j = i then None else child m pt j)" if "j < 512" for j
    using zero others that by (auto simp: child_def)
  have fr: "tset m' l d = tset m l d" "sep m' l d" "lookup m' l d va = lookup m l d va"
    if "j < 512" "j \<noteq> i" "child m pt j = Some d" for j d va
    using table_frame [of m l d m'] sep_child [OF sep that(3,1)] same that by blast+
  have "no_perm (entry m' pt j) \<and> sep m' l d \<and> pt \<notin> tset m' l d \<and>
      (\<forall>k e. k < 512 \<and> child m' pt k = Some e \<and> k \<noteq> j \<longrightarrow> tset m' l d \<inter> tset m' l e = {})"
    if j: "j < 512" "child m' pt j = Some d" for j d
  proof -
    have d: "j \<noteq> i" "child m pt j = Some d" using ch [OF j(1)] j(2) by (auto split: if_splits)
    have "tset m' l d \<inter> tset m' l e = {}" if k: "k < 512" "child m' pt k = Some e" "k \<noteq> j" for k e
    proof -
      have e: "k \<noteq> i" "child m pt k = Some e" using ch [OF k(1)] k(2) by (auto split: if_splits)
      have "tset m l d \<inter> tset m l e = {}" using sep d(2) e(2) j(1) k(1,3) by (simp only: sep.simps)
      then show ?thesis using fr(1) [OF j(1) d] fr(1) [OF k(1) e] by simp
    qed
    then show ?thesis
      using sep_child [OF sep d(2) j(1)] fr [OF j(1) d] others j(1) d(1) by (simp, blast)
  qed
  with sep_aligned [OF sep] show "sep m' (Suc l) pt" by (simp only: sep.simps) blast
  have "{d. \<exists>j<512. child m' pt j = Some d} = {d. \<exists>j<512. j \<noteq> i \<and> child m pt j = Some d}"
    using ch by (auto split: if_splits)
  moreover have "tset m' l d = tset m l d" if "d \<in> {d. \<exists>j<512. j \<noteq> i \<and> child m pt j = Some d}" for d
    using fr(1) that by blast
  ultimately show "tset m' (Suc l) pt =
      insert pt (\<Union>d\<in>{d. \<exists>j<512. j \<noteq> i \<and> child m pt j = Some d}. tset m l d)" by simp
  show "lookup m' (Suc l) pt va = (if unat (PX (Suc l) va) = i then 0 else lookup m (Suc l) pt va)"
    using ch [OF PX_bound] fr(3) [OF PX_bound] by (auto simp: lookup_Suc split: option.splits)
qed

text \<open>What freeing a (sub)table does: its pages join the free list, the rest of memory stays.\<close>

definition freed :: "u64 set \<Rightarrow> 'a kmem_scheme \<Rightarrow> u64 list \<Rightarrow> 'a kmem_scheme \<Rightarrow> u64 list \<Rightarrow> bool" where
  "freed A s xs s' ys \<longleftrightarrow> kmem_inv s' ys \<and> set ys = set xs \<union> A \<and> kend s' = kend s \<and>
     kmem.more s' = kmem.more s"

lemma clear_entry:
  assumes inv: "table_inv s (Suc l) pt xs" and i: "i < 512" and c: "child (phys s) pt i = Some c"
    and f: "freed (tset (phys s) l c) s xs s1 ys"
    and m: "\<forall>x. PGROUNDDOWN x \<notin> tset (phys s) l c \<longrightarrow> phys s1 x = phys s x"
    and s2: "s2 = s1\<lparr>phys := store64 (phys s1) (pt + of_nat (8 * i)) 0\<rparr>"
  shows "table_inv s2 (Suc l) pt ys" "child (phys s2) pt i = None"
    "\<forall>j<512. j \<noteq> i \<longrightarrow> child (phys s2) pt j = child (phys s) pt j"
    "tset (phys s2) (Suc l) pt \<union> tset (phys s) l c = tset (phys s) (Suc l) pt"
    "lookup (phys s2) (Suc l) pt va = (if unat (PX (Suc l) va) = i then 0 else lookup (phys s) (Suc l) pt va)"
    "\<forall>x. PGROUNDDOWN x \<notin> tset (phys s) (Suc l) pt \<longrightarrow> phys s2 x = phys s x"
proof -
  let ?m = "phys s" and ?m' = "phys s2"
  have sep: "sep ?m (Suc l) pt" and free: "tset ?m (Suc l) pt \<inter> set xs = {}"
    and ok: "\<forall>p\<in>tset ?m (Suc l) pt. page_ok (kend s) p"
    using inv by (simp_all add: table_inv_def del: tset.simps sep.simps)
  have al: "aligned pt" using sep by (rule sep_aligned)
  have pt: "pt \<notin> tset ?m l c" using sep_child [OF sep c i] by blast
  have en: "entry (phys s1) pt j = entry ?m pt j" if "j < 512" for j
    using al that by (rule entry_cong) (use m pt in auto)
  have en2: "entry ?m' pt j = (if j = i then 0 else entry ?m pt j)" if "j < 512" for j
    using en [OF that] that i by (auto simp: s2 entry_store simp del: of_nat_mult)
  have mem: "?m' x = ?m x" if "PGROUNDDOWN x \<noteq> pt" "PGROUNDDOWN x \<notin> tset ?m l c" for x
    using entry_store_frame [OF al i that(1)] m that(2) by (simp add: s2 del: of_nat_mult)
  have disj: "tset ?m l c \<inter> tset ?m l d = {} \<and> pt \<notin> tset ?m l d"
    if "j < 512" "j \<noteq> i" "child ?m pt j = Some d" for j d
    using sep c i that sep_child [OF sep that(3,1)] by (simp only: sep.simps) simp
  have same: "\<forall>j d. j < 512 \<and> j \<noteq> i \<and> child ?m pt j = Some d \<longrightarrow>
      (\<forall>x. PGROUNDDOWN x \<in> tset ?m l d \<longrightarrow> ?m' x = ?m x)"
    using disj mem by (metis disjointD Int_commute)
  have zero: "entry ?m' pt i = 0" and others: "\<forall>j<512. j \<noteq> i \<longrightarrow> entry ?m' pt j = entry ?m pt j"
    using en2 i by auto
  note r = table_remove [OF sep i zero others same]
  note split = tset_split [OF c i, of l]
  show "child ?m' pt i = None" using zero by (simp add: child_def)
  show "\<forall>j<512. j \<noteq> i \<longrightarrow> child ?m' pt j = child ?m pt j" using others child_entry by blast
  show all: "tset ?m' (Suc l) pt \<union> tset ?m l c = tset ?m (Suc l) pt"
    unfolding r(2) split by (rule Un_commute)
  show "lookup ?m' (Suc l) pt va = (if unat (PX (Suc l) va) = i then 0 else lookup ?m (Suc l) pt va)"
    by (rule r(3))
  show "\<forall>x. PGROUNDDOWN x \<notin> tset ?m (Suc l) pt \<longrightarrow> ?m' x = ?m x"
    using mem tset_child [OF c i, of l] root_in_tset [of pt ?m "Suc l"] by (metis subsetD)
  have apart: "tset ?m' (Suc l) pt \<inter> tset ?m l c = {}"
    unfolding r(2) using disj pt by auto
  then have free': "tset ?m' (Suc l) pt \<inter> set ys = {}"
    using f free all unfolding freed_def by blast
  have "kmem_inv s1 ys" using f by (simp add: freed_def)
  then have "kmem_inv s2 ys"
  proof (rule kmem_inv_cong)
    fix y assume "PGROUNDDOWN y \<in> set ys"
    then have "PGROUNDDOWN y \<noteq> pt" using free' root_in_tset [of pt ?m' "Suc l"] by auto
    then show "phys s2 y = phys s1 y" using entry_store_frame [OF al i] by (simp add: s2 del: of_nat_mult)
  qed (simp_all add: s2)
  moreover have "page_ok (kend s2) p" if "p \<in> tset ?m' (Suc l) pt" for p
    using ok all that f by (auto simp: freed_def s2 simp del: tset.simps)
  ultimately show "table_inv s2 (Suc l) pt ys"
    using r(1) free' unfolding table_inv_def by blast
qed

lemma freewalk_entries_leaf:
  "(\<forall>i<512. entry (phys s) pt i AND PTE_V = 0) \<Longrightarrow> n \<le> 512 \<Longrightarrow> freewalk_entries d n pt s = Ok s"
  by (induction n) (auto simp: entry_def Let_def simp del: of_nat_mult)

lemma freewalk_entries_inner:
  assumes IH: "\<And>pt s xs. table_inv s l pt xs \<Longrightarrow> no_leaf (phys s) l pt \<Longrightarrow>
      \<exists>s' ys. freewalk_depth (Suc l) pt s = Ok s' \<and> freed (tset (phys s) l pt) s xs s' ys \<and>
        (\<forall>x. PGROUNDDOWN x \<notin> tset (phys s) l pt \<longrightarrow> phys s' x = phys (s :: 'a kmem_scheme) x)"
    and l: "l \<le> 3"
    and "table_inv (s :: 'a kmem_scheme) (Suc l) pt xs" "no_leaf (phys s) (Suc l) pt" "n \<le> 512"
      "\<forall>j<512 - n. child (phys s) pt j = None"
  shows "\<exists>s' ys. freewalk_entries (Suc l) n pt s = Ok s' \<and> table_inv s' (Suc l) pt ys \<and>
    (\<forall>j<512. child (phys s') pt j = None) \<and> tset (phys s') (Suc l) pt \<union> set ys = tset (phys s) (Suc l) pt \<union> set xs \<and>
    kend s' = kend s \<and> kmem.more s' = kmem.more s \<and>
    (\<forall>x. PGROUNDDOWN x \<notin> tset (phys s) (Suc l) pt \<longrightarrow> phys s' x = phys s x)"
  using assms(3-)
proof (induction n arbitrary: s xs)
  case 0
  then show ?case by auto
next
  case (Suc n)
  let ?i = "511 - n"
  have i: "?i < 512" "512 - n = Suc ?i" using Suc.prems(3) by auto
  show ?case
  proof (cases "child (phys s) pt ?i")
    case None
    then have "entry (phys s) pt ?i AND PTE_V = 0" by (simp add: child_def split: if_splits)
    then have "freewalk_entries (Suc l) (Suc n) pt s = freewalk_entries (Suc l) n pt s"
      by (simp add: entry_def Let_def del: of_nat_mult)
    moreover have "\<forall>j<512 - n. child (phys s) pt j = None"
      using Suc.prems(3,4) None i(2) by (auto simp: less_Suc_eq)
    ultimately show ?thesis using Suc.IH [OF Suc.prems(1,2)] Suc.prems(3) by simp
  next
    case (Some c)
    have sep: "sep (phys s) (Suc l) pt" using Suc.prems(1) by (simp add: table_inv_def del: sep.simps)
    have ic: "table_inv s l c xs"
      using Suc.prems(1) sep_child [OF sep Some i(1)] tset_child [OF Some i(1), of l]
      by (auto simp: table_inv_def simp del: tset.simps sep.simps)
    from IH [OF ic no_leaf_child [OF Suc.prems(2) Some i(1) l]] obtain s1 ys where s1:
      "freewalk_depth (Suc l) c s = Ok s1" "freed (tset (phys s) l c) s xs s1 ys"
      "\<forall>x. PGROUNDDOWN x \<notin> tset (phys s) l c \<longrightarrow> phys s1 x = phys s x" by blast
    define s2 where "s2 = s1\<lparr>phys := store64 (phys s1) (pt + of_nat (8 * ?i)) 0\<rparr>"
    note ce = clear_entry [OF Suc.prems(1) i(1) Some s1(2,3) s2_def]
    have "entry (phys s) pt ?i AND PTE_V \<noteq> 0" "PTE2PA (entry (phys s) pt ?i) = c"
      using Some by (auto simp: child_def split: if_splits)
    moreover have "no_perm (entry (phys s) pt ?i)" using sep_child [OF sep Some i(1)] by blast
    ultimately have step: "freewalk_entries (Suc l) (Suc n) pt s = freewalk_entries (Suc l) n pt s2"
      using s1(1) by (simp add: entry_def no_perm_def Let_def s2_def del: of_nat_mult freewalk_depth.simps)
    have "no_leaf (phys s2) (Suc l) pt" using Suc.prems(2) ce(5) by (simp add: no_leaf_def)
    moreover have "\<forall>j<512 - n. child (phys s2) pt j = None"
      using Suc.prems(3,4) ce(2,3) i(2) by (auto simp: less_Suc_eq)
    ultimately obtain s' zs where s': "freewalk_entries (Suc l) n pt s2 = Ok s'" "table_inv s' (Suc l) pt zs"
      "\<forall>j<512. child (phys s') pt j = None"
      "tset (phys s') (Suc l) pt \<union> set zs = tset (phys s2) (Suc l) pt \<union> set ys"
      "kend s' = kend s2" "kmem.more s' = kmem.more s2"
      "\<forall>x. PGROUNDDOWN x \<notin> tset (phys s2) (Suc l) pt \<longrightarrow> phys s' x = phys s2 x"
      using Suc.IH [OF ce(1)] Suc.prems(3) by auto
    have "tset (phys s2) (Suc l) pt \<union> set ys = tset (phys s) (Suc l) pt \<union> set xs"
      using ce(4) s1(2) unfolding freed_def by blast
    moreover have "\<forall>x. PGROUNDDOWN x \<notin> tset (phys s) (Suc l) pt \<longrightarrow> phys s' x = phys s x"
      using s'(7) ce(4,6) by (metis UnI1)
    ultimately show ?thesis
      using step s' s1(2) by (auto simp: freed_def s2_def simp del: tset.simps)
  qed
qed

lemma freewalk_depth_ok:
  assumes "l \<le> 4" "table_inv s l pt xs" "no_leaf (phys s) l pt"
  shows "\<exists>s' ys. freewalk_depth (Suc l) pt s = Ok s' \<and> freed (tset (phys s) l pt) s xs s' ys \<and>
    (\<forall>x. PGROUNDDOWN x \<notin> tset (phys s) l pt \<longrightarrow> phys s' x = phys s x)"
  using assms
proof (induction l arbitrary: pt s xs)
  case 0
  then have "freewalk_entries 0 512 pt s = Ok s"
    using no_leaf_0 by (intro freewalk_entries_leaf) auto
  moreover have "kmem_inv s xs" "page_ok (kend s) pt" "pt \<notin> set xs"
    using 0 by (auto simp: table_inv_def)
  then obtain s' where "kfree pt s = Ok s'" "kmem_inv s' (pt # xs)" "kend s' = kend s"
    "kmem.more s' = kmem.more s" "\<And>y. PGROUNDDOWN y \<noteq> pt \<Longrightarrow> phys s' y = phys s y" by (rule kfree_ok) auto
  ultimately show ?case by (auto simp: freed_def intro!: exI [of _ "pt # xs"])
next
  case (Suc l)
  have "\<exists>s' ys. freewalk_entries (Suc l) 512 pt s = Ok s' \<and> table_inv s' (Suc l) pt ys \<and>
    (\<forall>j<512. child (phys s') pt j = None) \<and> tset (phys s') (Suc l) pt \<union> set ys = tset (phys s) (Suc l) pt \<union> set xs \<and>
    kend s' = kend s \<and> kmem.more s' = kmem.more s \<and>
    (\<forall>x. PGROUNDDOWN x \<notin> tset (phys s) (Suc l) pt \<longrightarrow> phys s' x = phys s x)"
    by (rule freewalk_entries_inner) (use Suc in auto)
  then obtain s1 ys where s1: "freewalk_entries (Suc l) 512 pt s = Ok s1" "table_inv s1 (Suc l) pt ys"
    "\<forall>j<512. child (phys s1) pt j = None"
    "tset (phys s1) (Suc l) pt \<union> set ys = tset (phys s) (Suc l) pt \<union> set xs"
    "kend s1 = kend s" "kmem.more s1 = kmem.more s"
    "\<forall>x. PGROUNDDOWN x \<notin> tset (phys s) (Suc l) pt \<longrightarrow> phys s1 x = phys s x" by blast
  have only: "tset (phys s1) (Suc l) pt = {pt}" using s1(3) by auto
  have "kmem_inv s1 ys" "page_ok (kend s1) pt" "pt \<notin> set ys"
    using s1(2) only by (auto simp: table_inv_def simp del: tset.simps sep.simps)
  then obtain s' where s': "kfree pt s1 = Ok s'" "kmem_inv s' (pt # ys)" "kend s' = kend s1"
    "kmem.more s' = kmem.more s1" "\<And>y. PGROUNDDOWN y \<noteq> pt \<Longrightarrow> phys s' y = phys s1 y" by (rule kfree_ok) auto
  have "freewalk_depth (Suc (Suc l)) pt s = Ok s'" using s1(1) s'(1) by (simp del: freewalk_entries.simps)
  moreover have "set (pt # ys) = set xs \<union> tset (phys s) (Suc l) pt" using s1(4) only by auto
  then have "freed (tset (phys s) (Suc l) pt) s xs s' (pt # ys)" using s' s1(5,6) by (simp add: freed_def del: tset.simps)
  moreover have "phys s' x = phys s x" if "PGROUNDDOWN x \<notin> tset (phys s) (Suc l) pt" for x
    using s'(5) [of x] s1(7) that root_in_tset [of pt "phys s" "Suc l"] by metis
  ultimately show ?case by blast
qed

section \<open>Creating and freeing an address space\<close>

lemma va_of_cover: "\<exists>i<2 * VPNS. same_slot 2 va (va_of i)"
proof -
  define w where "w = PGROUNDDOWN (take_bit 39 va)"
  have al: "aligned w" by (simp add: w_def PGROUNDDOWN_aligned)
  have "unat (take_bit 39 va) < 2 ^ 39" 
    using take_bit_nat_less_exp [of 39 "unat va"] by (simp add: unsigned_take_bit_eq)
  then have lt: "unat w < 2 ^ 39" by (simp add: w_def unat_PGROUNDDOWN)
  have bits: "bit w n = bit va n" if "12 \<le> n" "n < 39" for n
    using that by (auto simp: w_def PGROUNDDOWN_def bit_and_iff bit_not_iff bit_take_bit_iff
      mask_eq_exp_minus_1 [of 12, where 'a = u64, simplified, symmetric] bit_mask_iff)
  have "4096 * (unat w div 4096) = unat w" using al by (auto simp: aligned_iff)
  moreover have "unat (va_of (unat w div 4096)) = 4096 * (unat w div 4096)"
    using lt by (intro unat_va_of) simp
  ultimately have w: "va_of (unat w div 4096) = w" by (simp add: word_unat_eq_iff)
  have "PX k va = PX k w" if "k \<le> 2" for k
    by (rule bit_word_eqI) (use that bits in \<open>auto simp: bit_PX\<close>)
  then have "same_slot 2 va (va_of (unat w div 4096))" using w by (simp add: same_slot_def)
  moreover have "unat w div 4096 < 2 * VPNS" using lt by simp
  ultimately show ?thesis by blast
qed

lemma no_leaf_uvm:
  assumes "uvm s pt xs {} {}"
  shows "no_leaf (phys s) 2 pt"
  unfolding no_leaf_def
proof
  fix va
  from va_of_cover [of va] obtain i where i: "i < 2 * VPNS" "same_slot 2 va (va_of i)" by blast
  have "leaf (phys s) pt i AND PTE_V = 0" using assms i(1) by (simp add: uvm_def)
  then show "lookup (phys s) 2 pt va AND PTE_V = 0" by (simp add: leaf_def lookup_cong [OF i(2)])
qed

lemma uvmfree_ok:
  assumes u: "uvm s pt xs {..<npages sz} {}" and sz: "sz \<le> TRAPFRAME"
  shows "\<exists>s' ys. uvmfree pt sz s = Ok s' \<and> freed (pool s pt xs {..<npages sz}) s [] s' ys \<and>
    (\<forall>x. PGROUNDDOWN x \<notin> pool s pt xs {..<npages sz} \<longrightarrow> phys s' x = phys s x)"
proof -
  let ?n = "npages sz" and ?P = "pool s pt xs {..<npages sz}"
  have n: "?n \<le> UPAGES" using npages_le [OF sz] .
  have range: "{0..<?n} \<subseteq> {..<?n}" by auto
  from uvmunmap_step [OF u range le0 n] obtain s1 ys where s1:
    "uvmunmap_from pt (va_of 0) (va_of ?n) True s = Ok s1" "uvm s1 pt ys ({..<?n} - {0..<?n}) {}"
    "uvm_step pt s xs {..<?n} s1 ys ({..<?n} - {0..<?n})" by blast
  have empty: "{..<?n} - {0..<?n} = {}" by auto
  have div: "va_of ?n div PGSIZE * PGSIZE = va_of ?n"
    using va_of_aligned [of ?n] n by (simp add: aligned_def minus_mod_eq_div_mult [symmetric])
  have un: "(if sz > 0 then uvmunmap pt 0 (PGROUNDUP sz div PGSIZE) True s else Ok s) = Ok s1"
  proof (cases "sz > 0")
    case True
    then show ?thesis using s1(1) PGROUNDUP_npages [OF sz] div by (simp add: uvmunmap_def)
  next
    case False
    then have "sz = 0" using word_neq_0_conv [of sz] by blast
    then have "?n = 0" by (simp add: npages_def)
    then show ?thesis using s1(1) False by (simp add: uvmunmap_from.simps)
  qed
  have u1: "uvm s1 pt ys {} {}" and st: "uvm_step pt s xs {..<?n} s1 ys {}" using s1(2,3) empty by simp_all
  from freewalk_depth_ok [OF _ uvm_table [OF u1] no_leaf_uvm [OF u1]] obtain s' zs where s':
    "freewalk_depth 3 pt s1 = Ok s'" "freed (tset (phys s1) 2 pt) s1 ys s' zs"
    "\<forall>x. PGROUNDDOWN x \<notin> tset (phys s1) 2 pt \<longrightarrow> phys s' x = phys s1 x"
    by (auto simp: eval_nat_numeral)
  have P: "set ys \<union> tset (phys s1) 2 pt = ?P" using st by (simp add: uvm_step_def pool_def)
  have "freed ?P s [] s' zs" using s'(2) st P by (auto simp: freed_def uvm_step_def)
  moreover have "phys s' x = phys s x" if "PGROUNDDOWN x \<notin> ?P" for x
    using s'(3) st that P unfolding uvm_step_def by (metis UnI2)
  moreover have "uvmfree pt sz s = Ok s'" using un s'(1) by (simp add: uvmfree_def freewalk_def)
  ultimately show ?thesis by blast
qed

lemma uvm_empty:
  assumes "kmem_inv s xs" "page_ok (kend s) pt" "pt \<notin> set xs" "\<And>x. PGROUNDDOWN x = pt \<Longrightarrow> phys s x = 0"
  shows "uvm s pt xs {} {}" "pool s pt xs {} = insert pt (set xs)"
proof -
  have z: "tset (phys s) 2 pt = {pt}" "sep (phys s) 2 pt" "lookup (phys s) 2 pt va = 0" for va
    using table_zero [OF page_ok_aligned [OF assms(2)], of "phys s" 2 va] assms(4) by blast+
  then show "uvm s pt xs {} {}" using assms by (simp add: uvm_def table_inv_def leaf_def)
  show "pool s pt xs {} = insert pt (set xs)" using z by (simp add: pool_def)
qed

lemma uvmcreate_Cons:
  assumes k: "kmem_inv s (c # zs)"
  obtains s' where "uvmcreate s = (c, s')" "uvm s' c zs {} {}" "pool s' c zs {} = set (c # zs)"
    "kend s' = kend s" "kmem.more s' = kmem.more s" "\<And>x. PGROUNDDOWN x \<noteq> c \<Longrightarrow> phys s' x = phys s x"
proof -
  obtain s1 where s1: "kalloc s = (c, s1)" "kmem_inv s1 zs" "kend s1 = kend s"
    "kmem.more s1 = kmem.more s" "\<And>y. PGROUNDDOWN y \<noteq> c \<Longrightarrow> phys s1 y = phys s y"
    using k by (rule kalloc_Cons) auto
  have c: "c \<noteq> 0" "page_ok (kend s) c" "c \<notin> set zs" using k by (auto simp: kmem_inv_def)
  define s' where "s' = s1\<lparr>phys := memset (phys s1) c 0 (ucast PGSIZE)\<rparr>"
  have mem: "phys s' x = (if PGROUNDDOWN x = c then 0 else phys s1 x)" for x
    using memset_page_apply [OF page_ok_aligned [OF c(2)], of "phys s1" 0 x] by (simp add: s'_def)
  have "kmem_inv s' zs"
    by (rule kmem_inv_cong [OF s1(2)]) (use c(3) mem in \<open>auto simp: s'_def\<close>)
  then have "uvm s' c zs {} {}" "pool s' c zs {} = set (c # zs)"
    using uvm_empty [of s' zs c] c s1(3) mem by (simp_all add: s'_def)
  moreover have "uvmcreate s = (c, s')" using s1(1) c(1) by (simp add: uvmcreate_def s'_def)
  ultimately show thesis using that mem s1(3-5) by (simp add: s'_def)
qed

end
