(* ===== verification/Uvm_Copy.thy ===== *)
theory Uvm_Copy
  imports Uvm_Free
begin

text \<open>
  \<^verbatim>\<open>copyin\<close>, \<^verbatim>\<open>copyinstr\<close> and \<^verbatim>\<open>copyout\<close> against user memory seen as bytes: \<open>ubyte s pt a\<close> is the
  byte at user address \<open>a\<close> and \<open>uacc s pt a\<close> says that the page of \<open>a\<close> is mapped for user access.
  The three functions work page by page; the lemmas say which bytes they read and write.
\<close>

section \<open>User memory as bytes\<close>

definition uacc :: "'a kmem_scheme \<Rightarrow> u64 \<Rightarrow> nat \<Rightarrow> bool" where
  "uacc s pt a \<longleftrightarrow> a < unat MAXVA \<and> leaf (phys s) pt (a div 4096) AND PTE_V \<noteq> 0 \<and>
     leaf (phys s) pt (a div 4096) AND PTE_U \<noteq> 0"

definition ubyte :: "'a kmem_scheme \<Rightarrow> u64 \<Rightarrow> nat \<Rightarrow> u8" where
  "ubyte s pt a = phys s (upage s pt (a div 4096) + of_nat (a mod 4096))"

text \<open>
  The topmost pages, trampoline and trap frame, are mapped without user access, as
  \<^verbatim>\<open>proc_pagetable\<close> maps them.
\<close>

definition top_private :: "'a kmem_scheme \<Rightarrow> u64 \<Rightarrow> bool" where
  "top_private s pt \<longleftrightarrow> (\<forall>i\<in>{UPAGES..<VPNS}. leaf (phys s) pt i AND PTE_V = 0 \<or> leaf (phys s) pt i AND PTE_U = 0)"

lemma PGROUNDDOWN_va_of: "PGROUNDDOWN va = va_of (unat va div 4096)"
proof -
  have "unat va div 4096 < 2 ^ 52" using unat_u64_less [of va] by simp
  then have "unat (va_of (unat va div 4096)) = 4096 * (unat va div 4096)"
    unfolding va_of_def by (intro unat_of_nat_u64) simp
  then show ?thesis by (simp add: word_unat_eq_iff unat_PGROUNDDOWN)
qed

lemma uacc_page: "a div 4096 = b div 4096 \<Longrightarrow> uacc s pt a \<longleftrightarrow> uacc s pt b"
proof -
  have "a < unat MAXVA \<longleftrightarrow> a div 4096 < 67108864" for a :: nat by (auto simp: MAXVA_eq)
  then show "a div 4096 = b div 4096 \<Longrightarrow> uacc s pt a \<longleftrightarrow> uacc s pt b" by (simp add: uacc_def)
qed

lemma uacc_mapped:
  assumes "uvm s pt xs M T" "top_private s pt" "uacc s pt a"
  shows "a div 4096 \<in> M"
proof -
  have i: "a div 4096 < VPNS" using assms(3) by (auto simp: uacc_def MAXVA_eq)
  moreover have "a div 4096 \<notin> {UPAGES..<VPNS}" using assms(2,3) by (auto simp: top_private_def uacc_def)
  moreover have "a div 4096 \<in> M \<union> T"
    using assms(1,3) i by (auto simp: uvm_def uacc_def)
  ultimately show ?thesis using assms(1) by (auto simp: uvm_def)
qed

lemma walkaddr_page:
  assumes u: "uvm s pt xs M T" and t: "top_private s pt"
  shows "walkaddr pt (PGROUNDDOWN va) s = Ok (if uacc s pt (unat va) then upage s pt (unat va div 4096) else 0)"
    and "uacc s pt (unat va) \<Longrightarrow> upage s pt (unat va div 4096) \<noteq> 0"
proof -
  let ?i = "unat va div 4096"
  have big: "MAXVA \<le> PGROUNDDOWN va \<longleftrightarrow> \<not> unat va < unat MAXVA"
    by (auto simp: word_le_nat_alt unat_PGROUNDDOWN MAXVA_eq)
  have ok: "leaf_ok (kend s) (leaf (phys s) pt ?i)" if "uacc s pt (unat va)"
    using uvm_leaf [OF u uacc_mapped [OF u t that]] by blast
  have "0 < kend s" using uvm_free [OF u] by (simp add: kmem_inv_def)
  then show nz: "upage s pt ?i \<noteq> 0" if "uacc s pt (unat va)"
    using ok [OF that] page_ok_nonzero by (auto simp: leaf_ok_def)
  show "walkaddr pt (PGROUNDDOWN va) s = Ok (if uacc s pt (unat va) then upage s pt ?i else 0)"
  proof (cases "unat va < unat MAXVA")
    case False
    then show ?thesis using big by (simp add: walkaddr_def uacc_def)
  next
    case True
    then have i: "?i < VPNS" by (simp add: MAXVA_eq)
    have w: "walk pt (PGROUNDDOWN va) False s =
        Ok (case slot (phys s) 2 pt (va_of ?i) of None \<Rightarrow> 0 | Some p \<Rightarrow> p, s)"
      unfolding PGROUNDDOWN_va_of by (rule walk_read [OF i])
    have nb: "\<not> MAXVA \<le> PGROUNDDOWN va" using big True by simp
    show ?thesis
    proof (cases "slot (phys s) 2 pt (va_of ?i)")
      case None
      then show ?thesis using w nb by (simp add: walkaddr_def uacc_def leaf_def lookup_def)
    next
      case (Some p)
      then have "p \<noteq> 0" using slot_nonzero [OF uvm_table [OF u]] by blast
      moreover have "load64 (phys s) p = leaf (phys s) pt ?i" using Some by (simp add: leaf_def lookup_def)
      ultimately show ?thesis using w nb Some True by (auto simp: walkaddr_def uacc_def)
    qed
  qed
qed

lemma page_split:
  fixes a k :: nat
  assumes "a mod 4096 + k < 4096"
  shows "(a + k) div 4096 = a div 4096" "(a + k) mod 4096 = a mod 4096 + k"
proof -
  obtain q r where a: "a = 4096 * q + r" "r < 4096"
    by (metis mod_less_divisor mult_div_mod_eq zero_less_numeral)
  then have "r + k < 4096" using assms by simp
  then have "(4096 * q + (r + k)) div 4096 = q" "(4096 * q + (r + k)) mod 4096 = r + k" by simp_all
  then show "(a + k) div 4096 = a div 4096" "(a + k) mod 4096 = a mod 4096 + k"
    using a by (simp_all add: add.assoc)
qed

lemma page_next: "a div 4096 * 4096 + 4096 = a + (4096 - a mod 4096)" for a :: nat
proof -
  have "a mod 4096 \<le> 4096" by (simp add: less_imp_le)
  moreover have "a = a div 4096 * 4096 + a mod 4096" by simp
  ultimately show ?thesis by linarith
qed

text \<open>The part of a page from \<open>va\<close> on.\<close>

lemma in_rest:
  fixes va :: u64
  assumes "k < unat (PGSIZE - (va - PGROUNDDOWN va))"
  shows "(unat va + k) div 4096 = unat va div 4096" "(unat va + k) mod 4096 = unat va mod 4096 + k"
proof -
  have "unat (va - PGROUNDDOWN va) = unat va mod 4096" by (rule PGROUNDDOWN_offset)
  then have "unat (PGSIZE - (va - PGROUNDDOWN va)) = 4096 - unat va mod 4096"
    by (subst unat_sub) (simp_all add: word_le_nat_alt less_imp_le)
  then have "unat va mod 4096 + k < 4096" using assms by simp
  then show "(unat va + k) div 4096 = unat va div 4096" "(unat va + k) mod 4096 = unat va mod 4096 + k"
    by (rule page_split)+
qed

lemma rest_next:
  fixes va :: u64
  assumes "unat va < unat MAXVA"
  shows "unat (PGROUNDDOWN va + PGSIZE) = unat va + unat (PGSIZE - (va - PGROUNDDOWN va))"
proof -
  have "unat (va - PGROUNDDOWN va) = unat va mod 4096" by (rule PGROUNDDOWN_offset)
  then have r: "unat (PGSIZE - (va - PGROUNDDOWN va)) = 4096 - unat va mod 4096"
    by (subst unat_sub) (simp_all add: word_le_nat_alt less_imp_le)
  have "unat (PGROUNDDOWN va + PGSIZE) = unat va div 4096 * 4096 + 4096"
    using assms by (subst unat_plus_no_wrap) (simp_all add: unat_PGROUNDDOWN MAXVA_eq)
  then show ?thesis unfolding r using page_next [of "unat va"] by simp
qed

lemma uacc_rest:
  fixes va :: u64
  assumes "uacc s pt (unat va)" "k < unat (PGSIZE - (va - PGROUNDDOWN va))"
  shows "uacc s pt (unat va + k)"
  using assms(1) uacc_page [OF in_rest(1) [OF assms(2)]] by blast

lemma ubyte_rest:
  fixes va :: u64
  assumes "k < unat (PGSIZE - (va - PGROUNDDOWN va))"
  shows "ubyte s pt (unat va + k) = phys s (upage s pt (unat va div 4096) + (va - PGROUNDDOWN va) + of_nat k)"
proof -
  have "of_nat (unat va mod 4096) = va - PGROUNDDOWN va"
    using PGROUNDDOWN_offset [of va] by (metis of_nat_unat ucast_id)
  then show ?thesis using in_rest [OF assms] by (simp add: ubyte_def add.assoc)
qed

lemma read_rest:
  fixes va :: u64
  assumes "n \<le> unat (PGSIZE - (va - PGROUNDDOWN va))"
  shows "read_bytes (phys s) (upage s pt (unat va div 4096) + (va - PGROUNDDOWN va)) n =
    map (\<lambda>k. ubyte s pt (unat va + k)) [0..<n]"
  using assms by (simp add: read_bytes_def ubyte_rest)

section \<open>Reading user memory\<close>

text \<open>The bytes from user address \<open>a\<close> on.\<close>

definition ubytes :: "'a kmem_scheme \<Rightarrow> u64 \<Rightarrow> nat \<Rightarrow> nat \<Rightarrow> u8 list" where
  "ubytes s pt a n = map (\<lambda>k. ubyte s pt (a + k)) [0..<n]"

lemma ubytes_append: "ubytes s pt a (n + k) = ubytes s pt a n @ ubytes s pt (a + n) k"
proof -
  have "[0..<n + k] = [0..<n] @ map (\<lambda>i. i + n) [0..<k]"
    using upt_add_eq_append [of 0 n k] by (simp add: map_add_upt add.commute)
  then show ?thesis by (simp add: ubytes_def add_ac)
qed

text \<open>\<open>k\<close> is the number of bytes up to the first one that is not accessible, at most \<open>len\<close>.\<close>

definition reach :: "'a kmem_scheme \<Rightarrow> u64 \<Rightarrow> nat \<Rightarrow> nat \<Rightarrow> nat \<Rightarrow> bool" where
  "reach s pt a len k \<longleftrightarrow> k \<le> len \<and> (\<forall>j<k. uacc s pt (a + j)) \<and> (k < len \<longrightarrow> \<not> uacc s pt (a + k))"

lemma reach_extend:
  assumes "\<forall>j<n. uacc s pt (a + j)" "reach s pt (a + n) (len - n) k" "n \<le> len"
  shows "reach s pt a len (n + k)"
proof -
  have "uacc s pt (a + j)" if "j < n + k" for j
  proof (cases "j < n")
    case False
    then have "a + j = a + n + (j - n)" "j - n < k" using that by auto
    then show ?thesis using assms(2) unfolding reach_def by metis
  qed (use assms(1) in simp)
  moreover have "\<not> uacc s pt (a + (n + k))" if "n + k < len"
    using assms(2,3) that by (auto simp: reach_def add.assoc)
  ultimately show ?thesis using assms(2,3) by (auto simp: reach_def)
qed

lemma reach_unique: "reach s pt a len k \<Longrightarrow> reach s pt a len k' \<Longrightarrow> k = k'"
  by (metis reach_def le_less_trans less_le_not_le linorder_less_linear not_le)

lemma copyin_from_spec:
  assumes u: "uvm s pt xs M T" and t: "top_private s pt"
  shows "\<exists>k. reach s pt (unat va) len k \<and>
    copyin_from pt va len dst s = Ok (if k = len then 0 else -1, dst @ ubytes s pt (unat va) k)"
proof (induction len arbitrary: va dst rule: less_induct)
  case (less len)
  let ?rest = "unat (PGSIZE - (va - PGROUNDDOWN va))"
  show ?case
  proof (cases "len = 0")
    case True
    then show ?thesis by (simp add: copyin_from.simps reach_def ubytes_def)
  next
    case False
    show ?thesis
    proof (cases "uacc s pt (unat va)")
      case False
      then show ?thesis using walkaddr_page(1) [OF u t, of va] \<open>len \<noteq> 0\<close>
        by (intro exI [of _ 0]) (simp add: copyin_from.simps [of pt va len] reach_def ubytes_def)
    next
      case True
      let ?n = "min ?rest len"
      have acc: "\<forall>j<?n. uacc s pt (unat va + j)"
        using uacc_rest [of s pt va, OF True] by auto
      have n: "0 < ?n" "?n \<le> len" using page_rest_pos [of va] \<open>len \<noteq> 0\<close> by auto
      have eq: "copyin_from pt va len dst s =
          copyin_from pt (PGROUNDDOWN va + PGSIZE) (len - ?n) (dst @ ubytes s pt (unat va) ?n) s"
        unfolding copyin_from.simps [of pt va len]
        using walkaddr_page [OF u t, of va] True \<open>len \<noteq> 0\<close> read_rest [of ?n va s pt]
        by (simp add: Let_def ubytes_def)
      from less [of "len - ?n" "PGROUNDDOWN va + PGSIZE" "dst @ ubytes s pt (unat va) ?n"] n
      obtain k where k: "reach s pt (unat (PGROUNDDOWN va + PGSIZE)) (len - ?n) k"
        "copyin_from pt (PGROUNDDOWN va + PGSIZE) (len - ?n) (dst @ ubytes s pt (unat va) ?n) s =
          Ok (if k = len - ?n then 0 else -1,
            dst @ ubytes s pt (unat va) ?n @ ubytes s pt (unat (PGROUNDDOWN va + PGSIZE)) k)" by auto
      have "unat va < unat MAXVA" using True by (simp add: uacc_def)
      then have nx: "unat (PGROUNDDOWN va + PGSIZE) = unat va + ?n \<or> len - ?n = 0"
        using rest_next [of va] by auto
      have k': "reach s pt (unat va + ?n) (len - ?n) k"
        using nx k(1) by (auto simp: reach_def)
      have "ubytes s pt (unat (PGROUNDDOWN va + PGSIZE)) k = ubytes s pt (unat va + ?n) k"
        using nx k(1) by (auto simp: reach_def ubytes_def)
      then have "copyin_from pt va len dst s =
          Ok (if ?n + k = len then 0 else -1, dst @ ubytes s pt (unat va) (?n + k))"
        using eq k n(2) by (auto simp: ubytes_append)
      then show ?thesis using reach_extend [OF acc k' n(2)] by blast
    qed
  qed
qed

text \<open>The first NUL of the string at \<open>a\<close> is its byte \<open>k\<close>, all within \<open>len\<close> accessible bytes.\<close>

definition nul_at :: "'a kmem_scheme \<Rightarrow> u64 \<Rightarrow> nat \<Rightarrow> nat \<Rightarrow> nat \<Rightarrow> bool" where
  "nul_at s pt a len k \<longleftrightarrow> k < len \<and> (\<forall>j\<le>k. uacc s pt (a + j)) \<and> (\<forall>j<k. ubyte s pt (a + j) \<noteq> 0) \<and>
     ubyte s pt (a + k) = 0"

lemma nul_at_extend:
  assumes "\<forall>j<n. uacc s pt (a + j)" "\<forall>j<n. ubyte s pt (a + j) \<noteq> 0" "n \<le> len"
  shows "nul_at s pt a len (n + k) \<longleftrightarrow> nul_at s pt (a + n) (len - n) k"
proof -
  have split: "(\<forall>j\<le>n + k. P (a + j)) \<longleftrightarrow> (\<forall>j<n. P (a + j)) \<and> (\<forall>j\<le>k. P (a + n + j))"
    "(\<forall>j<n + k. P (a + j)) \<longleftrightarrow> (\<forall>j<n. P (a + j)) \<and> (\<forall>j<k. P (a + n + j))" for P
    by (auto simp: add.assoc) (metis add_le_cancel_left add_less_cancel_left le_add_diff_inverse not_less)+
  show ?thesis
    unfolding nul_at_def split(1) [of "uacc s pt"] split(2) [of "\<lambda>x. ubyte s pt x \<noteq> 0"]
    using assms by (auto simp: add.assoc)
qed

lemma copyinstr_page_spec:
  assumes "\<And>j. j < n \<Longrightarrow> m (p + of_nat j) = b j"
  shows "copyinstr_page m p n =
    (if \<exists>j<n. b j = 0 then (True, map b [0..<Suc (LEAST j. b j = 0)]) else (False, map b [0..<n]))"
  using assms
proof (induction n arbitrary: p b)
  case (Suc n)
  have b0: "m p = b 0" using Suc.prems [of 0] by simp
  have IH: "copyinstr_page m (p + 1) n =
      (if \<exists>j<n. b (Suc j) = 0 then (True, map (\<lambda>j. b (Suc j)) [0..<Suc (LEAST j. b (Suc j) = 0)])
       else (False, map (\<lambda>j. b (Suc j)) [0..<n]))"
    using Suc.prems by (intro Suc.IH) (metis Suc_mono add.assoc of_nat_Suc)
  have sh: "map b [0..<Suc k] = b 0 # map (\<lambda>j. b (Suc j)) [0..<k]" for k
    by (simp add: upt_conv_Cons map_Suc_upt [symmetric] del: upt_Suc)
  show ?case
  proof (cases "b 0 = 0")
    case True
    then have "(LEAST j. b j = 0) = 0" by (simp add: Least_eq_0)
    then show ?thesis using True b0 by auto
  next
    case False
    have ex: "(\<exists>j<Suc n. b j = 0) \<longleftrightarrow> (\<exists>j<n. b (Suc j) = 0)"
      using False by (metis less_Suc_eq_0_disj)
    show ?thesis
    proof (cases "\<exists>j<n. b (Suc j) = 0")
      case True
      then obtain j where "b j = 0" using ex by blast
      then have "(LEAST j. b j = 0) = Suc (LEAST j. b (Suc j) = 0)" using False by (rule Least_Suc)
      then show ?thesis using True ex IH False b0 sh by (simp del: upt_Suc)
    qed (use ex IH False b0 sh in \<open>auto simp del: upt_Suc\<close>)
  qed
qed simp

lemma copyinstr_from_spec:
  assumes u: "uvm s pt xs M T" and t: "top_private s pt"
  shows "(\<exists>k. nul_at s pt (unat va) left k \<and>
      copyinstr_from pt va left dst s = Ok (0, dst @ ubytes s pt (unat va) (Suc k))) \<or>
    (\<nexists>k. nul_at s pt (unat va) left k) \<and> (\<exists>k. reach s pt (unat va) left k \<and>
      copyinstr_from pt va left dst s = Ok (-1, dst @ ubytes s pt (unat va) k))"
proof (induction left arbitrary: va dst rule: less_induct)
  case (less left)
  let ?a = "unat va" and ?rest = "unat (PGSIZE - (va - PGROUNDDOWN va))"
  show ?case
  proof (cases "left = 0 \<or> \<not> uacc s pt ?a")
    case True
    then have "\<nexists>k. nul_at s pt ?a left k" by (auto simp: nul_at_def)
    moreover have "reach s pt ?a left 0" using True by (auto simp: reach_def)
    moreover have "copyinstr_from pt va left dst s = Ok (-1, dst @ ubytes s pt ?a 0)"
      using True walkaddr_page(1) [OF u t, of va]
      by (auto simp: copyinstr_from.simps [of pt va left] ubytes_def)
    ultimately show ?thesis by blast
  next
    case False
    let ?b = "\<lambda>j. ubyte s pt (?a + j)" and ?va' = "PGROUNDDOWN va + PGSIZE"
    define n where "n = min ?rest left"
    have acc: "\<forall>j<n. uacc s pt (?a + j)" using uacc_rest [of s pt va] False by (auto simp: n_def)
    have n: "0 < n" "n \<le> left" using page_rest_pos [of va] False by (auto simp: n_def)
    have pg: "copyinstr_page (phys s) (upage s pt (?a div 4096) + (va - PGROUNDDOWN va)) n =
        (if \<exists>j<n. ?b j = 0 then (True, map ?b [0..<Suc (LEAST j. ?b j = 0)]) else (False, map ?b [0..<n]))"
      by (rule copyinstr_page_spec) (simp add: ubyte_rest n_def)
    have unf: "copyinstr_from pt va left dst s =
        (if \<exists>j<n. ?b j = 0 then Ok (0, dst @ ubytes s pt ?a (Suc (LEAST j. ?b j = 0)))
         else copyinstr_from pt ?va' (left - n) (dst @ ubytes s pt ?a n) s)"
      unfolding copyinstr_from.simps [of pt va left] Let_def n_def [symmetric] ubytes_def
      using walkaddr_page [OF u t, of va] False pg by (auto simp del: upt_Suc)
    show ?thesis
    proof (cases "\<exists>j<n. ?b j = 0")
      case True
      then have "?b (LEAST j. ?b j = 0) = 0" "(LEAST j. ?b j = 0) < n"
        by (auto intro: LeastI le_less_trans [OF Least_le])
      moreover have "?b j \<noteq> 0" if "j < (LEAST j. ?b j = 0)" for j using not_less_Least [OF that] .
      ultimately have "nul_at s pt ?a left (LEAST j. ?b j = 0)"
        using acc n(2) by (auto simp: nul_at_def)
      then show ?thesis using unf True by auto
    next
      case none: False
      have "?a < unat MAXVA" using False by (simp add: uacc_def)
      then have "unat ?va' = ?a + n \<or> left - n = 0" using rest_next [of va] by (auto simp: n_def)
      then have same: "nul_at s pt (unat ?va') (left - n) k = nul_at s pt (?a + n) (left - n) k"
          "reach s pt (unat ?va') (left - n) k \<longleftrightarrow> reach s pt (?a + n) (left - n) k"
          "reach s pt (unat ?va') (left - n) k \<Longrightarrow> ubytes s pt (unat ?va') k = ubytes s pt (?a + n) k"
          "nul_at s pt (unat ?va') (left - n) k \<Longrightarrow>
            ubytes s pt (unat ?va') (Suc k) = ubytes s pt (?a + n) (Suc k)" for k
        by (auto simp: nul_at_def reach_def ubytes_def)
      have ext: "nul_at s pt ?a left (n + k) = nul_at s pt (?a + n) (left - n) k" for k
        by (rule nul_at_extend) (use acc none n in auto)
      have ge: "\<exists>k'. k = n + k'" if "nul_at s pt ?a left k" for k
        using that none by (metis nul_at_def le_iff_add not_less)
      from less [of "left - n" ?va' "dst @ ubytes s pt ?a n"] n consider
        k where "nul_at s pt (unat ?va') (left - n) k"
          "copyinstr_from pt ?va' (left - n) (dst @ ubytes s pt ?a n) s =
            Ok (0, dst @ ubytes s pt ?a n @ ubytes s pt (unat ?va') (Suc k))"
        | k where "\<nexists>k. nul_at s pt (unat ?va') (left - n) k" "reach s pt (unat ?va') (left - n) k"
          "copyinstr_from pt ?va' (left - n) (dst @ ubytes s pt ?a n) s =
            Ok (-1, dst @ ubytes s pt ?a n @ ubytes s pt (unat ?va') k)" by auto
      then show ?thesis
      proof cases
        case 1
        then have "nul_at s pt ?a left (n + k)" using ext same(1) by blast
        moreover have "copyinstr_from pt va left dst s = Ok (0, dst @ ubytes s pt ?a (Suc (n + k)))"
          using unf none 1 same(4) ubytes_append [of s pt ?a n "Suc k"] by simp
        ultimately show ?thesis by blast
      next
        case 2
        have "\<nexists>k. nul_at s pt ?a left k" using 2(1) ext ge same(1) by blast
        moreover have "reach s pt ?a left (n + k)" using reach_extend [OF acc _ n(2)] 2(2) same(2) by blast
        moreover have "copyinstr_from pt va left dst s = Ok (-1, dst @ ubytes s pt ?a (n + k))"
          using unf none 2 same(3) ubytes_append [of s pt ?a n k] by simp
        ultimately show ?thesis by blast
      qed
    qed
  qed
qed

section \<open>Writing user memory\<close>

text \<open>Changes inside the pages of user memory change neither the table nor the free list.\<close>

lemma user_write:
  assumes u: "uvm s pt xs M T" and s': "s' = s\<lparr>phys := m\<rparr>"
    and m: "\<And>x. PGROUNDDOWN x \<notin> upage s pt ` M \<Longrightarrow> m x = phys s x"
  shows "uvm s' pt xs M T" "leaf (phys s') pt j = leaf (phys s) pt j"
proof -
  have apart: "upage s pt ` M \<inter> (tset (phys s) 2 pt \<union> set xs) = {}" by (rule uvm_apart [OF u])
  have k: "kmem_inv s' xs"
    by (rule kmem_inv_cong [OF uvm_free [OF u]]) (use m apart in \<open>auto simp: s'\<close>)
  have disj: "tset (phys s) 2 pt \<inter> set xs = {}" using uvm_table [OF u] by (simp add: table_inv_def)
  have mem: "phys s' x = phys s x" if "PGROUNDDOWN x \<in> tset (phys s) 2 pt" for x
    using m [of x] apart that by (auto simp: s')
  have ke: "kend s' = kend s" by (simp add: s')
  note f = table_inv_frame [OF uvm_table [OF u] k ke disj mem]
  show lf: "leaf (phys s') pt j = leaf (phys s) pt j" for j using f(4) by (simp add: leaf_def)
  have "upage s pt ` M \<inter> (tset (phys s') 2 pt \<union> set xs) = {}" using apart f(2) by simp
  from uvm_keep(1) [OF u f(1) ke _ this] lf show "uvm s' pt xs M T" by blast
qed

lemma same_page_range:
  fixes v a n :: nat
  assumes "v mod 4096 + n \<le> 4096"
  shows "v \<le> a \<and> a < v + n \<longleftrightarrow> a div 4096 = v div 4096 \<and> v mod 4096 \<le> a mod 4096 \<and> a mod 4096 < v mod 4096 + n"
    and "a div 4096 = v div 4096 \<Longrightarrow> a mod 4096 - v mod 4096 = a - v"
proof -
  have v: "v = v div 4096 * 4096 + v mod 4096" and a: "a = a div 4096 * 4096 + a mod 4096" by simp_all
  show "a mod 4096 - v mod 4096 = a - v" if "a div 4096 = v div 4096" using v a that by linarith
  show "v \<le> a \<and> a < v + n \<longleftrightarrow> a div 4096 = v div 4096 \<and> v mod 4096 \<le> a mod 4096 \<and> a mod 4096 < v mod 4096 + n"
  proof
    assume r: "v \<le> a \<and> a < v + n"
    then have "v mod 4096 + (a - v) < 4096" using assms by linarith
    from page_split [OF this] r
    show "a div 4096 = v div 4096 \<and> v mod 4096 \<le> a mod 4096 \<and> a mod 4096 < v mod 4096 + n" by auto
  qed (use v a in linarith)
qed

lemma write_bytes_page:
  assumes "aligned p" "off + length bs \<le> 4096"
  shows "write_bytes m (p + of_nat off) bs x =
    (if PGROUNDDOWN x = p \<and> off \<le> unat (x - p) \<and> unat (x - p) < off + length bs
     then bs ! (unat (x - p) - off) else m x)"
proof -
  define d where "d = x - p"
  have o: "unat (of_nat off :: u64) = off" using assms(2) by (intro unat_of_nat_u64) simp
  have eq: "x - (p + of_nat off) = d - of_nat off" by (simp add: d_def)
  have "unat (d - of_nat off) =
      (if off \<le> unat d then unat d - off else unat d + 2 ^ 64 - off)"
    using o by (simp add: unat_sub_if')
  then have "unat (d - of_nat off) < length bs \<longleftrightarrow> off \<le> unat d \<and> unat d < off + length bs"
    "off \<le> unat d \<Longrightarrow> unat (d - of_nat off) = unat d - off"
    using assms(2) by auto
  moreover have "PGROUNDDOWN x = p \<longleftrightarrow> unat d < 4096" using in_page_iff [OF assms(1)] by (simp add: d_def)
  ultimately show ?thesis
    unfolding write_bytes_def eq d_def [symmetric] using assms(2) by auto
qed

lemma write_rest:
  fixes va :: u64
  assumes u: "uvm s pt xs M T" and i: "unat va div 4096 \<in> M"
    and bs: "length bs \<le> unat (PGSIZE - (va - PGROUNDDOWN va))"
    and s': "s' = s\<lparr>phys := write_bytes (phys s) (upage s pt (unat va div 4096) + (va - PGROUNDDOWN va)) bs\<rparr>"
  shows "uvm s' pt xs M T" "\<And>j. leaf (phys s') pt j = leaf (phys s) pt j"
    "\<And>a. a div 4096 \<in> M \<Longrightarrow> ubyte s' pt a =
      (if unat va \<le> a \<and> a < unat va + length bs then bs ! (a - unat va) else ubyte s pt a)"
    "\<And>x. PGROUNDDOWN x \<notin> upage s pt ` M \<Longrightarrow> phys s' x = phys s x"
proof -
  let ?i = "unat va div 4096" and ?o = "unat va mod 4096"
  let ?p = "upage s pt ?i"
  have al: "aligned (upage s pt j)" if "j \<in> M" for j
    using uvm_leaf [OF u that] by (auto simp: leaf_ok_def page_ok_def)
  have off: "unat (va - PGROUNDDOWN va) = ?o" by (rule PGROUNDDOWN_offset)
  then have "unat (PGSIZE - (va - PGROUNDDOWN va)) = 4096 - ?o"
    by (subst unat_sub) (simp_all add: word_le_nat_alt less_imp_le)
  then have room: "?o + length bs \<le> 4096" using bs by (simp add: less_imp_le)
  have "va - PGROUNDDOWN va = of_nat ?o" using off by (metis of_nat_unat ucast_id)
  then have app: "phys s' x = (if PGROUNDDOWN x = ?p \<and> ?o \<le> unat (x - ?p) \<and> unat (x - ?p) < ?o + length bs
     then bs ! (unat (x - ?p) - ?o) else phys s x)" for x
    using write_bytes_page [OF al [OF i] room] by (simp add: s')
  show mem: "phys s' x = phys s x" if "PGROUNDDOWN x \<notin> upage s pt ` M" for x
    using that i by (subst app) auto
  show "uvm s' pt xs M T" and lf: "leaf (phys s') pt j = leaf (phys s) pt j" for j
    using user_write [OF u s'] mem by (simp_all add: s')
  show "ubyte s' pt a = (if unat va \<le> a \<and> a < unat va + length bs then bs ! (a - unat va) else ubyte s pt a)"
    if a: "a div 4096 \<in> M" for a
  proof -
    let ?x = "upage s pt (a div 4096) + of_nat (a mod 4096)"
    have pg: "PGROUNDDOWN ?x = upage s pt (a div 4096)" by (rule PGROUNDDOWN_in_page [OF al [OF a]]) simp
    have in_i: "PGROUNDDOWN ?x = ?p \<longleftrightarrow> a div 4096 = ?i"
      using u a i unfolding pg by (auto simp: uvm_def inj_on_def)
    have "unat (of_nat (a mod 4096) :: u64) = a mod 4096"
      by (rule unat_of_nat_u64) (rule less_trans [OF mod_less_divisor], simp_all)
    then have d: "unat (?x - ?p) = a mod 4096" if "a div 4096 = ?i" using that by simp
    have rng: "unat va \<le> a \<and> a < unat va + length bs \<longleftrightarrow>
        a div 4096 = ?i \<and> ?o \<le> a mod 4096 \<and> a mod 4096 < ?o + length bs"
      and dif: "a div 4096 = ?i \<Longrightarrow> a mod 4096 - ?o = a - unat va"
      using same_page_range [OF room, of a] by auto
    have "ubyte s' pt a = phys s' ?x" by (simp add: ubyte_def lf)
    also have "\<dots> = (if unat va \<le> a \<and> a < unat va + length bs then bs ! (a - unat va) else phys s ?x)"
      unfolding app rng in_i using d dif by auto
    finally show ?thesis by (simp add: ubyte_def)
  qed
qed

text \<open>Writing the bytes \<open>src\<close> from user address \<open>a\<close> on, in the view of user memory as bytes.\<close>

definition wrote :: "u64 \<Rightarrow> nat set \<Rightarrow> 'a kmem_scheme \<Rightarrow> nat \<Rightarrow> u8 list \<Rightarrow> 'a kmem_scheme \<Rightarrow> bool" where
  "wrote pt M s a src s' \<longleftrightarrow>
     (\<forall>j. leaf (phys s') pt j = leaf (phys s) pt j) \<and>
     (\<forall>b. b div 4096 \<in> M \<longrightarrow>
        ubyte s' pt b = (if a \<le> b \<and> b < a + length src then src ! (b - a) else ubyte s pt b)) \<and>
     (\<forall>x. PGROUNDDOWN x \<notin> upage s pt ` M \<longrightarrow> phys s' x = phys s x) \<and>
     (\<exists>m. s' = s\<lparr>phys := m\<rparr>)"

lemma wrote_append:
  assumes "wrote pt M s a src1 s1" "wrote pt M s1 (a + length src1) src2 s2"
  shows "wrote pt M s a (src1 @ src2) s2"
proof -
  have "\<exists>m. s2 = s\<lparr>phys := m\<rparr>" using assms by (auto simp: wrote_def)
  moreover have "ubyte s2 pt b =
      (if a \<le> b \<and> b < a + length (src1 @ src2) then (src1 @ src2) ! (b - a) else ubyte s pt b)"
    if "b div 4096 \<in> M" for b
    using assms that by (auto simp: wrote_def nth_append)
  ultimately show ?thesis using assms by (simp add: wrote_def)
qed

lemma uacc_leaf: "(\<forall>j. leaf (phys s') pt j = leaf (phys s) pt j) \<Longrightarrow> uacc s' pt a = uacc s pt a"
  by (simp add: uacc_def)

lemma copyout_spec_from:
  assumes "uvm s pt xs M T" "top_private s pt"
  shows "\<exists>k s'. reach s pt (unat va) (length src) k \<and> uvm s' pt xs M T \<and>
    copyout pt va src s = Ok (if k = length src then 0 else -1, s') \<and>
    wrote pt M s (unat va) (take k src) s'"
  using assms
proof (induction "length src" arbitrary: va src s rule: less_induct)
  case (less src va s)
  note u = less.prems(1) and t = less.prems(2)
  have none: "wrote pt M s (unat va) [] s" by (auto simp: wrote_def intro: exI [of _ "phys s"])
  show ?case
  proof (cases "src = [] \<or> \<not> uacc s pt (unat va)")
    case True
    then have "reach s pt (unat va) (length src) 0" by (auto simp: reach_def)
    moreover have "copyout pt va src s = Ok (if 0 = length src then 0 else -1, s)"
      using True walkaddr_page(1) [OF u t, of va] by (auto simp: copyout.simps [of pt va src])
    moreover have "wrote pt M s (unat va) (take 0 src) s" unfolding take_0 by (rule none)
    ultimately show ?thesis using u by blast
  next
    case False
    let ?va' = "PGROUNDDOWN va + PGSIZE" and ?rest = "unat (PGSIZE - (va - PGROUNDDOWN va))"
    define n where "n = min ?rest (length src)"
    define s1 where "s1 = s\<lparr>phys := write_bytes (phys s)
      (upage s pt (unat va div 4096) + (va - PGROUNDDOWN va)) (take n src)\<rparr>"
    have acc: "\<forall>j<n. uacc s pt (unat va + j)" using uacc_rest [of s pt va] False by (auto simp: n_def)
    have n: "0 < n" "n \<le> length src" using page_rest_pos [of va] False by (auto simp: n_def)
    have unf: "copyout pt va src s = copyout pt ?va' (drop n src) s1"
      unfolding copyout.simps [of pt va src] Let_def n_def [symmetric]
      using walkaddr_page [OF u t, of va] False by (simp add: s1_def)
    have "unat va div 4096 \<in> M" using uacc_mapped [OF u t] False by blast
    moreover have "length (take n src) \<le> ?rest" by (simp add: n_def)
    ultimately have w: "uvm s1 pt xs M T" "wrote pt M s (unat va) (take n src) s1"
      using write_rest [OF u _ _ s1_def] by (auto simp: wrote_def s1_def)
    have lf: "\<forall>j. leaf (phys s1) pt j = leaf (phys s) pt j" using w(2) by (simp add: wrote_def)
    have tp: "top_private s1 pt" using t lf by (simp add: top_private_def)
    have "length (drop n src) < length src" using n by simp
    from less.hyps [OF this w(1) tp, of ?va'] obtain k s' where k:
      "reach s1 pt (unat ?va') (length src - n) k" "uvm s' pt xs M T"
      "copyout pt ?va' (drop n src) s1 = Ok (if k = length src - n then 0 else -1, s')"
      "wrote pt M s1 (unat ?va') (take k (drop n src)) s'" unfolding length_drop by blast
    have "unat va < unat MAXVA" using False by (simp add: uacc_def)
    then have nx: "unat ?va' = unat va + n \<or> length src - n = 0"
      using rest_next [of va] by (auto simp: n_def)
    have rs: "reach s pt (unat va + n) (length src - n) k"
      using k(1) nx uacc_leaf [OF lf] by (auto simp: reach_def)
    have "wrote pt M s1 (unat va + length (take n src)) (take k (drop n src)) s'"
      using k(1,4) nx n by (auto simp: reach_def wrote_def)
    from wrote_append [OF w(2) this]
    have "wrote pt M s (unat va) (take (n + k) src) s'" by (simp add: take_add)
    then show ?thesis
      using reach_extend [OF acc rs n(2)] unf k(2,3) n(2) by (intro exI [of _ "n + k"] exI [of _ s']) auto
  qed
qed

end
