(* ===== verification/Uvm_Fork.thy ===== *)
theory Uvm_Fork
  imports Uvm_Copy
begin

text \<open>
  \<^verbatim>\<open>uvmcopy\<close>, by which \<^verbatim>\<open>fork\<close> duplicates an address space: two tables in one physical memory,
  whose pages are disjoint.
\<close>

section \<open>Two address spaces\<close>

definition owned :: "'a kmem_scheme \<Rightarrow> u64 \<Rightarrow> nat set \<Rightarrow> u64 set" where
  "owned s pt M = tset (phys s) 2 pt \<union> upage s pt ` M"

text \<open>An address space is not affected by what happens outside its pages.\<close>

lemma other_kept:
  assumes u: "uvm s pt xs M T" and s': "kmem_inv s' ys" "kend s' = kend s" "owned s pt M \<inter> set ys = {}"
    and m: "\<forall>x. PGROUNDDOWN x \<in> owned s pt M \<longrightarrow> phys s' x = phys s x"
  shows "uvm s' pt ys M T" "\<And>j. leaf (phys s') pt j = leaf (phys s) pt j" "owned s' pt M = owned s pt M"
    "\<And>a. a div 4096 \<in> M \<Longrightarrow> ubyte s' pt a = ubyte s pt a"
proof -
  have "tset (phys s) 2 pt \<inter> set ys = {}" using s'(3) by (auto simp: owned_def)
  note f = table_inv_frame [OF uvm_table [OF u] s'(1,2) this]
  have f: "table_inv s' 2 pt ys" "tset (phys s') 2 pt = tset (phys s) 2 pt"
    "lookup (phys s') 2 pt va = lookup (phys s) 2 pt va" for va
    using f m by (auto simp: owned_def)
  show lf: "leaf (phys s') pt j = leaf (phys s) pt j" for j using f(3) by (simp add: leaf_def)
  have "upage s pt ` M \<inter> (tset (phys s') 2 pt \<union> set ys) = {}"
    using uvm_apart [OF u] s'(3) unfolding f(2) owned_def by (simp add: Int_Un_distrib Int_Un_distrib2)
  from uvm_keep(1) [OF u f(1) s'(2) _ this] lf show "uvm s' pt ys M T" by blast
  show "owned s' pt M = owned s pt M" by (simp add: owned_def f(2) lf)
  show "ubyte s' pt a = ubyte s pt a" if "a div 4096 \<in> M" for a
  proof -
    have "aligned (upage s pt (a div 4096))"
      using uvm_leaf [OF u that] by (auto simp: leaf_ok_def page_ok_def)
    then have "PGROUNDDOWN (upage s pt (a div 4096) + of_nat (a mod 4096)) = upage s pt (a div 4096)"
      by (rule PGROUNDDOWN_in_page) simp
    then show ?thesis using m that by (auto simp: ubyte_def lf owned_def)
  qed
qed

definition twin :: "'a kmem_scheme \<Rightarrow> u64 \<Rightarrow> u64 \<Rightarrow> u64 list \<Rightarrow> nat set \<Rightarrow> nat set \<Rightarrow> nat set \<Rightarrow> nat set \<Rightarrow> bool" where
  "twin s old new xs M T M' T' \<longleftrightarrow> uvm s old xs M T \<and> uvm s new xs M' T' \<and>
     owned s old M \<inter> pool s new xs M' = {}"

text \<open>A step of the new address space keeps the old one.\<close>

lemma twin_step:
  assumes t: "twin s old new xs M T M' T'" and u: "uvm s' new ys M'' T'"
    and st: "uvm_step new s xs M' s' ys M''"
  shows "twin s' old new ys M T M'' T'" "\<And>j. leaf (phys s') old j = leaf (phys s) old j"
    "\<And>a. a div 4096 \<in> M \<Longrightarrow> ubyte s' old a = ubyte s old a"
proof -
  have P: "pool s' new ys M'' = pool s new xs M'" "kend s' = kend s" using st by (simp_all add: uvm_step_def)
  have d: "owned s old M \<inter> pool s new xs M' = {}" and uo: "uvm s old xs M T"
    using t by (simp_all add: twin_def)
  have "set ys \<subseteq> pool s new xs M'" unfolding P(1) [symmetric] by (auto simp: pool_def)
  then have ys: "owned s old M \<inter> set ys = {}" using d by blast
  have m: "\<forall>x. PGROUNDDOWN x \<in> owned s old M \<longrightarrow> phys s' x = phys s x"
    using st disjointD [OF d] unfolding uvm_step_def by blast
  note k = other_kept [OF uo uvm_free [OF u] P(2) ys m]
  show "twin s' old new ys M T M'' T'" using k(1,3) u d P(1) by (simp add: twin_def)
  show "leaf (phys s') old j = leaf (phys s) old j" for j by (rule k(2))
  show "ubyte s' old a = ubyte s old a" if "a div 4096 \<in> M" for a using that by (rule k(4))
qed

section \<open>Copying page by page\<close>

lemma memmove_page:
  assumes "aligned c" "aligned p" "p < PHYSTOP"
  shows "memmove m c p (ucast PGSIZE) x = (if PGROUNDDOWN x = c then m (p + (x - c)) else m x)"
proof -
  have "unat p < 0x88000000" using assms(3) by (simp add: word_less_nat_alt)
  then show ?thesis using in_page_iff [OF assms(1), of x] by (simp add: memmove_apply)
qed

text \<open>Page \<open>j\<close> of \<open>new\<close> in \<open>s'\<close> has the contents and flags of page \<open>j\<close> of \<open>old\<close> in \<open>s\<close>.\<close>

definition copied :: "'a kmem_scheme \<Rightarrow> u64 \<Rightarrow> 'a kmem_scheme \<Rightarrow> u64 \<Rightarrow> nat \<Rightarrow> bool" where
  "copied s old s' new j \<longleftrightarrow> PTE_FLAGS (leaf (phys s') new j) = PTE_FLAGS (leaf (phys s) old j) \<and>
     (\<forall>k<4096. phys s' (upage s' new j + of_nat k) = phys s (upage s old j + of_nat k))"

lemma copied_flags:
  assumes "leaf_ok e pte"
  shows "PTE_FLAGS (PTE_FLAGS pte) = PTE_FLAGS pte" "PTE_FLAGS pte OR PTE_V = PTE_FLAGS pte"
    "PTE_FLAGS pte OR PTE_V \<noteq> PTE_V"
proof -
  show "PTE_FLAGS (PTE_FLAGS pte) = PTE_FLAGS pte" by (simp add: PTE_FLAGS_def and.assoc)
  have "PTE_FLAGS pte AND PTE_V \<noteq> 0" using assms valid_flags by (simp add: leaf_ok_def)
  then have "bit (PTE_FLAGS pte) 0" by (simp add: PTE_V_def and_one_eq odd_iff_mod_2_eq_one bit_0)
  then show or: "PTE_FLAGS pte OR PTE_V = PTE_FLAGS pte"
    by (intro bit_word_eqI) (auto simp: PTE_V_def bit_or_iff bit_1_iff)
  show "PTE_FLAGS pte OR PTE_V \<noteq> PTE_V" unfolding or using assms by (simp add: leaf_ok_def)
qed

lemma copied_same_old:
  assumes "copied s1 old s' new j" "leaf (phys s1) old j = leaf (phys s) old j" "j \<in> M"
    and "\<And>a. a div 4096 \<in> M \<Longrightarrow> ubyte s1 old a = ubyte s old a"
  shows "copied s old s' new j"
proof -
  have "phys s1 (upage s old j + of_nat k) = phys s (upage s old j + of_nat k)" if "k < 4096" for k
  proof -
    have "(4096 * j + k) div 4096 = j" "(4096 * j + k) mod 4096 = k" using that by simp_all
    then show ?thesis using assms(4) [of "4096 * j + k"] assms(2,3) by (simp add: ubyte_def)
  qed
  then show ?thesis using assms(1,2) by (simp add: copied_def)
qed

lemma copied_step:
  assumes "copied s old s1 new j" "uvm_step new s1 xs M s' ys M'" "j \<in> M \<inter> M'" "uvm s1 new xs M T"
  shows "copied s old s' new j"
proof -
  have j: "j < UPAGES" and ok: "aligned (upage s1 new j)"
    using uvm_leaf [OF assms(4)] assms(3) by (auto simp: leaf_ok_def page_ok_def)
  note p = uvm_step_page [OF assms(2,3) j]
  have "phys s' (upage s1 new j + of_nat k) = phys s1 (upage s1 new j + of_nat k)" if "k < 4096" for k
    using p(2) PGROUNDDOWN_in_page [OF ok that] by blast
  then show ?thesis using assms(1) p(1) by (simp add: copied_def)
qed

text \<open>The error exit of \<^verbatim>\<open>uvmcopy\<close>: the pages copied so far are freed.\<close>

lemma uvmcopy_undo:
  assumes u: "uvm t new zs {..<k} T'" and k: "k \<le> UPAGES"
  shows "\<exists>s' ys. bind_ok (uvmunmap new 0 (va_of k div PGSIZE) True t) (\<lambda>s. Ok (-1 :: int, s)) = Ok (-1, s') \<and>
    uvm s' new ys {} T' \<and> uvm_step new t zs {..<k} s' ys {}"
proof -
  have r: "{0..<k} \<subseteq> {..<k}" and e: "{..<k} - {0..<k} = {}" by auto
  from uvmunmap_step [OF u r le0 k] obtain s' ys where
    "uvmunmap_from new (va_of 0) (va_of k) True t = Ok s'" "uvm s' new ys ({..<k} - {0..<k}) T'"
    "uvm_step new t zs {..<k} s' ys ({..<k} - {0..<k})" by blast
  moreover have "va_of k div PGSIZE * PGSIZE = va_of k"
    using va_of_aligned [of k] k by (simp add: aligned_def minus_mod_eq_div_mult [symmetric])
  ultimately show ?thesis unfolding e by (auto simp: uvmunmap_def)
qed

text \<open>One page: the new page gets the contents and the flags of the old one.\<close>

lemma copy_page:
  assumes t: "twin s old new (c # zs) M T {..<k} T'" and k: "k \<in> M" and kc: "kalloc s = (c, s1)"
    and s2: "s2 = s1\<lparr>phys := memmove (phys s1) c (upage s old k) (ucast PGSIZE)\<rparr>"
  shows "\<exists>r s3 ys. mappages new (va_of k) PGSIZE c (PTE_FLAGS (leaf (phys s) old k)) s2 = Ok (r, s3) \<and>
    length zs \<le> length ys + 2 \<and>
    (r = 0 \<and> uvm s3 new ys {..<Suc k} T' \<and> uvm_step new s (c # zs) {..<k} s3 ys {..<Suc k} \<and>
       copied s old s3 new k \<or>
     r = -1 \<and> ys = [] \<and> (\<exists>s4. kfree c s3 = Ok s4 \<and> uvm s4 new (c # ys) {..<k} T' \<and>
       uvm_step new s (c # zs) {..<k} s4 (c # ys) {..<k}))"
proof -
  let ?p = "upage s old k" and ?f = "PTE_FLAGS (leaf (phys s) old k)"
  have uo: "uvm s old (c # zs) M T" and un: "uvm s new (c # zs) {..<k} T'" using t by (simp_all add: twin_def)
  have lo: "leaf_ok (kend s) (leaf (phys s) old k)" and kU: "k < UPAGES" using uvm_leaf [OF uo k] by auto
  then have p: "aligned ?p" "?p < PHYSTOP" by (auto simp: leaf_ok_def page_ok_def)
  have c: "page_ok (kend s) c" using uvm_free [OF un] by (simp add: kmem_inv_def)
  have pc: "?p \<noteq> c" using uvm_apart [OF uo] k by auto
  have mm: "memmove (phys s1) c ?p (ucast PGSIZE) x =
      (if PGROUNDDOWN x = c then phys s1 (?p + (x - c)) else phys s1 x)" for x
    by (rule memmove_page [OF page_ok_aligned [OF c] p])
  then have m: "\<forall>x. PGROUNDDOWN x \<noteq> c \<longrightarrow> memmove (phys s1) c ?p (ucast PGSIZE) x = phys s1 x" by simp
  have ins: "insert k {..<k} = {..<Suc k}" and kk: "k \<notin> {..<k}" by auto
  have s1: "phys s1 y = phys s y" if "PGROUNDDOWN y \<noteq> c" for y
    using kalloc_Cons [OF uvm_free [OF un]] kc that by (metis prod.inject)
  from grow_page [OF un kU kk kc s2 m copied_flags(1,3) [OF lo], unfolded ins] obtain r s3 ys where r:
    "mappages new (va_of k) PGSIZE c ?f s2 = Ok (r, s3)" "length zs \<le> length ys + 2"
    "r = 0 \<and> uvm s3 new ys {..<Suc k} T' \<and> uvm_step new s (c # zs) {..<k} s3 ys {..<Suc k} \<and>
       leaf (phys s3) new k = PA2PTE c OR ?f OR PTE_V \<and>
       (\<forall>x. PGROUNDDOWN x = c \<longrightarrow> phys s3 x = memmove (phys s1) c ?p (ucast PGSIZE) x) \<or>
     r = -1 \<and> ys = [] \<and> (\<exists>s4. kfree c s3 = Ok s4 \<and> uvm s4 new (c # ys) {..<k} T' \<and>
       uvm_step new s (c # zs) {..<k} s4 (c # ys) {..<k})" by blast
  have "copied s old s3 new k" if lf: "leaf (phys s3) new k = PA2PTE c OR ?f OR PTE_V"
    and mem: "\<forall>x. PGROUNDDOWN x = c \<longrightarrow> phys s3 x = memmove (phys s1) c ?p (ucast PGSIZE) x"
  proof -
    note fp = fresh_pte [OF c copied_flags(1) [OF lo]]
    have "phys s3 (c + of_nat i) = phys s (?p + of_nat i)" if i: "i < 4096" for i
    proof -
      have "PGROUNDDOWN (c + of_nat i) = c" by (rule PGROUNDDOWN_in_page [OF page_ok_aligned [OF c] i])
      then have "phys s3 (c + of_nat i) = phys s1 (?p + of_nat i)" using mem mm by simp
      also have "\<dots> = phys s (?p + of_nat i)"
        by (rule s1) (use PGROUNDDOWN_in_page [OF p(1) i] pc in simp)
      finally show ?thesis .
    qed
    then show ?thesis using lf fp copied_flags(2) [OF lo] by (simp add: copied_def)
  qed
  then show ?thesis using r by blast
qed

lemma uvmcopy_from_unfold:
  assumes uo: "uvm s old xs M T" and k: "k \<in> M" and lt: "va_of k < sz"
  shows "uvmcopy_from old new (va_of k) sz s =
    (case kalloc s of (mem, s1) \<Rightarrow>
       if mem = 0
       then bind_ok (uvmunmap new 0 (va_of k div PGSIZE) True s1) (\<lambda>s. Ok (-1, s))
       else bind_ok (mappages new (va_of k) PGSIZE mem (PTE_FLAGS (leaf (phys s) old k))
           (s1\<lparr>phys := memmove (phys s1) mem (upage s old k) (ucast PGSIZE)\<rparr>)) (\<lambda>(r, s).
         if r \<noteq> 0
         then bind_ok (kfree mem s) (\<lambda>s. bind_ok (uvmunmap new 0 (va_of k div PGSIZE) True s) (\<lambda>s. Ok (-1, s)))
         else uvmcopy_from old new (va_of (Suc k)) sz s))"
proof -
  have "leaf_ok (kend s) (leaf (phys s) old k)" and kV: "k < VPNS" using uvm_leaf [OF uo k] by auto
  then have v: "leaf (phys s) old k AND PTE_V \<noteq> 0" by (simp add: leaf_ok_def)
  from uvm_table [OF uo] kV v obtain p where p: "walk old (va_of k) False s = Ok (p, s)" "p \<noteq> 0"
    "load64 (phys s) p = leaf (phys s) old k" "slot (phys s) 2 old (va_of k) = Some p" by (rule walk_valid)
  show ?thesis
    unfolding uvmcopy_from.simps [of old new "va_of k"] va_of_Suc unfolding PGSIZE_def
    using p lt v by (simp add: Let_def split: prod.splits)
qed

lemma uvmcopy_from_spec:
  assumes "twin s old new xs {..<n} T {..<k} T'" "k \<le> n" and n: "n = npages sz" and sz: "sz \<le> TRAPFRAME"
  shows "\<exists>r s' ys. uvmcopy_from old new (va_of k) sz s = Ok (r, s') \<and>
    (\<forall>j. leaf (phys s') old j = leaf (phys s) old j) \<and>
    (\<forall>a. a div 4096 \<in> {..<n} \<longrightarrow> ubyte s' old a = ubyte s old a) \<and>
    (r = 0 \<and> twin s' old new ys {..<n} T {..<n} T' \<and> uvm_step new s xs {..<k} s' ys {..<n} \<and>
       (\<forall>j\<in>{k..<n}. copied s old s' new j) \<or>
     r = -1 \<and> length xs \<le> 3 * (n - k) \<and> twin s' old new ys {..<n} T {} T' \<and>
       uvm_step new s xs {..<k} s' ys {})"
  using assms(1,2)
proof (induction "n - k" arbitrary: k s xs)
  case 0
  then have "k = n" by simp
  moreover have "\<not> va_of k < sz"
    using calculation va_of_less_sz [of k sz] npages_le [OF sz] n by simp
  ultimately show ?case using 0 uvm_step_refl by (simp add: uvmcopy_from.simps) blast
next
  case (Suc d)
  note t = Suc.prems(1)
  have k: "k \<in> {..<n}" "k < UPAGES" using Suc npages_le [OF sz] n by auto
  have lt: "va_of k < sz" using va_of_less_sz [of k sz] k n by simp
  have uo: "uvm s old xs {..<n} T" and un: "uvm s new xs {..<k} T'" using t by (simp_all add: twin_def)
  note unf = uvmcopy_from_unfold [OF uo k(1) lt, of new]
  have fail: "\<exists>r s' ys. bind_ok (uvmunmap new 0 (va_of k div PGSIZE) True s4) (\<lambda>s. Ok (-1 :: int, s)) = Ok (r, s') \<and>
    (\<forall>j. leaf (phys s') old j = leaf (phys s) old j) \<and>
    (\<forall>a. a div 4096 \<in> {..<n} \<longrightarrow> ubyte s' old a = ubyte s old a) \<and>
    r = -1 \<and> twin s' old new ys {..<n} T {} T' \<and> uvm_step new s xs {..<k} s' ys {}"
    if u4: "uvm s4 new zs {..<k} T'" and st4: "uvm_step new s xs {..<k} s4 zs {..<k}"
    for s4 :: "'a kmem_scheme" and zs
  proof -
    from uvmcopy_undo [OF u4] k(2) obtain s' ys where s':
      "bind_ok (uvmunmap new 0 (va_of k div PGSIZE) True s4) (\<lambda>s. Ok (-1 :: int, s)) = Ok (-1, s')"
      "uvm s' new ys {} T'" "uvm_step new s4 zs {..<k} s' ys {}" by auto
    have st: "uvm_step new s xs {..<k} s' ys {}"
      by (rule uvm_step_trans [OF st4 s'(3)]) (use k(2) in auto)
    show ?thesis using s'(1) st twin_step [OF t s'(2) st] by blast
  qed
  show ?case
  proof (cases xs)
    case Nil
    then have "kalloc s = (0, s)" using uvm_free [OF un] by (simp add: kalloc_Nil)
    then show ?thesis using unf fail [OF un uvm_step_refl] Nil by auto
  next
    case (Cons c zs)
    obtain s1 where s1: "kalloc s = (c, s1)"
      using uvm_free [OF un] unfolding Cons by (auto elim: kalloc_Cons)
    have c: "c \<noteq> 0" using uvm_free [OF un] Cons by (simp add: kmem_inv_def)
    from copy_page [OF t [unfolded Cons] k(1) s1 refl] obtain r s3 ys where r:
      "mappages new (va_of k) PGSIZE c (PTE_FLAGS (leaf (phys s) old k))
        (s1\<lparr>phys := memmove (phys s1) c (upage s old k) (ucast PGSIZE)\<rparr>) = Ok (r, s3)"
      "length zs \<le> length ys + 2"
      "r = 0 \<and> uvm s3 new ys {..<Suc k} T' \<and> uvm_step new s xs {..<k} s3 ys {..<Suc k} \<and>
         copied s old s3 new k \<or>
       r = -1 \<and> ys = [] \<and> (\<exists>s4. kfree c s3 = Ok s4 \<and> uvm s4 new (c # ys) {..<k} T' \<and>
         uvm_step new s xs {..<k} s4 (c # ys) {..<k})" unfolding Cons by blast
    show ?thesis using r(3)
    proof (elim disjE conjE exE)
      fix s4 assume "r = -1" "ys = []" "kfree c s3 = Ok s4" "uvm s4 new (c # ys) {..<k} T'"
        "uvm_step new s xs {..<k} s4 (c # ys) {..<k}"
      then show ?thesis using unf s1 c r(1,2) fail [of s4 "c # ys"] Cons k by auto
    next
      assume r0: "r = 0" and u3: "uvm s3 new ys {..<Suc k} T'"
        and st: "uvm_step new s xs {..<k} s3 ys {..<Suc k}" and cp: "copied s old s3 new k"
      note tw = twin_step [OF t u3 st]
      have d: "d = n - Suc k" "Suc k \<le> n" using Suc.hyps(2) k by auto
      from Suc.hyps(1) [OF d(1) tw(1) d(2)] obtain r' s' ys' where s':
        "uvmcopy_from old new (va_of (Suc k)) sz s3 = Ok (r', s')"
        "\<forall>j. leaf (phys s') old j = leaf (phys s3) old j"
        "\<forall>a. a div 4096 \<in> {..<n} \<longrightarrow> ubyte s' old a = ubyte s3 old a"
        "r' = 0 \<and> twin s' old new ys' {..<n} T {..<n} T' \<and> uvm_step new s3 ys {..<Suc k} s' ys' {..<n} \<and>
           (\<forall>j\<in>{Suc k..<n}. copied s3 old s' new j) \<or>
         r' = -1 \<and> length ys \<le> 3 * (n - Suc k) \<and> twin s' old new ys' {..<n} T {} T' \<and>
           uvm_step new s3 ys {..<Suc k} s' ys' {}" by blast
      have trans: "uvm_step new s xs {..<k} s' ys' M'" if "uvm_step new s3 ys {..<Suc k} s' ys' M'" for M'
        by (rule uvm_step_trans [OF st that]) (use k(2) in auto)
      have cps: "\<forall>j\<in>{k..<n}. copied s old s' new j"
        if "uvm_step new s3 ys {..<Suc k} s' ys' {..<n}" "\<forall>j\<in>{Suc k..<n}. copied s3 old s' new j"
      proof
        fix j assume j: "j \<in> {k..<n}"
        show "copied s old s' new j"
        proof (cases "j = k")
          case True
          then show ?thesis using copied_step [OF cp that(1) _ u3] k by simp
        next
          case False
          then have "copied s3 old s' new j" using that(2) j by simp
          then show ?thesis by (rule copied_same_old [where M = "{..<n}"]) (use tw j in auto)
        qed
      qed
      have "uvmcopy_from old new (va_of k) sz s = Ok (r', s')" using unf s1 c r(1) r0 s'(1) by simp
      moreover have "length xs \<le> 3 * (n - k)" if "length ys \<le> 3 * (n - Suc k)"
        using that r(2) Cons k by simp
      ultimately show ?thesis using s'(2-4) tw(2,3) trans cps by auto
    qed
  qed
qed

end
