(* ===== verification/Uvm_Props.thy ===== *)
theory Uvm_Props
  imports Uvm_Fork
begin

text \<open>
  What the functions of \<^verbatim>\<open>kernel/vm.c\<close> promise about user address spaces, on a concrete small
  machine for the witnesses: \<open>demo0\<close> is memory after \<^verbatim>\<open>kinit\<close> with seven free pages, \<open>demo1\<close> has an
  empty address space, \<open>demo2\<close> one of one page, and \<open>demo3\<close> a second, empty one beside it.
\<close>

section \<open>A small machine\<close>

definition demo0 :: kmem where
  "demo0 = (let s = \<lparr>phys = (\<lambda>_. 0), freelist = 0, kend = 0x87FF8001\<rparr>
     in case kinit s of Ok s' \<Rightarrow> s' | _ \<Rightarrow> s)"

definition demo_pt :: u64 where "demo_pt = fst (uvmcreate demo0)"
definition demo1 :: kmem where "demo1 = snd (uvmcreate demo0)"
definition demo2 :: kmem where
  "demo2 = (case uvmalloc demo_pt 0 4096 PTE_W demo1 of Ok (_, s) \<Rightarrow> s | _ \<Rightarrow> demo1)"
definition demo_new :: u64 where "demo_new = fst (uvmcreate demo2)"
definition demo3 :: kmem where "demo3 = snd (uvmcreate demo2)"

lemma demo0_inv: "\<exists>xs. kmem_inv demo0 xs \<and> length xs = 7"
proof -
  have p: "PGROUNDUP 0x87FF8001 = 0x87FF9000" by (simp add: PGROUNDUP_def)
  from kinit_ok [of "\<lparr>phys = (\<lambda>_. 0), freelist = 0, kend = 0x87FF8001\<rparr>"]
  obtain s' where "kinit \<lparr>phys = (\<lambda>_. 0), freelist = 0, kend = 0x87FF8001\<rparr> = Ok s'"
    "kmem_inv s' (rev (page_range 0x87FF9000 7))" by (auto simp: p)
  then show ?thesis by (auto simp: demo0_def page_range_def intro!: exI)
qed

lemma demo1_uvm: "\<exists>xs. uvm demo1 demo_pt xs {} {} \<and> length xs = 6"
proof -
  from demo0_inv obtain xs where xs: "kmem_inv demo0 xs" "length xs = 7" by blast
  then obtain c zs where "xs = c # zs" by (cases xs) auto
  moreover from this xs obtain s' where "uvmcreate demo0 = (c, s')" "uvm s' c zs {} {}"
    using uvmcreate_Cons by blast
  ultimately show ?thesis using xs(2) by (auto simp: demo_pt_def demo1_def)
qed

lemma npages_0 [simp]: "npages 0 = 0" and npages_4096 [simp]: "npages 4096 = 1"
  by (simp_all add: npages_def)

lemma PTE_W_flags: "PTE_FLAGS PTE_W = PTE_W"
  by (simp add: PTE_FLAGS_def PTE_W_def)

lemma uvmalloc_ok:
  assumes u: "uvm s pt xs {..<npages oldsz} T" and sz: "oldsz \<le> newsz" "newsz \<le> TRAPFRAME"
    and perm: "PTE_FLAGS xperm = xperm"
  shows "\<exists>r s' ys. uvmalloc pt oldsz newsz xperm s = Ok (r, s') \<and>
    (r = newsz \<and> length xs \<le> length ys + 3 * (npages newsz - npages oldsz) \<and>
       uvm s' pt ys {..<npages newsz} T \<and> uvm_step pt s xs {..<npages oldsz} s' ys {..<npages newsz} \<and>
       (\<forall>j\<in>{npages oldsz..<npages newsz}. fresh_user_page s' pt (PTE_R OR PTE_U OR xperm) j) \<or>
     r = 0 \<and> length xs \<le> 3 * (npages newsz - npages oldsz) \<and>
       uvm s' pt ys {..<npages oldsz} T \<and> uvm_step pt s xs {..<npages oldsz} s' ys {..<npages oldsz})"
proof -
  have "\<not> newsz < oldsz" "oldsz \<le> TRAPFRAME" using sz by (auto simp: not_less)
  then have "uvmalloc pt oldsz newsz xperm s =
      uvmalloc_from pt (va_of (npages oldsz)) (va_of (npages oldsz)) newsz xperm s"
    by (simp add: uvmalloc_def PGROUNDUP_npages Let_def)
  then show ?thesis
    using uvmalloc_from_step [OF u le_refl npages_mono [OF sz(1)] sz(2) perm] by simp
qed

lemma uvm_top_private: "uvm s pt xs M {} \<Longrightarrow> top_private s pt"
proof -
  assume u: "uvm s pt xs M {}"
  have "leaf (phys s) pt i AND PTE_V = 0" if "i \<in> {UPAGES..<VPNS}" for i
  proof -
    have "i \<notin> M \<union> {}" "i < 2 * VPNS" using that uvm_user [OF u] by auto
    then show ?thesis using u unfolding uvm_def by blast
  qed
  then show ?thesis by (simp add: top_private_def)
qed

lemma demo2_uvm:
  "\<exists>xs. uvm demo2 demo_pt xs {..<1} {} \<and> xs \<noteq> [] \<and> fresh_user_page demo2 demo_pt (PTE_R OR PTE_U OR PTE_W) 0"
proof -
  from demo1_uvm obtain xs where xs: "uvm demo1 demo_pt xs {} {}" "length xs = 6" by blast
  then have u: "uvm demo1 demo_pt xs {..<npages 0} {}" by simp
  have le: "(0 :: u64) \<le> 4096" "4096 \<le> TRAPFRAME" by (simp_all add: TRAPFRAME_eq)
  from uvmalloc_ok [OF u le PTE_W_flags] xs(2) obtain s' ys where
    s': "uvmalloc demo_pt 0 4096 PTE_W demo1 = Ok (4096, s')" "uvm s' demo_pt ys {..<1} {}"
    "6 \<le> length ys + 3" "\<forall>j\<in>{0..<1}. fresh_user_page s' demo_pt (PTE_R OR PTE_U OR PTE_W) j" by auto
  moreover from this(1) have "demo2 = s'" by (simp add: demo2_def)
  moreover from s'(3) have "ys \<noteq> []" by auto
  ultimately show ?thesis by auto
qed

lemma bit_and_nonzero: "bit w n \<Longrightarrow> bit v n \<Longrightarrow> w AND v \<noteq> 0" for w v :: u64
  by (auto dest: arg_cong [of _ _ "\<lambda>w. bit w n"] simp: bit_and_iff)

lemma uacc_fresh:
  assumes "fresh_user_page s pt (PTE_R OR PTE_U OR x) j" "a div 4096 = j" "j < VPNS"
  shows "uacc s pt a"
proof -
  have f: "PTE_FLAGS (leaf (phys s) pt j) = PTE_R OR PTE_U OR x OR PTE_V"
    using assms(1) by (simp add: fresh_user_page_def or.assoc)
  have "bit (PTE_FLAGS (leaf (phys s) pt j)) 4" "bit (PTE_FLAGS (leaf (phys s) pt j)) 0"
    unfolding f by (simp_all add: pte_bit_defs bit_or_iff)
  then have "bit (leaf (phys s) pt j) 4" "bit (leaf (phys s) pt j) 0"
    by (simp_all add: PTE_FLAGS_def bit_and_iff)
  then have "leaf (phys s) pt j AND PTE_U \<noteq> 0" "leaf (phys s) pt j AND PTE_V \<noteq> 0"
    using bit_and_nonzero [of _ 4 PTE_U] bit_and_nonzero [of _ 0 PTE_V] by (auto simp: pte_bit_defs)
  moreover have "a < unat MAXVA" using assms(2,3) by (auto simp: MAXVA_eq)
  ultimately show ?thesis using assms(2) by (simp add: uacc_def)
qed

lemma demo3_twin: "\<exists>xs. twin demo3 demo_pt demo_new xs {..<1} {} {} {}"
proof -
  from demo2_uvm obtain xs where xs: "uvm demo2 demo_pt xs {..<1} {}" "xs \<noteq> []" by blast
  then obtain c zs where c: "xs = c # zs" by (cases xs) auto
  from uvm_free [OF xs(1)] obtain s' where s': "uvmcreate demo2 = (c, s')" "uvm s' c zs {} {}"
    "pool s' c zs {} = set (c # zs)" "kend s' = kend demo2"
    "\<And>x. PGROUNDDOWN x \<noteq> c \<Longrightarrow> phys s' x = phys demo2 x"
    unfolding c by (rule uvmcreate_Cons) auto
  have d: "owned demo2 demo_pt {..<1} \<inter> set xs = {}"
    using uvm_apart [OF xs(1)] uvm_table [OF xs(1)] by (auto simp: owned_def table_inv_def)
  have m: "\<forall>x. PGROUNDDOWN x \<in> owned demo2 demo_pt {..<1} \<longrightarrow> phys s' x = phys demo2 x"
    using s'(5) d c by (metis disjointD list.set_intros(1))
  have "owned demo2 demo_pt {..<1} \<inter> set zs = {}" using d c by auto
  note k = other_kept [OF xs(1) uvm_free [OF s'(2)] s'(4) this m]
  have "twin s' demo_pt c zs {..<1} {} {} {}" using k(1,3) s'(2,3) d c by (simp add: twin_def)
  then show ?thesis using s'(1) by (auto simp: demo3_def demo_new_def)
qed

section \<open>Properties\<close>

text \<open>
  C10: \<^verbatim>\<open>uvmalloc\<close> grows an address space from \<^verbatim>\<open>oldsz\<close> to \<^verbatim>\<open>newsz\<close> bytes. It returns \<^verbatim>\<open>newsz\<close> with every new
  page zeroed and mapped with the requested permissions; or it returns 0, which needs a free
  list too short for the new pages and their tables, and then the address space is as before.
  In both cases no page is lost or shared, and the contents of the old pages and all memory
  outside stay.
\<close>

theorem uvmalloc_spec:
  assumes "uvm s pt xs {..<npages oldsz} T" "oldsz \<le> newsz" "newsz \<le> TRAPFRAME" "PTE_FLAGS xperm = xperm"
  shows "\<exists>r s' ys. uvmalloc pt oldsz newsz xperm s = Ok (r, s') \<and>
    (r = newsz \<and> uvm s' pt ys {..<npages newsz} T \<and>
       uvm_step pt s xs {..<npages oldsz} s' ys {..<npages newsz} \<and>
       (\<forall>j\<in>{npages oldsz..<npages newsz}. fresh_user_page s' pt (PTE_R OR PTE_U OR xperm) j) \<or>
     r = 0 \<and> length xs \<le> 3 * (npages newsz - npages oldsz) \<and>
       uvm s' pt ys {..<npages oldsz} T \<and> uvm_step pt s xs {..<npages oldsz} s' ys {..<npages oldsz})"
  using uvmalloc_ok [OF assms] by blast

theorem uvmalloc_spec_witness:
  "\<exists>r s' ys. uvmalloc demo_pt 0 4096 PTE_W demo1 = Ok (r, s') \<and> r = 4096 \<and>
     uvm s' demo_pt ys {..<1} {} \<and> fresh_user_page s' demo_pt (PTE_R OR PTE_U OR PTE_W) 0"
proof -
  from demo1_uvm obtain xs where xs: "uvm demo1 demo_pt xs {..<npages 0} {}" "length xs = 6" by auto
  have le: "(0 :: u64) \<le> 4096" "4096 \<le> TRAPFRAME" by (simp_all add: TRAPFRAME_eq)
  from uvmalloc_spec [OF xs(1) le PTE_W_flags] xs(2) show ?thesis by auto
qed

text \<open>
  C11: an address space that is created, grown to any size (successfully or not) and freed gives
  back exactly the pages that were free before: nothing leaks and nothing is freed twice.
\<close>

theorem address_space_no_leak:
  assumes "kmem_inv s xs" "xs \<noteq> []" "sz \<le> TRAPFRAME" "PTE_FLAGS xperm = xperm"
    and "uvmcreate s = (pt, s1)" "uvmalloc pt 0 sz xperm s1 = Ok (r, s2)"
  shows "\<exists>s3 ys. uvmfree pt r s2 = Ok s3 \<and> kmem_inv s3 ys \<and> set ys = set xs"
proof -
  obtain c zs where xs: "xs = c # zs" using assms(2) by (cases xs) auto
  from assms(1) obtain s' where s': "uvmcreate s = (c, s')" "uvm s' c zs {} {}" "pool s' c zs {} = set xs"
    unfolding xs by (rule uvmcreate_Cons) auto
  then have s1: "uvm s1 pt zs {..<npages 0} {}" "pool s1 pt zs {..<npages 0} = set xs"
    using assms(5) by simp_all
  have "(0 :: u64) \<le> sz" by simp
  from uvmalloc_ok [OF s1(1) this assms(3,4)] assms(6) obtain ys where
    ys: "uvm s2 pt ys {..<npages r} {}" "uvm_step pt s1 zs {..<npages 0} s2 ys {..<npages r}" "r = sz \<or> r = 0"
    by auto
  have "r \<le> TRAPFRAME" using ys(3) assms(3) by auto
  from uvmfree_ok [OF ys(1) this] obtain s3 ws where "uvmfree pt r s2 = Ok s3"
    "freed (pool s2 pt ys {..<npages r}) s2 [] s3 ws" by blast
  moreover have "pool s2 pt ys {..<npages r} = set xs" using ys(2) s1(2) by (simp add: uvm_step_def)
  ultimately show ?thesis by (auto simp: freed_def)
qed

theorem address_space_no_leak_witness:
  "\<exists>xs s3 ys. kmem_inv demo0 xs \<and> uvmfree demo_pt 4096 demo2 = Ok s3 \<and> kmem_inv s3 ys \<and>
     set ys = set xs \<and> length xs = 7"
proof -
  from demo0_inv obtain xs where xs: "kmem_inv demo0 xs" "length xs = 7" by blast
  then have "xs \<noteq> []" by auto
  have c: "uvmcreate demo0 = (demo_pt, demo1)" by (simp add: demo_pt_def demo1_def)
  from demo1_uvm obtain zs where zs: "uvm demo1 demo_pt zs {..<npages 0} {}" "length zs = 6" by auto
  have le: "(0 :: u64) \<le> 4096" "4096 \<le> TRAPFRAME" by (simp_all add: TRAPFRAME_eq)
  from uvmalloc_ok [OF zs(1) le PTE_W_flags] zs(2)
  have "uvmalloc demo_pt 0 4096 PTE_W demo1 = Ok (4096, demo2)" by (auto simp: demo2_def)
  from address_space_no_leak [OF xs(1) \<open>xs \<noteq> []\<close> le(2) PTE_W_flags c this] xs show ?thesis by blast
qed

text \<open>
  C15: \<^verbatim>\<open>copyin\<close> reads exactly the requested bytes of user memory, across page boundaries, and
  returns 0; if some byte lies in a page the user cannot access it returns -1, having copied
  the bytes before the first such page and nothing else.
\<close>

theorem copyin_exact:
  assumes "uvm s pt xs M T" "top_private s pt"
  shows "\<exists>k. reach s pt (unat va) len k \<and>
    copyin pt va len s = Ok (if k = len then 0 else -1, ubytes s pt (unat va) k)"
  using copyin_from_spec [OF assms, of va len "[]"] by (simp add: copyin_def)

theorem copyin_exact_witness:
  "copyin demo_pt 4094 2 demo2 = Ok (0, [0, 0]) \<and> (\<exists>bs. copyin demo_pt 4094 9 demo2 = Ok (-1, bs) \<and> length bs = 2)"
proof -
  from demo2_uvm obtain xs where u: "uvm demo2 demo_pt xs {..<1} {}"
    and f: "fresh_user_page demo2 demo_pt (PTE_R OR PTE_U OR PTE_W) 0" by blast
  note t = uvm_top_private [OF u]
  have acc: "uacc demo2 demo_pt a" if "a < 4096" for a by (rule uacc_fresh [OF f]) (use that in auto)
  have bad: "\<not> uacc demo2 demo_pt 4096" using uacc_mapped [OF u t, of 4096] by auto
  have al: "aligned (upage demo2 demo_pt 0)" using uvm_leaf [OF u, of 0] by (auto simp: leaf_ok_def page_ok_def)
  have z: "ubyte demo2 demo_pt a = 0" if "a < 4096" for a
    using f PGROUNDDOWN_in_page [OF al that] that by (simp add: fresh_user_page_def ubyte_def)
  have r: "reach demo2 demo_pt 4094 2 2" "reach demo2 demo_pt 4094 9 2"
    using acc bad by (auto simp: reach_def less_Suc_eq numeral_2_eq_2)
  have b: "ubytes demo2 demo_pt 4094 2 = [0, 0]" by (simp add: ubytes_def numeral_2_eq_2 z)
  from copyin_exact [OF u t, of 4094 2] obtain k where
    "reach demo2 demo_pt 4094 2 k" "copyin demo_pt 4094 2 demo2 = Ok (if k = 2 then 0 else -1, ubytes demo2 demo_pt 4094 k)"
    by auto
  moreover from this(1) have "k = 2" using r(1) by (rule reach_unique)
  moreover from copyin_exact [OF u t, of 4094 9] obtain k' where
    "reach demo2 demo_pt 4094 9 k'" "copyin demo_pt 4094 9 demo2 = Ok (if k' = 9 then 0 else -1, ubytes demo2 demo_pt 4094 k')"
    by auto
  moreover from this(1) have "k' = 2" using r(2) by (rule reach_unique)
  ultimately show ?thesis using b by simp
qed

text \<open>
  C16: \<^verbatim>\<open>copyinstr\<close> returns 0 exactly if a NUL is among the first \<^verbatim>\<open>max\<close> bytes with every byte up to
  it accessible, and then has stored the string with its terminator; otherwise it returns -1
  having stored the accessible bytes.
\<close>

theorem copyinstr_exact:
  assumes "uvm s pt xs M T" "top_private s pt"
  shows "(\<exists>k. nul_at s pt (unat va) max_len k \<and>
      copyinstr pt va max_len s = Ok (0, ubytes s pt (unat va) (Suc k))) \<or>
    (\<nexists>k. nul_at s pt (unat va) max_len k) \<and> (\<exists>k. reach s pt (unat va) max_len k \<and>
      copyinstr pt va max_len s = Ok (-1, ubytes s pt (unat va) k))"
  using copyinstr_from_spec [OF assms, of va max_len "[]"] by (simp add: copyinstr_def)

theorem copyinstr_exact_witness: "copyinstr demo_pt 7 100 demo2 = Ok (0, [0])"
proof -
  from demo2_uvm obtain xs where u: "uvm demo2 demo_pt xs {..<1} {}"
    and f: "fresh_user_page demo2 demo_pt (PTE_R OR PTE_U OR PTE_W) 0" by blast
  have al: "aligned (upage demo2 demo_pt 0)" using uvm_leaf [OF u, of 0] by (auto simp: leaf_ok_def page_ok_def)
  have acc: "uacc demo2 demo_pt 7" by (rule uacc_fresh [OF f]) auto
  have z: "ubyte demo2 demo_pt 7 = 0"
    using f PGROUNDDOWN_in_page [OF al, of 7] by (simp add: fresh_user_page_def ubyte_def)
  then have n: "nul_at demo2 demo_pt 7 100 0" using acc by (simp add: nul_at_def)
  moreover have "k = 0" if "nul_at demo2 demo_pt 7 100 k" for k using that z by (auto simp: nul_at_def intro: ccontr)
  moreover have "ubytes demo2 demo_pt 7 (Suc 0) = [0]" using z by (simp add: ubytes_def)
  moreover have "unat (7 :: u64) = 7" by simp
  ultimately show ?thesis
    using copyinstr_exact [OF u uvm_top_private [OF u], of 7 100] by metis
qed

text \<open>
  C14: \<^verbatim>\<open>copyout\<close> writes exactly the given bytes at the given user address and changes no other byte
  of memory, the page table included; on a page the user cannot access it stops with -1 after
  the pages before. It asks for user access only: a page mapped without \<^verbatim>\<open>PTE_W\<close> is written all
  the same.
\<close>

theorem copyout_exact:
  assumes "uvm s pt xs M T" "top_private s pt"
  shows "\<exists>k s'. reach s pt (unat va) (length src) k \<and> uvm s' pt xs M T \<and>
    copyout pt va src s = Ok (if k = length src then 0 else -1, s') \<and>
    wrote pt M s (unat va) (take k src) s'"
  using assms by (rule copyout_spec_from)

theorem copyout_exact_witness:
  "\<exists>s'. copyout demo_pt 0 [1, 2, 3] demo2 = Ok (0, s') \<and> ubyte s' demo_pt 1 = 2"
proof -
  from demo2_uvm obtain xs where u: "uvm demo2 demo_pt xs {..<1} {}"
    and f: "fresh_user_page demo2 demo_pt (PTE_R OR PTE_U OR PTE_W) 0" by blast
  have "uacc demo2 demo_pt a" if "a < 3" for a by (rule uacc_fresh [OF f]) (use that in auto)
  then have r: "reach demo2 demo_pt 0 3 3" by (simp add: reach_def)
  from copyout_exact [OF u uvm_top_private [OF u], of 0 "[1, 2, 3]"] obtain k s' where
    k: "reach demo2 demo_pt 0 3 k" "copyout demo_pt 0 [1, 2, 3] demo2 = Ok (if k = 3 then 0 else -1, s')"
    "wrote demo_pt {..<1} demo2 0 (take k [1, 2, 3]) s'" by (auto simp: numeral_3_eq_3)
  have "k = 3" using k(1) r by (rule reach_unique)
  with k show ?thesis by (auto simp: wrote_def)
qed

text \<open>
  C13: what \<^verbatim>\<open>copyout\<close> has written successfully, \<^verbatim>\<open>copyin\<close> at the same address reads back.
\<close>

theorem copyout_copyin:
  assumes u: "uvm s pt xs M T" and t: "top_private s pt" and c: "copyout pt va src s = Ok (0, s')"
  shows "copyin pt va (length src) s' = Ok (0, src)"
proof -
  from copyout_spec_from [OF u t, of va src] c
  have r: "reach s pt (unat va) (length src) (length src)" and u': "uvm s' pt xs M T"
    and w: "wrote pt M s (unat va) src s'" by (auto split: if_splits)
  then have lf: "\<forall>j. leaf (phys s') pt j = leaf (phys s) pt j" by (simp add: wrote_def)
  then have t': "top_private s' pt" using t by (simp add: top_private_def)
  have r': "reach s' pt (unat va) (length src) (length src)" using r uacc_leaf [OF lf] by (simp add: reach_def)
  have "ubytes s' pt (unat va) (length src) = src"
  proof (rule nth_equalityI)
    fix i assume "i < length (ubytes s' pt (unat va) (length src))"
    then have i: "i < length src" by (simp add: ubytes_def)
    then have "(unat va + i) div 4096 \<in> M" using r uacc_mapped [OF u t] by (simp add: reach_def)
    then show "ubytes s' pt (unat va) (length src) ! i = src ! i" using w i by (simp add: wrote_def ubytes_def)
  qed (simp add: ubytes_def)
  moreover from copyin_from_spec [OF u' t', of va "length src" "[]"] obtain k where
    k: "reach s' pt (unat va) (length src) k"
    "copyin pt va (length src) s' = Ok (if k = length src then 0 else -1, ubytes s' pt (unat va) k)"
    by (auto simp: copyin_def)
  moreover have "k = length src" using k(1) r' by (rule reach_unique)
  ultimately show ?thesis by simp
qed

theorem copyout_copyin_witness:
  "\<exists>s'. copyout demo_pt 0 [1, 2, 3] demo2 = Ok (0, s') \<and> copyin demo_pt 0 3 s' = Ok (0, [1, 2, 3])"
proof -
  from demo2_uvm obtain xs where u: "uvm demo2 demo_pt xs {..<1} {}"
    and f: "fresh_user_page demo2 demo_pt (PTE_R OR PTE_U OR PTE_W) 0" by blast
  note t = uvm_top_private [OF u]
  have "uacc demo2 demo_pt a" if "a < 3" for a by (rule uacc_fresh [OF f]) (use that in auto)
  then have r: "reach demo2 demo_pt 0 3 3" by (simp add: reach_def)
  from copyout_spec_from [OF u t, of 0 "[1, 2, 3]"] obtain k s' where
    k: "reach demo2 demo_pt 0 3 k" "copyout demo_pt 0 [1, 2, 3] demo2 = Ok (if k = 3 then 0 else -1, s')"
    by (auto simp: numeral_3_eq_3)
  moreover have "k = 3" using k(1) r by (rule reach_unique)
  ultimately have s': "copyout demo_pt 0 [1, 2, 3] demo2 = Ok (0, s')" by simp
  from copyout_copyin [OF u t s'] s' show ?thesis by (auto simp: numeral_3_eq_3)
qed

text \<open>
  C12: \<^verbatim>\<open>uvmcopy\<close>, for \<^verbatim>\<open>fork\<close>: on success every page of the parent has a page of the child with the
  same flags and contents, in different physical memory; on failure, which needs a short free
  list, the child's pages are gone again. The parent keeps its entries and its memory.
\<close>

theorem uvmcopy_spec:
  assumes "twin s old new xs {..<npages sz} T {} T'" "sz \<le> TRAPFRAME"
  shows "\<exists>r s' ys. uvmcopy old new sz s = Ok (r, s') \<and>
    (\<forall>j. leaf (phys s') old j = leaf (phys s) old j) \<and>
    (\<forall>a. a div 4096 \<in> {..<npages sz} \<longrightarrow> ubyte s' old a = ubyte s old a) \<and>
    (r = 0 \<and> twin s' old new ys {..<npages sz} T {..<npages sz} T' \<and>
       (\<forall>j\<in>{0..<npages sz}. copied s old s' new j) \<or>
     r = -1 \<and> length xs \<le> 3 * npages sz \<and> twin s' old new ys {..<npages sz} T {} T' \<and>
       pool s' new ys {} = pool s new xs {})"
proof -
  have "twin s old new xs {..<npages sz} T {..<0} T'" using assms(1) by simp
  from uvmcopy_from_spec [OF this le0 refl assms(2)] show ?thesis
    by (auto simp: uvmcopy_def uvm_step_def)
qed

theorem uvmcopy_spec_witness:
  "\<exists>r s'. uvmcopy demo_pt demo_new 4096 demo3 = Ok (r, s') \<and> (r = 0 \<longrightarrow> copied demo3 demo_pt s' demo_new 0)"
proof -
  from demo3_twin obtain xs where "twin demo3 demo_pt demo_new xs {..<npages 4096} {} {} {}" by auto
  from uvmcopy_spec [OF this] show ?thesis by (auto simp: TRAPFRAME_eq)
qed

end
