(* ===== verification/Disk_Layout.thy ===== *)
theory Disk_Layout
  imports Xv6_Prelude
begin

text \<open>
  The on-disk format of \<^verbatim>\<open>kernel/fs.h\<close>: integers in blocks, least significant byte first, the
  superblock, the inode and the directory entry, with the macros that locate them.

  A C array of bytes is a list. \<open>slice\<close> is what a read of a part of it gives and \<open>splice\<close> what a
  write to a part of it leaves; the 16- and 32-bit fields of a structure are the slices at their
  offsets.
\<close>

section \<open>Byte arrays\<close>

type_synonym block = "u8 list"

definition BSIZE :: nat where [simp]: "BSIZE = 1024"

definition slice :: "nat \<Rightarrow> nat \<Rightarrow> 'a list \<Rightarrow> 'a list" where
  "slice off n d = take n (drop off d)"

definition splice :: "nat \<Rightarrow> 'a list \<Rightarrow> 'a list \<Rightarrow> 'a list" where
  "splice off xs d = take off d @ xs @ drop (off + length xs) d"

definition bytes16 :: "u16 \<Rightarrow> u8 list" where
  "bytes16 w = [ucast w, ucast (drop_bit 8 w)]"

definition word16 :: "u8 list \<Rightarrow> u16" where
  "word16 d = ucast (d ! 0) OR push_bit 8 (ucast (d ! 1))"

definition bytes32 :: "u32 \<Rightarrow> u8 list" where
  "bytes32 w = [ucast w, ucast (drop_bit 8 w), ucast (drop_bit 16 w), ucast (drop_bit 24 w)]"

definition word32 :: "u8 list \<Rightarrow> u32" where
  "word32 d = ucast (d ! 0) OR push_bit 8 (ucast (d ! 1)) OR push_bit 16 (ucast (d ! 2)) OR
     push_bit 24 (ucast (d ! 3))"

definition get16 :: "nat \<Rightarrow> u8 list \<Rightarrow> u16" where "get16 off d = word16 (slice off 2 d)"
definition put16 :: "nat \<Rightarrow> u16 \<Rightarrow> u8 list \<Rightarrow> u8 list" where "put16 off w d = splice off (bytes16 w) d"
definition get32 :: "nat \<Rightarrow> u8 list \<Rightarrow> u32" where "get32 off d = word32 (slice off 4 d)"
definition put32 :: "nat \<Rightarrow> u32 \<Rightarrow> u8 list \<Rightarrow> u8 list" where "put32 off w d = splice off (bytes32 w) d"

section \<open>Structures (kernel/fs.h)\<close>

definition ROOTINO :: u32 where [simp]: "ROOTINO = 1"
definition FSMAGIC :: u32 where "FSMAGIC = 0x10203040"
definition NDIRECT :: nat where [simp]: "NDIRECT = 12"
definition NINDIRECT :: nat where [simp]: "NINDIRECT = BSIZE div 4"
definition MAXFILE :: nat where [simp]: "MAXFILE = NDIRECT + NINDIRECT"
definition DINODE_SIZE :: nat where [simp]: "DINODE_SIZE = 64"
definition IPB :: nat where [simp]: "IPB = BSIZE div DINODE_SIZE"
definition BPB :: nat where [simp]: "BPB = BSIZE * 8"
definition DIRSIZ :: nat where [simp]: "DIRSIZ = 14"
definition DIRENT_SIZE :: nat where [simp]: "DIRENT_SIZE = 2 + DIRSIZ"

record superblock =
  sb_magic :: u32
  sb_size :: u32
  sb_nblocks :: u32
  sb_ninodes :: u32
  sb_nlog :: u32
  sb_logstart :: u32
  sb_inodestart :: u32
  sb_bmapstart :: u32

definition get_superblock :: "u8 list \<Rightarrow> superblock" where
  "get_superblock d = \<lparr>sb_magic = get32 0 d, sb_size = get32 4 d, sb_nblocks = get32 8 d,
     sb_ninodes = get32 12 d, sb_nlog = get32 16 d, sb_logstart = get32 20 d,
     sb_inodestart = get32 24 d, sb_bmapstart = get32 28 d\<rparr>"

definition IBLOCK :: "u32 \<Rightarrow> superblock \<Rightarrow> u32" where
  "IBLOCK i sb = i div of_nat IPB + sb_inodestart sb"

definition BBLOCK :: "u32 \<Rightarrow> superblock \<Rightarrow> u32" where
  "BBLOCK b sb = b div of_nat BPB + sb_bmapstart sb"

record dinode =
  di_type :: u16
  di_major :: u16
  di_minor :: u16
  di_nlink :: u16
  di_size :: u32
  di_addrs :: "u32 list"

definition bytes_dinode :: "dinode \<Rightarrow> u8 list" where
  "bytes_dinode di = bytes16 (di_type di) @ bytes16 (di_major di) @ bytes16 (di_minor di) @
     bytes16 (di_nlink di) @ bytes32 (di_size di) @ concat (map bytes32 (di_addrs di))"

definition get_dinode :: "nat \<Rightarrow> u8 list \<Rightarrow> dinode" where
  "get_dinode off d = \<lparr>di_type = get16 off d, di_major = get16 (off + 2) d, di_minor = get16 (off + 4) d,
     di_nlink = get16 (off + 6) d, di_size = get32 (off + 8) d,
     di_addrs = map (\<lambda>i. get32 (off + 12 + 4 * i) d) [0..<NDIRECT + 1]\<rparr>"

record dirent =
  de_inum :: u16
  de_name :: "u8 list"

definition bytes_dirent :: "dirent \<Rightarrow> u8 list" where
  "bytes_dirent de = bytes16 (de_inum de) @ de_name de"

definition word_dirent :: "u8 list \<Rightarrow> dirent" where
  "word_dirent d = \<lparr>de_inum = get16 0 d, de_name = slice 2 DIRSIZ d\<rparr>"

section \<open>Reading back what was written\<close>

lemma length_slice [simp]: "length (slice off n d) = min n (length d - off)"
  by (simp add: slice_def)

lemma length_splice [simp]: "off + length xs \<le> length d \<Longrightarrow> length (splice off xs d) = length d"
  by (simp add: splice_def)

lemma slice_splice_same [simp]:
  "off + length xs \<le> length d \<Longrightarrow> n = length xs \<Longrightarrow> slice off n (splice off xs d) = xs"
  by (simp add: slice_def splice_def)

lemma nth_splice:
  "off + length xs \<le> length d \<Longrightarrow> i < length d \<Longrightarrow>
   splice off xs d ! i = (if off \<le> i \<and> i < off + length xs then xs ! (i - off) else d ! i)"
  by (auto simp: splice_def nth_append min_def)

lemma slice_splice_other:
  assumes "off + length xs \<le> length d" "off' + n \<le> off \<or> off + length xs \<le> off'"
  shows "slice off' n (splice off xs d) = slice off' n d"
proof (rule nth_equalityI)
  fix i assume i: "i < length (slice off' n (splice off xs d))"
  then have i': "i < n" "off' + i < length d" using assms(1) by auto
  have "slice off' n (splice off xs d) ! i = splice off xs d ! (off' + i)" using i i' assms(1) by (simp add: slice_def)
  also have "\<dots> = d ! (off' + i)" using nth_splice [OF assms(1) i'(2)] assms(2) i' by auto
  also have "\<dots> = slice off' n d ! i" using i' by (simp add: slice_def)
  finally show "slice off' n (splice off xs d) ! i = slice off' n d ! i" .
qed (use assms(1) in simp)

lemma slice_slice: "i + k \<le> n \<Longrightarrow> slice i k (slice off n d) = slice (off + i) k d"
  by (simp add: slice_def drop_take add.commute min_def)

lemma length_bytes [simp]: "length (bytes16 w) = 2" "length (bytes32 v) = 4"
  by (simp_all add: bytes16_def bytes32_def)

lemma word16_bytes16 [simp]: "word16 (bytes16 w) = w"
  by (rule bit_word_eqI)
    (auto simp: word16_def bytes16_def bit_or_iff bit_push_bit_iff bit_ucast_iff bit_drop_bit_eq)

lemma word32_bytes32 [simp]: "word32 (bytes32 w) = w"
proof (rule bit_word_eqI)
  fix n assume "n < LENGTH(32)"
  then consider "n < 8" | "8 \<le> n" "n < 16" | "16 \<le> n" "n < 24" | "24 \<le> n" "n < 32" by fastforce
  then show "bit (word32 (bytes32 w)) n = bit w n"
    by cases (auto simp: word32_def bytes32_def bit_or_iff bit_push_bit_iff bit_ucast_iff bit_drop_bit_eq)
qed

lemma length_put [simp]:
  "off + 2 \<le> length d \<Longrightarrow> length (put16 off w d) = length d"
  "off + 4 \<le> length d \<Longrightarrow> length (put32 off v d) = length d"
  by (simp_all add: put16_def put32_def)

lemma get_put_same [simp]:
  "off + 2 \<le> length d \<Longrightarrow> get16 off (put16 off w d) = w"
  "off + 4 \<le> length d \<Longrightarrow> get32 off (put32 off v d) = v"
  by (simp_all add: get16_def get32_def put16_def put32_def)

lemma get32_put32_other:
  "off + 4 \<le> length d \<Longrightarrow> off' + 4 \<le> off \<or> off + 4 \<le> off' \<Longrightarrow> get32 off' (put32 off v d) = get32 off' d"
  by (simp add: get32_def put32_def slice_splice_other)

lemma length_concat_bytes32: "length (concat (map bytes32 ws)) = 4 * length ws"
  by (induction ws) auto

lemma length_bytes_dinode [simp]: "length (di_addrs di) = NDIRECT + 1 \<Longrightarrow> length (bytes_dinode di) = DINODE_SIZE"
  by (simp add: bytes_dinode_def length_concat_bytes32)

lemma length_bytes_dirent [simp]: "length (de_name de) = DIRSIZ \<Longrightarrow> length (bytes_dirent de) = DIRENT_SIZE"
  by (simp add: bytes_dirent_def)

lemma slice_concat_bytes32:
  "i < length ws \<Longrightarrow> slice (4 * i) 4 (concat (map bytes32 ws)) = bytes32 (ws ! i)"
proof (induction ws arbitrary: i)
  case (Cons w ws)
  show ?case
  proof (cases i)
    case (Suc j)
    then have "slice (4 * i) 4 (concat (map bytes32 (w # ws))) = slice (4 * j) 4 (concat (map bytes32 ws))"
      by (simp add: slice_def)
    then show ?thesis using Cons Suc by simp
  qed (simp add: slice_def)
qed simp

lemma slice_append: "slice off n (xs @ ys) = slice off n xs @ slice (off - length xs) (n - (length xs - off)) ys"
  by (simp add: slice_def)

lemma slice_append_left [simp]: "off + n \<le> length xs \<Longrightarrow> slice off n (xs @ ys) = slice off n xs"
  by (simp add: slice_append) (simp add: slice_def)

lemma slice_append_right [simp]: "length xs \<le> off \<Longrightarrow> slice off n (xs @ ys) = slice (off - length xs) n ys"
  by (simp add: slice_append) (simp add: slice_def)

lemma slice_all [simp]: "n = length xs \<Longrightarrow> slice 0 n xs = xs"
  by (simp add: slice_def)

text \<open>A structure within a block: its fields are those of its own bytes.\<close>

lemma get_slice:
  "i + 2 \<le> n \<Longrightarrow> get16 i (slice off n d) = get16 (off + i) d"
  "i + 4 \<le> n \<Longrightarrow> get32 i (slice off n d) = get32 (off + i) d"
  by (simp_all add: get16_def get32_def slice_slice)

lemma get_dinode_slice: "get_dinode off d = get_dinode 0 (slice off DINODE_SIZE d)"
  unfolding get_dinode_def by (simp add: get_slice) (auto simp: get_slice add.assoc)

lemma get_dinode_bytes:
  assumes "length (di_addrs di) = NDIRECT + 1"
  shows "get_dinode 0 (bytes_dinode di) = (di :: dinode)"
proof -
  have g: "get32 (12 + 4 * i) (bytes_dinode di) = di_addrs di ! i" if "i < 13" for i
    using assms that by (simp add: bytes_dinode_def get32_def slice_concat_bytes32)
  have "map (\<lambda>i. get32 (0 + 12 + 4 * i) (bytes_dinode di)) [0..<NDIRECT + 1] = di_addrs di"
    by (rule nth_equalityI) (use assms g in \<open>auto simp del: upt_Suc upt_rec_numeral\<close>)
  then show ?thesis unfolding get_dinode_def by (simp only:) (simp add: bytes_dinode_def get16_def get32_def)
qed

lemma get_dinode_splice:
  "length (di_addrs di) = NDIRECT + 1 \<Longrightarrow> off + DINODE_SIZE \<le> length d \<Longrightarrow>
   get_dinode off (splice off (bytes_dinode di) d) = (di :: dinode)"
  by (simp only: get_dinode_slice [of off] length_bytes_dinode slice_splice_same get_dinode_bytes)

lemma get_dinode_splice_other:
  "off + length xs \<le> length d \<Longrightarrow> off' + DINODE_SIZE \<le> off \<or> off + length xs \<le> off' \<Longrightarrow>
   get_dinode off' (splice off xs d) = get_dinode off' d"
  by (simp only: get_dinode_slice [of off'] slice_splice_other)

lemma word_dirent_bytes: "length (de_name de) = DIRSIZ \<Longrightarrow> word_dirent (bytes_dirent de) = (de :: dirent)"
  by (simp add: word_dirent_def bytes_dirent_def get16_def)

end
