(* ===== verification/Bio.thy ===== *)
theory Bio
  imports Kalloc Disk_Layout
begin

text \<open>
  \<^verbatim>\<open>kernel/bio.c\<close>, the buffer cache, and \<^verbatim>\<open>kernel/sleeplock.c\<close>, the locks of its buffers. The
  buffers \<^verbatim>\<open>bcache.buf[0..NBUF-1]\<close> are the indices \<open>0\<close> to \<open>NBUF - 1\<close> and \<^verbatim>\<open>bcache.head\<close> is index
  \<open>NBUF\<close>; \<open>b_prev\<close> and \<open>b_next\<close> are the pointers of the list in order of use.

  The functions run for the process \<open>mypid\<close>. A spin lock protects each of their critical
  sections, which are atomic here; a wait for a sleep lock that another holder has is
  \<open>Blocks\<close>. The disk is \<open>disk_blocks\<close>, and \<open>disk_rw\<close> is what \<^verbatim>\<open>virtio_disk_rw\<close> does to it and to the
  buffer by the time it returns; \<open>disk_hist\<close> records the writes in their order, for the states a
  crash can leave.
\<close>

section \<open>Sleep locks\<close>

record sleeplock =
  sl_locked :: bool
  sl_pid :: int

definition initsleeplock :: sleeplock where
  "initsleeplock = \<lparr>sl_locked = False, sl_pid = 0\<rparr>"

definition acquiresleep :: "int \<Rightarrow> sleeplock \<Rightarrow> sleeplock outcome" where
  "acquiresleep pid lk = (if sl_locked lk then Blocks else Ok \<lparr>sl_locked = True, sl_pid = pid\<rparr>)"

definition releasesleep :: "sleeplock \<Rightarrow> sleeplock" where
  "releasesleep lk = \<lparr>sl_locked = False, sl_pid = 0\<rparr>"

definition holdingsleep :: "int \<Rightarrow> sleeplock \<Rightarrow> bool" where
  "holdingsleep pid lk \<longleftrightarrow> sl_locked lk \<and> sl_pid lk = pid"

section \<open>The cache\<close>

record buf =
  b_valid :: bool
  b_dev :: u32
  b_blockno :: u32
  b_lock :: sleeplock
  b_refcnt :: u32
  b_prev :: nat
  b_next :: nat
  b_data :: block

record bcache = kmem +
  mypid :: int
  disk_blocks :: "u32 \<Rightarrow> block"
  disk_hist :: "(u32 \<times> block) list"
  bufs :: "nat \<Rightarrow> buf"

abbreviation bhead :: nat where "bhead \<equiv> NBUF"

text \<open>Assignment to the fields of one buffer.\<close>

definition upd_buf :: "nat \<Rightarrow> (buf \<Rightarrow> buf) \<Rightarrow> 'a bcache_scheme \<Rightarrow> 'a bcache_scheme" where
  "upd_buf b f s = s\<lparr>bufs := (bufs s)(b := f (bufs s b))\<rparr>"

definition disk_rw :: "nat \<Rightarrow> bool \<Rightarrow> 'a bcache_scheme \<Rightarrow> 'a bcache_scheme" where
  "disk_rw b write s =
     (if write then s\<lparr>disk_blocks := (disk_blocks s)(b_blockno (bufs s b) := b_data (bufs s b)),
        disk_hist := disk_hist s @ [(b_blockno (bufs s b), b_data (bufs s b))]\<rparr>
      else upd_buf b (\<lambda>x. x\<lparr>b_data := disk_blocks s (b_blockno x)\<rparr>) s)"

text \<open>The loop of \<^verbatim>\<open>binit\<close> over the buffers from \<open>b\<close> on.\<close>

definition binit_one :: "nat \<Rightarrow> (nat \<Rightarrow> buf) \<Rightarrow> nat \<Rightarrow> buf" where
  "binit_one b bs =
     (let bs = bs(b := (bs b)\<lparr>b_next := b_next (bs bhead), b_prev := bhead, b_lock := initsleeplock\<rparr>);
          n = b_next (bs bhead);
          bs = bs(n := (bs n)\<lparr>b_prev := b\<rparr>)
      in bs(bhead := (bs bhead)\<lparr>b_next := b\<rparr>))"

definition binit :: "'a bcache_scheme \<Rightarrow> 'a bcache_scheme" where
  "binit s =
     (let s = upd_buf bhead (\<lambda>x. x\<lparr>b_prev := bhead, b_next := bhead\<rparr>) s
      in s\<lparr>bufs := fold binit_one [0..<NBUF] (bufs s)\<rparr>)"

text \<open>
  The search loops of \<^verbatim>\<open>bget\<close>: the first buffer from \<open>b\<close> along the links \<open>link\<close> with property
  \<open>P\<close>, or \<^verbatim>\<open>bcache.head\<close>. On a corrupt list the loop need not end.
\<close>

partial_function (option) bfind :: "(nat \<Rightarrow> nat) \<Rightarrow> (nat \<Rightarrow> bool) \<Rightarrow> nat \<Rightarrow> nat option" where
  "bfind link P b = (if b = bhead then Some b else if P b then Some b else bfind link P (link b))"

definition bget_lock :: "nat \<Rightarrow> 'a bcache_scheme \<Rightarrow> (nat \<times> 'a bcache_scheme) outcome" where
  "bget_lock b s =
     bind_ok (acquiresleep (mypid s) (b_lock (bufs s b)))
       (\<lambda>lk. Ok (b, upd_buf b (\<lambda>x. x\<lparr>b_lock := lk\<rparr>) s))"

definition bget :: "u32 \<Rightarrow> u32 \<Rightarrow> 'a bcache_scheme \<Rightarrow> (nat \<times> 'a bcache_scheme) outcome" where
  "bget dev blockno s =
     (case bfind (\<lambda>b. b_next (bufs s b))
        (\<lambda>b. b_dev (bufs s b) = dev \<and> b_blockno (bufs s b) = blockno) (b_next (bufs s bhead)) of
        None \<Rightarrow> Blocks
      | Some b \<Rightarrow>
          if b \<noteq> bhead then bget_lock b (upd_buf b (\<lambda>x. x\<lparr>b_refcnt := b_refcnt x + 1\<rparr>) s)
          else (case bfind (\<lambda>b. b_prev (bufs s b)) (\<lambda>b. b_refcnt (bufs s b) = 0) (b_prev (bufs s bhead)) of
              None \<Rightarrow> Blocks
            | Some b \<Rightarrow>
                if b \<noteq> bhead
                then bget_lock b (upd_buf b (\<lambda>x. x\<lparr>b_dev := dev, b_blockno := blockno,
                       b_valid := False, b_refcnt := 1\<rparr>) s)
                else Panic ''bget: no buffers''))"

definition bread :: "u32 \<Rightarrow> u32 \<Rightarrow> 'a bcache_scheme \<Rightarrow> (nat \<times> 'a bcache_scheme) outcome" where
  "bread dev blockno s =
     bind_ok (bget dev blockno s) (\<lambda>(b, s).
       if \<not> b_valid (bufs s b)
       then Ok (b, upd_buf b (\<lambda>x. x\<lparr>b_valid := True\<rparr>) (disk_rw b False s))
       else Ok (b, s))"

definition bwrite :: "nat \<Rightarrow> 'a bcache_scheme \<Rightarrow> 'a bcache_scheme outcome" where
  "bwrite b s =
     (if \<not> holdingsleep (mypid s) (b_lock (bufs s b)) then Panic ''bwrite''
      else Ok (disk_rw b True s))"

text \<open>Moving a buffer to the front of the list, at the end of \<^verbatim>\<open>brelse\<close>.\<close>

definition bmove :: "nat \<Rightarrow> (nat \<Rightarrow> buf) \<Rightarrow> nat \<Rightarrow> buf" where
  "bmove b bs =
     (let n = b_next (bs b); bs = bs(n := (bs n)\<lparr>b_prev := b_prev (bs b)\<rparr>);
          p = b_prev (bs b); bs = bs(p := (bs p)\<lparr>b_next := b_next (bs b)\<rparr>);
          bs = bs(b := (bs b)\<lparr>b_next := b_next (bs bhead)\<rparr>);
          bs = bs(b := (bs b)\<lparr>b_prev := bhead\<rparr>);
          n = b_next (bs bhead); bs = bs(n := (bs n)\<lparr>b_prev := b\<rparr>)
      in bs(bhead := (bs bhead)\<lparr>b_next := b\<rparr>))"

definition brelse :: "nat \<Rightarrow> 'a bcache_scheme \<Rightarrow> 'a bcache_scheme outcome" where
  "brelse b s =
     (if \<not> holdingsleep (mypid s) (b_lock (bufs s b)) then Panic ''brelse''
      else let s = upd_buf b (\<lambda>x. x\<lparr>b_lock := releasesleep (b_lock x)\<rparr>) s;
               s = upd_buf b (\<lambda>x. x\<lparr>b_refcnt := b_refcnt x - 1\<rparr>) s
           in Ok (if b_refcnt (bufs s b) = 0 then s\<lparr>bufs := bmove b (bufs s)\<rparr> else s))"

definition bpin :: "nat \<Rightarrow> 'a bcache_scheme \<Rightarrow> 'a bcache_scheme" where
  "bpin b s = upd_buf b (\<lambda>x. x\<lparr>b_refcnt := b_refcnt x + 1\<rparr>) s"

definition bunpin :: "nat \<Rightarrow> 'a bcache_scheme \<Rightarrow> 'a bcache_scheme" where
  "bunpin b s = upd_buf b (\<lambda>x. x\<lparr>b_refcnt := b_refcnt x - 1\<rparr>) s"

section \<open>The list of buffers\<close>

text \<open>
  \<open>chain nx a xs z\<close>: following \<open>nx\<close> from \<open>a\<close> passes through \<open>xs\<close> and arrives at \<open>z\<close>.
\<close>

fun chain :: "(nat \<Rightarrow> nat) \<Rightarrow> nat \<Rightarrow> nat list \<Rightarrow> nat \<Rightarrow> bool" where
  "chain nx a [] z \<longleftrightarrow> nx a = z"
| "chain nx a (x # xs) z \<longleftrightarrow> nx a = x \<and> chain nx x xs z"

definition lru :: "(nat \<Rightarrow> buf) \<Rightarrow> nat list \<Rightarrow> bool" where
  "lru bs xs \<longleftrightarrow> distinct xs \<and> set xs = {..<NBUF} \<and>
     chain (\<lambda>b. b_next (bs b)) bhead xs bhead \<and> chain (\<lambda>b. b_prev (bs b)) bhead (rev xs) bhead"

lemma chain_append: "chain nx a (xs @ y # ys) z \<longleftrightarrow> chain nx a xs y \<and> chain nx y ys z"
  by (induction xs arbitrary: a) auto

lemma chain_cong:
  "(\<And>b. b = a \<or> b \<in> set xs \<Longrightarrow> nx' b = nx b) \<Longrightarrow> chain nx' a xs z = chain nx a xs z"
proof (induction xs arbitrary: a)
  case (Cons x xs)
  have "chain nx' x xs z = chain nx x xs z" using Cons.prems by (intro Cons.IH) auto
  then show ?case using Cons.prems by auto
qed auto

lemma lru_cong:
  assumes "\<And>b. b_next (bs' b) = b_next (bs b)" "\<And>b. b_prev (bs' b) = b_prev (bs b)"
  shows "lru bs' xs = lru bs xs"
  using assms by (simp add: lru_def)

lemma chain_hd: "chain nx a xs z \<Longrightarrow> nx a = hd (xs @ [z])"
  by (cases xs) auto

lemma hd_snoc: "hd (xs @ [z]) = last (z # rev xs)"
  by (cases xs) auto

lemma chain_upd_last:
  assumes "chain nx a xs z" "distinct (a # xs)"
  shows "chain (nx(last (a # xs) := w)) a xs w"
  using assms
proof (induction xs arbitrary: a)
  case (Cons x xs)
  have "chain (nx(last (x # xs) := w)) x xs w" by (rule Cons.IH) (use Cons.prems in auto)
  moreover have "last (x # xs) \<noteq> a" using Cons.prems(2) by (metis distinct.simps(2) last_in_set list.distinct(1))
  ultimately show ?case using Cons.prems by (auto simp: fun_upd_def)
qed simp

lemma chain_upd_other:
  "c \<noteq> a \<Longrightarrow> c \<notin> set xs \<Longrightarrow> chain (nx(c := w)) a xs z = chain nx a xs z"
  by (rule chain_cong) auto

text \<open>Taking an element out of a chain, and putting one in at the front and at the end.\<close>

lemma chain_remove:
  assumes "chain nx a (ys @ b # zs) z" "distinct (a # ys @ b # zs)"
  shows "chain (nx(last (a # ys) := nx b)) a (ys @ zs) z"
proof -
  let ?p = "last (a # ys)"
  have c: "chain nx a ys b" "chain nx b zs z" using assms(1) by (simp_all add: chain_append)
  have p: "?p \<in> set (a # ys)" by (rule last_in_set) simp
  show ?thesis
  proof (cases zs)
    case Nil
    then show ?thesis using chain_upd_last [OF c(1)] assms(2) c(2) by simp
  next
    case (Cons y zs')
    then have "?p \<notin> set (y # zs')" using assms(2) p by auto
    then have "chain (nx(?p := y)) y zs' z" using c(2) Cons by (subst chain_upd_other) auto
    moreover have "chain (nx(?p := y)) a ys y" using chain_upd_last [OF c(1)] assms(2) by simp
    ultimately show ?thesis using c(2) Cons by (simp add: chain_append)
  qed
qed

lemma chain_front:
  assumes "chain nx a xs z" "b \<notin> set (a # xs)" "a \<notin> set xs"
  shows "chain (nx(b := nx a, a := b)) a (b # xs) z"
proof (cases xs)
  case Nil
  then show ?thesis using assms by auto
next
  case (Cons x xs')
  have "chain (nx(b := nx a, a := b)) x xs' z"
    using assms Cons by (subst chain_cong [of _ _ _ nx]) auto
  then show ?thesis using assms Cons by auto
qed

lemma chain_back:
  assumes "chain nx a xs z" "b \<notin> set (a # xs)" "distinct (a # xs)"
  shows "chain (nx(last (a # xs) := b, b := z)) a (xs @ [b]) z"
proof -
  have "chain (nx(last (a # xs) := b)) a xs b" by (rule chain_upd_last [OF assms(1,3)])
  then have "chain (nx(last (a # xs) := b, b := z)) a xs b"
    using assms(2) by (subst chain_upd_other) auto
  then show ?thesis by (simp add: chain_append)
qed

text \<open>The search loop ends, with the first match of the list.\<close>

lemma bfind_chain:
  assumes "chain nx a xs bhead" "bhead \<notin> set xs"
  shows "bfind nx P (nx a) = Some (case find P xs of None \<Rightarrow> bhead | Some b \<Rightarrow> b)"
  using assms
proof (induction xs arbitrary: a)
  case Nil
  then show ?case by (simp add: bfind.simps)
next
  case (Cons x xs)
  then have "bfind nx P (nx x) = Some (case find P xs of None \<Rightarrow> bhead | Some b \<Rightarrow> b)" by auto
  then show ?case using Cons.prems by (subst bfind.simps) auto
qed

text \<open>\<^verbatim>\<open>brelse\<close> moves a buffer to the front and keeps the order of the others.\<close>

lemma bmove_links:
  assumes "b \<noteq> bhead" "p = b_prev (bs b)" "n = b_next (bs b)" "n \<noteq> b" "p \<noteq> b"
    and "f = (if p = bhead then n else b_next (bs bhead))" "f \<noteq> b"
  shows "(\<lambda>x. b_next (bmove b bs x)) =
      ((\<lambda>x. b_next (bs x))(p := n))(b := ((\<lambda>x. b_next (bs x))(p := n)) bhead, bhead := b)"
    and "(\<lambda>x. b_prev (bmove b bs x)) = ((\<lambda>x. b_prev (bs x))(n := p))(f := b, b := bhead)"
proof -
  have ne: "n \<noteq> b" "p \<noteq> b" "b \<noteq> bhead" "b_next (bs b) = n" "b_prev (bs b) = p" using assms by auto
  define b1 where "b1 = bs(n := (bs n)\<lparr>b_prev := p\<rparr>)"
  have b1: "b_next (b1 x) = b_next (bs x)" "b_prev (b1 x) = (if x = n then p else b_prev (bs x))" for x
    by (simp_all add: b1_def)
  define b2 where "b2 = b1(p := (b1 p)\<lparr>b_next := n\<rparr>)"
  have b2: "b_next (b2 x) = (if x = p then n else b_next (bs x))"
    "b_prev (b2 x) = (if x = n then p else b_prev (bs x))" for x
    by (simp_all add: b2_def b1)
  define b3 where "b3 = b2(b := (b2 b)\<lparr>b_next := f, b_prev := bhead\<rparr>)"
  have b3: "b_next (b3 x) = (if x = b then f else if x = p then n else b_next (bs x))"
    "b_prev (b3 x) = (if x = b then bhead else if x = n then p else b_prev (bs x))" for x
    by (simp_all add: b3_def b2)
  have f2: "b_next (b2 bhead) = f" using assms(6) b2 by simp
  have f3: "b_next (b3 bhead) = f" using assms(1,6) b3 by simp
  have mv: "bmove b bs = (let bs = b3(f := (b3 f)\<lparr>b_prev := b\<rparr>) in bs(bhead := (bs bhead)\<lparr>b_next := b\<rparr>))"
  proof -
    have "b_prev (b1 b) = p" "b_next (b1 b) = n" using ne b1 by simp_all
    then have "bmove b bs = (let bs = b2(b := (b2 b)\<lparr>b_next := b_next (b2 bhead)\<rparr>);
        bs = bs(b := (bs b)\<lparr>b_prev := bhead\<rparr>);
        n = b_next (bs bhead); bs = bs(n := (bs n)\<lparr>b_prev := b\<rparr>)
      in bs(bhead := (bs bhead)\<lparr>b_next := b\<rparr>))"
      unfolding bmove_def Let_def b1_def [symmetric] ne by (simp only: b1_def [symmetric] b2_def [symmetric] ne)
    then show ?thesis using f2 f3 ne by (simp add: b3_def Let_def)
  qed
  show "(\<lambda>x. b_next (bmove b bs x)) =
      ((\<lambda>x. b_next (bs x))(p := n))(b := ((\<lambda>x. b_next (bs x))(p := n)) bhead, bhead := b)"
    by (rule ext) (use assms(6) in \<open>simp add: mv Let_def b3\<close>)
  show "(\<lambda>x. b_prev (bmove b bs x)) = ((\<lambda>x. b_prev (bs x))(n := p))(f := b, b := bhead)"
    by (rule ext) (use assms(7) in \<open>simp add: mv Let_def b3\<close>)
qed

lemma lru_bmove:
  assumes l: "lru bs xs" and b: "b < NBUF"
  shows "lru (bmove b bs) (b # remove1 b xs)"
proof -
  let ?nx = "\<lambda>x. b_next (bs x)" and ?pv = "\<lambda>x. b_prev (bs x)"
  have "b \<in> set xs" using l b unfolding lru_def by blast
  then obtain ys zs where xs: "xs = ys @ b # zs" by (meson split_list)
  have d: "distinct (bhead # ys @ b # zs)" using l unfolding lru_def xs by auto
  then have d': "distinct (bhead # rev zs @ b # rev ys)" by auto
  have n: "chain ?nx bhead (ys @ b # zs) bhead" and p: "chain ?pv bhead (rev zs @ b # rev ys) bhead"
    using l by (simp_all add: lru_def xs)
  have pb: "?pv b = last (bhead # ys)"
    using p chain_hd [of ?pv b "rev ys" bhead] by (simp add: chain_append hd_append hd_rev)
  have nb: "?nx b = last (bhead # rev zs)"
    using n chain_hd [of ?nx b zs bhead] by (simp add: chain_append hd_append last_rev)
  have rn: "chain (?nx(last (bhead # ys) := ?nx b)) bhead (ys @ zs) bhead" by (rule chain_remove [OF n d])
  have rp: "chain (?pv(last (bhead # rev zs) := ?pv b)) bhead (rev zs @ rev ys) bhead"
    by (rule chain_remove [OF p d'])
  have f: "(?nx(last (bhead # ys) := ?nx b)) bhead = last (bhead # rev zs @ rev ys)"
    using chain_hd [OF rn] hd_snoc [of "ys @ zs" bhead] by simp
  have "last (bhead # ys) \<noteq> b" "last (bhead # rev zs) \<noteq> b" "last (bhead # rev zs @ rev ys) \<noteq> b"
    using d last_in_set [of "bhead # ys"] last_in_set [of "bhead # rev zs"]
      last_in_set [of "bhead # rev zs @ rev ys"] by (metis Un_iff distinct.simps(2) distinct_append
        list.distinct(1) list.set_intros(1) set_ConsD set_append set_rev disjoint_iff)+
  moreover have bh: "b \<noteq> bhead" using b by simp
  moreover have "last (bhead # rev zs @ rev ys) = (if ?pv b = bhead then ?nx b else ?nx bhead)"
    using f pb by (auto split: if_splits)
  ultimately have links: "(\<lambda>x. b_next (bmove b bs x)) = (?nx(last (bhead # ys) := ?nx b))
        (b := (?nx(last (bhead # ys) := ?nx b)) bhead, bhead := b)"
      "(\<lambda>x. b_prev (bmove b bs x)) = (?pv(last (bhead # rev zs) := ?pv b))
        (last (bhead # rev zs @ rev ys) := b, b := bhead)"
    using bmove_links [of b "last (bhead # ys)" bs "last (bhead # rev zs)" "last (bhead # rev zs @ rev ys)"]
      pb nb by simp_all
  have out: "b \<notin> set (bhead # ys @ zs)" "bhead \<notin> set (ys @ zs)" using d by auto
  have "chain (\<lambda>x. b_next (bmove b bs x)) bhead (b # ys @ zs) bhead"
    unfolding links(1) by (rule chain_front [OF rn out])
  moreover have "chain (\<lambda>x. b_prev (bmove b bs x)) bhead ((rev zs @ rev ys) @ [b]) bhead"
    unfolding links(2) by (rule chain_back [OF rp]) (use d in auto)
  moreover have "b # remove1 b xs = b # ys @ zs" using d by (simp add: xs remove1_append)
  moreover have "set (b # ys @ zs) = {..<NBUF}" using l by (auto simp: lru_def xs)
  ultimately show ?thesis using d by (simp add: lru_def del: NBUF_def) 
qed

section \<open>Initialisation\<close>

definition ring :: "(nat \<Rightarrow> buf) \<Rightarrow> nat list \<Rightarrow> bool" where
  "ring bs xs \<longleftrightarrow> distinct (bhead # xs) \<and> chain (\<lambda>b. b_next (bs b)) bhead xs bhead \<and>
     chain (\<lambda>b. b_prev (bs b)) bhead (rev xs) bhead"

lemma lru_ring: "lru bs xs \<longleftrightarrow> ring bs xs \<and> set xs = {..<NBUF}"
  by (auto simp: lru_def ring_def)

lemma ring_binit_one:
  assumes r: "ring bs xs" and b: "b \<notin> set (bhead # xs)"
  shows "ring (binit_one b bs) (b # xs)"
proof -
  let ?nx = "\<lambda>x. b_next (bs x)" and ?pv = "\<lambda>x. b_prev (bs x)" and ?l = "last (bhead # rev xs)"
  have n: "chain ?nx bhead xs bhead" and p: "chain ?pv bhead (rev xs) bhead" and d: "distinct (bhead # xs)"
    using r by (simp_all add: ring_def)
  have f: "?nx bhead = ?l" using chain_hd [OF n] hd_snoc by metis
  have "?l \<in> set (bhead # rev xs)" by (rule last_in_set) simp
  then have "?l \<noteq> b" "b \<noteq> bhead" using b by auto
  then have links: "(\<lambda>x. b_next (binit_one b bs x)) = ?nx(b := ?nx bhead, bhead := b)"
      "(\<lambda>x. b_prev (binit_one b bs x)) = ?pv(?l := b, b := bhead)"
    using f by (auto simp: binit_one_def Let_def fun_eq_iff simp del: last.simps)
  have "chain (\<lambda>x. b_next (binit_one b bs x)) bhead (b # xs) bhead"
    unfolding links(1) by (rule chain_front [OF n]) (use b d in auto)
  moreover have "chain (\<lambda>x. b_prev (binit_one b bs x)) bhead (rev xs @ [b]) bhead"
    unfolding links(2) by (rule chain_back [OF p]) (use b d in auto)
  ultimately show ?thesis using b d by (simp add: ring_def)
qed

lemma ring_binit:
  assumes "ring bs xs" "distinct ys" "set ys \<inter> set (bhead # xs) = {}"
  shows "ring (fold binit_one ys bs) (rev ys @ xs)"
  using assms
proof (induction ys arbitrary: bs xs)
  case (Cons y ys)
  have "ring (binit_one y bs) (y # xs)" using Cons.prems by (intro ring_binit_one) auto
  then have "ring (fold binit_one ys (binit_one y bs)) (rev ys @ y # xs)"
    using Cons.prems by (intro Cons.IH) auto
  then show ?case by simp
qed simp

lemma lru_binit: "lru (bufs (binit s)) (rev [0..<NBUF])"
proof -
  let ?bs = "bufs (upd_buf bhead (\<lambda>x. x\<lparr>b_prev := bhead, b_next := bhead\<rparr>) s)"
  have "ring ?bs []" by (simp add: ring_def upd_buf_def)
  then have "ring (fold binit_one [0..<NBUF] ?bs) (rev [0..<NBUF] @ [])"
    by (rule ring_binit) auto
  then show ?thesis unfolding lru_ring binit_def Let_def by (simp del: upt_rec_numeral) auto
qed

lemma binit_one_fields:
  "b_valid (binit_one b bs x) = b_valid (bs x)" "b_dev (binit_one b bs x) = b_dev (bs x)"
  "b_blockno (binit_one b bs x) = b_blockno (bs x)" "b_refcnt (binit_one b bs x) = b_refcnt (bs x)"
  "b_data (binit_one b bs x) = b_data (bs x)"
  "b_lock (binit_one b bs x) = (if x = b then initsleeplock else b_lock (bs x))"
  by (auto simp: binit_one_def Let_def)

lemma fold_binit_fields:
  "b_valid (fold binit_one ys bs x) = b_valid (bs x)" "b_dev (fold binit_one ys bs x) = b_dev (bs x)"
  "b_refcnt (fold binit_one ys bs x) = b_refcnt (bs x)"
  "b_lock (fold binit_one ys bs x) = (if x \<in> set ys then initsleeplock else b_lock (bs x))"
  by (induction ys arbitrary: bs) (auto simp: binit_one_fields)

section \<open>The contract of the cache\<close>

text \<open>
  The cache as its clients see it, for the one disk \<open>D\<close>: the current contents of a block, how
  many references to its buffer there are, and its lock. \<open>idx\<close> is the buffer of a block.
\<close>

definition idx :: "u32 \<Rightarrow> 'a bcache_scheme \<Rightarrow> u32 \<Rightarrow> nat option" where
  "idx D s n = find (\<lambda>b. b_dev (bufs s b) = D \<and> b_blockno (bufs s b) = n) [0..<NBUF]"

definition content :: "u32 \<Rightarrow> 'a bcache_scheme \<Rightarrow> u32 \<Rightarrow> block" where
  "content D s n =
     (case idx D s n of None \<Rightarrow> disk_blocks s n
      | Some b \<Rightarrow> if b_valid (bufs s b) then b_data (bufs s b) else disk_blocks s n)"

definition refs :: "u32 \<Rightarrow> 'a bcache_scheme \<Rightarrow> u32 \<Rightarrow> u32" where
  "refs D s n = (case idx D s n of None \<Rightarrow> 0 | Some b \<Rightarrow> b_refcnt (bufs s b))"

definition lock_of :: "u32 \<Rightarrow> 'a bcache_scheme \<Rightarrow> u32 \<Rightarrow> sleeplock" where
  "lock_of D s n = (case idx D s n of None \<Rightarrow> initsleeplock | Some b \<Rightarrow> b_lock (bufs s b))"

definition buf_ok :: "u32 \<Rightarrow> (u32 \<Rightarrow> block) \<Rightarrow> buf \<Rightarrow> bool" where
  "buf_ok D dsk x \<longleftrightarrow> b_dev x \<in> {0, D} \<and> (b_valid x \<longrightarrow> b_dev x = D \<and> length (b_data x) = BSIZE) \<and>
     (if b_refcnt x = 0 then b_lock x = initsleeplock \<and> (b_valid x \<longrightarrow> b_data x = dsk (b_blockno x))
      else b_valid x)"

definition unique :: "(nat \<Rightarrow> buf) \<Rightarrow> bool" where
  "unique bs \<longleftrightarrow> (\<forall>i<NBUF. \<forall>j<NBUF. b_dev (bs i) = b_dev (bs j) \<and> b_blockno (bs i) = b_blockno (bs j) \<and>
     b_dev (bs i) \<noteq> 0 \<longrightarrow> i = j)"

definition cache_inv :: "u32 \<Rightarrow> 'a bcache_scheme \<Rightarrow> bool" where
  "cache_inv D s \<longleftrightarrow> D \<noteq> 0 \<and> (\<exists>xs. lru (bufs s) xs) \<and> unique (bufs s) \<and>
     (\<forall>i<NBUF. buf_ok D (disk_blocks s) (bufs s i)) \<and> (\<forall>n. length (disk_blocks s n) = BSIZE)"

text \<open>Buffer \<open>b\<close> is the one of block \<open>n\<close> and in use.\<close>

definition handle :: "u32 \<Rightarrow> 'a bcache_scheme \<Rightarrow> nat \<Rightarrow> u32 \<Rightarrow> bool" where
  "handle D s b n \<longleftrightarrow> b < NBUF \<and> b_dev (bufs s b) = D \<and> b_blockno (bufs s b) = n \<and> b_refcnt (bufs s b) \<noteq> 0"

lemma idx_Some:
  assumes "cache_inv D s"
  shows "idx D s n = Some b \<longleftrightarrow> b < NBUF \<and> b_dev (bufs s b) = D \<and> b_blockno (bufs s b) = n"
proof -
  let ?P = "\<lambda>b. b_dev (bufs s b) = D \<and> b_blockno (bufs s b) = n"
  have D: "D \<noteq> 0" and u: "unique (bufs s)" using assms by (simp_all add: cache_inv_def)
  show ?thesis
  proof
    assume "idx D s n = Some b"
    then show "b < NBUF \<and> b_dev (bufs s b) = D \<and> b_blockno (bufs s b) = n"
      unfolding idx_def by (auto simp: find_Some_iff)
  next
    assume b: "b < NBUF \<and> b_dev (bufs s b) = D \<and> b_blockno (bufs s b) = n"
    then have "find ?P [0..<NBUF] \<noteq> None" by (auto simp: find_None_iff simp del: upt_rec_numeral)
    then obtain c where c: "find ?P [0..<NBUF] = Some c" by blast
    then have "c < NBUF" "?P c" by (auto simp: find_Some_iff simp del: upt_rec_numeral)
    then have "c = b" using u b D unfolding unique_def by metis
    then show "idx D s n = Some b" using c by (simp add: idx_def)
  qed
qed

lemma handle_idx:
  assumes "cache_inv D s"
  shows "handle D s b n \<longleftrightarrow> idx D s n = Some b \<and> refs D s n \<noteq> 0"
proof -
  note i = idx_Some [OF assms, of n b]
  show ?thesis
  proof (cases "idx D s n = Some b")
    case True
    then have "refs D s n = b_refcnt (bufs s b)" by (simp add: refs_def)
    then show ?thesis using True i by (auto simp: handle_def)
  next
    case False
    then show ?thesis using i by (auto simp: handle_def)
  qed
qed

text \<open>One buffer changes, its links excepted.\<close>

lemma cache_inv_upd:
  assumes inv: "cache_inv D s" and i: "i < NBUF"
    and links: "b_next x = b_next (bufs s i)" "b_prev x = b_prev (bufs s i)"
    and ok: "buf_ok D (disk_blocks s) x"
    and new: "\<forall>j<NBUF. j \<noteq> i \<longrightarrow> b_dev (bufs s j) = b_dev x \<and> b_blockno (bufs s j) = b_blockno x \<longrightarrow> b_dev x = 0"
  shows "cache_inv D (s\<lparr>bufs := (bufs s)(i := x)\<rparr>)"
proof -
  from inv obtain xs where "lru (bufs s) xs" by (auto simp: cache_inv_def)
  then have "lru ((bufs s)(i := x)) xs" using links by (subst lru_cong [of _ "bufs s"]) auto
  moreover have "unique ((bufs s)(i := x))"
    using inv new unfolding cache_inv_def unique_def by (simp del: NBUF_def) metis
  ultimately show ?thesis using inv ok by (auto simp: cache_inv_def)
qed

lemma views_upd:
  assumes inv: "cache_inv D s" and s': "s' = s\<lparr>bufs := (bufs s)(i := x)\<rparr>" and inv': "cache_inv D s'" and i: "i < NBUF"
    and x: "b_dev x = D" "b_blockno x = n" "b_valid x"
    and old: "b_dev (bufs s i) = D \<and> b_blockno (bufs s i) = n \<or> b_refcnt (bufs s i) = 0"
  shows "content D s' = (content D s)(n := b_data x)" "refs D s' = (refs D s)(n := b_refcnt x)"
    "lock_of D s' = (lock_of D s)(n := b_lock x)" "idx D s' n = Some i"
    "\<And>m. m \<noteq> n \<Longrightarrow> refs D s m \<noteq> 0 \<Longrightarrow> idx D s' m = idx D s m"
proof -
  show n: "idx D s' n = Some i" using idx_Some [OF inv', of n i] i x by (simp add: s')
  have keep: "idx D s' m = Some j" if "m \<noteq> n" "idx D s m = Some j" "j \<noteq> i" for m j
    using idx_Some [OF inv', of m j] idx_Some [OF inv, of m j] that by (simp add: s')
  have gone: "idx D s' m = None" if "m \<noteq> n" "idx D s m = None \<or> idx D s m = Some i" for m
  proof (rule ccontr)
    assume "idx D s' m \<noteq> None"
    then obtain j where "idx D s' m = Some j" by blast
    then have j: "j < NBUF" "b_dev (bufs s' j) = D" "b_blockno (bufs s' j) = m"
      using idx_Some [OF inv'] by auto
    then have "j \<noteq> i" using x that(1) by (auto simp: s')
    then have "idx D s m = Some j" using j idx_Some [OF inv] by (simp add: s')
    then show False using that(2) \<open>j \<noteq> i\<close> by simp
  qed
  have other: "content D s' m = content D s m \<and> refs D s' m = refs D s m \<and> lock_of D s' m = lock_of D s m \<and>
      (refs D s m \<noteq> 0 \<longrightarrow> idx D s' m = idx D s m)" if m: "m \<noteq> n" for m
  proof (cases "idx D s m = Some i")
    case True
    then have b: "b_dev (bufs s i) = D" "b_blockno (bufs s i) = m" using idx_Some [OF inv] by auto
    then have "b_refcnt (bufs s i) = 0" using old m by blast
    moreover from this have "b_lock (bufs s i) = initsleeplock" "b_valid (bufs s i) \<longrightarrow> b_data (bufs s i) = disk_blocks s m"
      using inv i b unfolding cache_inv_def buf_ok_def by metis+
    ultimately show ?thesis using gone [OF m] True by (auto simp: content_def refs_def lock_of_def s')
  next
    case False
    then show ?thesis using keep [OF m] gone [OF m]
      by (cases "idx D s m") (auto simp: content_def refs_def lock_of_def s')
  qed
  show "content D s' = (content D s)(n := b_data x)"
    by (rule ext) (use other n x in \<open>simp add: content_def s'\<close>)
  show "refs D s' = (refs D s)(n := b_refcnt x)"
    by (rule ext) (use other n in \<open>simp add: refs_def s'\<close>)
  show "lock_of D s' = (lock_of D s)(n := b_lock x)"
    by (rule ext) (use other n in \<open>simp add: lock_of_def s'\<close>)
  show "idx D s' m = idx D s m" if "m \<noteq> n" "refs D s m \<noteq> 0" for m using other that by blast
qed

text \<open>What an operation on the buffer of block \<open>n\<close> does to the views.\<close>

definition cache_step ::
  "u32 \<Rightarrow> u32 \<Rightarrow> 'a bcache_scheme \<Rightarrow> 'a bcache_scheme \<Rightarrow> block \<Rightarrow> u32 \<Rightarrow> sleeplock \<Rightarrow> bool" where
  "cache_step D n s s' d r lk \<longleftrightarrow> cache_inv D s' \<and> (\<exists>bs. s' = s\<lparr>bufs := bs\<rparr>) \<and>
     content D s' = (content D s)(n := d) \<and> refs D s' = (refs D s)(n := r) \<and>
     lock_of D s' = (lock_of D s)(n := lk) \<and>
     (\<forall>b m. handle D s b m \<longrightarrow> refs D s' m \<noteq> 0 \<longrightarrow> handle D s' b m)"

lemma cache_step_upd:
  assumes inv: "cache_inv D s" and i: "i < NBUF"
    and links: "b_next x = b_next (bufs s i)" "b_prev x = b_prev (bufs s i)"
    and ok: "buf_ok D (disk_blocks s) x" and x: "b_dev x = D" "b_blockno x = n" "b_valid x"
    and old: "b_dev (bufs s i) = D \<and> b_blockno (bufs s i) = n \<or>
      b_refcnt (bufs s i) = 0 \<and> idx D s n = None"
  shows "cache_step D n s (s\<lparr>bufs := (bufs s)(i := x)\<rparr>) (b_data x) (b_refcnt x) (b_lock x)"
proof -
  let ?s' = "s\<lparr>bufs := (bufs s)(i := x)\<rparr>"
  have "\<forall>j<NBUF. j \<noteq> i \<longrightarrow> b_dev (bufs s j) = b_dev x \<and> b_blockno (bufs s j) = b_blockno x \<longrightarrow> b_dev x = 0"
  proof (intro allI impI, elim conjE)
    fix j assume j: "j < NBUF" "j \<noteq> i" "b_dev (bufs s j) = b_dev x" "b_blockno (bufs s j) = b_blockno x"
    then have "idx D s n = Some j" using idx_Some [OF inv] x by auto
    moreover have "idx D s n = Some i \<or> idx D s n = None" using old idx_Some [OF inv, of n i] i by metis
    ultimately show "b_dev x = 0" using j(2) by auto
  qed
  with inv i links ok have inv': "cache_inv D ?s'" by (rule cache_inv_upd)
  have old': "b_dev (bufs s i) = D \<and> b_blockno (bufs s i) = n \<or> b_refcnt (bufs s i) = 0" using old by blast
  note v = views_upd [OF inv refl inv' i x old']
  have "handle D ?s' b m" if "handle D s b m" "refs D ?s' m \<noteq> 0" for b m
  proof (cases "m = n")
    case True
    then have "idx D s n = Some b" using that(1) handle_idx [OF inv] by blast
    then have "b = i" using old idx_Some [OF inv, of n i] i by auto
    then show ?thesis using True v(4) that(2) unfolding handle_idx [OF inv'] by blast
  next
    case False
    then show ?thesis using that v(5) [of m] unfolding handle_idx [OF inv] handle_idx [OF inv'] by auto
  qed
  then show ?thesis unfolding cache_step_def using inv' v(1-3) by auto
qed

lemma bfind_hit:
  assumes inv: "cache_inv D s"
  shows "bfind (\<lambda>b. b_next (bufs s b)) (\<lambda>b. b_dev (bufs s b) = D \<and> b_blockno (bufs s b) = n) (b_next (bufs s bhead)) =
    Some (case idx D s n of None \<Rightarrow> bhead | Some b \<Rightarrow> b)"
proof -
  let ?P = "\<lambda>b. b_dev (bufs s b) = D \<and> b_blockno (bufs s b) = n"
  from inv obtain xs where xs: "lru (bufs s) xs" by (auto simp: cache_inv_def)
  then have "bfind (\<lambda>b. b_next (bufs s b)) ?P (b_next (bufs s bhead)) =
      Some (case find ?P xs of None \<Rightarrow> bhead | Some b \<Rightarrow> b)"
    by (intro bfind_chain) (auto simp: lru_def)
  moreover have "find ?P xs = idx D s n"
  proof (cases "find ?P xs")
    case None
    then have "idx D s n \<noteq> Some b" for b
      using idx_Some [OF inv, of n b] xs by (auto simp: find_None_iff lru_def)
    with None show ?thesis by (cases "idx D s n") auto
  next
    case (Some b)
    then have "b \<in> set xs" "?P b" by (auto simp: find_Some_iff)
    then have "idx D s n = Some b" using idx_Some [OF inv, of n b] xs by (auto simp: lru_def)
    with Some show ?thesis by simp
  qed
  ultimately show ?thesis by simp
qed

lemma bfind_free:
  assumes inv: "cache_inv D s"
  obtains b where "bfind (\<lambda>b. b_prev (bufs s b)) (\<lambda>b. b_refcnt (bufs s b) = 0) (b_prev (bufs s bhead)) = Some b"
    "if \<exists>i<NBUF. b_refcnt (bufs s i) = 0 then b < NBUF \<and> b_refcnt (bufs s b) = 0 else b = bhead"
proof -
  let ?P = "\<lambda>b. b_refcnt (bufs s b) = 0"
  from inv obtain xs where xs: "lru (bufs s) xs" by (auto simp: cache_inv_def)
  then have f: "bfind (\<lambda>b. b_prev (bufs s b)) ?P (b_prev (bufs s bhead)) =
      Some (case find ?P (rev xs) of None \<Rightarrow> bhead | Some b \<Rightarrow> b)"
    by (intro bfind_chain) (auto simp: lru_def)
  show thesis
  proof (cases "find ?P (rev xs)")
    case None
    then have "\<not> (\<exists>i<NBUF. b_refcnt (bufs s i) = 0)" using xs by (auto simp: find_None_iff lru_def)
    then show thesis using that [OF f] None by simp
  next
    case (Some b)
    then have "b \<in> set (rev xs)" "?P b" by (auto simp: find_Some_iff in_set_conv_nth simp del: set_rev)
    then have "b < NBUF" "?P b" using xs by (auto simp: lru_def)
    moreover have "bfind (\<lambda>b. b_prev (bufs s b)) ?P (b_prev (bufs s bhead)) = Some b" using f Some by simp
    ultimately show thesis using that [of b] by (metis (lifting))
  qed
qed

lemma buf_same: "b_valid x \<Longrightarrow> x\<lparr>b_valid := True\<rparr> = x" "b_data x = d \<Longrightarrow> x\<lparr>b_data := d\<rparr> = x"
  by simp_all

lemma cache_buf_ok: "cache_inv D s \<Longrightarrow> i < NBUF \<Longrightarrow> buf_ok D (disk_blocks s) (bufs s i)"
  by (simp add: cache_inv_def)

text \<open>
  \<^verbatim>\<open>bread\<close> needs the buffer's lock to be free and, for a block that is not cached, an unused
  buffer.
\<close>

lemma bread_spec:
  assumes inv: "cache_inv D s" and lk: "\<not> sl_locked (lock_of D s n)"
    and room: "idx D s n \<noteq> None \<or> (\<exists>i<NBUF. b_refcnt (bufs s i) = 0)" and ovf: "refs D s n + 1 \<noteq> 0"
  shows "\<exists>b s'. bread D n s = Ok (b, s') \<and> handle D s' b n \<and> b_data (bufs s' b) = content D s n \<and>
    cache_step D n s s' (content D s n) (refs D s n + 1) \<lparr>sl_locked = True, sl_pid = mypid s\<rparr>"
proof (cases "idx D s n")
  case (Some b)
  let ?o = "bufs s b" and ?lk = "\<lparr>sl_locked = True, sl_pid = mypid s\<rparr>"
  let ?x = "?o\<lparr>b_refcnt := b_refcnt ?o + 1, b_lock := ?lk, b_data := content D s n, b_valid := True\<rparr>"
  have b: "b < NBUF" "b_dev ?o = D" "b_blockno ?o = n" using Some idx_Some [OF inv] by auto
  have c: "content D s n = (if b_valid ?o then b_data ?o else disk_blocks s n)" using Some by (simp add: content_def)
  have r: "refs D s n = b_refcnt ?o" "lock_of D s n = b_lock ?o" using Some by (simp_all add: refs_def lock_of_def)
  have "bread D n s = Ok (b, s\<lparr>bufs := (bufs s)(b := ?x)\<rparr>)"
    using bfind_hit [OF inv, of n] Some lk r(2) c b
    by (auto simp: bread_def bget_def bget_lock_def acquiresleep_def upd_buf_def disk_rw_def buf_same)
  moreover have ok: "buf_ok D (disk_blocks s) ?x"
    using cache_buf_ok [OF inv b(1)] inv c ovf r(1) b(2) by (auto simp: buf_ok_def cache_inv_def)
  have "cache_step D n s (s\<lparr>bufs := (bufs s)(b := ?x)\<rparr>) (b_data ?x) (b_refcnt ?x) (b_lock ?x)"
    by (rule cache_step_upd [OF inv b(1) _ _ ok]) (use b in simp_all)
  ultimately show ?thesis using b ovf r(1)
    by (intro exI [of _ b] exI [of _ "s\<lparr>bufs := (bufs s)(b := ?x)\<rparr>"]) (simp add: handle_def)
next
  case None
  then have free: "\<exists>i<NBUF. b_refcnt (bufs s i) = 0" using room by blast
  from inv obtain b where f:
    "bfind (\<lambda>b. b_prev (bufs s b)) (\<lambda>b. b_refcnt (bufs s b) = 0) (b_prev (bufs s bhead)) = Some b"
    and b: "b < NBUF" "b_refcnt (bufs s b) = 0" by (rule bfind_free) (use free in auto)
  let ?o = "bufs s b" and ?lk = "\<lparr>sl_locked = True, sl_pid = mypid s\<rparr>"
  let ?x = "?o\<lparr>b_dev := D, b_blockno := n, b_refcnt := 1, b_lock := ?lk, b_data := disk_blocks s n, b_valid := True\<rparr>"
  have c: "content D s n = disk_blocks s n" "refs D s n = 0" using None by (simp_all add: content_def refs_def)
  have "b_lock ?o = initsleeplock" using cache_buf_ok [OF inv b(1)] b(2) by (simp add: buf_ok_def)
  then have "bread D n s = Ok (b, s\<lparr>bufs := (bufs s)(b := ?x)\<rparr>)"
    using bfind_hit [OF inv, of n] None f b
    by (simp add: bread_def bget_def bget_lock_def acquiresleep_def initsleeplock_def upd_buf_def disk_rw_def)
  moreover have ok: "buf_ok D (disk_blocks s) ?x" using inv by (simp add: buf_ok_def cache_inv_def)
  have "cache_step D n s (s\<lparr>bufs := (bufs s)(b := ?x)\<rparr>) (b_data ?x) (b_refcnt ?x) (b_lock ?x)"
    by (rule cache_step_upd [OF inv b(1) _ _ ok]) (use b None in simp_all)
  ultimately show ?thesis using b c
    by (intro exI [of _ b] exI [of _ "s\<lparr>bufs := (bufs s)(b := ?x)\<rparr>"]) (simp add: handle_def)
qed

text \<open>
  \<^verbatim>\<open>bread\<close> of a block whose buffer another holder has waits; with every buffer in use and the block
  not among them it panics.
\<close>

lemma bread_locked:
  assumes inv: "cache_inv D s" and lk: "sl_locked (lock_of D s n)"
  shows "bread D n s = Blocks"
proof (cases "idx D s n")
  case None
  then show ?thesis using lk by (simp add: lock_of_def initsleeplock_def)
next
  case (Some b)
  then have "b < NBUF" using idx_Some [OF inv] by simp
  moreover have "sl_locked (b_lock (bufs s b))" using lk Some by (simp add: lock_of_def)
  ultimately show ?thesis using Some bfind_hit [OF inv, of n]
    by (simp add: bread_def bget_def bget_lock_def acquiresleep_def upd_buf_def)
qed

lemma bread_full:
  assumes inv: "cache_inv D s" and None: "idx D s n = None" and full: "\<forall>i<NBUF. b_refcnt (bufs s i) \<noteq> 0"
  shows "bread D n s = Panic ''bget: no buffers''"
proof -
  from inv obtain b where
    f: "bfind (\<lambda>b. b_prev (bufs s b)) (\<lambda>b. b_refcnt (bufs s b) = 0) (b_prev (bufs s bhead)) = Some b"
    and b: "b = bhead" by (rule bfind_free) (use full in auto)
  show ?thesis using f b bfind_hit [OF inv, of n] None by (simp add: bread_def bget_def)
qed

text \<open>The other operations, on a buffer that the caller has.\<close>

lemma handle_views:
  assumes inv: "cache_inv D s" and h: "handle D s b n"
  shows "b < NBUF" "b_dev (bufs s b) = D" "b_blockno (bufs s b) = n" "b_valid (bufs s b)"
    "b_data (bufs s b) = content D s n" "b_refcnt (bufs s b) = refs D s n" "b_lock (bufs s b) = lock_of D s n"
    "refs D s n \<noteq> 0" "idx D s n = Some b"
proof -
  have i: "idx D s n = Some b" "refs D s n \<noteq> 0" using h handle_idx [OF inv] by auto
  have b: "b < NBUF" "b_dev (bufs s b) = D" "b_blockno (bufs s b) = n" using i idx_Some [OF inv] by auto
  have r: "b_refcnt (bufs s b) = refs D s n" "b_lock (bufs s b) = lock_of D s n"
    using i by (simp_all add: refs_def lock_of_def)
  then have "b_valid (bufs s b)" using cache_buf_ok [OF inv b(1)] i(2) by (auto simp: buf_ok_def)
  then show "b < NBUF" "b_dev (bufs s b) = D" "b_blockno (bufs s b) = n" "b_valid (bufs s b)"
    "b_data (bufs s b) = content D s n" "b_refcnt (bufs s b) = refs D s n" "b_lock (bufs s b) = lock_of D s n"
    "refs D s n \<noteq> 0" "idx D s n = Some b" using i b r by (simp_all add: content_def)
qed

lemma handle_upd:
  assumes inv: "cache_inv D s" and h: "handle D s b n"
    and x: "b_dev x = D" "b_blockno x = n" "b_valid x" "b_next x = b_next (bufs s b)" "b_prev x = b_prev (bufs s b)"
    and ok: "buf_ok D (disk_blocks s) x"
  shows "cache_step D n s (s\<lparr>bufs := (bufs s)(b := x)\<rparr>) (b_data x) (b_refcnt x) (b_lock x)"
  by (rule cache_step_upd) (use handle_views [OF inv h] inv x ok in auto)

text \<open>Writing to the data of a buffer.\<close>

definition set_data :: "nat \<Rightarrow> block \<Rightarrow> 'a bcache_scheme \<Rightarrow> 'a bcache_scheme" where
  "set_data b d s = upd_buf b (\<lambda>x. x\<lparr>b_data := d\<rparr>) s"

lemma set_data_spec:
  assumes inv: "cache_inv D s" and h: "handle D s b n" and d: "length d = BSIZE"
  shows "cache_step D n s (set_data b d s) d (refs D s n) (lock_of D s n)"
proof -
  note v = handle_views [OF inv h]
  have "buf_ok D (disk_blocks s) ((bufs s b)\<lparr>b_data := d\<rparr>)"
    using cache_buf_ok [OF inv v(1)] v(6,8) d by (auto simp: buf_ok_def)
  then show ?thesis using handle_upd [OF inv h, of "(bufs s b)\<lparr>b_data := d\<rparr>"] v
    by (simp add: set_data_def upd_buf_def)
qed

lemma bpin_spec:
  assumes inv: "cache_inv D s" and h: "handle D s b n" and r: "refs D s n + 1 \<noteq> 0"
  shows "cache_step D n s (bpin b s) (content D s n) (refs D s n + 1) (lock_of D s n)"
proof -
  note v = handle_views [OF inv h]
  let ?x = "(bufs s b)\<lparr>b_refcnt := b_refcnt (bufs s b) + 1\<rparr>"
  have "buf_ok D (disk_blocks s) ?x" using cache_buf_ok [OF inv v(1)] v(6,8) r by (auto simp: buf_ok_def)
  then show ?thesis using handle_upd [OF inv h, of ?x] v by (simp add: bpin_def upd_buf_def)
qed

lemma bunpin_spec:
  assumes inv: "cache_inv D s" and h: "handle D s b n"
    and z: "refs D s n = 1 \<Longrightarrow> lock_of D s n = initsleeplock \<and> content D s n = disk_blocks s n"
  shows "cache_step D n s (bunpin b s) (content D s n) (refs D s n - 1) (lock_of D s n)"
proof -
  note v = handle_views [OF inv h]
  let ?x = "(bufs s b)\<lparr>b_refcnt := b_refcnt (bufs s b) - 1\<rparr>"
  have "buf_ok D (disk_blocks s) ?x"
    using cache_buf_ok [OF inv v(1)] v z by (cases "refs D s n = 1") (auto simp: buf_ok_def)
  then show ?thesis using handle_upd [OF inv h, of ?x] v by (simp add: bunpin_def upd_buf_def)
qed

lemma bwrite_spec:
  assumes inv: "cache_inv D s" and h: "handle D s b n" and lk: "holdingsleep (mypid s) (lock_of D s n)"
  defines "s' \<equiv> s\<lparr>disk_blocks := (disk_blocks s)(n := content D s n), disk_hist := disk_hist s @ [(n, content D s n)]\<rparr>"
  shows "bwrite b s = Ok s'" "cache_inv D s'" "content D s' = content D s" "refs D s' = refs D s"
    "lock_of D s' = lock_of D s" "handle D s' c m = handle D s c m"
proof -
  note v = handle_views [OF inv h]
  show "bwrite b s = Ok s'" using v lk by (simp add: bwrite_def disk_rw_def s'_def)
  have idx: "idx D s' = idx D s" by (rule ext) (simp add: idx_def s'_def)
  have len: "length (content D s n) = BSIZE"
    using cache_buf_ok [OF inv v(1)] v(4,5) by (simp add: buf_ok_def)
  have "buf_ok D (disk_blocks s') (bufs s i)" if i: "i < NBUF" for i
  proof (cases "i = b")
    case True
    then show ?thesis using cache_buf_ok [OF inv i] v by (auto simp: buf_ok_def s'_def)
  next
    case False
    then have "\<not> (b_dev (bufs s i) = D \<and> b_blockno (bufs s i) = n)" using idx_Some [OF inv, of n i] i v(9) by auto
    then show ?thesis using cache_buf_ok [OF inv i] by (auto simp: buf_ok_def s'_def)
  qed
  then show "cache_inv D s'" using inv len by (auto simp: cache_inv_def s'_def)
  have b: "bufs s' = bufs s" "\<And>m. m \<noteq> n \<Longrightarrow> disk_blocks s' m = disk_blocks s m" by (simp_all add: s'_def)
  have "content D s' m = content D s m" for m
  proof (cases "m = n")
    case True
    then show ?thesis using v(4,5,9) by (simp add: content_def [of D s'] idx b)
  next
    case False
    then show ?thesis by (simp add: content_def idx b split: option.split)
  qed
  then show "content D s' = content D s" by (rule ext)
  show "refs D s' = refs D s" "lock_of D s' = lock_of D s" "handle D s' c m = handle D s c m"
    by (simp_all add: refs_def lock_of_def handle_def fun_eq_iff idx b split: option.split)
qed

text \<open>\<^verbatim>\<open>brelse\<close> moves the buffer in the list when this was the last reference.\<close>

lemma bmove_keeps:
  assumes p: "\<And>y v. f (y\<lparr>b_prev := v\<rparr>) = f y" and n: "\<And>y v. f (y\<lparr>b_next := v\<rparr>) = f y"
  shows "f (bmove b bs x) = f (bs x)"
proof -
  have "f ((cs(i := (cs i)\<lparr>b_prev := v\<rparr>)) x) = f (cs x)" "f ((cs(i := (cs i)\<lparr>b_next := v\<rparr>)) x) = f (cs x)" for cs i v
    by (simp_all add: p n)
  then show ?thesis unfolding bmove_def Let_def by (simp only:)
qed

lemma bmove_fields:
  "b_valid (bmove b bs x) = b_valid (bs x)" "b_dev (bmove b bs x) = b_dev (bs x)"
  "b_blockno (bmove b bs x) = b_blockno (bs x)" "b_refcnt (bmove b bs x) = b_refcnt (bs x)"
  "b_data (bmove b bs x) = b_data (bs x)" "b_lock (bmove b bs x) = b_lock (bs x)"
  by (rule bmove_keeps, simp, simp)+

lemma cache_bmove:
  assumes inv: "cache_inv D s" and b: "b < NBUF"
  defines "s' \<equiv> s\<lparr>bufs := bmove b (bufs s)\<rparr>"
  shows "cache_inv D s'" "content D s' = content D s" "refs D s' = refs D s" "lock_of D s' = lock_of D s"
    "handle D s' c m = handle D s c m"
proof -
  from inv obtain xs where "lru (bufs s) xs" by (auto simp: cache_inv_def)
  then have "\<exists>xs. lru (bmove b (bufs s)) xs" using lru_bmove [OF _ b] by blast
  moreover have "idx D s' = idx D s" by (rule ext) (simp add: idx_def s'_def bmove_fields)
  moreover have "unique (bmove b (bufs s)) = unique (bufs s)" by (simp add: unique_def bmove_fields)
  moreover have "buf_ok D d (bmove b (bufs s) i) = buf_ok D d (bufs s i)" for d i
    by (simp add: buf_ok_def bmove_fields)
  ultimately show "cache_inv D s'" "content D s' = content D s" "refs D s' = refs D s" "lock_of D s' = lock_of D s"
    "handle D s' c m = handle D s c m"
    using inv by (simp_all add: cache_inv_def s'_def bmove_fields content_def refs_def lock_of_def handle_def
      fun_eq_iff del: NBUF_def split: option.split)
qed

lemma cache_step_bmove:
  assumes t: "cache_step D n s t d r lk" and b: "b < NBUF"
  shows "cache_step D n s (t\<lparr>bufs := bmove b (bufs t)\<rparr>) d r lk"
proof -
  have i: "cache_inv D t" using t by (simp add: cache_step_def)
  obtain bs where "t = s\<lparr>bufs := bs\<rparr>" using t by (auto simp: cache_step_def)
  then have "t\<lparr>bufs := bmove b (bufs t)\<rparr> = s\<lparr>bufs := bmove b bs\<rparr>" by simp
  then show ?thesis using t cache_bmove [OF i b] unfolding cache_step_def by metis
qed

lemma brelse_spec:
  assumes inv: "cache_inv D s" and h: "handle D s b n" and lk: "holdingsleep (mypid s) (lock_of D s n)"
    and z: "refs D s n = 1 \<Longrightarrow> content D s n = disk_blocks s n"
  shows "\<exists>s'. brelse b s = Ok s' \<and> cache_step D n s s' (content D s n) (refs D s n - 1) initsleeplock"
proof -
  note v = handle_views [OF inv h]
  let ?x = "(bufs s b)\<lparr>b_lock := initsleeplock, b_refcnt := b_refcnt (bufs s b) - 1\<rparr>"
  let ?t = "s\<lparr>bufs := (bufs s)(b := ?x)\<rparr>"
  have "buf_ok D (disk_blocks s) ?x"
    using cache_buf_ok [OF inv v(1)] v z by (cases "refs D s n = 1") (auto simp: buf_ok_def)
  then have t: "cache_step D n s ?t (content D s n) (refs D s n - 1) initsleeplock"
    using handle_upd [OF inv h, of ?x] v by simp
  have br: "brelse b s = Ok (if refs D s n - 1 = 0 then ?t\<lparr>bufs := bmove b (bufs ?t)\<rparr> else ?t)"
    using v lk by (simp add: brelse_def Let_def upd_buf_def releasesleep_def initsleeplock_def)
  show ?thesis
  proof (cases "refs D s n - 1 = 0")
    case True
    then show ?thesis using br cache_step_bmove [OF t v(1)] by simp
  next
    case False
    then show ?thesis using br t by simp
  qed
qed

lemma binit_inv:
  assumes "D \<noteq> 0" "\<forall>n. length (disk_blocks s n) = BSIZE"
    and zero: "\<forall>i<NBUF. b_valid (bufs s i) = False \<and> b_dev (bufs s i) = 0 \<and> b_refcnt (bufs s i) = 0"
  shows "cache_inv D (binit s)" "idx D (binit s) n = None" "\<forall>i<NBUF. b_refcnt (bufs (binit s) i) = 0"
proof -
  let ?t = "binit s"
  have f: "b_valid (bufs ?t i) = False" "b_dev (bufs ?t i) = 0" "b_refcnt (bufs ?t i) = 0"
    "b_lock (bufs ?t i) = initsleeplock" if "i < NBUF" for i
    using zero that unfolding binit_def Let_def
    by (simp_all add: fold_binit_fields upd_buf_def del: upt_rec_numeral)
  then have "\<forall>i<NBUF. buf_ok D (disk_blocks ?t) (bufs ?t i)" "unique (bufs ?t)"
    by (simp_all add: buf_ok_def unique_def del: NBUF_def)
  moreover have "disk_blocks ?t = disk_blocks s" by (simp add: binit_def upd_buf_def Let_def)
  ultimately show "cache_inv D ?t" unfolding cache_inv_def using assms lru_binit [of s] by auto
  then show "idx D ?t n = None" using idx_Some [of D ?t n] f(2) assms(1) by (metis not_None_eq)
  show "\<forall>i<NBUF. b_refcnt (bufs ?t i) = 0" using f(3) by blast
qed

section \<open>The operations on the views\<close>

text \<open>
  The same facts in the form in which the clients of the cache use them: \<open>cview D s c r l\<close> says
  that the blocks have contents \<open>c\<close>, reference counts \<open>r\<close> and locks \<open>l\<close>.
\<close>

definition cview ::
  "u32 \<Rightarrow> 'a bcache_scheme \<Rightarrow> (u32 \<Rightarrow> block) \<Rightarrow> (u32 \<Rightarrow> u32) \<Rightarrow> (u32 \<Rightarrow> sleeplock) \<Rightarrow> bool" where
  "cview D s c r l \<longleftrightarrow> cache_inv D s \<and> content D s = c \<and> refs D s = r \<and> lock_of D s = l"

definition kept :: "u32 \<Rightarrow> 'a bcache_scheme \<Rightarrow> 'a bcache_scheme \<Rightarrow> bool" where
  "kept D s s' \<longleftrightarrow> (\<forall>b m. handle D s b m \<longrightarrow> refs D s' m \<noteq> 0 \<longrightarrow> handle D s' b m)"

definition held_by :: "int \<Rightarrow> sleeplock" where
  "held_by p = \<lparr>sl_locked = True, sl_pid = p\<rparr>"

lemma held_by [simp]: "sl_locked (held_by p)" "holdingsleep p (held_by p)"
  by (simp_all add: held_by_def holdingsleep_def)

lemma initsleeplock_free [simp]: "\<not> sl_locked initsleeplock"
  by (simp add: initsleeplock_def)

lemma cview_cong:
  assumes "bufs s' = bufs s" "disk_blocks s' = disk_blocks s"
  shows "cview D s' c r l = cview D s c r l"
proof -
  have "content D s' = content D s" "refs D s' = refs D s" "lock_of D s' = lock_of D s"
    by (rule ext, simp only: content_def refs_def lock_of_def idx_def assms)+
  then show ?thesis by (simp only: cview_def cache_inv_def assms)
qed

lemma handle_cong: "bufs s' = bufs s \<Longrightarrow> handle D s' b n = handle D s b n"
  by (simp add: handle_def)

lemma keptD: "kept D s s' \<Longrightarrow> cview D s' c r l \<Longrightarrow> handle D s b m \<Longrightarrow> r m \<noteq> 0 \<Longrightarrow> handle D s' b m"
  by (auto simp: kept_def cview_def)

lemma kept_trans:
  assumes "kept D s t" "kept D t u" and v: "cview D s c r l" "cview D t c' r' l'" and r: "\<And>m. r m \<noteq> 0 \<Longrightarrow> r' m \<noteq> 0"
  shows "kept D s u"
  unfolding kept_def
proof (intro allI impI)
  fix b m assume h: "handle D s b m" and u: "refs D u m \<noteq> 0"
  have "cache_inv D s" using v(1) by (simp add: cview_def)
  then have "r m \<noteq> 0" using handle_idx h v(1) by (auto simp: cview_def)
  then have "handle D t b m" using keptD [OF assms(1) v(2) h] r by blast
  then show "handle D u b m" using assms(2) u by (simp add: kept_def)
qed

lemma cview_step:
  assumes "cview D s c r l" "cache_step D n s s' d k lk"
  shows "cview D s' (c(n := d)) (r(n := k)) (l(n := lk))" "kept D s s'"
  using assms by (auto simp: cview_def cache_step_def kept_def)

lemma cache_step_bufs: "cache_step D n s s' d k lk \<Longrightarrow> \<exists>bs. s' = s\<lparr>bufs := bs\<rparr>"
  by (simp add: cache_step_def)

lemma cache_room:
  assumes inv: "cache_inv D s" and c: "card {m. refs D s m \<noteq> 0} < NBUF"
  shows "\<exists>i<NBUF. b_refcnt (bufs s i) = 0"
proof (rule ccontr)
  assume "\<not> ?thesis"
  then have nz: "b_refcnt (bufs s i) \<noteq> 0" if "i < NBUF" for i using that by blast
  let ?f = "\<lambda>i. b_blockno (bufs s i)"
  have D: "b_dev (bufs s i) = D" if "i < NBUF" for i
    using cache_buf_ok [OF inv that] nz [OF that] by (simp add: buf_ok_def)
  have i: "idx D s (?f i) = Some i" if "i < NBUF" for i
    using idx_Some [OF inv, of "?f i" i] D [OF that] that by simp
  have "inj_on ?f {..<NBUF}"
  proof (rule inj_onI)
    fix j k assume j: "j \<in> {..<NBUF}" and k: "k \<in> {..<NBUF}" and f: "?f j = ?f k"
    have "idx D s (?f j) = Some j" by (rule i) (use j in simp)
    moreover have "idx D s (?f k) = Some k" by (rule i) (use k in simp)
    ultimately show "j = k" unfolding f by simp
  qed
  then have "card (?f ` {..<NBUF}) = NBUF" by (simp add: card_image)
  moreover have "refs D s m = 0" if "m \<notin> ?f ` {..<NBUF}" for m
  proof (cases "idx D s m")
    case (Some j)
    then show ?thesis using that idx_Some [OF inv, of m j] by (metis imageI lessThan_iff)
  qed (simp add: refs_def)
  moreover have "refs D s m \<noteq> 0" if m: "m \<in> ?f ` {..<NBUF}" for m
  proof -
    from m obtain j where "j < NBUF" "m = ?f j" by blast
    then show ?thesis using i [of j] nz [of j] by (simp add: refs_def)
  qed
  ultimately have "{m. refs D s m \<noteq> 0} = ?f ` {..<NBUF}" "card (?f ` {..<NBUF}) = NBUF" by blast+
  then show False using c by simp
qed

lemma cview_cases:
  assumes "cview D s c r l"
  obtains "idx D s n = None" "c n = disk_blocks s n" "r n = 0" "l n = initsleeplock"
  | b where "b < NBUF" "buf_ok D (disk_blocks s) (bufs s b)" "b_blockno (bufs s b) = n"
    "c n = (if b_valid (bufs s b) then b_data (bufs s b) else disk_blocks s n)"
    "r n = b_refcnt (bufs s b)" "l n = b_lock (bufs s b)"
proof (cases "idx D s n")
  case None
  then show thesis using assms that(1) by (auto simp: cview_def content_def refs_def lock_of_def)
next
  case (Some b)
  have inv: "cache_inv D s" using assms by (simp add: cview_def)
  have "b < NBUF" "b_blockno (bufs s b) = n" using Some idx_Some [OF inv, of n b] by simp_all
  moreover have "c n = (if b_valid (bufs s b) then b_data (bufs s b) else disk_blocks s n)"
    "r n = b_refcnt (bufs s b)" "l n = b_lock (bufs s b)"
    using Some assms by (auto simp: cview_def content_def refs_def lock_of_def)
  ultimately show thesis using cache_buf_ok [OF inv, of b] by (intro that(2) [of b])
qed

lemma cview_clean: "cview D s c r l \<Longrightarrow> r n = 0 \<Longrightarrow> c n = disk_blocks s n"
  by (erule cview_cases [of _ _ _ _ _ n]) (auto simp: buf_ok_def)

lemma cview_free: "cview D s c r l \<Longrightarrow> r n = 0 \<Longrightarrow> l n = initsleeplock"
  by (erule cview_cases [of _ _ _ _ _ n]) (auto simp: buf_ok_def)

lemma cview_disk_length: "cview D s c r l \<Longrightarrow> length (disk_blocks s n) = BSIZE"
  by (simp add: cview_def cache_inv_def)

lemma cview_length: "length (c n) = BSIZE" if v: "cview D s c r l"
  using v cview_disk_length [OF v, of n] by (cases rule: cview_cases [of _ _ _ _ _ n]) (auto simp: buf_ok_def)

lemma cview_data: "cview D s c r l \<Longrightarrow> handle D s b n \<Longrightarrow> b_data (bufs s b) = c n"
  using handle_views(5) by (auto simp: cview_def)

lemma cview_blockno: "cview D s c r l \<Longrightarrow> handle D s b n \<Longrightarrow> b_blockno (bufs s b) = n \<and> b < NBUF \<and> b_dev (bufs s b) = D"
  using handle_views(1,2,3) by (auto simp: cview_def)

lemma cview_refs: "cview D s c r l \<Longrightarrow> handle D s b n \<Longrightarrow> r n \<noteq> 0"
  using handle_views(8) by (auto simp: cview_def)

lemma bread_view:
  assumes v: "cview D s c r l" and l: "l n = initsleeplock" and o: "r n + 1 \<noteq> 0"
    and room: "r n \<noteq> 0 \<or> card {m. r m \<noteq> 0} < NBUF"
  shows "\<exists>b bs. bread D n s = Ok (b, s\<lparr>bufs := bs\<rparr>) \<and>
    cview D (s\<lparr>bufs := bs\<rparr>) c (r(n := r n + 1)) (l(n := held_by (mypid s))) \<and>
    handle D (s\<lparr>bufs := bs\<rparr>) b n \<and> kept D s (s\<lparr>bufs := bs\<rparr>)"
proof -
  have inv: "cache_inv D s" and eq: "content D s = c" "refs D s = r" "lock_of D s = l"
    using v by (simp_all add: cview_def)
  have "idx D s n \<noteq> None \<or> (\<exists>i<NBUF. b_refcnt (bufs s i) = 0)"
    using room cache_room [OF inv] eq by (cases "idx D s n") (auto simp: refs_def)
  then obtain b s' where r: "bread D n s = Ok (b, s')" "handle D s' b n"
    and c: "cache_step D n s s' (c n) (r n + 1) (held_by (mypid s))"
    using bread_spec [OF inv, of n] l o eq by (auto simp: held_by_def)
  then show ?thesis using cview_step [OF v c] cache_step_bufs [OF c] by auto
qed

lemma set_data_view:
  assumes v: "cview D s c r l" and h: "handle D s b n" and d: "length d = BSIZE"
  shows "\<exists>bs. set_data b d s = s\<lparr>bufs := bs\<rparr> \<and> cview D (s\<lparr>bufs := bs\<rparr>) (c(n := d)) r l \<and>
    kept D s (s\<lparr>bufs := bs\<rparr>)"
proof -
  have "cache_inv D s" using v by (simp add: cview_def)
  then have c: "cache_step D n s (set_data b d s) d (r n) (l n)"
    using set_data_spec h d v by (auto simp: cview_def)
  then show ?thesis using cview_step [OF v c] cache_step_bufs [OF c] by auto
qed

lemma bpin_view:
  assumes v: "cview D s c r l" and h: "handle D s b n" and o: "r n + 1 \<noteq> 0"
  shows "\<exists>bs. bpin b s = s\<lparr>bufs := bs\<rparr> \<and> cview D (s\<lparr>bufs := bs\<rparr>) c (r(n := r n + 1)) l \<and>
    kept D s (s\<lparr>bufs := bs\<rparr>)"
proof -
  have "cache_inv D s" using v by (simp add: cview_def)
  then have c: "cache_step D n s (bpin b s) (c n) (r n + 1) (l n)"
    using bpin_spec h o v by (auto simp: cview_def)
  then show ?thesis using cview_step [OF v c] cache_step_bufs [OF c] by auto
qed

lemma bunpin_view:
  assumes v: "cview D s c r l" and h: "handle D s b n" and o: "r n \<noteq> 1"
  shows "\<exists>bs. bunpin b s = s\<lparr>bufs := bs\<rparr> \<and> cview D (s\<lparr>bufs := bs\<rparr>) c (r(n := r n - 1)) l \<and>
    kept D s (s\<lparr>bufs := bs\<rparr>)"
proof -
  have "cache_inv D s" using v by (simp add: cview_def)
  then have c: "cache_step D n s (bunpin b s) (c n) (r n - 1) (l n)"
    using bunpin_spec h o v by (auto simp: cview_def)
  then show ?thesis using cview_step [OF v c] cache_step_bufs [OF c] by auto
qed

lemma bwrite_view:
  assumes v: "cview D s c r l" and h: "handle D s b n" and lk: "l n = held_by (mypid s)"
  defines "s' \<equiv> s\<lparr>disk_blocks := (disk_blocks s)(n := c n), disk_hist := disk_hist s @ [(n, c n)]\<rparr>"
  shows "bwrite b s = Ok s'" "cview D s' c r l" "handle D s' a m = handle D s a m"
proof -
  have inv: "cache_inv D s" and c: "c = content D s" and l: "holdingsleep (mypid s) (lock_of D s n)"
    using v lk by (simp_all add: cview_def)
  note w = bwrite_spec [OF inv h l, folded c, folded s'_def]
  show "bwrite b s = Ok s'" "handle D s' a m = handle D s a m" using w by auto
  show "cview D s' c r l" using w v by (simp add: cview_def)
qed

lemma brelse_view:
  assumes v: "cview D s c r l" and h: "handle D s b n" and lk: "l n = held_by (mypid s)"
    and z: "r n = 1 \<Longrightarrow> c n = disk_blocks s n"
  shows "\<exists>bs. brelse b s = Ok (s\<lparr>bufs := bs\<rparr>) \<and>
    cview D (s\<lparr>bufs := bs\<rparr>) c (r(n := r n - 1)) (l(n := initsleeplock)) \<and> kept D s (s\<lparr>bufs := bs\<rparr>)"
proof -
  have inv: "cache_inv D s" and l: "holdingsleep (mypid s) (lock_of D s n)" using v lk by (simp_all add: cview_def)
  then obtain s' where b: "brelse b s = Ok s'" and c: "cache_step D n s s' (c n) (r n - 1) initsleeplock"
    using brelse_spec [OF inv h l] z v by (auto simp: cview_def)
  then show ?thesis using cview_step [OF v c] cache_step_bufs [OF c] by auto
qed

section \<open>Properties\<close>

definition demo_cache :: bcache where
  "demo_cache = binit \<lparr>phys = (\<lambda>_. 0), freelist = 0, kend = 0, mypid = 3,
     disk_blocks = (\<lambda>n. replicate BSIZE (ucast n)), disk_hist = [],
     bufs = (\<lambda>_. \<lparr>b_valid = False, b_dev = 0, b_blockno = 0, b_lock = initsleeplock, b_refcnt = 0,
       b_prev = 0, b_next = 0, b_data = []\<rparr>)\<rparr>"

lemma demo_cache:
  "cache_inv 1 demo_cache" "idx 1 demo_cache n = None" "\<forall>i<NBUF. b_refcnt (bufs demo_cache i) = 0"
  unfolding demo_cache_def by (rule binit_inv [of 1]; simp)+

lemma demo_free: "\<exists>i<NBUF. b_refcnt (bufs demo_cache i) = 0"
  using demo_cache(3) by (intro exI [of _ 0]) simp

lemma demo_content: "content 1 demo_cache n = replicate BSIZE (ucast n)"
  using demo_cache(2) [of n] by (simp add: content_def demo_cache_def binit_def upd_buf_def Let_def)

text \<open>
  C3: \<^verbatim>\<open>bread\<close> of a block whose buffer nobody has locked, while an unused buffer is left if the
  block is not cached, returns a buffer that holds the current contents of the block, locked by
  the caller and with one more reference. The invariant of the cache (one buffer per block, the
  list intact, unused buffers clean) holds again, no other block, lock or reference count
  changes, and every buffer in use keeps its place.
\<close>

theorem bread_current:
  assumes "cache_inv D s" "\<not> sl_locked (lock_of D s n)" "refs D s n + 1 \<noteq> 0"
    and "idx D s n \<noteq> None \<or> (\<exists>i<NBUF. b_refcnt (bufs s i) = 0)"
  shows "\<exists>b bs. bread D n s = Ok (b, s\<lparr>bufs := bs\<rparr>) \<and> cache_inv D (s\<lparr>bufs := bs\<rparr>) \<and>
    handle D (s\<lparr>bufs := bs\<rparr>) b n \<and> b_data (bs b) = content D s n \<and>
    holdingsleep (mypid s) (b_lock (bs b)) \<and>
    content D (s\<lparr>bufs := bs\<rparr>) = content D s \<and>
    refs D (s\<lparr>bufs := bs\<rparr>) = (refs D s)(n := refs D s n + 1) \<and>
    lock_of D (s\<lparr>bufs := bs\<rparr>) = (lock_of D s)(n := \<lparr>sl_locked = True, sl_pid = mypid s\<rparr>) \<and>
    (\<forall>c m. handle D s c m \<longrightarrow> handle D (s\<lparr>bufs := bs\<rparr>) c m)"
proof -
  obtain b s' where r: "bread D n s = Ok (b, s')" "handle D s' b n" "b_data (bufs s' b) = content D s n"
    and c: "cache_step D n s s' (content D s n) (refs D s n + 1) \<lparr>sl_locked = True, sl_pid = mypid s\<rparr>"
    using bread_spec [OF assms(1,2,4,3)] by blast
  from c obtain bs where s': "s' = s\<lparr>bufs := bs\<rparr>" by (auto simp: cache_step_def)
  have inv: "cache_inv D s'" using c by (simp add: cache_step_def)
  have "b_lock (bufs s' b) = \<lparr>sl_locked = True, sl_pid = mypid s\<rparr>"
    using handle_views(7) [OF inv r(2)] c by (simp add: cache_step_def)
  then have "holdingsleep (mypid s) (b_lock (bs b))" by (simp add: s' holdingsleep_def)
  moreover have "handle D s' d m" if "handle D s d m" for d m
    using that c assms(3) handle_views(8) [OF assms(1) that] unfolding cache_step_def by auto
  ultimately show ?thesis using r c unfolding cache_step_def s' by auto
qed

theorem bread_current_witness:
  "\<exists>b bs. bread 1 7 demo_cache = Ok (b, demo_cache\<lparr>bufs := bs\<rparr>) \<and> b_data (bs b) = replicate 1024 7"
proof -
  have "refs 1 demo_cache 7 = 0" "lock_of 1 demo_cache 7 = initsleeplock"
    using demo_cache(2) by (simp_all add: refs_def lock_of_def)
  then show ?thesis using bread_current [OF demo_cache(1), of 7] demo_free demo_content [of 7]
    by (simp add: initsleeplock_def) blast
qed

text \<open>
  C4: the order of the list is the order of use. With the list in the order \<open>xs\<close>, \<^verbatim>\<open>bread\<close> of a
  block that is not cached recycles the last unused buffer of \<open>xs\<close> and leaves the order as it is,
  and \<^verbatim>\<open>brelse\<close> of the last reference to a buffer puts it at the front.
\<close>

theorem bcache_recycles_lru:
  assumes "cache_inv D s" "lru (bufs s) xs"
  shows "(idx D s n = None \<and> find (\<lambda>b. b_refcnt (bufs s b) = 0) (rev xs) = Some b \<longrightarrow>
      (\<exists>s'. bread D n s = Ok (b, s') \<and> lru (bufs s') xs)) \<and>
    (handle D s c m \<and> holdingsleep (mypid s) (lock_of D s m) \<and> refs D s m = 1 \<longrightarrow>
      (\<exists>s'. brelse c s = Ok s' \<and> lru (bufs s') (c # remove1 c xs)))"
proof (intro conjI impI; elim conjE)
  show "\<exists>s'. bread D n s = Ok (b, s') \<and> lru (bufs s') xs"
    if n: "idx D s n = None" and f: "find (\<lambda>b. b_refcnt (bufs s b) = 0) (rev xs) = Some b"
  proof -
    have ch: "chain (\<lambda>b. b_prev (bufs s b)) bhead (rev xs) bhead" "bhead \<notin> set (rev xs)"
      using assms(2) by (auto simp: lru_def)
    from f have "b \<in> set (rev xs)" "b_refcnt (bufs s b) = 0"
      by (auto simp: find_Some_iff in_set_conv_nth simp del: set_rev)
    then have b: "b < NBUF" "b_refcnt (bufs s b) = 0" using assms(2) by (auto simp: lru_def)
    then have "b_lock (bufs s b) = initsleeplock" using cache_buf_ok [OF assms(1)] by (simp add: buf_ok_def)
    then obtain x where "bread D n s = Ok (b, s\<lparr>bufs := (bufs s)(b := x)\<rparr>)"
      "b_next x = b_next (bufs s b)" "b_prev x = b_prev (bufs s b)"
      using bfind_hit [OF assms(1), of n] n bfind_chain [OF ch, of "\<lambda>b. b_refcnt (bufs s b) = 0"] f b
      by (simp add: bread_def bget_def bget_lock_def acquiresleep_def initsleeplock_def upd_buf_def disk_rw_def)
    then show ?thesis using assms(2) lru_cong [of "(bufs s)(b := x)" "bufs s"] by auto
  qed
  show "\<exists>s'. brelse c s = Ok s' \<and> lru (bufs s') (c # remove1 c xs)"
    if h: "handle D s c m" and lk: "holdingsleep (mypid s) (lock_of D s m)" and r: "refs D s m = 1"
  proof -
    note v = handle_views [OF assms(1) h]
    let ?x = "(bufs s c)\<lparr>b_lock := initsleeplock, b_refcnt := b_refcnt (bufs s c) - 1\<rparr>"
    have "brelse c s = Ok (s\<lparr>bufs := bmove c ((bufs s)(c := ?x))\<rparr>)"
      using v lk r by (simp add: brelse_def Let_def upd_buf_def releasesleep_def initsleeplock_def)
    moreover have "lru ((bufs s)(c := ?x)) xs" using assms(2) by (subst lru_cong [of _ "bufs s"]) auto
    ultimately show ?thesis using lru_bmove [OF _ v(1)] by auto
  qed
qed

theorem bcache_recycles_lru_witness:
  "\<exists>s. bread 1 7 demo_cache = Ok (0, s) \<and> lru (bufs s) (rev [0..<NBUF]) \<and> 
     (\<exists>t. brelse 0 s = Ok t \<and> lru (bufs t) (0 # remove1 0 (rev [0..<NBUF])))"
proof -
  have l: "lru (bufs demo_cache) (rev [0..<NBUF])" unfolding demo_cache_def by (rule lru_binit)
  have f: "find (\<lambda>b. b_refcnt (bufs demo_cache b) = 0) (rev (rev [0..<NBUF])) = Some 0"
    using demo_cache(3) by (simp add: upt_rec)
  obtain s where s: "bread 1 7 demo_cache = Ok (0, s)" "lru (bufs s) (rev [0..<NBUF])"
    using bcache_recycles_lru [OF demo_cache(1) l, of 7 0] demo_cache(2) f by blast
  have "refs 1 demo_cache 7 = 0" "lock_of 1 demo_cache 7 = initsleeplock"
    using demo_cache(2) by (simp_all add: refs_def lock_of_def)
  then obtain b s' where "bread 1 7 demo_cache = Ok (b, s')" "handle 1 s' b 7" "cache_step 1 7 demo_cache s'
      (content 1 demo_cache 7) 1 \<lparr>sl_locked = True, sl_pid = mypid demo_cache\<rparr>"
    using bread_spec [OF demo_cache(1), of 7] demo_free by (auto simp: initsleeplock_def)
  then have h: "handle 1 s 0 7" and c: "cache_step 1 7 demo_cache s (content 1 demo_cache 7) 1
      \<lparr>sl_locked = True, sl_pid = mypid demo_cache\<rparr>" using s(1) by auto
  have "cache_inv 1 s" "holdingsleep (mypid s) (lock_of 1 s 7)" "refs 1 s 7 = 1"
    using c by (auto simp: cache_step_def holdingsleep_def)
  then show ?thesis using s h bcache_recycles_lru [of 1 s "rev [0..<NBUF]"] by blast
qed

end
