(* ===== verification/Log.thy ===== *)
theory Log
  imports Bio
begin

text \<open>
  \<^verbatim>\<open>kernel/log.c\<close>, the write-ahead log. \<open>logst\<close> adds the fields of \<^verbatim>\<open>struct log\<close> to the state of the
  buffer cache; the array \<^verbatim>\<open>log.lh.block\<close> is a list of \<open>LOGSIZE\<close> block numbers. An access to that
  array with an index from a corrupt header is \<open>Undef\<close>.

  Calls of \<^verbatim>\<open>sleep\<close> in \<^verbatim>\<open>begin_op\<close> are \<open>Blocks\<close>; \<^verbatim>\<open>wakeup\<close> changes no state of this module.
\<close>

section \<open>State and operations\<close>

record logst = bcache +
  log_start :: u32
  log_size :: int
  outstanding :: int
  committing :: bool
  log_dev :: u32
  lh_n :: int
  lh_block :: "u32 list"

definition log_slot :: "nat \<Rightarrow> 'a logst_scheme \<Rightarrow> u32 outcome" where
  "log_slot i s = (if i < length (lh_block s) then Ok (lh_block s ! i) else Undef)"

definition install_trans_one :: "bool \<Rightarrow> nat \<Rightarrow> 'a logst_scheme \<Rightarrow> 'a logst_scheme outcome" where
  "install_trans_one recovering tail s =
     bind_ok (bread (log_dev s) (log_start s + of_nat tail + 1) s) (\<lambda>(lbuf, s).
     bind_ok (log_slot tail s) (\<lambda>bn.
     bind_ok (bread (log_dev s) bn s) (\<lambda>(dbuf, s).
     bind_ok (bwrite dbuf (set_data dbuf (b_data (bufs s lbuf)) s)) (\<lambda>s.
     bind_ok (brelse lbuf (if \<not> recovering then bunpin dbuf s else s)) (\<lambda>s.
     brelse dbuf s)))))"

definition install_trans :: "bool \<Rightarrow> 'a logst_scheme \<Rightarrow> 'a logst_scheme outcome" where
  "install_trans recovering s = for_ok (install_trans_one recovering) [0..<nat (lh_n s)] s"

definition read_head :: "'a logst_scheme \<Rightarrow> 'a logst_scheme outcome" where
  "read_head s =
     bind_ok (bread (log_dev s) (log_start s) s) (\<lambda>(b, s).
       let d = b_data (bufs s b); n = sint (get32 0 d)
       in if nat n > length (lh_block s) then Undef
          else brelse b (s\<lparr>lh_n := n,
            lh_block := map (\<lambda>i. get32 (4 + 4 * i) d) [0..<nat n] @ drop (nat n) (lh_block s)\<rparr>))"

definition head_bytes :: "int \<Rightarrow> u32 list \<Rightarrow> block \<Rightarrow> block" where
  "head_bytes n bl d = fold (\<lambda>i d. put32 (4 + 4 * i) (bl ! i) d) [0..<nat n] (put32 0 (word_of_int n) d)"

definition write_head :: "'a logst_scheme \<Rightarrow> 'a logst_scheme outcome" where
  "write_head s =
     bind_ok (bread (log_dev s) (log_start s) s) (\<lambda>(b, s).
       if nat (lh_n s) > length (lh_block s) then Undef
       else bind_ok (bwrite b (set_data b (head_bytes (lh_n s) (lh_block s) (b_data (bufs s b))) s)) (brelse b))"

definition recover_from_log :: "'a logst_scheme \<Rightarrow> 'a logst_scheme outcome" where
  "recover_from_log s =
     bind_ok (read_head s) (\<lambda>s.
     bind_ok (install_trans True s) (\<lambda>s.
     write_head (s\<lparr>lh_n := 0\<rparr>)))"

definition initlog :: "u32 \<Rightarrow> superblock \<Rightarrow> 'a logst_scheme \<Rightarrow> 'a logst_scheme outcome" where
  "initlog dev sb s =
     (if 4 + 4 * LOGSIZE \<ge> BSIZE then Panic ''initlog: too big logheader''
      else recover_from_log (s\<lparr>log_start := sb_logstart sb, log_size := sint (sb_nlog sb), log_dev := dev\<rparr>))"

definition begin_op :: "'a logst_scheme \<Rightarrow> 'a logst_scheme outcome" where
  "begin_op s =
     (if committing s then Blocks
      else if lh_n s + (outstanding s + 1) * int MAXOPBLOCKS > int LOGSIZE then Blocks
      else Ok (s\<lparr>outstanding := outstanding s + 1\<rparr>))"

definition write_log_one :: "nat \<Rightarrow> 'a logst_scheme \<Rightarrow> 'a logst_scheme outcome" where
  "write_log_one tail s =
     bind_ok (bread (log_dev s) (log_start s + of_nat tail + 1) s) (\<lambda>(to, s).
     bind_ok (log_slot tail s) (\<lambda>bn.
     bind_ok (bread (log_dev s) bn s) (\<lambda>(from, s).
     bind_ok (bwrite to (set_data to (b_data (bufs s from)) s)) (\<lambda>s.
     bind_ok (brelse from s) (\<lambda>s.
     brelse to s)))))"

definition write_log :: "'a logst_scheme \<Rightarrow> 'a logst_scheme outcome" where
  "write_log s = for_ok write_log_one [0..<nat (lh_n s)] s"

definition commit :: "'a logst_scheme \<Rightarrow> 'a logst_scheme outcome" where
  "commit s =
     (if lh_n s > 0
      then bind_ok (write_log s) (\<lambda>s.
        bind_ok (write_head s) (\<lambda>s.
        bind_ok (install_trans False s) (\<lambda>s.
        write_head (s\<lparr>lh_n := 0\<rparr>))))
      else Ok s)"

definition end_op :: "'a logst_scheme \<Rightarrow> 'a logst_scheme outcome" where
  "end_op s =
     (let s = s\<lparr>outstanding := outstanding s - 1\<rparr>
      in if committing s then Panic ''log.committing''
         else if outstanding s = 0
         then bind_ok (commit (s\<lparr>committing := True\<rparr>)) (\<lambda>s. Ok (s\<lparr>committing := False\<rparr>))
         else Ok s)"

text \<open>The index at which the search loop of \<^verbatim>\<open>log_write\<close> stops.\<close>

definition log_index :: "u32 \<Rightarrow> 'a logst_scheme \<Rightarrow> nat" where
  "log_index bn s = length (takeWhile (\<lambda>x. x \<noteq> bn) (take (nat (lh_n s)) (lh_block s)))"

definition log_write :: "nat \<Rightarrow> 'a logst_scheme \<Rightarrow> 'a logst_scheme outcome" where
  "log_write b s =
     (if lh_n s \<ge> int LOGSIZE \<or> lh_n s \<ge> log_size s - 1 then Panic ''too big a transaction''
      else if outstanding s < 1 then Panic ''log_write outside of trans''
      else let bn = b_blockno (bufs s b); i = log_index bn s;
               s = s\<lparr>lh_block := (lh_block s)[i := bn]\<rparr>
           in Ok (if int i = lh_n s then bpin b (s\<lparr>lh_n := lh_n s + 1\<rparr>) else s))"

end
