(* ===== verification/Fs.thy ===== *)
theory Fs
  imports Log Vm Kstring
begin

text \<open>
  \<^verbatim>\<open>kernel/fs.c\<close>, the file system below the system calls: blocks, inodes, directories, path names.
  \<open>fsst\<close> adds the superblock and the inode table to the state of the log. An inode pointer is an
  index of the table and a null pointer is \<open>None\<close>.

  A buffer argument that may be in user space or in the kernel is a \<open>place\<close> (see
  \<^verbatim>\<open>either_copyout\<close> and \<^verbatim>\<open>either_copyin\<close> of \<^verbatim>\<open>kernel/proc.c\<close>): an address of the process with the
  given page table, an address of kernel memory, or a variable of the caller. The new contents of
  such a variable are part of the result of the call. A path is the list of its characters
  without the final NUL. Messages printed on the console are not part of the state.
\<close>

section \<open>State\<close>

record inode =
  i_dev :: u32
  i_inum :: u32
  i_ref :: int
  i_lock :: sleeplock
  i_valid :: bool
  i_type :: u16
  i_major :: u16
  i_minor :: u16
  i_nlink :: u16
  i_size :: u32
  i_addrs :: "u32 list"

definition T_DIR :: u16 where [simp]: "T_DIR = 1"
definition T_FILE :: u16 where [simp]: "T_FILE = 2"
definition T_DEVICE :: u16 where [simp]: "T_DEVICE = 3"

record fsst = logst +
  sb :: superblock
  itable :: "nat \<Rightarrow> inode"

definition upd_inode :: "nat \<Rightarrow> (inode \<Rightarrow> inode) \<Rightarrow> 'a fsst_scheme \<Rightarrow> 'a fsst_scheme" where
  "upd_inode i f s = s\<lparr>itable := (itable s)(i := f (itable s i))\<rparr>"

section \<open>The superblock\<close>

definition readsb :: "u32 \<Rightarrow> 'a fsst_scheme \<Rightarrow> (superblock \<times> 'a fsst_scheme) outcome" where
  "readsb dev s =
     bind_ok (bread dev 1 s) (\<lambda>(bp, s).
       let x = get_superblock (b_data (bufs s bp)) in bind_ok (brelse bp s) (\<lambda>s. Ok (x, s)))"

definition fsinit :: "u32 \<Rightarrow> 'a fsst_scheme \<Rightarrow> 'a fsst_scheme outcome" where
  "fsinit dev s =
     bind_ok (readsb dev s) (\<lambda>(x, s).
       let s = s\<lparr>sb := x\<rparr>
       in if sb_magic x \<noteq> FSMAGIC then Panic ''invalid file system'' else initlog dev (sb s) s)"

section \<open>Blocks\<close>

definition bzero :: "u32 \<Rightarrow> u32 \<Rightarrow> 'a fsst_scheme \<Rightarrow> 'a fsst_scheme outcome" where
  "bzero dev bno s =
     bind_ok (bread dev bno s) (\<lambda>(bp, s).
     bind_ok (log_write bp (set_data bp (replicate BSIZE 0) s)) (\<lambda>s.
     brelse bp s))"

text \<open>Bit \<open>bi\<close> of a bitmap block.\<close>

definition bmask :: "nat \<Rightarrow> u8" where
  "bmask bi = push_bit (bi mod 8) 1"

text \<open>
  The loops of \<^verbatim>\<open>balloc\<close>: over the first blocks \<open>b\<close> of the bitmap blocks, and within a bitmap
  block to the first free bit that stands for a block of the file system.
\<close>

primrec balloc_from :: "u32 \<Rightarrow> nat list \<Rightarrow> 'a fsst_scheme \<Rightarrow> (u32 \<times> 'a fsst_scheme) outcome" where
  "balloc_from dev [] s = Ok (0, s)"
| "balloc_from dev (b # bs) s =
     bind_ok (bread dev (BBLOCK (of_nat b) (sb s)) s) (\<lambda>(bp, s).
       let d = b_data (bufs s bp)
       in case find (\<lambda>bi. b + bi < unat (sb_size (sb s)) \<and> d ! (bi div 8) AND bmask bi = 0) [0..<BPB] of
            Some bi \<Rightarrow>
              bind_ok (log_write bp (set_data bp (d[bi div 8 := d ! (bi div 8) OR bmask bi]) s)) (\<lambda>s.
              bind_ok (brelse bp s) (\<lambda>s.
              bind_ok (bzero dev (of_nat (b + bi)) s) (\<lambda>s.
              Ok (of_nat (b + bi), s))))
          | None \<Rightarrow> bind_ok (brelse bp s) (balloc_from dev bs))"

definition balloc :: "u32 \<Rightarrow> 'a fsst_scheme \<Rightarrow> (u32 \<times> 'a fsst_scheme) outcome" where
  "balloc dev s =
     balloc_from dev (map (\<lambda>i. i * BPB) [0..<(unat (sb_size (sb s)) + BPB - 1) div BPB]) s"

definition bfree :: "u32 \<Rightarrow> u32 \<Rightarrow> 'a fsst_scheme \<Rightarrow> 'a fsst_scheme outcome" where
  "bfree dev b s =
     bind_ok (bread dev (BBLOCK b (sb s)) s) (\<lambda>(bp, s).
       let d = b_data (bufs s bp); bi = unat b mod BPB
       in if d ! (bi div 8) AND bmask bi = 0 then Panic ''freeing free block''
          else bind_ok (log_write bp (set_data bp (d[bi div 8 := d ! (bi div 8) AND NOT (bmask bi)]) s)) (brelse bp))"

section \<open>Inodes\<close>

definition iinit :: "'a fsst_scheme \<Rightarrow> 'a fsst_scheme" where
  "iinit s = fold (\<lambda>i. upd_inode i (\<lambda>x. x\<lparr>i_lock := initsleeplock\<rparr>)) [0..<NINODE] s"

text \<open>Offset of an inode in its block.\<close>

definition ioff :: "u32 \<Rightarrow> nat" where
  "ioff inum = unat inum mod IPB * DINODE_SIZE"

definition iget :: "u32 \<Rightarrow> u32 \<Rightarrow> 'a fsst_scheme \<Rightarrow> (nat \<times> 'a fsst_scheme) outcome" where
  "iget dev inum s =
     (case find (\<lambda>i. i_ref (itable s i) > 0 \<and> i_dev (itable s i) = dev \<and> i_inum (itable s i) = inum) [0..<NINODE] of
        Some i \<Rightarrow> Ok (i, upd_inode i (\<lambda>x. x\<lparr>i_ref := i_ref x + 1\<rparr>) s)
      | None \<Rightarrow>
          (case find (\<lambda>i. i_ref (itable s i) = 0) [0..<NINODE] of
             None \<Rightarrow> Panic ''iget: no inodes''
           | Some i \<Rightarrow>
               Ok (i, upd_inode i (\<lambda>x. x\<lparr>i_dev := dev, i_inum := inum, i_ref := 1, i_valid := False\<rparr>) s)))"

primrec ialloc_from :: "u32 \<Rightarrow> u16 \<Rightarrow> nat list \<Rightarrow> 'a fsst_scheme \<Rightarrow> (nat option \<times> 'a fsst_scheme) outcome" where
  "ialloc_from dev type [] s = Ok (None, s)"
| "ialloc_from dev type (inum # is) s =
     bind_ok (bread dev (IBLOCK (of_nat inum) (sb s)) s) (\<lambda>(bp, s).
       let d = b_data (bufs s bp); off = ioff (of_nat inum)
       in if get16 off d = 0
          then bind_ok (log_write bp (set_data bp (put16 off type (splice off (replicate DINODE_SIZE 0) d)) s)) (\<lambda>s.
               bind_ok (brelse bp s) (\<lambda>s.
               bind_ok (iget dev (of_nat inum) s) (\<lambda>(i, s). Ok (Some i, s))))
          else bind_ok (brelse bp s) (ialloc_from dev type is))"

definition ialloc :: "u32 \<Rightarrow> u16 \<Rightarrow> 'a fsst_scheme \<Rightarrow> (nat option \<times> 'a fsst_scheme) outcome" where
  "ialloc dev type s = ialloc_from dev type [1..<unat (sb_ninodes (sb s))] s"

text \<open>The fields of an inode that live on disk, from and to the inode in memory.\<close>

definition to_dinode :: "inode \<Rightarrow> dinode" where
  "to_dinode ip = \<lparr>di_type = i_type ip, di_major = i_major ip, di_minor = i_minor ip,
     di_nlink = i_nlink ip, di_size = i_size ip, di_addrs = i_addrs ip\<rparr>"

definition of_dinode :: "dinode \<Rightarrow> inode \<Rightarrow> inode" where
  "of_dinode di ip = ip\<lparr>i_type := di_type di, i_major := di_major di, i_minor := di_minor di,
     i_nlink := di_nlink di, i_size := di_size di, i_addrs := di_addrs di\<rparr>"

definition iupdate :: "nat \<Rightarrow> 'a fsst_scheme \<Rightarrow> 'a fsst_scheme outcome" where
  "iupdate i s =
     (let ip = itable s i
      in bind_ok (bread (i_dev ip) (IBLOCK (i_inum ip) (sb s)) s) (\<lambda>(bp, s).
         bind_ok (log_write bp (set_data bp
           (splice (ioff (i_inum ip)) (bytes_dinode (to_dinode ip)) (b_data (bufs s bp))) s)) (brelse bp)))"

definition idup :: "nat \<Rightarrow> 'a fsst_scheme \<Rightarrow> nat \<times> 'a fsst_scheme" where
  "idup i s = (i, upd_inode i (\<lambda>x. x\<lparr>i_ref := i_ref x + 1\<rparr>) s)"

definition ilock :: "nat option \<Rightarrow> 'a fsst_scheme \<Rightarrow> 'a fsst_scheme outcome" where
  "ilock p s =
     (case p of None \<Rightarrow> Panic ''ilock''
      | Some i \<Rightarrow>
          if i_ref (itable s i) < 1 then Panic ''ilock''
          else bind_ok (acquiresleep (mypid s) (i_lock (itable s i))) (\<lambda>lk.
            let s = upd_inode i (\<lambda>x. x\<lparr>i_lock := lk\<rparr>) s
            in if i_valid (itable s i) then Ok s
               else let ip = itable s i
                    in bind_ok (bread (i_dev ip) (IBLOCK (i_inum ip) (sb s)) s) (\<lambda>(bp, s).
                       let di = get_dinode (ioff (i_inum ip)) (b_data (bufs s bp));
                           s = upd_inode i (of_dinode di) s
                       in bind_ok (brelse bp s) (\<lambda>s.
                          let s = upd_inode i (\<lambda>x. x\<lparr>i_valid := True\<rparr>) s
                          in if i_type (itable s i) = 0 then Panic ''ilock: no type'' else Ok s))))"

definition iunlock :: "nat option \<Rightarrow> 'a fsst_scheme \<Rightarrow> 'a fsst_scheme outcome" where
  "iunlock p s =
     (case p of None \<Rightarrow> Panic ''iunlock''
      | Some i \<Rightarrow>
          if \<not> holdingsleep (mypid s) (i_lock (itable s i)) \<or> i_ref (itable s i) < 1 then Panic ''iunlock''
          else Ok (upd_inode i (\<lambda>x. x\<lparr>i_lock := releasesleep (i_lock x)\<rparr>) s))"

section \<open>Contents of an inode\<close>

definition set_addr :: "nat \<Rightarrow> nat \<Rightarrow> u32 \<Rightarrow> 'a fsst_scheme \<Rightarrow> 'a fsst_scheme" where
  "set_addr i k addr s = upd_inode i (\<lambda>x. x\<lparr>i_addrs := (i_addrs x)[k := addr]\<rparr>) s"

text \<open>The block number in \<^verbatim>\<open>ip->addrs[k]\<close>, allocated if there is none.\<close>

definition bmap_slot :: "nat \<Rightarrow> nat \<Rightarrow> 'a fsst_scheme \<Rightarrow> (u32 \<times> 'a fsst_scheme) outcome" where
  "bmap_slot i k s =
     (let addr = i_addrs (itable s i) ! k
      in if addr = 0
         then bind_ok (balloc (i_dev (itable s i)) s) (\<lambda>(addr, s).
           if addr = 0 then Ok (0, s) else Ok (addr, set_addr i k addr s))
         else Ok (addr, s))"

definition bmap :: "nat \<Rightarrow> u32 \<Rightarrow> 'a fsst_scheme \<Rightarrow> (u32 \<times> 'a fsst_scheme) outcome" where
  "bmap i bn s =
     (if unat bn < NDIRECT then bmap_slot i (unat bn) s
      else let bn = unat bn - NDIRECT
           in if bn < NINDIRECT
              then bind_ok (bmap_slot i NDIRECT s) (\<lambda>(addr, s).
                if addr = 0 then Ok (0, s)
                else bind_ok (bread (i_dev (itable s i)) addr s) (\<lambda>(bp, s).
                  let addr = get32 (4 * bn) (b_data (bufs s bp))
                  in bind_ok
                      (if addr = 0
                       then bind_ok (balloc (i_dev (itable s i)) s) (\<lambda>(addr, s).
                         if addr \<noteq> 0
                         then bind_ok (log_write bp (set_data bp (put32 (4 * bn) addr (b_data (bufs s bp))) s))
                           (\<lambda>s. Ok (addr, s))
                         else Ok (addr, s))
                       else Ok (addr, s)) (\<lambda>(addr, s).
                     bind_ok (brelse bp s) (\<lambda>s. Ok (addr, s)))))
              else Panic ''bmap: out of range'')"

definition itrunc_direct :: "nat \<Rightarrow> nat \<Rightarrow> 'a fsst_scheme \<Rightarrow> 'a fsst_scheme outcome" where
  "itrunc_direct i k s =
     (let addr = i_addrs (itable s i) ! k
      in if addr \<noteq> 0
         then bind_ok (bfree (i_dev (itable s i)) addr s) (\<lambda>s. Ok (set_addr i k 0 s))
         else Ok s)"

definition itrunc :: "nat \<Rightarrow> 'a fsst_scheme \<Rightarrow> 'a fsst_scheme outcome" where
  "itrunc i s =
     bind_ok (for_ok (itrunc_direct i) [0..<NDIRECT] s) (\<lambda>s.
     bind_ok
       (let addr = i_addrs (itable s i) ! NDIRECT
        in if addr \<noteq> 0
           then bind_ok (bread (i_dev (itable s i)) addr s) (\<lambda>(bp, s).
                bind_ok (for_ok (\<lambda>j s.
                    let a = get32 (4 * j) (b_data (bufs s bp))
                    in if a \<noteq> 0 then bfree (i_dev (itable s i)) a s else Ok s) [0..<NINDIRECT] s) (\<lambda>s.
                bind_ok (brelse bp s) (\<lambda>s.
                bind_ok (bfree (i_dev (itable s i)) addr s) (\<lambda>s.
                Ok (set_addr i NDIRECT 0 s)))))
           else Ok s) (\<lambda>s.
     iupdate i (upd_inode i (\<lambda>x. x\<lparr>i_size := 0\<rparr>) s)))"

definition iput :: "nat \<Rightarrow> 'a fsst_scheme \<Rightarrow> 'a fsst_scheme outcome" where
  "iput i s =
     bind_ok
       (if i_ref (itable s i) = 1 \<and> i_valid (itable s i) \<and> i_nlink (itable s i) = 0
        then bind_ok (acquiresleep (mypid s) (i_lock (itable s i))) (\<lambda>lk.
             bind_ok (itrunc i (upd_inode i (\<lambda>x. x\<lparr>i_lock := lk\<rparr>) s)) (\<lambda>s.
             bind_ok (iupdate i (upd_inode i (\<lambda>x. x\<lparr>i_type := 0\<rparr>) s)) (\<lambda>s.
             Ok (upd_inode i (\<lambda>x. x\<lparr>i_valid := False, i_lock := releasesleep (i_lock x)\<rparr>) s))))
        else Ok s) (\<lambda>s.
     Ok (upd_inode i (\<lambda>x. x\<lparr>i_ref := i_ref x - 1\<rparr>) s))"

definition iunlockput :: "nat \<Rightarrow> 'a fsst_scheme \<Rightarrow> 'a fsst_scheme outcome" where
  "iunlockput i s = bind_ok (iunlock (Some i) s) (iput i)"

record stat =
  st_dev :: u32
  st_ino :: u32
  st_type :: u16
  st_nlink :: u16
  st_size :: u64

definition stati :: "nat \<Rightarrow> 'a fsst_scheme \<Rightarrow> stat" where
  "stati i s = (let ip = itable s i in \<lparr>st_dev = i_dev ip, st_ino = i_inum ip, st_type = i_type ip,
     st_nlink = i_nlink ip, st_size = ucast (i_size ip)\<rparr>)"

section \<open>Copies to and from user space (kernel/proc.c)\<close>

datatype dst = DUser u64 u64 | DKern u64 | DVar
datatype src = SUser u64 u64 | SKern u64 | SVar "u8 list"

definition either_copyout :: "dst \<Rightarrow> u8 list \<Rightarrow> 'a kmem_scheme \<Rightarrow> (int \<times> 'a kmem_scheme) outcome" where
  "either_copyout to bytes s =
     (case to of
        DUser pagetable a \<Rightarrow> copyout pagetable a bytes s
      | DKern a \<Rightarrow> Ok (0, s\<lparr>phys := write_bytes (phys s) a bytes\<rparr>)
      | DVar \<Rightarrow> Ok (0, s))"

text \<open>The bytes that were copied are returned also if the copy fails on the way.\<close>

definition either_copyin :: "src \<Rightarrow> nat \<Rightarrow> 'a kmem_scheme \<Rightarrow> (int \<times> u8 list) outcome" where
  "either_copyin from len s =
     (case from of
        SUser pagetable a \<Rightarrow> copyin pagetable a len s
      | SKern a \<Rightarrow> Ok (0, read_bytes (phys s) a len)
      | SVar xs \<Rightarrow> Ok (0, take len xs))"

fun dst_add :: "dst \<Rightarrow> nat \<Rightarrow> dst" where
  "dst_add (DUser pt a) m = DUser pt (a + of_nat m)"
| "dst_add (DKern a) m = DKern (a + of_nat m)"
| "dst_add DVar m = DVar"

fun src_add :: "src \<Rightarrow> nat \<Rightarrow> src" where
  "src_add (SUser pt a) m = SUser pt (a + of_nat m)"
| "src_add (SKern a) m = SKern (a + of_nat m)"
| "src_add (SVar xs) m = SVar (drop m xs)"

section \<open>Reading and writing\<close>

text \<open>
  The loop of \<^verbatim>\<open>readi\<close> with \<open>k = n - tot\<close> bytes to go. It returns the new value of \<open>tot\<close> and the
  bytes that were read.
\<close>

function readi_loop ::
  "nat \<Rightarrow> dst \<Rightarrow> u32 \<Rightarrow> nat \<Rightarrow> int \<Rightarrow> u8 list \<Rightarrow> 'a fsst_scheme \<Rightarrow> (int \<times> u8 list \<times> 'a fsst_scheme) outcome" where
  "readi_loop i to off k tot acc s =
     (if k > 0
      then bind_ok (bmap i (off div of_nat BSIZE) s) (\<lambda>(addr, s).
        if addr = 0 then Ok (tot, acc, s)
        else bind_ok (bread (i_dev (itable s i)) addr s) (\<lambda>(bp, s).
          let m = min k (BSIZE - unat off mod BSIZE);
              bytes = slice (unat off mod BSIZE) m (b_data (bufs s bp))
          in bind_ok (either_copyout to bytes s) (\<lambda>(r, s).
             if r = -1 then bind_ok (brelse bp s) (\<lambda>s. Ok (-1, acc, s))
             else bind_ok (brelse bp s) (\<lambda>s.
               readi_loop i (dst_add to m) (off + of_nat m) (k - m) (tot + int m) (acc @ bytes) s))))
      else Ok (tot, acc, s))"
  by pat_completeness auto
termination by (relation "measure (\<lambda>(i, to, off, k, tot, acc, s). k)") auto

declare readi_loop.simps [simp del]

definition readi :: "nat \<Rightarrow> dst \<Rightarrow> u32 \<Rightarrow> u32 \<Rightarrow> 'a fsst_scheme \<Rightarrow> (int \<times> u8 list \<times> 'a fsst_scheme) outcome" where
  "readi i to off n s =
     (let sz = i_size (itable s i)
      in if off > sz \<or> off + n < off then Ok (0, [], s)
         else let n = (if off + n > sz then sz - off else n)
              in readi_loop i to off (unat n) 0 [] s)"

function writei_loop ::
  "nat \<Rightarrow> src \<Rightarrow> u32 \<Rightarrow> nat \<Rightarrow> int \<Rightarrow> 'a fsst_scheme \<Rightarrow> (int \<times> u32 \<times> 'a fsst_scheme) outcome" where
  "writei_loop i from off k tot s =
     (if k > 0
      then bind_ok (bmap i (off div of_nat BSIZE) s) (\<lambda>(addr, s).
        if addr = 0 then Ok (tot, off, s)
        else bind_ok (bread (i_dev (itable s i)) addr s) (\<lambda>(bp, s).
          let m = min k (BSIZE - unat off mod BSIZE)
          in bind_ok (either_copyin from m s) (\<lambda>(r, bytes).
             let s = set_data bp (splice (unat off mod BSIZE) bytes (b_data (bufs s bp))) s
             in if r = -1 then bind_ok (brelse bp s) (\<lambda>s. Ok (tot, off, s))
                else bind_ok (log_write bp s) (\<lambda>s. bind_ok (brelse bp s) (\<lambda>s.
                  writei_loop i (src_add from m) (off + of_nat m) (k - m) (tot + int m) s)))))
      else Ok (tot, off, s))"
  by pat_completeness auto
termination by (relation "measure (\<lambda>(i, from, off, k, tot, s). k)") auto

declare writei_loop.simps [simp del]

definition writei :: "nat \<Rightarrow> src \<Rightarrow> u32 \<Rightarrow> u32 \<Rightarrow> 'a fsst_scheme \<Rightarrow> (int \<times> 'a fsst_scheme) outcome" where
  "writei i from off n s =
     (if off > i_size (itable s i) \<or> off + n < off then Ok (-1, s)
      else if unat (off + n) > MAXFILE * BSIZE then Ok (-1, s)
      else bind_ok (writei_loop i from off (unat n) 0 s) (\<lambda>(tot, off, s).
        let s = (if off > i_size (itable s i) then upd_inode i (\<lambda>x. x\<lparr>i_size := off\<rparr>) s else s)
        in bind_ok (iupdate i s) (\<lambda>s. Ok (tot, s))))"

section \<open>Directories\<close>

text \<open>A C string or array of characters as the string functions see it.\<close>

definition chars_of :: "u8 list \<Rightarrow> chars" where
  "chars_of xs = (\<lambda>i. if i < length xs then xs ! i else 0)"

definition namecmp :: "u8 list \<Rightarrow> u8 list \<Rightarrow> int" where
  "namecmp s t = strncmp (chars_of s) (chars_of t) DIRSIZ"

definition dir_offsets :: "u32 \<Rightarrow> u32 list" where
  "dir_offsets sz = map (\<lambda>k. of_nat (k * DIRENT_SIZE)) [0..<(unat sz + DIRENT_SIZE - 1) div DIRENT_SIZE]"

primrec dirlookup_from ::
  "nat \<Rightarrow> u8 list \<Rightarrow> u32 list \<Rightarrow> 'a fsst_scheme \<Rightarrow> ((nat \<times> u32) option \<times> 'a fsst_scheme) outcome" where
  "dirlookup_from dp name [] s = Ok (None, s)"
| "dirlookup_from dp name (off # offs) s =
     bind_ok (readi dp DVar off (of_nat DIRENT_SIZE) s) (\<lambda>(r, bytes, s).
       if r \<noteq> int DIRENT_SIZE then Panic ''dirlookup read''
       else let de = word_dirent bytes
            in if de_inum de = 0 then dirlookup_from dp name offs s
               else if namecmp name (de_name de) = 0
               then bind_ok (iget (i_dev (itable s dp)) (ucast (de_inum de)) s) (\<lambda>(i, s). Ok (Some (i, off), s))
               else dirlookup_from dp name offs s)"

definition dirlookup :: "nat \<Rightarrow> u8 list \<Rightarrow> 'a fsst_scheme \<Rightarrow> ((nat \<times> u32) option \<times> 'a fsst_scheme) outcome" where
  "dirlookup dp name s =
     (if i_type (itable s dp) \<noteq> T_DIR then Panic ''dirlookup not DIR''
      else dirlookup_from dp name (dir_offsets (i_size (itable s dp))) s)"

text \<open>The offset of the first empty entry, or the end of the last one.\<close>

primrec dirlink_slot :: "nat \<Rightarrow> u32 \<Rightarrow> u32 list \<Rightarrow> 'a fsst_scheme \<Rightarrow> (u32 \<times> 'a fsst_scheme) outcome" where
  "dirlink_slot dp last_off [] s = Ok (last_off, s)"
| "dirlink_slot dp last_off (off # offs) s =
     bind_ok (readi dp DVar off (of_nat DIRENT_SIZE) s) (\<lambda>(r, bytes, s).
       if r \<noteq> int DIRENT_SIZE then Panic ''dirlink read''
       else if de_inum (word_dirent bytes) = 0 then Ok (off, s)
       else dirlink_slot dp (off + of_nat DIRENT_SIZE) offs s)"

definition dirlink :: "nat \<Rightarrow> u8 list \<Rightarrow> u32 \<Rightarrow> 'a fsst_scheme \<Rightarrow> (int \<times> 'a fsst_scheme) outcome" where
  "dirlink dp name inum s =
     bind_ok (dirlookup dp name s) (\<lambda>(found, s).
       case found of
         Some (i, _) \<Rightarrow> bind_ok (iput i s) (\<lambda>s. Ok (-1, s))
       | None \<Rightarrow>
           bind_ok (dirlink_slot dp 0 (dir_offsets (i_size (itable s dp))) s) (\<lambda>(off, s).
             let de = \<lparr>de_inum = ucast inum,
                   de_name = map (strncpy (\<lambda>_. 0) (chars_of name) (int DIRSIZ)) [0..<DIRSIZ]\<rparr>
             in bind_ok (writei dp (SVar (bytes_dirent de)) off (of_nat DIRENT_SIZE) s) (\<lambda>(r, s).
                if r \<noteq> int DIRENT_SIZE then Ok (-1, s) else Ok (0, s))))"

section \<open>Paths\<close>

definition slash :: u8 where "slash = 47"

text \<open>
  The rest of the path and the new contents of the array \<open>name\<close> of \<open>DIRSIZ\<close> characters, or \<open>None\<close>
  where \<^verbatim>\<open>skipelem\<close> returns 0.
\<close>

definition skipelem :: "u8 list \<Rightarrow> u8 list \<Rightarrow> (u8 list \<times> u8 list) option" where
  "skipelem path name =
     (let path = dropWhile (\<lambda>c. c = slash) path
      in if path = [] then None
         else let elem = takeWhile (\<lambda>c. c \<noteq> slash) path;
                  path = dropWhile (\<lambda>c. c \<noteq> slash) path;
                  name = (if length elem \<ge> DIRSIZ then splice 0 (take DIRSIZ elem) name
                          else splice 0 (elem @ [0]) name)
              in Some (dropWhile (\<lambda>c. c = slash) path, name))"

lemma skipelem_shorter: "skipelem path name = Some (path', name') \<Longrightarrow> length path' < length path"
proof -
  assume s: "skipelem path name = Some (path', name')"
  let ?p = "dropWhile (\<lambda>c. c = slash) path"
  from s have p: "?p \<noteq> []" and p': "path' = dropWhile (\<lambda>c. c = slash) (dropWhile (\<lambda>c. c \<noteq> slash) ?p)"
    by (auto simp: skipelem_def Let_def split: if_splits)
  from p obtain c q where q: "?p = c # q" "c \<noteq> slash" by (metis (full_types) hd_dropWhile list.sel(1) neq_Nil_conv)
  have "length path' \<le> length (dropWhile (\<lambda>c. c \<noteq> slash) ?p)" unfolding p' by (rule length_dropWhile_le)
  also have "\<dots> \<le> length q" using q length_dropWhile_le [of _ q] by simp
  also have "\<dots> < length ?p" using q by simp
  also have "\<dots> \<le> length path" by (rule length_dropWhile_le)
  finally show ?thesis .
qed

function namex_from ::
  "bool \<Rightarrow> nat \<Rightarrow> u8 list \<Rightarrow> u8 list \<Rightarrow> 'a fsst_scheme \<Rightarrow> (nat option \<times> u8 list \<times> 'a fsst_scheme) outcome" where
  "namex_from nameiparent i path name s =
     (case skipelem path name of
        None \<Rightarrow> if nameiparent then bind_ok (iput i s) (\<lambda>s. Ok (None, name, s)) else Ok (Some i, name, s)
      | Some (path', name) \<Rightarrow>
          bind_ok (ilock (Some i) s) (\<lambda>s.
            if i_type (itable s i) \<noteq> T_DIR then bind_ok (iunlockput i s) (\<lambda>s. Ok (None, name, s))
            else if nameiparent \<and> path' = [] then bind_ok (iunlock (Some i) s) (\<lambda>s. Ok (Some i, name, s))
            else bind_ok (dirlookup i name s) (\<lambda>(found, s).
              case found of
                None \<Rightarrow> bind_ok (iunlockput i s) (\<lambda>s. Ok (None, name, s))
              | Some (next_i, _) \<Rightarrow>
                  bind_ok (iunlockput i s) (\<lambda>s. namex_from nameiparent next_i path' name s))))"
  by pat_completeness auto
termination by (relation "measure (\<lambda>(np, i, path, name, s). length path)") (auto dest: skipelem_shorter)

declare namex_from.simps [simp del]

text \<open>\<open>cwd\<close> is \<^verbatim>\<open>myproc()->cwd\<close>.\<close>

definition namex ::
  "nat \<Rightarrow> u8 list \<Rightarrow> bool \<Rightarrow> u8 list \<Rightarrow> 'a fsst_scheme \<Rightarrow> (nat option \<times> u8 list \<times> 'a fsst_scheme) outcome" where
  "namex cwd path nameiparent name s =
     bind_ok (if path \<noteq> [] \<and> hd path = slash then iget ROOTDEV ROOTINO s else Ok (idup cwd s))
       (\<lambda>(i, s). namex_from nameiparent i path name s)"

definition namei :: "nat \<Rightarrow> u8 list \<Rightarrow> 'a fsst_scheme \<Rightarrow> (nat option \<times> 'a fsst_scheme) outcome" where
  "namei cwd path s =
     bind_ok (namex cwd path False (replicate DIRSIZ 0) s) (\<lambda>(i, _, s). Ok (i, s))"

definition nameiparent ::
  "nat \<Rightarrow> u8 list \<Rightarrow> 'a fsst_scheme \<Rightarrow> (nat option \<times> u8 list \<times> 'a fsst_scheme) outcome" where
  "nameiparent cwd path s = namex cwd path True (replicate DIRSIZ 0) s"

end
