(* ===== verification/Log_Spec.thy ===== *)
theory Log_Spec
  imports Log
begin

text \<open>
  The log of \<^verbatim>\<open>Log\<close> makes a transaction atomic: what the disk holds after a crash and a recovery
  is the state before the transaction or the state after it.
\<close>

section \<open>Sequences of disk writes\<close>

definition replay :: "('k \<times> 'v) list \<Rightarrow> ('k \<Rightarrow> 'v) \<Rightarrow> 'k \<Rightarrow> 'v" where
  "replay ws d = fold (\<lambda>(n, x) d. d(n := x)) ws d"

lemma replay_simps [simp]: "replay [] d = d" "replay ((n, x) # ws) d = replay ws (d(n := x))"
  by (simp_all add: replay_def)

lemma replay_append [simp]: "replay (xs @ ys) d = replay ys (replay xs d)"
  by (simp add: replay_def)

lemma replay_other: "m \<notin> fst ` set ws \<Longrightarrow> replay ws d m = d m"
proof (induction ws arbitrary: d)
  case (Cons w ws)
  then show ?case by (cases w) auto
qed simp

lemma replay_cong: "m \<in> fst ` set ws \<or> d m = d' m \<Longrightarrow> replay ws d m = replay ws d' m"
proof (induction ws arbitrary: d d')
  case (Cons w ws)
  obtain n x where w: "w = (n, x)" by (cases w)
  show ?case unfolding w replay_simps by (rule Cons.IH) (use Cons.prems in \<open>auto simp: w\<close>)
qed simp

lemma replay_distinct: "distinct (map fst ws) \<Longrightarrow> (n, x) \<in> set ws \<Longrightarrow> replay ws d n = x"
proof (induction ws arbitrary: d)
  case (Cons w ws)
  show ?case
  proof (cases "w = (n, x)")
    case True
    then have "n \<notin> fst ` set ws" using Cons.prems(1) by auto
    then show ?thesis using True by (simp add: replay_other)
  next
    case False
    then show ?thesis using Cons by (cases w) auto
  qed
qed simp

text \<open>The state after the writes \<open>ws\<close>, with the buffers changed in some way.\<close>

definition wrote :: "(u32 \<times> block) list \<Rightarrow> 'a bcache_scheme \<Rightarrow> 'a bcache_scheme \<Rightarrow> bool" where
  "wrote ws s s' \<longleftrightarrow> (\<exists>bs. s' = s\<lparr>disk_blocks := replay ws (disk_blocks s),
     disk_hist := disk_hist s @ ws, bufs := bs\<rparr>)"

lemma wrote_trans: "wrote xs s t \<Longrightarrow> wrote ys t u \<Longrightarrow> wrote (xs @ ys) s u"
  by (auto simp: wrote_def)

lemma wrote_refl: "wrote [] s s"
  unfolding wrote_def by (rule exI [of _ "bufs s"]) simp

lemma wrote_fields:
  fixes s :: "'a logst_scheme"
  assumes "wrote ws s s'"
  shows "disk_blocks s' = replay ws (disk_blocks s)" "disk_hist s' = disk_hist s @ ws"
    "log_start s' = log_start s" "log_size s' = log_size s" "log_dev s' = log_dev s" "lh_n s' = lh_n s"
    "lh_block s' = lh_block s" "outstanding s' = outstanding s" "committing s' = committing s" "mypid s' = mypid s"
  using assms by (auto simp: wrote_def)

lemma content_cong: "bufs s' = bufs s \<Longrightarrow> disk_blocks s' = disk_blocks s \<Longrightarrow> content D s' = content D s"
  by (rule ext) (simp only: content_def idx_def)

lemma cview_logst [simp]:
  "cview D (s\<lparr>lh_n := x\<rparr>) c r l = cview D s c r l" "cview D (s\<lparr>lh_block := y\<rparr>) c r l = cview D s c r l"
  "cview D (s\<lparr>outstanding := z\<rparr>) c r l = cview D s c r l" "cview D (s\<lparr>committing := w\<rparr>) c r l = cview D s c r l"
  "cview D (s\<lparr>log_start := v\<rparr>) c r l = cview D s c r l" "cview D (s\<lparr>log_size := u\<rparr>) c r l = cview D s c r l"
  "cview D (s\<lparr>log_dev := t\<rparr>) c r l = cview D s c r l"
  by (rule cview_cong; simp)+

section \<open>The header block\<close>

lemma head_bytes_length:
  assumes "nat n \<le> LOGSIZE" "length d = BSIZE"
  shows "length (head_bytes n bl d) = BSIZE"
proof -
  have "m \<le> LOGSIZE \<Longrightarrow> length (fold (\<lambda>i d. put32 (4 + 4 * i) (bl ! i) d) [0..<m] (put32 0 w d)) = BSIZE" for m w
    using assms(2) by (induction m) auto
  then show ?thesis using assms(1) by (simp add: head_bytes_def)
qed

lemma head_bytes_get:
  assumes "n \<le> int LOGSIZE" "length d = BSIZE" "0 \<le> n"
  shows "get32 0 (head_bytes n bl d) = word_of_int n" "i < nat n \<Longrightarrow> get32 (4 + 4 * i) (head_bytes n bl d) = bl ! i"
proof -
  let ?f = "\<lambda>m. fold (\<lambda>i d. put32 (4 + 4 * i) (bl ! i) d) [0..<m] (put32 0 (word_of_int n) d)"
  have f: "m \<le> LOGSIZE \<Longrightarrow> length (?f m) = BSIZE \<and> get32 0 (?f m) = word_of_int n \<and>
      (\<forall>i<m. get32 (4 + 4 * i) (?f m) = bl ! i)" for m
    using assms(2) by (induction m) (auto simp: get32_put32_other less_Suc_eq)
  show "get32 0 (head_bytes n bl d) = word_of_int n" "i < nat n \<Longrightarrow> get32 (4 + 4 * i) (head_bytes n bl d) = bl ! i"
    using f [of "nat n"] assms by (simp_all add: head_bytes_def)
qed

section \<open>Single copies\<close>

abbreviation unlocked :: "u32 \<Rightarrow> sleeplock" where "unlocked \<equiv> \<lambda>_. initsleeplock"

lemma write_log_one_spec:
  fixes s :: "'a logst_scheme"
  assumes v: "cview D s c r unlocked" and D: "log_dev s = D" and t: "tail < length (lh_block s)"
    and n: "n = lh_block s ! tail" and h: "h = log_start s + of_nat tail + 1"
    and ne: "h \<noteq> n" and rh: "r h = 0" and rn: "r n = 1" and room: "card {m. r m \<noteq> 0} < NBUF"
  shows "\<exists>s'. write_log_one tail s = Ok s' \<and> wrote [(h, c n)] s s' \<and> cview D s' (c(h := c n)) r unlocked"
proof -
  let ?p = "held_by (mypid s)"
  obtain a b1 where 1: "bread D h s = Ok (a, s\<lparr>bufs := b1\<rparr>)"
    and v1: "cview D (s\<lparr>bufs := b1\<rparr>) c (r(h := 1)) (unlocked(h := ?p))" and h1: "handle D (s\<lparr>bufs := b1\<rparr>) a h"
    using bread_view [OF v, of h] rh room by auto
  obtain b b2 where 2: "bread D n (s\<lparr>bufs := b1\<rparr>) = Ok (b, s\<lparr>bufs := b2\<rparr>)"
    and v2: "cview D (s\<lparr>bufs := b2\<rparr>) c (r(h := 1, n := 2)) (unlocked(h := ?p, n := ?p))"
    and h2: "handle D (s\<lparr>bufs := b2\<rparr>) b n" and k2: "kept D (s\<lparr>bufs := b1\<rparr>) (s\<lparr>bufs := b2\<rparr>)"
    using bread_view [OF v1, of n] rn ne by auto
  have h2': "handle D (s\<lparr>bufs := b2\<rparr>) a h" using keptD [OF k2 v2 h1] ne by simp
  have d: "b_data (b2 b) = c n" using cview_data [OF v2 h2] by simp
  obtain b3 where 3: "set_data a (c n) (s\<lparr>bufs := b2\<rparr>) = s\<lparr>bufs := b3\<rparr>"
    and v3: "cview D (s\<lparr>bufs := b3\<rparr>) (c(h := c n)) (r(h := 1, n := 2)) (unlocked(h := ?p, n := ?p))"
    and k3: "kept D (s\<lparr>bufs := b2\<rparr>) (s\<lparr>bufs := b3\<rparr>)"
    using set_data_view [OF v2 h2', of "c n"] cview_length [OF v, of n] by auto
  have h3: "handle D (s\<lparr>bufs := b3\<rparr>) a h" "handle D (s\<lparr>bufs := b3\<rparr>) b n"
    using keptD [OF k3 v3 h2'] keptD [OF k3 v3 h2] ne by simp_all
  define u where "u = s\<lparr>bufs := b3, disk_blocks := (disk_blocks s)(h := c n), disk_hist := disk_hist s @ [(h, c n)]\<rparr>"
  have 4: "bwrite a (s\<lparr>bufs := b3\<rparr>) = Ok u"
    and v4: "cview D u (c(h := c n)) (r(h := 1, n := 2)) (unlocked(h := ?p, n := ?p))"
    and h4: "handle D u a h" "handle D u b n"
    using bwrite_view [OF v3 h3(1)] ne h3 by (simp_all add: u_def)
  obtain b5 where 5: "brelse b u = Ok (u\<lparr>bufs := b5\<rparr>)"
    and v5: "cview D (u\<lparr>bufs := b5\<rparr>) (c(h := c n)) (r(h := 1)) (unlocked(h := ?p))"
    and k5: "kept D u (u\<lparr>bufs := b5\<rparr>)"
    using brelse_view [OF v4 h4(2)] rn ne by (auto simp: u_def fun_upd_twist fun_upd_idem)
  have h5: "handle D (u\<lparr>bufs := b5\<rparr>) a h" using keptD [OF k5 v5 h4(1)] by simp
  obtain b6 where 6: "brelse a (u\<lparr>bufs := b5\<rparr>) = Ok (u\<lparr>bufs := b6\<rparr>)"
    and v6: "cview D (u\<lparr>bufs := b6\<rparr>) (c(h := c n)) r unlocked"
    using brelse_view [OF v5 h5] rh by (auto simp: u_def fun_upd_idem)
  have "write_log_one tail s = Ok (u\<lparr>bufs := b6\<rparr>)"
    unfolding write_log_one_def log_slot_def using 1 2 3 4 5 6 D t by (simp add: h [symmetric] n [symmetric] d)
  then show ?thesis using v6 by (auto simp: wrote_def u_def)
qed

lemma install_trans_one_spec:
  fixes s :: "'a logst_scheme"
  assumes v: "cview D s c r unlocked" and D: "log_dev s = D" and t: "tail < length (lh_block s)"
    and n: "n = lh_block s ! tail" and h: "h = log_start s + of_nat tail + 1"
    and ne: "h \<noteq> n" and rh: "r h = 0" and rn: "r n = (if recovering then 0 else 1)"
    and room: "card {m. r m \<noteq> 0} + 1 < NBUF \<or> card {m. r m \<noteq> 0} < NBUF \<and> \<not> recovering"
  shows "\<exists>s'. install_trans_one recovering tail s = Ok s' \<and> wrote [(n, c h)] s s' \<and>
    cview D s' (c(n := c h)) (r(n := 0)) unlocked"
proof -
  let ?p = "held_by (mypid s)" and ?k = "r n + 1"
  have k: "?k \<noteq> 0" "\<not> recovering \<longrightarrow> ?k \<noteq> 1" using rn by simp_all
  obtain a b1 where 1: "bread D h s = Ok (a, s\<lparr>bufs := b1\<rparr>)"
    and v1: "cview D (s\<lparr>bufs := b1\<rparr>) c (r(h := 1)) (unlocked(h := ?p))" and h1: "handle D (s\<lparr>bufs := b1\<rparr>) a h"
    using bread_view [OF v, of h] rh room by auto
  have "card {m. (r(h := 1)) m \<noteq> 0} \<le> card (insert h {m. r m \<noteq> 0})" by (rule card_mono) auto
  also have "\<dots> \<le> card {m. r m \<noteq> 0} + 1" by (simp add: card_insert_if)
  finally have "card {m. (r(h := 1)) m \<noteq> 0} \<le> card {m. r m \<noteq> 0} + 1" .
  then have "recovering \<Longrightarrow> card {m. (r(h := 1)) m \<noteq> 0} < NBUF" using room by linarith
  moreover have "\<not> recovering \<Longrightarrow> (r(h := 1)) n \<noteq> 0" using rn ne by simp
  ultimately have "(r(h := 1)) n \<noteq> 0 \<or> card {m. (r(h := 1)) m \<noteq> 0} < NBUF" by blast
  then obtain b b2 where 2: "bread D n (s\<lparr>bufs := b1\<rparr>) = Ok (b, s\<lparr>bufs := b2\<rparr>)"
    and v2: "cview D (s\<lparr>bufs := b2\<rparr>) c (r(h := 1, n := ?k)) (unlocked(h := ?p, n := ?p))"
    and h2: "handle D (s\<lparr>bufs := b2\<rparr>) b n" and k2: "kept D (s\<lparr>bufs := b1\<rparr>) (s\<lparr>bufs := b2\<rparr>)"
    using bread_view [OF v1, of n] k ne by auto
  have h2': "handle D (s\<lparr>bufs := b2\<rparr>) a h" using keptD [OF k2 v2 h1] ne by simp
  have d: "b_data (b2 a) = c h" using cview_data [OF v2 h2'] by simp
  obtain b3 where 3: "set_data b (c h) (s\<lparr>bufs := b2\<rparr>) = s\<lparr>bufs := b3\<rparr>"
    and v3: "cview D (s\<lparr>bufs := b3\<rparr>) (c(n := c h)) (r(h := 1, n := ?k)) (unlocked(h := ?p, n := ?p))"
    and k3: "kept D (s\<lparr>bufs := b2\<rparr>) (s\<lparr>bufs := b3\<rparr>)"
    using set_data_view [OF v2 h2, of "c h"] cview_length [OF v, of h] by auto
  have h3: "handle D (s\<lparr>bufs := b3\<rparr>) a h" "handle D (s\<lparr>bufs := b3\<rparr>) b n"
    using keptD [OF k3 v3 h2'] keptD [OF k3 v3 h2] ne k by simp_all
  define u where "u = s\<lparr>bufs := b3, disk_blocks := (disk_blocks s)(n := c h), disk_hist := disk_hist s @ [(n, c h)]\<rparr>"
  have 4: "bwrite b (s\<lparr>bufs := b3\<rparr>) = Ok u"
    and v4: "cview D u (c(n := c h)) (r(h := 1, n := ?k)) (unlocked(h := ?p, n := ?p))"
    and h4: "handle D u a h" "handle D u b n"
    using bwrite_view [OF v3 h3(2)] ne h3 by (simp_all add: u_def)
  obtain b5 where 5: "(if \<not> recovering then bunpin b u else u) = u\<lparr>bufs := b5\<rparr>"
    and v5: "cview D (u\<lparr>bufs := b5\<rparr>) (c(n := c h)) (r(h := 1, n := 1)) (unlocked(h := ?p, n := ?p))"
    and k5: "kept D u (u\<lparr>bufs := b5\<rparr>)"
  proof (cases recovering)
    case True
    then show thesis using that [of "bufs u"] v4 rn by (simp add: kept_def)
  next
    case False
    then show thesis using that bunpin_view [OF v4 h4(2)] k rn by auto
  qed
  have h5: "handle D (u\<lparr>bufs := b5\<rparr>) a h" "handle D (u\<lparr>bufs := b5\<rparr>) b n"
    using keptD [OF k5 v5 h4(1)] keptD [OF k5 v5 h4(2)] by simp_all
  obtain b6 where 6: "brelse a (u\<lparr>bufs := b5\<rparr>) = Ok (u\<lparr>bufs := b6\<rparr>)"
    and v6: "cview D (u\<lparr>bufs := b6\<rparr>) (c(n := c h)) (r(n := 1)) (unlocked(n := ?p))"
    and k6: "kept D (u\<lparr>bufs := b5\<rparr>) (u\<lparr>bufs := b6\<rparr>)"
    using brelse_view [OF v5 h5(1)] rh ne cview_clean [OF v rh] by (auto simp: u_def fun_upd_twist fun_upd_idem)
  have h6: "handle D (u\<lparr>bufs := b6\<rparr>) b n" using keptD [OF k6 v6 h5(2)] by simp
  obtain b7 where 7: "brelse b (u\<lparr>bufs := b6\<rparr>) = Ok (u\<lparr>bufs := b7\<rparr>)"
    and v7: "cview D (u\<lparr>bufs := b7\<rparr>) (c(n := c h)) (r(n := 0)) unlocked"
    using brelse_view [OF v6 h6] rh by (auto simp: u_def fun_upd_idem)
  have "install_trans_one recovering tail s = Ok (u\<lparr>bufs := b7\<rparr>)"
    unfolding install_trans_one_def log_slot_def using 1 2 3 4 5 6 7 D t by (simp add: h [symmetric] n [symmetric] d)
  then show ?thesis using v7 by (auto simp: wrote_def u_def)
qed

lemma write_head_spec:
  fixes s :: "'a logst_scheme"
  assumes v: "cview D s c r unlocked" and D: "log_dev s = D" and h: "h = log_start s"
    and n: "nat (lh_n s) \<le> length (lh_block s)" "length (lh_block s) = LOGSIZE"
    and rh: "r h = 0" and room: "card {m. r m \<noteq> 0} < NBUF"
  defines "d \<equiv> head_bytes (lh_n s) (lh_block s) (c h)"
  shows "\<exists>s'. write_head s = Ok s' \<and> wrote [(h, d)] s s' \<and> cview D s' (c(h := d)) r unlocked"
proof -
  let ?p = "held_by (mypid s)"
  obtain a b1 where 1: "bread D h s = Ok (a, s\<lparr>bufs := b1\<rparr>)"
    and v1: "cview D (s\<lparr>bufs := b1\<rparr>) c (r(h := 1)) (unlocked(h := ?p))" and h1: "handle D (s\<lparr>bufs := b1\<rparr>) a h"
    using bread_view [OF v, of h] rh room by auto
  have x: "b_data (b1 a) = c h" using cview_data [OF v1 h1] by simp
  have "length d = BSIZE" unfolding d_def using head_bytes_length n cview_length [OF v, of h] by simp
  then obtain b2 where 2: "set_data a d (s\<lparr>bufs := b1\<rparr>) = s\<lparr>bufs := b2\<rparr>"
    and v2: "cview D (s\<lparr>bufs := b2\<rparr>) (c(h := d)) (r(h := 1)) (unlocked(h := ?p))"
    and k2: "kept D (s\<lparr>bufs := b1\<rparr>) (s\<lparr>bufs := b2\<rparr>)"
    using set_data_view [OF v1 h1, of d] by auto
  have h2: "handle D (s\<lparr>bufs := b2\<rparr>) a h" using keptD [OF k2 v2 h1] by simp
  define u where "u = s\<lparr>bufs := b2, disk_blocks := (disk_blocks s)(h := d), disk_hist := disk_hist s @ [(h, d)]\<rparr>"
  have 3: "bwrite a (s\<lparr>bufs := b2\<rparr>) = Ok u" and v3: "cview D u (c(h := d)) (r(h := 1)) (unlocked(h := ?p))"
    and h3: "handle D u a h"
    using bwrite_view [OF v2 h2] h2 by (simp_all add: u_def)
  obtain b4 where 4: "brelse a u = Ok (u\<lparr>bufs := b4\<rparr>)" and v4: "cview D (u\<lparr>bufs := b4\<rparr>) (c(h := d)) r unlocked"
    using brelse_view [OF v3 h3] rh by (auto simp: u_def fun_upd_idem)
  have "write_head s = Ok (u\<lparr>bufs := b4\<rparr>)"
    unfolding write_head_def using 1 2 3 4 D n by (simp add: h [symmetric] x d_def [symmetric])
  then show ?thesis using v4 by (auto simp: wrote_def u_def)
qed

section \<open>The loops\<close>

abbreviation slot :: "u32 \<Rightarrow> nat \<Rightarrow> u32" where "slot start i \<equiv> start + of_nat i + 1"

lemma write_log_loop:
  fixes s :: "'a logst_scheme"
  assumes v: "cview D s c r unlocked" and D: "log_dev s = D" and k: "k \<le> length (lh_block s)"
    and r: "\<forall>i<k. r (slot (log_start s) i) = 0 \<and> r (lh_block s ! i) = 1"
    and room: "card {m. r m \<noteq> 0} < NBUF"
  defines "ws \<equiv> \<lambda>k. map (\<lambda>i. (slot (log_start s) i, c (lh_block s ! i))) [0..<k]"
  shows "\<exists>s'. for_ok write_log_one [0..<k] s = Ok s' \<and> wrote (ws k) s s' \<and> cview D s' (replay (ws k) c) r unlocked"
  using k r
proof (induction k)
  case 0
  then show ?case using v by (simp add: ws_def wrote_refl)
next
  case (Suc k)
  then obtain t where t: "for_ok write_log_one [0..<k] s = Ok t" "wrote (ws k) s t"
    "cview D t (replay (ws k) c) r unlocked" by auto
  note f = wrote_fields [OF t(2)]
  let ?h = "slot (log_start s) k" and ?n = "lh_block s ! k"
  have rr: "r ?h = 0" "r ?n = 1" using Suc.prems by auto
  have "?n \<notin> fst ` set (ws k)"
  proof
    assume "?n \<in> fst ` set (ws k)"
    then obtain i where "i < k" "?n = slot (log_start s) i" by (auto simp: ws_def)
    then show False using Suc.prems(2) rr(2) by (metis less_Suc_eq zero_neq_one)
  qed
  then have c: "replay (ws k) c ?n = c ?n" by (rule replay_other)
  have g: "log_dev t = D" "k < length (lh_block t)" "?n = lh_block t ! k" "?h = log_start t + of_nat k + 1"
    using f D Suc.prems(1) by simp_all
  have ne: "?h \<noteq> ?n" using rr by auto
  obtain s' where s': "write_log_one k t = Ok s'" "wrote [(?h, c ?n)] t s'"
    "cview D s' ((replay (ws k) c)(?h := c ?n)) r unlocked"
    using write_log_one_spec [OF t(3) g ne rr room] c by auto
  have "ws (Suc k) = ws k @ [(?h, c ?n)]" by (simp add: ws_def)
  then show ?case using s' t(1) wrote_trans [OF t(2) s'(2)] by (simp add: for_ok_append fun_upd_def)
qed

lemma install_trans_loop:
  fixes s :: "'a logst_scheme"
  assumes v: "cview D s c r unlocked" and D: "log_dev s = D" and k: "k \<le> length (lh_block s)"
    and r: "\<forall>i<k. r (slot (log_start s) i) = 0 \<and> r (lh_block s ! i) = (if recovering then 0 else 1)"
    and sep: "\<forall>i<k. \<forall>j<k. slot (log_start s) i \<noteq> lh_block s ! j"
    and dist: "\<not> recovering \<Longrightarrow> distinct (take k (lh_block s))"
    and room: "card {m. r m \<noteq> 0} + 1 < NBUF \<or> card {m. r m \<noteq> 0} < NBUF \<and> \<not> recovering"
  defines "ws \<equiv> \<lambda>k. map (\<lambda>i. (lh_block s ! i, c (slot (log_start s) i))) [0..<k]"
  shows "\<exists>s'. for_ok (install_trans_one recovering) [0..<k] s = Ok s' \<and> wrote (ws k) s s' \<and>
    cview D s' (replay (ws k) c) (\<lambda>m. if m \<in> fst ` set (ws k) then 0 else r m) unlocked"
  using k r sep dist
proof (induction k)
  case 0
  then show ?case using v by (simp add: ws_def wrote_refl)
next
  case (Suc k)
  let ?r = "\<lambda>m. if m \<in> fst ` set (ws k) then 0 else r m"
  have "distinct (take k (lh_block s))" if "\<not> recovering"
    using Suc.prems(4) [OF that] Suc.prems(1) by (simp add: take_Suc_conv_app_nth)
  then obtain t where t: "for_ok (install_trans_one recovering) [0..<k] s = Ok t" "wrote (ws k) s t"
    "cview D t (replay (ws k) c) ?r unlocked" using Suc by auto
  note f = wrote_fields [OF t(2)]
  let ?h = "slot (log_start s) k" and ?n = "lh_block s ! k"
  have rr: "r ?h = 0" "r ?n = (if recovering then 0 else 1)" using Suc.prems by auto
  have out: "?h \<notin> fst ` set (ws k)" using Suc.prems(3) by (auto simp: ws_def)
  then have c: "replay (ws k) c ?h = c ?h" by (rule replay_other)
  have g: "log_dev t = D" "k < length (lh_block t)" "?n = lh_block t ! k" "?h = log_start t + of_nat k + 1"
    using f D Suc.prems(1) by simp_all
  have "?n \<notin> fst ` set (ws k)" if "\<not> recovering"
  proof -
    have "?n \<notin> set (take k (lh_block s))"
      using Suc.prems(4) [OF that] Suc.prems(1) by (simp add: take_Suc_conv_app_nth)
    then show ?thesis using Suc.prems(1) by (auto simp: ws_def in_set_conv_nth)
  qed
  then have rn: "?r ?n = (if recovering then 0 else 1)" using rr(2) by auto
  have "card {m. ?r m \<noteq> 0} \<le> card {m. r m \<noteq> 0}" by (rule card_mono) auto
  then have room': "card {m. ?r m \<noteq> 0} + 1 < NBUF \<or> card {m. ?r m \<noteq> 0} < NBUF \<and> \<not> recovering"
    using room by linarith
  have ne: "?h \<noteq> ?n" using Suc.prems(3) by auto
  have "?r ?h = 0" using rr(1) by simp
  then obtain s' where s': "install_trans_one recovering k t = Ok s'" "wrote [(?n, c ?h)] t s'"
    "cview D s' ((replay (ws k) c)(?n := c ?h)) (?r(?n := 0)) unlocked"
    using install_trans_one_spec [OF t(3) g ne _ rn room'] c by auto
  have ws: "ws (Suc k) = ws k @ [(?n, c ?h)]" by (simp add: ws_def)
  moreover have "?r(?n := 0) = (\<lambda>m. if m \<in> fst ` set (ws (Suc k)) then 0 else r m)" by (auto simp: ws)
  ultimately show ?case using s' t(1) wrote_trans [OF t(2) s'(2)] by (simp add: for_ok_append fun_upd_def)
qed

section \<open>Commit\<close>

text \<open>
  The blocks of the log, and the writes of a commit. \<^verbatim>\<open>mkfs\<close> makes a log of \<open>LOGSIZE\<close> blocks, the first of
  which is the header.
\<close>

definition log_area :: "u32 \<Rightarrow> u32 set" where
  "log_area start = (\<lambda>i. start + of_nat i) ` {..<LOGSIZE}"

lemma log_area: "start \<in> log_area start" "Suc i < LOGSIZE \<Longrightarrow> slot start i \<in> log_area start"
proof -
  show "start \<in> log_area start" unfolding log_area_def by (rule image_eqI [of _ _ 0]) simp_all
  show "slot start i \<in> log_area start" if "Suc i < LOGSIZE"
    unfolding log_area_def by (rule image_eqI [of _ _ "Suc i"]) (use that in simp_all)
qed

lemma log_area_proper: "\<exists>m. m \<notin> log_area start"
proof -
  have "card (log_area start) \<le> LOGSIZE" unfolding log_area_def using card_image_le [of "{..<LOGSIZE}"] by fastforce
  then have "log_area start \<noteq> UNIV" using card_word [where 'a = 32] by auto
  then show ?thesis by blast
qed

lemma slot_inj: "i < LOGSIZE \<Longrightarrow> j < LOGSIZE \<Longrightarrow> slot start i = slot start j \<longleftrightarrow> i = j"
  using word_unat_eq_iff [of "of_nat i :: u32" "of_nat j"] by (simp add: unat_of_nat_u32)

lemma slot_start: "i < LOGSIZE \<Longrightarrow> slot start i \<noteq> start"
proof
  assume i: "i < LOGSIZE" "slot start i = start"
  then have "(of_nat (Suc i) :: u32) = 0" by (simp add: add.commute)
  moreover have "unat (of_nat (Suc i) :: u32) = Suc i" by (rule unat_of_nat_u32) (use i(1) in simp)
  ultimately show False by (metis nat.simps(3) unat_0)
qed

definition log_head :: "'a logst_scheme \<Rightarrow> u32 list \<Rightarrow> block \<Rightarrow> block" where
  "log_head s bl d = head_bytes (int (length bl)) (lh_block s) d"

text \<open>The state in which a transaction that changed the blocks \<open>bl\<close> is about to be committed.\<close>

definition log_pending :: "u32 \<Rightarrow> 'a logst_scheme \<Rightarrow> u32 list \<Rightarrow> bool" where
  "log_pending D s bl \<longleftrightarrow> cview D s (content D s) (\<lambda>m. if m \<in> set bl then 1 else 0) unlocked \<and>
     log_dev s = D \<and> length (lh_block s) = LOGSIZE \<and> lh_n s = int (length bl) \<and> length bl < NBUF \<and>
     take (length bl) (lh_block s) = bl \<and> distinct bl \<and> set bl \<inter> log_area (log_start s) = {}"

lemma log_pendingD:
  fixes s :: "'a logst_scheme"
  assumes p: "log_pending D s bl"
  shows "length bl < LOGSIZE" "nat (lh_n s) = length bl" "i < length bl \<Longrightarrow> lh_block s ! i = bl ! i"
    "i < length bl \<Longrightarrow> slot (log_start s) i \<notin> set bl" "log_start s \<notin> set bl"
    "card {m. (if m \<in> set bl then 1 else 0 :: u32) \<noteq> 0} < NBUF"
proof -
  have d: "distinct bl" and area: "set bl \<inter> log_area (log_start s) = {}" and bl: "take (length bl) (lh_block s) = bl"
    using p by (simp_all add: log_pending_def)
  show k: "length bl < LOGSIZE" and "nat (lh_n s) = length bl" using p by (simp_all add: log_pending_def)
  show "i < length bl \<Longrightarrow> lh_block s ! i = bl ! i" using bl by (metis nth_take)
  show "i < length bl \<Longrightarrow> slot (log_start s) i \<notin> set bl" using k area log_area(2) [of i "log_start s"] by auto
  show "log_start s \<notin> set bl" using area log_area(1) [of "log_start s"] by auto
  have "card {m. (if m \<in> set bl then 1 else 0 :: u32) \<noteq> 0} = length bl" using distinct_card [OF d] by simp
  then show "card {m. (if m \<in> set bl then 1 else 0 :: u32) \<noteq> 0} < NBUF" using k by simp
qed

text \<open>The first half of a commit: after it the log holds the transaction.\<close>

definition log_writes :: "'a logst_scheme \<Rightarrow> u32 list \<Rightarrow> (u32 \<Rightarrow> block) \<Rightarrow> (u32 \<times> block) list" where
  "log_writes s bl c = map (\<lambda>i. (slot (log_start s) i, c (bl ! i))) [0..<length bl]"

lemma replay_log_writes:
  assumes "length bl < LOGSIZE"
  shows "i < length bl \<Longrightarrow> replay (log_writes s bl c) d (slot (log_start s) i) = c (bl ! i)"
    and "replay (log_writes s bl c) d (log_start s) = d (log_start s)"
    and "m \<notin> log_area (log_start s) \<Longrightarrow> replay (log_writes s bl c) d m = d m"
proof -
  have "distinct (map fst (log_writes s bl c))"
    using slot_inj assms by (auto simp: log_writes_def distinct_conv_nth)
  then show "i < length bl \<Longrightarrow> replay (log_writes s bl c) d (slot (log_start s) i) = c (bl ! i)"
    by (rule replay_distinct) (auto simp: log_writes_def)
  show "replay (log_writes s bl c) d (log_start s) = d (log_start s)"
    using slot_start assms by (intro replay_other) (auto simp: log_writes_def)
  show "m \<notin> log_area (log_start s) \<Longrightarrow> replay (log_writes s bl c) d m = d m"
    using log_area(2) assms by (intro replay_other) (auto simp: log_writes_def)
qed

lemma commit_log:
  fixes s :: "'a logst_scheme"
  assumes p: "log_pending D s bl"
  defines "c \<equiv> content D s" and "r \<equiv> \<lambda>m. if m \<in> set bl then 1 else 0 :: u32"
  defines "H \<equiv> log_head s bl (c (log_start s))"
  shows "\<exists>t1 t2. write_log s = Ok t1 \<and> write_head t1 = Ok t2 \<and>
    wrote (log_writes s bl c @ [(log_start s, H)]) s t2 \<and>
    cview D t2 ((replay (log_writes s bl c) c)(log_start s := H)) r unlocked"
proof -
  let ?L = "slot (log_start s)" and ?k = "length bl" and ?h = "log_start s" and ?w = "log_writes s bl c"
  have v: "cview D s c r unlocked" and D: "log_dev s = D" and len: "length (lh_block s) = LOGSIZE"
    using p by (simp_all add: log_pending_def c_def r_def)
  note q = log_pendingD [OF p, folded r_def]
  have rL: "r (?L i) = 0" "r (lh_block s ! i) = 1" if "i < ?k" for i using q(3,4) [OF that] that by (simp_all add: r_def)
  have rh: "r ?h = 0" using q(5) by (simp add: r_def)
  have room: "card {m. r m \<noteq> 0} < NBUF" using q(6) by (simp only: r_def)
  have "map (\<lambda>i. (?L i, c (lh_block s ! i))) [0..<?k] = ?w" unfolding log_writes_def using q(3) by simp
  then obtain t1 where t1: "write_log s = Ok t1" "wrote ?w s t1" "cview D t1 (replay ?w c) r unlocked"
    using write_log_loop [OF v D, of ?k] len q(1) rL room by (auto simp: write_log_def q(2))
  note f1 = wrote_fields [OF t1(2)]
  have "replay ?w c ?h = c ?h" by (rule replay_log_writes) (use q(1) in simp)
  moreover have "lh_n s = int ?k" using p by (simp add: log_pending_def)
  ultimately obtain t2 where t2: "write_head t1 = Ok t2" "wrote [(?h, H)] t1 t2"
    "cview D t2 ((replay ?w c)(?h := H)) r unlocked"
    using write_head_spec [OF t1(3) f1(5) [unfolded D] f1(3) [symmetric]] f1 len q(1) rh room
    by (auto simp: H_def log_head_def)
  show ?thesis using t1(1) t2(1,3) wrote_trans [OF t1(2) t2(2)] by blast
qed

text \<open>The second half: the blocks go to their places and the log is emptied.\<close>

definition home_writes :: "u32 list \<Rightarrow> (u32 \<Rightarrow> block) \<Rightarrow> (u32 \<times> block) list" where
  "home_writes bl c = map (\<lambda>n. (n, c n)) bl"

lemma home_writes: "map fst (home_writes bl c) = bl" "fst ` set (home_writes bl c) = set bl"
  by (simp_all add: home_writes_def comp_def image_image)

lemma replay_home_writes: "replay (home_writes bl c) d m = (if m \<in> set bl then c m else d m)"
proof (induction bl arbitrary: d)
  case (Cons n bl)
  have "home_writes (n # bl) c = (n, c n) # home_writes bl c" by (simp add: home_writes_def)
  then show ?case using Cons by auto
qed (simp add: home_writes_def)

lemma commit_install:
  fixes t2 :: "'a logst_scheme"
  assumes v: "cview D t2 c2 r unlocked" and r: "r = (\<lambda>m. if m \<in> set bl then 1 else 0)"
    and p: "log_pending D s bl" and f: "log_start t2 = log_start s" "lh_block t2 = lh_block s" "log_dev t2 = D" "lh_n t2 = int (length bl)"
    and c2: "\<forall>i<length bl. c2 (slot (log_start s) i) = c (bl ! i)"
  defines "Z \<equiv> log_head s [] (c2 (log_start s))"
  shows "\<exists>t3 t. install_trans False t2 = Ok t3 \<and> write_head (t3\<lparr>lh_n := 0\<rparr>) = Ok (t\<lparr>lh_n := 0\<rparr>) \<and>
    wrote (home_writes bl c @ [(log_start s, Z)]) t2 t \<and>
    cview D t ((replay (home_writes bl c) c2)(log_start s := Z)) (\<lambda>_. 0) unlocked"
proof -
  let ?L = "slot (log_start s)" and ?k = "length bl" and ?h = "log_start s" and ?w = "home_writes bl c"
  note q = log_pendingD [OF p, folded r]
  have len: "length (lh_block s) = LOGSIZE" and d: "distinct (take ?k (lh_block s))"
    using p by (simp_all add: log_pending_def)
  have rL: "r (?L i) = 0" "r (lh_block s ! i) = 1" if "i < ?k" for i using q(3,4) [OF that] that by (simp_all add: r)
  have room: "card {m. r m \<noteq> 0} < NBUF" using q(6) by (simp only: r)
  have m: "map (\<lambda>i. (lh_block t2 ! i, c2 (slot (log_start t2) i))) [0..<?k] = ?w"
    by (rule nth_equalityI) (use f c2 q(3) in \<open>auto simp: home_writes_def\<close>)
  have sep: "\<forall>i<?k. \<forall>j<?k. slot (log_start t2) i \<noteq> lh_block t2 ! j" using f rL by (metis zero_neq_one)
  have z: "(\<lambda>m. if m \<in> fst ` set ?w then 0 else r m) = (\<lambda>_. 0)" unfolding home_writes(2) by (auto simp: r)
  have "\<exists>t. for_ok (install_trans_one False) [0..<?k] t2 = Ok t \<and> wrote ?w t2 t \<and>
      cview D t (replay ?w c2) (\<lambda>_. 0) unlocked"
    using install_trans_loop [OF v f(3), of ?k False, unfolded m z] len q(1) rL sep d room by (simp add: f)
  then obtain t3 where t3: "install_trans False t2 = Ok t3" "wrote ?w t2 t3" "cview D t3 (replay ?w c2) (\<lambda>_. 0) unlocked"
    by (auto simp: install_trans_def f)
  note f3 = wrote_fields [OF t3(2)]
  have h2: "replay ?w c2 ?h = c2 ?h" using q(5) by (simp add: replay_home_writes)
  have "\<exists>t. write_head (t3\<lparr>lh_n := 0\<rparr>) = Ok t \<and> wrote [(?h, Z)] (t3\<lparr>lh_n := 0\<rparr>) t \<and>
      cview D t ((replay ?w c2)(?h := Z)) (\<lambda>_. 0) unlocked"
    using write_head_spec [of D "t3\<lparr>lh_n := 0\<rparr>" "replay ?w c2" "\<lambda>_. 0" ?h] t3(3) f3 f len h2
    by (simp add: log_head_def Z_def)
  then obtain bs where bs: "write_head (t3\<lparr>lh_n := 0\<rparr>) = Ok (t3\<lparr>lh_n := 0, disk_blocks := (disk_blocks t3)(?h := Z),
      disk_hist := disk_hist t3 @ [(?h, Z)], bufs := bs\<rparr>)"
    and u: "cview D (t3\<lparr>lh_n := 0, disk_blocks := (disk_blocks t3)(?h := Z),
      disk_hist := disk_hist t3 @ [(?h, Z)], bufs := bs\<rparr>) ((replay ?w c2)(?h := Z)) (\<lambda>_. 0) unlocked"
    by (auto simp: wrote_def)
  define t where "t = t3\<lparr>disk_blocks := (disk_blocks t3)(?h := Z), disk_hist := disk_hist t3 @ [(?h, Z)], bufs := bs\<rparr>"
  have tt: "t3\<lparr>lh_n := 0, disk_blocks := (disk_blocks t3)(?h := Z),
      disk_hist := disk_hist t3 @ [(?h, Z)], bufs := bs\<rparr> = t\<lparr>lh_n := 0\<rparr>" by (simp add: t_def)
  have "wrote [(?h, Z)] t3 t" by (auto simp: wrote_def t_def)
  then have "wrote (?w @ [(?h, Z)]) t2 t" by (rule wrote_trans [OF t3(2)])
  then show ?thesis using t3(1) bs u unfolding tt cview_logst by blast
qed

text \<open>The writes of a commit.\<close>

definition commit_writes :: "'a logst_scheme \<Rightarrow> u32 list \<Rightarrow> (u32 \<Rightarrow> block) \<Rightarrow> (u32 \<times> block) list" where
  "commit_writes s bl c =
     log_writes s bl c @ [(log_start s, log_head s bl (c (log_start s)))] @
     home_writes bl c @ [(log_start s, log_head s [] (log_head s bl (c (log_start s))))]"

lemma commit_spec:
  fixes s :: "'a logst_scheme"
  assumes p: "log_pending D s bl" and ne: "bl \<noteq> []"
  defines "ws \<equiv> commit_writes s bl (content D s)"
  shows "\<exists>t. commit s = Ok (t\<lparr>lh_n := 0\<rparr>) \<and> wrote ws s t \<and>
    cview D t (replay ws (content D s)) (\<lambda>_. 0) unlocked"
proof -
  let ?c = "content D s" and ?h = "log_start s" and ?r = "\<lambda>m. if m \<in> set bl then 1 else 0 :: u32"
  let ?w1 = "log_writes s bl ?c" and ?w2 = "home_writes bl ?c" and ?H = "log_head s bl (?c ?h)"
  let ?c2 = "(replay ?w1 ?c)(?h := ?H)"
  have k: "length bl < LOGSIZE" and n: "lh_n s = int (length bl)" "log_dev s = D"
    using p by (simp_all add: log_pending_def)
  obtain t1 t2 where t1: "write_log s = Ok t1" and t2: "write_head t1 = Ok t2"
    and w: "wrote (?w1 @ [(?h, ?H)]) s t2" and v: "cview D t2 ?c2 ?r unlocked"
    using commit_log [OF p] by blast
  have "\<forall>i<length bl. ?c2 (slot ?h i) = ?c (bl ! i)"
    using replay_log_writes(1) [of bl _ s ?c ?c] slot_start [of _ ?h] k by simp
  moreover have "?c2 ?h = ?H" by simp
  ultimately obtain t3 t where t3: "install_trans False t2 = Ok t3" "write_head (t3\<lparr>lh_n := 0\<rparr>) = Ok (t\<lparr>lh_n := 0\<rparr>)"
    and w': "wrote (?w2 @ [(?h, log_head s [] ?H)]) t2 t"
    and v': "cview D t ((replay ?w2 ?c2)(?h := log_head s [] ?H)) (\<lambda>_. 0) unlocked"
    using commit_install [OF v refl p, of ?c] wrote_fields [OF w] n by auto
  have ws: "ws = (?w1 @ [(?h, ?H)]) @ ?w2 @ [(?h, log_head s [] ?H)]" by (simp add: ws_def commit_writes_def)
  have "wrote ws s t" unfolding ws by (rule wrote_trans [OF w w'])
  moreover have "replay ws ?c = (replay ?w2 ?c2)(?h := log_head s [] ?H)" by (simp add: ws)
  ultimately show ?thesis using t1 t2 t3 v' n(1) ne by (auto simp: commit_def)
qed

section \<open>Recovery\<close>

text \<open>
  The header of a disk: the number of logged blocks and where they belong. \<open>recovered\<close> is what
  the file system of the disk is: the blocks of a committed transaction are in the log.
\<close>

definition log_n :: "u32 \<Rightarrow> (u32 \<Rightarrow> block) \<Rightarrow> nat" where
  "log_n start d = nat (sint (get32 0 (d start)))"

definition log_bn :: "u32 \<Rightarrow> (u32 \<Rightarrow> block) \<Rightarrow> nat \<Rightarrow> u32" where
  "log_bn start d i = get32 (4 + 4 * i) (d start)"

definition recover_writes :: "u32 \<Rightarrow> (u32 \<Rightarrow> block) \<Rightarrow> (u32 \<times> block) list" where
  "recover_writes start d = map (\<lambda>i. (log_bn start d i, d (slot start i))) [0..<log_n start d]"

definition recovered :: "u32 \<Rightarrow> (u32 \<Rightarrow> block) \<Rightarrow> u32 \<Rightarrow> block" where
  "recovered start d = replay (recover_writes start d) d"

definition disk_log_ok :: "u32 \<Rightarrow> (u32 \<Rightarrow> block) \<Rightarrow> bool" where
  "disk_log_ok start d \<longleftrightarrow> log_n start d < LOGSIZE \<and> (\<forall>i<log_n start d. log_bn start d i \<notin> log_area start)"

abbreviation cleared :: "block \<Rightarrow> block" where "cleared d \<equiv> put32 0 0 d"

lemma log_head_Nil: "log_head s [] d = cleared d"
  by (simp add: log_head_def head_bytes_def)

lemma recover_writes_area: "disk_log_ok start d \<Longrightarrow> fst ` set (recover_writes start d) \<inter> log_area start = {}"
  by (auto simp: disk_log_ok_def recover_writes_def)

lemma read_head_spec:
  fixes s :: "'a logst_scheme"
  assumes v: "cview D s c (\<lambda>_. 0) unlocked" and D: "log_dev s = D" and h: "log_start s = h"
    and n: "log_n h c \<le> LOGSIZE" "length (lh_block s) = LOGSIZE"
  shows "\<exists>bl bs. read_head s = Ok (s\<lparr>lh_n := sint (get32 0 (c h)), lh_block := bl, bufs := bs\<rparr>) \<and>
    cview D (s\<lparr>bufs := bs\<rparr>) c (\<lambda>_. 0) unlocked \<and> length bl = LOGSIZE \<and> (\<forall>i<log_n h c. bl ! i = log_bn h c i)"
proof -
  let ?p = "held_by (mypid s)" and ?r = "(\<lambda>_. 0)(h := 1)"
  obtain a b1 where 1: "bread D h s = Ok (a, s\<lparr>bufs := b1\<rparr>)"
    and v1: "cview D (s\<lparr>bufs := b1\<rparr>) c ?r (unlocked(h := ?p))" and h1: "handle D (s\<lparr>bufs := b1\<rparr>) a h"
    using bread_view [OF v, of h] by auto
  have x: "b_data (b1 a) = c h" using cview_data [OF v1 h1] by simp
  define bl where "bl = map (\<lambda>i. get32 (4 + 4 * i) (c h)) [0..<log_n h c] @ drop (log_n h c) (lh_block s)"
  let ?u = "s\<lparr>bufs := b1, lh_n := sint (get32 0 (c h)), lh_block := bl\<rparr>"
  have v2: "cview D ?u c ?r (unlocked(h := ?p))" using v1 by simp
  have h2: "handle D ?u a h" using h1 by (simp add: handle_def)
  have "c h = disk_blocks s h" using cview_clean [OF v] by simp
  then obtain b3 where 3: "brelse a ?u = Ok (?u\<lparr>bufs := b3\<rparr>)" and v3: "cview D (?u\<lparr>bufs := b3\<rparr>) c (\<lambda>_. 0) unlocked"
    using brelse_view [OF v2 h2] by (auto simp: fun_upd_idem)
  have "read_head s = Ok (?u\<lparr>bufs := b3\<rparr>)"
    unfolding read_head_def using 1 3 D h n by (simp add: x Let_def log_n_def [symmetric] bl_def)
  moreover have "cview D (s\<lparr>bufs := b3\<rparr>) c (\<lambda>_. 0) unlocked" using v3 by (subst cview_cong [of _ "?u\<lparr>bufs := b3\<rparr>"]) auto
  moreover have "length bl = LOGSIZE" "\<forall>i<log_n h c. bl ! i = log_bn h c i"
    using n by (auto simp: bl_def nth_append log_bn_def)
  ultimately show ?thesis by (intro exI [of _ bl] exI [of _ b3]) simp
qed

text \<open>A kernel that has just booted: an empty cache over the disk, and no system call begun.\<close>

definition booted :: "u32 \<Rightarrow> 'a logst_scheme \<Rightarrow> bool" where
  "booted D s \<longleftrightarrow> cview D s (disk_blocks s) (\<lambda>_. 0) unlocked \<and> length (lh_block s) = LOGSIZE \<and>
     outstanding s = 0 \<and> \<not> committing s"

lemma initlog_spec:
  fixes s :: "'a logst_scheme"
  assumes b: "booted D s" and h: "sb_logstart sb = h" and ok: "disk_log_ok h (disk_blocks s)"
  defines "ws \<equiv> recover_writes h (disk_blocks s) @ [(h, cleared (disk_blocks s h))]"
  shows "\<exists>t. initlog D sb s = Ok t \<and> booted D t \<and> disk_blocks t = replay ws (disk_blocks s) \<and>
    disk_hist t = disk_hist s @ ws \<and> log_pending D t [] \<and> log_start t = h \<and> log_size t = sint (sb_nlog sb)"
proof -
  let ?s = "s\<lparr>log_start := h, log_size := sint (sb_nlog sb), log_dev := D\<rparr>" and ?d = "disk_blocks s"
  let ?k = "log_n h ?d" and ?w = "recover_writes h ?d"
  have v: "cview D ?s ?d (\<lambda>_. 0) unlocked" and len: "length (lh_block s) = LOGSIZE" using b by (simp_all add: booted_def)
  have k: "?k < LOGSIZE" using ok by (simp add: disk_log_ok_def)
  obtain bl bs where 1: "read_head ?s = Ok (?s\<lparr>lh_n := sint (get32 0 (?d h)), lh_block := bl, bufs := bs\<rparr>)"
    and v1: "cview D (?s\<lparr>bufs := bs\<rparr>) ?d (\<lambda>_. 0) unlocked" and bl: "length bl = LOGSIZE" "\<forall>i<?k. bl ! i = log_bn h ?d i"
    using read_head_spec [OF v, of h] k len by auto
  let ?t = "?s\<lparr>lh_n := sint (get32 0 (?d h)), lh_block := bl, bufs := bs\<rparr>"
  have v1': "cview D ?t ?d (\<lambda>_. 0) unlocked" using v1 by (subst cview_cong [of _ "?s\<lparr>bufs := bs\<rparr>"]) auto
  have n: "nat (lh_n ?t) = ?k" by (simp add: log_n_def)
  have m: "map (\<lambda>i. (lh_block ?t ! i, ?d (slot (log_start ?t) i))) [0..<?k] = ?w"
    using bl by (simp add: recover_writes_def)
  have "slot h i \<noteq> bl ! j" if "i < ?k" "j < ?k" for i j
  proof -
    have "bl ! j \<notin> log_area h" using ok bl that by (simp add: disk_log_ok_def)
    moreover have "slot h i \<in> log_area h" by (rule log_area(2)) (use that k in linarith)
    ultimately show ?thesis by metis
  qed
  then have "\<exists>t. install_trans True ?t = Ok t \<and> wrote ?w ?t t \<and> cview D t (replay ?w ?d) (\<lambda>_. 0) unlocked"
    using install_trans_loop [OF v1', of ?k True, unfolded m] bl k unfolding install_trans_def n by simp
  then obtain t2 where 2: "install_trans True ?t = Ok t2" "wrote ?w ?t t2" "cview D t2 (replay ?w ?d) (\<lambda>_. 0) unlocked" by blast
  note f = wrote_fields [OF 2(2)]
  have "h \<notin> fst ` set ?w" using recover_writes_area [OF ok] log_area(1) [of h] by blast
  then have dh: "replay ?w ?d h = ?d h" by (rule replay_other)
  have g2: "log_dev (t2\<lparr>lh_n := 0\<rparr>) = D" "h = log_start (t2\<lparr>lh_n := 0\<rparr>)"
      "nat (lh_n (t2\<lparr>lh_n := 0\<rparr>)) \<le> length (lh_block (t2\<lparr>lh_n := 0\<rparr>))" "length (lh_block (t2\<lparr>lh_n := 0\<rparr>)) = LOGSIZE"
    using f(3,5,7) bl(1) by simp_all
  have "\<exists>t. write_head (t2\<lparr>lh_n := 0\<rparr>) = Ok t \<and> wrote [(h, cleared (?d h))] (t2\<lparr>lh_n := 0\<rparr>) t \<and>
      cview D t ((replay ?w ?d)(h := cleared (?d h))) (\<lambda>_. 0) unlocked"
    using write_head_spec [OF _ g2, of "replay ?w ?d" "\<lambda>_. 0"] 2(3) dh by (simp add: head_bytes_def)
  then obtain t where t: "write_head (t2\<lparr>lh_n := 0\<rparr>) = Ok t" "wrote [(h, cleared (?d h))] (t2\<lparr>lh_n := 0\<rparr>) t"
    "cview D t ((replay ?w ?d)(h := cleared (?d h))) (\<lambda>_. 0) unlocked" by blast
  note g = wrote_fields [OF t(2)]
  have i: "initlog D sb s = Ok t" using 1 2(1) t(1) h by (simp add: initlog_def recover_from_log_def)
  have c: "content D t = disk_blocks t" using t(3) cview_clean [OF t(3)] by (auto simp: cview_def)
  then have v': "cview D t (disk_blocks t) (\<lambda>_. 0) unlocked" using t(3) by (simp add: cview_def)
  show ?thesis using i g f bl v' b c by (intro exI [of _ t]) (simp add: booted_def log_pending_def ws_def)
qed

section \<open>Crashes\<close>

lemma log_n_cong: "d' start = d start \<Longrightarrow> log_n start d' = log_n start d" "d' start = d start \<Longrightarrow> log_bn start d' = log_bn start d"
  by (simp_all add: log_n_def log_bn_def fun_eq_iff)

lemma recover_writes_cong:
  assumes "\<forall>m\<in>log_area start. d' m = d m" "log_n start d < LOGSIZE"
  shows "recover_writes start d' = recover_writes start d" "disk_log_ok start d' = disk_log_ok start d"
proof -
  have h: "d' start = d start" using assms(1) log_area(1) by blast
  show "disk_log_ok start d' = disk_log_ok start d" by (simp add: disk_log_ok_def log_n_cong [of d' start d, OF h])
  have "d' (slot start i) = d (slot start i)" if "i < log_n start d" for i
  proof -
    have "Suc i < LOGSIZE" using assms(2) that by linarith
    then show ?thesis using assms(1) log_area(2) [of i start] by blast
  qed
  then show "recover_writes start d' = recover_writes start d" by (simp add: recover_writes_def log_n_cong [of d' start d, OF h])
qed

lemma log_n_cleared: "length (d start) = BSIZE \<Longrightarrow> d' start = cleared (d start) \<Longrightarrow> log_n start d' = 0"
  by (simp add: log_n_def)

lemma recovered_empty: "log_n start d = 0 \<Longrightarrow> recovered start d = d" "log_n start d = 0 \<Longrightarrow> disk_log_ok start d"
  by (simp_all add: recovered_def recover_writes_def disk_log_ok_def)

lemma replay_prefix:
  "fst ` set xs \<subseteq> fst ` set ys \<Longrightarrow> replay ys (replay xs d) = replay ys d"
  by (rule ext, rule replay_cong) (use replay_other [of _ xs d] in blast)

text \<open>A crash during recovery, and recovering again: the recovered disk is the same.\<close>

lemma recovery_crash:
  fixes k :: nat
  assumes ok: "disk_log_ok start d" and len: "length (d start) = BSIZE"
    and m: "m \<notin> log_area start"
  defines "d' \<equiv> replay (take k (recover_writes start d @ [(start, cleared (d start))])) d"
  shows "disk_log_ok start d'" "recovered start d' m = recovered start d m"
proof -
  let ?w = "recover_writes start d"
  have out: "fst ` set ?w \<inter> log_area start = {}" by (rule recover_writes_area [OF ok])
  have "disk_log_ok start d' \<and> recovered start d' m = recovered start d m"
  proof (cases "k \<le> length ?w")
    case True
    then have d': "d' = replay (take k ?w) d" by (simp add: d'_def)
    have sub: "fst ` set (take k ?w) \<subseteq> fst ` set ?w" by (intro image_mono set_take_subset)
    have "d' x = d x" if "x \<in> log_area start" for x
      unfolding d' by (rule replay_other) (use that out sub in blast)
    moreover have "log_n start d < LOGSIZE" using ok by (simp add: disk_log_ok_def)
    ultimately have c: "recover_writes start d' = ?w" "disk_log_ok start d'"
      using recover_writes_cong [of start d' d] ok by blast+
    have "recovered start d' = recovered start d"
      unfolding recovered_def c(1) unfolding d' by (rule replay_prefix [OF sub])
    then show ?thesis using c(2) by simp
  next
    case False
    then have d': "d' = (replay ?w d)(start := cleared (d start))" by (simp add: d'_def)
    then have "log_n start d' = 0" using log_n_cleared [of d start d'] len by simp
    moreover have "m \<noteq> start" using m log_area(1) [of start] by blast
    ultimately show ?thesis using recovered_empty [of start d'] d' by (simp add: recovered_def [of start d])
  qed
  then show "disk_log_ok start d'" "recovered start d' m = recovered start d m" by simp_all
qed

lemma head_log_n:
  assumes "length bl \<le> LOGSIZE" "length d = BSIZE" "take (length bl) (lh_block s) = bl" "d' start = log_head s bl d"
  shows "log_n start d' = length bl" "i < length bl \<Longrightarrow> log_bn start d' i = bl ! i"
proof -
  have "sint (word_of_int (int (length bl)) :: u32) = int (length bl)"
    using assms(1) by (simp add: signed_of_nat signed_take_bit_int_eq_self)
  then show "log_n start d' = length bl"
    using head_bytes_get(1) [of "int (length bl)" d "lh_block s"] assms by (simp add: log_n_def log_head_def)
  show "log_bn start d' i = bl ! i" if "i < length bl"
    using head_bytes_get(2) [of "int (length bl)" d i "lh_block s"] assms that
    by (simp add: log_bn_def log_head_def) (metis nth_take)
qed

text \<open>A crash during a commit.\<close>

lemma commit_crash:
  fixes s :: "'a logst_scheme" and k :: nat
  assumes p: "log_pending D s bl" and e: "log_n (log_start s) (disk_blocks s) = 0"
    and m: "m \<notin> log_area (log_start s)"
  defines "d' \<equiv> replay (take k (commit_writes s bl (content D s))) (disk_blocks s)"
  shows "disk_log_ok (log_start s) d'"
    "recovered (log_start s) d' m = (if k \<le> length bl then disk_blocks s m else content D s m)"
proof -
  let ?h = "log_start s" and ?d = "disk_blocks s" and ?c = "content D s"
  let ?w1 = "log_writes s bl ?c" and ?H = "log_head s bl (?c ?h)" and ?w2 = "home_writes bl ?c"
  have v: "cview D s ?c (\<lambda>m. if m \<in> set bl then 1 else 0) unlocked" and bl: "take (length bl) (lh_block s) = bl"
    and area: "set bl \<inter> log_area ?h = {}"
    using p by (simp_all add: log_pending_def)
  note q = log_pendingD [OF p]
  note kl = q(1)
  have l1: "length ?w1 = length bl" by (simp add: log_writes_def)
  have mh: "m \<noteq> ?h" using m log_area(1) [of ?h] by blast
  have lenH: "length (?c ?h) = BSIZE" using cview_length [OF v] by simp
  have new: "m \<notin> set bl \<Longrightarrow> ?d m = ?c m" using cview_clean [OF v, of m] by simp
  have dm: "replay ?w1 ?d m = ?d m" by (rule replay_log_writes(3) [OF kl m])
  consider "k \<le> length bl" | "length bl < k" "k \<le> length bl + 1 + length bl" | "length bl + 1 + length bl < k" by linarith
  then have "disk_log_ok ?h d' \<and> recovered ?h d' m = (if k \<le> length bl then ?d m else ?c m)"
  proof cases
    case 1
    then have d': "d' = replay (take k ?w1) ?d" by (simp add: d'_def commit_writes_def l1)
    have sub: "fst ` set (take k ?w1) \<subseteq> fst ` set ?w1" by (intro image_mono set_take_subset)
    have "?h \<notin> fst ` set ?w1" "m \<notin> fst ` set ?w1"
      using slot_start log_area(2) m kl by (auto simp: log_writes_def)
    then have "d' ?h = ?d ?h" "d' m = ?d m" unfolding d' using sub replay_other [of _ "take k ?w1" ?d] by blast+
    then have "log_n ?h d' = 0" "d' m = ?d m" using e log_n_cong(1) by metis+
    then show ?thesis using recovered_empty [of ?h d'] 1 by simp
  next
    case 2
    define w where "w = take (k - length bl - 1) ?w2"
    define d1 where "d1 = (replay ?w1 ?d)(?h := ?H)"
    define j where "j = k - length bl - 1"
    then have j: "k = Suc (length bl + j)" "j \<le> length bl" using 2 by simp_all
    have d': "d' = replay w d1" using j by (simp add: d'_def commit_writes_def l1 w_def d1_def home_writes_def)
    have sub: "fst ` set w \<subseteq> set bl" 
      unfolding w_def home_writes(2) [of bl ?c, symmetric] by (intro image_mono set_take_subset)
    have a: "d' x = d1 x" if "x \<in> log_area ?h" for x
      unfolding d' by (rule replay_other) (use sub area that in blast)
    have n: "log_n ?h d1 = length bl" "\<And>i. i < length bl \<Longrightarrow> log_bn ?h d1 i = bl ! i"
      using head_log_n [OF less_imp_le [OF kl] lenH bl, of d1 ?h] by (simp_all add: d1_def)
    have "bl ! i \<notin> log_area ?h" if "i < length bl" for i using nth_mem [OF that] area by blast
    then have ok: "disk_log_ok ?h d1" using n kl by (simp add: disk_log_ok_def)
    have "d1 (slot ?h i) = ?c (bl ! i)" if "i < length bl" for i
      using replay_log_writes(1) [OF kl that, of s ?c ?d] slot_start [of i ?h] that kl by (simp add: d1_def)
    then have w2: "recover_writes ?h d1 = ?w2"
      using n by (auto simp: recover_writes_def home_writes_def intro!: nth_equalityI)
    have c: "recover_writes ?h d' = ?w2" "disk_log_ok ?h d'"
      using recover_writes_cong [of ?h d' d1] a n(1) kl w2 ok by simp_all
    have "recovered ?h d' m = replay ?w2 d1 m"
      unfolding recovered_def c(1) unfolding d' using replay_prefix [of w ?w2 d1] sub home_writes(2) [of bl ?c] by simp
    also have "\<dots> = ?c m" using new dm mh by (simp add: replay_home_writes d1_def)
    finally show ?thesis using c(2) 2 by simp
  next
    case 3
    define d1 where "d1 = (replay ?w1 ?d)(?h := ?H)"
    have d': "d' = (replay ?w2 d1)(?h := cleared ?H)"
      using 3 by (simp add: d'_def commit_writes_def l1 home_writes_def d1_def log_head_Nil)
    have "length ?H = BSIZE" unfolding log_head_def using head_bytes_length kl lenH by simp
    then have "log_n ?h d' = 0" using log_n_cleared [of "\<lambda>_. ?H" ?h d'] d' by simp
    moreover have "d' m = ?c m" using new dm mh by (simp add: d' replay_home_writes d1_def)
    ultimately show ?thesis using recovered_empty [of ?h d'] 3 by simp
  qed
  then show "disk_log_ok ?h d'" "recovered ?h d' m = (if k \<le> length bl then ?d m else ?c m)" by simp_all
qed

lemma recovered_commit:
  assumes "log_pending D s bl" "m \<notin> log_area (log_start s)"
  defines "ws \<equiv> commit_writes s bl (content D s)"
  shows "replay ws (disk_blocks s) m = content D s m"
proof -
  have v: "cview D s (content D s) (\<lambda>m. if m \<in> set bl then 1 else 0) unlocked" and "length bl < LOGSIZE"
    using assms(1) by (simp_all add: log_pending_def)
  moreover have "m \<noteq> log_start s" using assms(2) log_area(1) by blast
  ultimately show ?thesis using cview_clean [OF v, of m] replay_log_writes(3) [OF _ assms(2), of bl]
    by (simp add: ws_def commit_writes_def replay_home_writes)
qed

text \<open>A boot from a disk with a well-formed log.\<close>

lemma initlog_recovers:
  fixes b :: "'a logst_scheme"
  assumes b: "booted D b" and h: "sb_logstart sb = h"
    and ok: "\<And>m. m \<notin> log_area h \<Longrightarrow> disk_log_ok h (disk_blocks b)"
    and r: "\<And>m. m \<notin> log_area h \<Longrightarrow> recovered h (disk_blocks b) m = f m"
  shows "\<exists>t. initlog D sb b = Ok t \<and> booted D t \<and> (\<forall>m. m \<notin> log_area h \<longrightarrow> content D t m = f m)"
proof -
  have "disk_log_ok h (disk_blocks b)" using ok log_area_proper by blast
  then obtain t where t: "initlog D sb b = Ok t" "booted D t"
    "disk_blocks t = replay (recover_writes h (disk_blocks b) @ [(h, cleared (disk_blocks b h))]) (disk_blocks b)"
    using initlog_spec [OF b h] by blast
  have "content D t m = f m" if m: "m \<notin> log_area h" for m
  proof -
    have "content D t = disk_blocks t" using t(2) by (simp add: booted_def cview_def)
    moreover have "m \<noteq> h" using m log_area(1) by blast
    ultimately show ?thesis using t(3) r [OF m] by (simp add: recovered_def)
  qed
  then show ?thesis using t(1,2) by blast
qed

section \<open>Operations within a transaction\<close>

text \<open>
  \<open>lview D s c bl H\<close>: the blocks have contents \<open>c\<close>, the current transaction has logged the blocks
  \<open>bl\<close>, and the running process holds the buffers of the blocks \<open>H\<close> and no one holds another.
\<close>

definition lrefs :: "u32 list \<Rightarrow> u32 set \<Rightarrow> u32 \<Rightarrow> u32" where
  "lrefs bl H = (\<lambda>m. (if m \<in> set bl then 1 else 0) + (if m \<in> H then 1 else 0))"

definition lheld :: "int \<Rightarrow> u32 set \<Rightarrow> u32 \<Rightarrow> sleeplock" where
  "lheld p H = (\<lambda>m. if m \<in> H then held_by p else initsleeplock)"

definition lview :: "u32 \<Rightarrow> 'a logst_scheme \<Rightarrow> (u32 \<Rightarrow> block) \<Rightarrow> u32 list \<Rightarrow> u32 set \<Rightarrow> bool" where
  "lview D s c bl H \<longleftrightarrow>
     cview D s c (lrefs bl H) (lheld (mypid s) H) \<and>
     (\<forall>m\<in>H. m \<notin> set bl \<longrightarrow> c m = disk_blocks s m) \<and>
     log_dev s = D \<and> length (lh_block s) = LOGSIZE \<and> lh_n s = int (length bl) \<and>
     length bl \<le> LOGSIZE \<and> take (length bl) (lh_block s) = bl \<and> distinct bl \<and>
     set bl \<inter> log_area (log_start s) = {}"

lemma lview_pending:
  assumes "lview D s c bl {}" "length bl < NBUF"
  shows "log_pending D s bl" "content D s = c"
  using assms by (auto simp: lview_def log_pending_def cview_def lrefs_def lheld_def)

lemma pending_lview: "log_pending D s bl \<Longrightarrow> lview D s (content D s) bl {}"
  by (simp add: lview_def log_pending_def lrefs_def lheld_def)

lemma lview_cview: "lview D s c bl H \<Longrightarrow> cview D s c (lrefs bl H) (lheld (mypid s) H)"
  by (simp add: lview_def)

lemma lview_length: "lview D s c bl H \<Longrightarrow> length (c n) = BSIZE"
  by (rule cview_length [OF lview_cview])

lemma lview_data: "lview D s c bl H \<Longrightarrow> handle D s b n \<Longrightarrow> b_data (bufs s b) = c n"
  by (rule cview_data [OF lview_cview])

lemma lview_bufs:
  assumes "cview D (s\<lparr>bufs := bs\<rparr>) c (lrefs bl H') (lheld (mypid s) H')"
    and "lview D s c bl H" "\<forall>m\<in>H' - H. m \<notin> set bl \<longrightarrow> c m = disk_blocks s m"
  shows "lview D (s\<lparr>bufs := bs\<rparr>) c bl H'"
  using assms by (auto simp: lview_def)

lemma bread_lview:
  fixes s :: "'a logst_scheme"
  assumes v: "lview D s c bl H" and n: "n \<notin> H" and room: "n \<in> set bl \<or> card (set bl \<union> H) < NBUF"
  shows "\<exists>b bs. bread D n s = Ok (b, s\<lparr>bufs := bs\<rparr>) \<and> lview D (s\<lparr>bufs := bs\<rparr>) c bl (insert n H) \<and>
    handle D (s\<lparr>bufs := bs\<rparr>) b n \<and> b_data (bs b) = c n \<and> kept D s (s\<lparr>bufs := bs\<rparr>)"
proof -
  let ?r = "lrefs bl" and ?l = "lheld (mypid s)"
  note cv = lview_cview [OF v]
  have "{m. ?r H m \<noteq> 0} = set bl \<union> H" by (auto simp: lrefs_def split: if_splits)
  then have "?r H n \<noteq> 0 \<or> card {m. ?r H m \<noteq> 0} < NBUF" using room n by (auto simp: lrefs_def)
  moreover have "?r H n + 1 \<noteq> 0" "?l H n = initsleeplock" using n by (simp_all add: lrefs_def lheld_def)
  ultimately obtain b bs where 1: "bread D n s = Ok (b, s\<lparr>bufs := bs\<rparr>)"
    and cv': "cview D (s\<lparr>bufs := bs\<rparr>) c ((?r H)(n := ?r H n + 1)) ((?l H)(n := held_by (mypid s)))"
    and h: "handle D (s\<lparr>bufs := bs\<rparr>) b n" "kept D s (s\<lparr>bufs := bs\<rparr>)"
    using bread_view [OF cv, of n] n by auto
  have "(?r H)(n := ?r H n + 1) = ?r (insert n H)" "(?l H)(n := held_by (mypid s)) = ?l (insert n H)"
    using n by (auto simp: fun_eq_iff lrefs_def lheld_def)
  with cv' have cv'': "cview D (s\<lparr>bufs := bs\<rparr>) c (?r (insert n H)) (?l (insert n H))" by simp
  have "lview D (s\<lparr>bufs := bs\<rparr>) c bl (insert n H)"
    by (rule lview_bufs [OF cv'' v]) (use n cview_clean [OF cv] in \<open>auto simp: lrefs_def\<close>)
  moreover have "b_data (bs b) = c n" using cview_data [OF cv'' h(1)] by simp
  ultimately show ?thesis using 1 h by blast
qed

lemma brelse_lview:
  fixes s :: "'a logst_scheme"
  assumes v: "lview D s c bl H" and h: "handle D s b n" and n: "n \<in> H"
  shows "\<exists>bs. brelse b s = Ok (s\<lparr>bufs := bs\<rparr>) \<and> lview D (s\<lparr>bufs := bs\<rparr>) c bl (H - {n}) \<and>
    kept D s (s\<lparr>bufs := bs\<rparr>)"
proof -
  let ?r = "lrefs bl" and ?l = "lheld (mypid s)"
  have "?r H n = 1 \<Longrightarrow> c n = disk_blocks s n" using v n by (auto simp: lview_def lrefs_def split: if_splits)
  then obtain bs where 1: "brelse b s = Ok (s\<lparr>bufs := bs\<rparr>)"
    and cv: "cview D (s\<lparr>bufs := bs\<rparr>) c ((?r H)(n := ?r H n - 1)) ((?l H)(n := initsleeplock))"
    and k: "kept D s (s\<lparr>bufs := bs\<rparr>)"
    using brelse_view [OF lview_cview [OF v] h] n by (auto simp: lheld_def)
  have "(?r H)(n := ?r H n - 1) = ?r (H - {n})" "(?l H)(n := initsleeplock) = ?l (H - {n})"
    using n by (auto simp: fun_eq_iff lrefs_def lheld_def)
  with cv have "cview D (s\<lparr>bufs := bs\<rparr>) c (?r (H - {n})) (?l (H - {n}))" by simp
  then have "lview D (s\<lparr>bufs := bs\<rparr>) c bl (H - {n})" by (rule lview_bufs [OF _ v]) blast
  then show ?thesis using 1 k by blast
qed

definition add_block :: "u32 \<Rightarrow> u32 list \<Rightarrow> u32 list" where
  "add_block n bl = (if n \<in> set bl then bl else bl @ [n])"

lemma set_add_block [simp]: "set (add_block n bl) = insert n (set bl)"
  by (auto simp: add_block_def)

lemma distinct_add_block [simp]: "distinct (add_block n bl) = distinct bl"
  by (auto simp: add_block_def)

lemma log_index:
  assumes "take (length bl) (lh_block s) = bl" "lh_n s = int (length bl)" "distinct bl"
  shows "n \<notin> set bl \<Longrightarrow> log_index n s = length bl"
    and "n \<in> set bl \<Longrightarrow> log_index n s < length bl \<and> bl ! log_index n s = n"
proof -
  have i: "log_index n s = length (takeWhile (\<lambda>x. x \<noteq> n) bl)" using assms by (simp add: log_index_def)
  show "n \<notin> set bl \<Longrightarrow> log_index n s = length bl" unfolding i by (induction bl) auto
  show "n \<in> set bl \<Longrightarrow> log_index n s < length bl \<and> bl ! log_index n s = n"
    unfolding i by (induction bl) auto
qed

text \<open>A change to a held buffer, followed by \<^verbatim>\<open>log_write\<close>.\<close>

lemma log_write_lview:
  fixes s :: "'a logst_scheme"
  assumes v: "lview D s c bl H" and h: "handle D s b n" and n: "n \<in> H" "n \<notin> log_area (log_start s)"
    and d: "length d = BSIZE" and cap: "length bl < LOGSIZE" "int (length bl) < log_size s - 1"
    and out: "1 \<le> outstanding s"
  shows "\<exists>bs bn. log_write b (set_data b d s) =
      Ok (s\<lparr>bufs := bs, lh_n := int (length (add_block n bl)), lh_block := bn\<rparr>) \<and>
    lview D (s\<lparr>bufs := bs, lh_n := int (length (add_block n bl)), lh_block := bn\<rparr>) (c(n := d)) (add_block n bl) H \<and>
    kept D s (s\<lparr>bufs := bs, lh_n := int (length (add_block n bl)), lh_block := bn\<rparr>)"
proof -
  let ?r = "\<lambda>bl. lrefs bl H" and ?l = "lheld (mypid s) H"
  obtain b1 where 1: "set_data b d s = s\<lparr>bufs := b1\<rparr>" and cv: "cview D (s\<lparr>bufs := b1\<rparr>) (c(n := d)) (?r bl) ?l"
    and k1: "kept D s (s\<lparr>bufs := b1\<rparr>)"
    using set_data_view [OF lview_cview [OF v] h d] by blast
  have h1: "handle D (s\<lparr>bufs := b1\<rparr>) b n" using keptD [OF k1 cv h] n by (simp add: lrefs_def)
  have bn: "b_blockno (b1 b) = n" using cview_blockno [OF cv h1] by simp
  have t: "take (length bl) (lh_block s) = bl" "lh_n s = int (length bl)" "distinct bl" "length (lh_block s) = LOGSIZE"
    using v by (simp_all add: lview_def)
  note li = log_index [OF t(1-3), of n]
  have li': "log_index n (s\<lparr>bufs := b1\<rparr>) = log_index n s" by (simp add: log_index_def)
  show ?thesis
  proof (cases "n \<in> set bl")
    case True
    then have i: "log_index n s < length bl" "bl ! log_index n s = n" using li by auto
    then have "lh_block s ! log_index n s = n" using t(1) by (metis nth_take)
    then have same: "(lh_block s)[log_index n s := n] = lh_block s" by (metis list_update_id)
    have lw: "log_write b (s\<lparr>bufs := b1\<rparr>) = Ok (s\<lparr>bufs := b1\<rparr>)"
      using cap out i(1) t(2) by (simp add: log_write_def bn li' Let_def same)
    have "lview D (s\<lparr>bufs := b1\<rparr>) (c(n := d)) bl H" using cv v True by (auto simp: lview_def)
    moreover have "s\<lparr>bufs := b1, lh_n := int (length bl), lh_block := lh_block s\<rparr> = s\<lparr>bufs := b1\<rparr>" using t(2) by simp
    ultimately show ?thesis using lw 1 k1 True by (intro exI [of _ b1] exI [of _ "lh_block s"]) (simp add: add_block_def)
  next
    case False
    let ?bn = "(lh_block s)[length bl := n]"
    let ?u = "s\<lparr>bufs := b1, lh_block := ?bn, lh_n := int (length bl) + 1\<rparr>"
    have i: "log_index n s = length bl" using li False by simp
    have cvu: "cview D ?u (c(n := d)) (?r bl) ?l" using cv by (subst cview_cong [of _ "s\<lparr>bufs := b1\<rparr>"]) auto
    have hu: "handle D ?u b n" using h1 by (simp add: handle_def)
    have e: "?r bl n + 1 \<noteq> 0" using False n by (simp add: lrefs_def)
    obtain b2 where 2: "bpin b ?u = ?u\<lparr>bufs := b2\<rparr>"
      and cv2: "cview D (?u\<lparr>bufs := b2\<rparr>) (c(n := d)) ((?r bl)(n := ?r bl n + 1)) ?l" and k2: "kept D ?u (?u\<lparr>bufs := b2\<rparr>)"
      using bpin_view [OF cvu hu e] by auto
    have u: "?u\<lparr>bufs := b2\<rparr> = s\<lparr>bufs := b2, lh_n := int (length (bl @ [n])), lh_block := ?bn\<rparr>" by simp
    have "(?r bl)(n := ?r bl n + 1) = ?r (bl @ [n])" using False by (auto simp: fun_eq_iff lrefs_def)
    with cv2 have cv3: "cview D (s\<lparr>bufs := b2, lh_n := int (length (bl @ [n])), lh_block := ?bn\<rparr>) (c(n := d)) (?r (bl @ [n])) ?l"
      unfolding u by simp
    have "log_write b (s\<lparr>bufs := b1\<rparr>) = Ok (?u\<lparr>bufs := b2\<rparr>)"
      using cap out t(2) 2 by (simp add: log_write_def bn li' Let_def i)
    moreover have "take (length (bl @ [n])) ?bn = bl @ [n]"
      using t(1,4) cap(1) by (simp add: take_Suc_conv_app_nth)
    then have "lview D (s\<lparr>bufs := b2, lh_n := int (length (bl @ [n])), lh_block := ?bn\<rparr>) (c(n := d)) (bl @ [n]) H"
      unfolding lview_def using cv3 v False n t cap(1) by (auto simp: lview_def)
    moreover have "kept D s (?u\<lparr>bufs := b2\<rparr>)"
    proof (rule kept_trans [OF _ k2 lview_cview [OF v] cvu])
      show "kept D s ?u" using k1 cv cvu by (simp add: kept_def cview_def handle_def)
    qed simp
    ultimately show ?thesis using 1 False unfolding u
      by (intro exI [of _ b2] exI [of _ ?bn]) (simp add: add_block_def)
  qed
qed

end
