(* ===== verification/Fs_Tx.thy ===== *)
theory Fs_Tx
  imports Fs Log_Spec
begin

text \<open>
  The file system inside a transaction: reading a block and changing a block through the log, as the
  functions of \<^verbatim>\<open>kernel/fs.c\<close> do it with \<^verbatim>\<open>bread\<close>, \<^verbatim>\<open>log_write\<close> and \<^verbatim>\<open>brelse\<close>. The contents of the blocks
  are a function \<open>c\<close> (see \<open>lview\<close>); the lemmas say how it changes.
\<close>

section \<open>What a transaction changes\<close>

definition tx_frame :: "'a logst_scheme \<Rightarrow> 'a logst_scheme \<Rightarrow> bool" where
  "tx_frame s s' \<longleftrightarrow> (\<exists>bs n lb. s' = s\<lparr>bufs := bs, lh_n := n, lh_block := lb\<rparr>)"

lemma tx_frame_refl [simp]: "tx_frame s s"
  unfolding tx_frame_def by (rule exI [of _ "bufs s"], rule exI [of _ "lh_n s"], rule exI [of _ "lh_block s"]) simp

lemma tx_frame_trans [trans]: "tx_frame s t \<Longrightarrow> tx_frame t u \<Longrightarrow> tx_frame s u"
  unfolding tx_frame_def by (elim exE) (simp, blast)

lemma tx_frame_bufs: "tx_frame s (s\<lparr>bufs := bs\<rparr>)"
  unfolding tx_frame_def by (rule exI [of _ bs], rule exI [of _ "lh_n s"], rule exI [of _ "lh_block s"]) simp

lemma tx_frameD:
  assumes "tx_frame s s'"
  shows "log_start s' = log_start s" "log_size s' = log_size s" "outstanding s' = outstanding s" "log_dev s' = log_dev s"
    "mypid s' = mypid s" "disk_blocks s' = disk_blocks s" "phys s' = phys s" "freelist s' = freelist s" "kend s' = kend s"
  using assms by (auto simp: tx_frame_def)

lemma tx_frame_fs:
  fixes s :: "'a fsst_scheme"
  assumes "tx_frame s s'"
  shows "itable s' = itable s" "sb s' = sb s" "fsst.more s' = fsst.more s"
  using assms by (auto simp: tx_frame_def)

text \<open>
  Space in the log for \<open>n\<close> blocks in all, with two buffers left over for the blocks that an operation
  holds.
\<close>

definition space :: "'a logst_scheme \<Rightarrow> nat \<Rightarrow> bool" where
  "space s n \<longleftrightarrow> n + 2 \<le> NBUF \<and> int n \<le> log_size s - 1 \<and> 1 \<le> outstanding s"

lemma space_mono: "space s n \<Longrightarrow> m \<le> n \<Longrightarrow> space s m"
  by (simp add: space_def)

lemma space_frame: "tx_frame s s' \<Longrightarrow> space s' n \<longleftrightarrow> space s n"
  using tx_frameD(2,3) [of s s'] by (simp add: space_def)

definition tx :: "u32 \<Rightarrow> 'a logst_scheme \<Rightarrow> (u32 \<Rightarrow> block) \<Rightarrow> u32 list \<Rightarrow> u32 set \<Rightarrow> bool" where
  "tx D s c bl H \<longleftrightarrow> lview D s c bl H \<and> finite H \<and> card H \<le> 1"

lemma tx_length: "tx D s c bl H \<Longrightarrow> length (c n) = BSIZE"
  unfolding tx_def using lview_length by blast

text \<open>The buffers of the blocks \<open>H\<close> stay those of the blocks.\<close>

definition txf :: "u32 \<Rightarrow> u32 set \<Rightarrow> 'a logst_scheme \<Rightarrow> 'a logst_scheme \<Rightarrow> bool" where
  "txf D H s s' \<longleftrightarrow> tx_frame s s' \<and> (\<forall>b n. n \<in> H \<longrightarrow> handle D s b n \<longrightarrow> handle D s' b n)"

lemma txf_refl [simp]: "txf D H s s"
  by (simp add: txf_def)

lemma txf_trans [trans]: "txf D H s t \<Longrightarrow> txf D H t u \<Longrightarrow> txf D H s u"
  unfolding txf_def using tx_frame_trans by blast

lemma txf_mono: "txf D H s t \<Longrightarrow> H' \<subseteq> H \<Longrightarrow> txf D H' s t"
  by (auto simp: txf_def)

lemma txfD:
  assumes "txf D H s s'"
  shows "log_start s' = log_start s" "log_size s' = log_size s" "outstanding s' = outstanding s" "log_dev s' = log_dev s"
    "mypid s' = mypid s" "disk_blocks s' = disk_blocks s" "phys s' = phys s" "freelist s' = freelist s" "kend s' = kend s"
    "tx_frame s s'"
  using assms tx_frameD [of s s'] by (simp_all add: txf_def)

lemma txf_fs:
  fixes s :: "'a fsst_scheme"
  assumes "txf D H s s'"
  shows "itable s' = itable s" "sb s' = sb s" "fsst.more s' = fsst.more s"
  using assms tx_frame_fs [of s s'] by (simp_all add: txf_def)

lemma kept_txf:
  assumes "kept D s s'" "lview D s' c bl H'" "H \<subseteq> H'" "tx_frame s s'"
  shows "txf D H s s'"
proof -
  have "handle D s' b n" if "n \<in> H" "handle D s b n" for b n
    by (rule keptD [OF assms(1) lview_cview [OF assms(2)] that(2)]) (use assms(3) that(1) in \<open>auto simp: lrefs_def\<close>)
  then show ?thesis using assms(4) by (simp add: txf_def)
qed

section \<open>Reading and changing a block\<close>

lemma block_hold:
  assumes t: "tx D s c bl H" and n: "n \<notin> H" and r: "length bl + 2 \<le> NBUF"
  obtains b s1 where "bread D n s = Ok (b, s1)" "b_data (bufs s1 b) = c n" "handle D s1 b n" "lview D s1 c bl (insert n H)" "txf D H s s1"
proof -
  have v: "lview D s c bl H" and H: "finite H" "card H \<le> 1" using t by (simp_all add: tx_def)
  have "card (set bl \<union> H) \<le> card (set bl) + card H" by (rule card_Un_le)
  also have "\<dots> \<le> length bl + 1" using H(2) card_length [of bl] by linarith
  finally have "card (set bl \<union> H) < NBUF" using r by simp
  from bread_lview [OF v n disjI2 [OF this]] obtain b bs where
    b: "bread D n s = Ok (b, s\<lparr>bufs := bs\<rparr>)" "lview D (s\<lparr>bufs := bs\<rparr>) c bl (insert n H)"
    "handle D (s\<lparr>bufs := bs\<rparr>) b n" "b_data (bs b) = c n" "kept D s (s\<lparr>bufs := bs\<rparr>)" by blast
  have "txf D H s (s\<lparr>bufs := bs\<rparr>)" by (rule kept_txf [OF b(5,2) _ tx_frame_bufs]) auto
  then show thesis using that [OF b(1) _ b(3,2)] b(4) by simp
qed

lemma block_release:
  assumes v: "lview D s c bl (insert n H)" and h: "handle D s b n" and H: "n \<notin> H" "finite H" "card H \<le> 1"
  obtains s' where "brelse b s = Ok s'" "tx D s' c bl H" "txf D H s s'"
proof -
  from brelse_lview [OF v h] obtain bs where
    b: "brelse b s = Ok (s\<lparr>bufs := bs\<rparr>)" "lview D (s\<lparr>bufs := bs\<rparr>) c bl (insert n H - {n})" "kept D s (s\<lparr>bufs := bs\<rparr>)" by auto
  have e: "insert n H - {n} = H" using H by auto
  have "txf D H s (s\<lparr>bufs := bs\<rparr>)" by (rule kept_txf [OF b(3,2) _ tx_frame_bufs]) (simp add: e)
  moreover have "tx D (s\<lparr>bufs := bs\<rparr>) c bl H" using b(2) e H by (simp add: tx_def)
  ultimately show thesis using that b(1) by blast
qed

lemma block_put:
  assumes v: "lview D s c bl (insert n H)" and h: "handle D s b n" and n: "n \<notin> log_area (log_start s)"
    and d: "length d = BSIZE" and r: "space s (Suc (length bl))"
  obtains s' where "log_write b (set_data b d s) = Ok s'" "lview D s' (c(n := d)) (add_block n bl) (insert n H)"
    "handle D s' b n" "txf D (insert n H) s s'"
proof -
  have cap: "length bl < LOGSIZE" "int (length bl) < log_size s - 1" "1 \<le> outstanding s" using r by (simp_all add: space_def)
  from log_write_lview [OF v h _ n d cap] obtain bs bn where
    b: "log_write b (set_data b d s) = Ok (s\<lparr>bufs := bs, lh_n := int (length (add_block n bl)), lh_block := bn\<rparr>)"
      "lview D (s\<lparr>bufs := bs, lh_n := int (length (add_block n bl)), lh_block := bn\<rparr>) (c(n := d)) (add_block n bl) (insert n H)"
      "kept D s (s\<lparr>bufs := bs, lh_n := int (length (add_block n bl)), lh_block := bn\<rparr>)" by auto
  have f: "txf D (insert n H) s (s\<lparr>bufs := bs, lh_n := int (length (add_block n bl)), lh_block := bn\<rparr>)"
    by (rule kept_txf [OF b(3,2) subset_refl]) (unfold tx_frame_def, blast)
  moreover have "handle D (s\<lparr>bufs := bs, lh_n := int (length (add_block n bl)), lh_block := bn\<rparr>) b n" using f h by (simp add: txf_def)
  ultimately show thesis using that b(1,2) by blast
qed

lemma block_read:
  assumes t: "tx D s c bl H" and n: "n \<notin> H" and r: "length bl + 2 \<le> NBUF"
  obtains b s1 s2 where "bread D n s = Ok (b, s1)" "b_data (bufs s1 b) = c n" "txf D H s s1"
    "brelse b s1 = Ok s2" "tx D s2 c bl H" "txf D H s s2"
proof -
  obtain b s1 where
    1: "bread D n s = Ok (b, s1)" "b_data (bufs s1 b) = c n" "handle D s1 b n" "lview D s1 c bl (insert n H)" "txf D H s s1"
    by (rule block_hold [OF t n r])
  have H: "finite H" "card H \<le> 1" using t by (simp_all add: tx_def)
  obtain s2 where 2: "brelse b s1 = Ok s2" "tx D s2 c bl H" "txf D H s1 s2" by (rule block_release [OF 1(4,3) n H])
  show thesis by (rule that [OF 1(1,2,5) 2(1,2) txf_trans [OF 1(5) 2(3)]])
qed

lemma block_change:
  assumes t: "tx D s c bl H" and n: "n \<notin> H" "n \<notin> log_area (log_start s)" and r: "space s (Suc (length bl))" and d: "length d = BSIZE"
  obtains b s1 s2 s3 where "bread D n s = Ok (b, s1)" "b_data (bufs s1 b) = c n" "txf D H s s1"
    "log_write b (set_data b d s1) = Ok s2" "txf D H s s2" "brelse b s2 = Ok s3" "tx D s3 (c(n := d)) (add_block n bl) H" "txf D H s s3"
proof -
  have r0: "length bl + 2 \<le> NBUF" using r by (simp add: space_def)
  obtain b s1 where
    1: "bread D n s = Ok (b, s1)" "b_data (bufs s1 b) = c n" "handle D s1 b n" "lview D s1 c bl (insert n H)" "txf D H s s1"
    by (rule block_hold [OF t n(1) r0])
  have o1: "n \<notin> log_area (log_start s1)" "space s1 (Suc (length bl))"
    using txfD(1) [OF 1(5)] space_frame [OF txfD(10) [OF 1(5)]] n(2) r by simp_all
  obtain s2 where
    2: "log_write b (set_data b d s1) = Ok s2" "lview D s2 (c(n := d)) (add_block n bl) (insert n H)" "handle D s2 b n"
      "txf D (insert n H) s1 s2" by (rule block_put [OF 1(4,3) o1(1) d o1(2)])
  have f2: "txf D H s s2" using txf_trans [OF 1(5)] txf_mono [OF 2(4)] by blast
  have H: "finite H" "card H \<le> 1" using t by (simp_all add: tx_def)
  obtain s3 where
    3: "brelse b s2 = Ok s3" "tx D s3 (c(n := d)) (add_block n bl) H" "txf D H s2 s3" by (rule block_release [OF 2(2,3) n(1) H])
  show thesis by (rule that [OF 1(1,2,5) 2(1) f2 3(1,2) txf_trans [OF f2 3(3)]])
qed

end
