(* ===== verification/Fs_Blocks.thy ===== *)
theory Fs_Blocks
  imports Fs_Tx
begin

text \<open>
  Block allocation (\<^verbatim>\<open>balloc\<close> and \<^verbatim>\<open>bfree\<close> of \<^verbatim>\<open>kernel/fs.c\<close>) against the set of blocks that the bitmap marks.
  The file system has one bitmap block, as the one that \<^verbatim>\<open>mkfs\<close> makes with \<^verbatim>\<open>FSSIZE\<close> blocks.
\<close>

section \<open>The bitmap\<close>

text \<open>
  Boot block, superblock, log, inodes and bitmap come before the data blocks; the bitmap has a bit for
  every block.
\<close>

definition fs_layout :: "superblock \<Rightarrow> u32 \<Rightarrow> bool" where
  "fs_layout x start \<longleftrightarrow> unat (sb_size x) \<le> BPB \<and> sb_bmapstart x < sb_size x \<and>
     (\<forall>b\<in>log_area start. b < sb_bmapstart x) \<and>
     (\<forall>inum < sb_ninodes x. 0 < IBLOCK inum x \<and> IBLOCK inum x < sb_bmapstart x \<and> IBLOCK inum x \<notin> log_area start)"

definition marked :: "(u32 \<Rightarrow> block) \<Rightarrow> superblock \<Rightarrow> u32 \<Rightarrow> bool" where
  "marked c x b \<longleftrightarrow> bit (c (sb_bmapstart x) ! (unat b div 8)) (unat b mod 8)"

definition meta_marked :: "(u32 \<Rightarrow> block) \<Rightarrow> superblock \<Rightarrow> bool" where
  "meta_marked c x \<longleftrightarrow> (\<forall>b \<le> sb_bmapstart x. marked c x b)"

definition with_mark :: "(u32 \<Rightarrow> block) \<Rightarrow> superblock \<Rightarrow> u32 \<Rightarrow> u32 \<Rightarrow> block" where
  "with_mark c x b = (let m = sb_bmapstart x; i = unat b div 8
     in c(m := (c m)[i := c m ! i OR bmask (unat b)]))"

definition without_mark :: "(u32 \<Rightarrow> block) \<Rightarrow> superblock \<Rightarrow> u32 \<Rightarrow> u32 \<Rightarrow> block" where
  "without_mark c x b = (let m = sb_bmapstart x; i = unat b div 8
     in c(m := (c m)[i := c m ! i AND NOT (bmask (unat b))]))"

lemma bmask_and: "w AND bmask i \<noteq> 0 \<longleftrightarrow> bit w (i mod 8)"
  by (simp add: bmask_def bit_iff_and_push_bit_not_eq_0)

lemma bit_bmask: "bit (bmask i) k \<longleftrightarrow> k = i mod 8"
  by (auto simp: bmask_def bit_exp_iff possible_bit_word)

lemma div_mod_8: "i div 8 = j div 8 \<and> i mod 8 = j mod 8 \<longleftrightarrow> i = j" for i j :: nat
  by (metis div_mult_mod_eq)

lemma mark_eq: "unat a div 8 = unat b div 8 \<and> unat a mod 8 = unat b mod 8 \<longleftrightarrow> a = b" for a b :: u32
  unfolding div_mod_8 by (rule word_unat_eq_iff [symmetric])

lemma marked_with_mark:
  assumes "length (c (sb_bmapstart x)) = BSIZE" "unat b < BPB"
  shows "marked (with_mark c x b) x a \<longleftrightarrow> a = b \<or> marked c x a"
proof -
  let ?m = "sb_bmapstart x"
  have "unat b div 8 < length (c ?m)" using assms by simp
  then have "marked (with_mark c x b) x a \<longleftrightarrow>
      bit (if unat b div 8 = unat a div 8 then c ?m ! (unat b div 8) OR bmask (unat b) else c ?m ! (unat a div 8)) (unat a mod 8)"
    by (simp add: marked_def with_mark_def Let_def nth_list_update)
  also have "\<dots> \<longleftrightarrow> (unat a div 8 = unat b div 8 \<and> unat a mod 8 = unat b mod 8) \<or> marked c x a"
    by (auto simp: marked_def bit_or_iff bit_bmask)
  finally show ?thesis unfolding mark_eq .
qed

lemma marked_without_mark:
  assumes "length (c (sb_bmapstart x)) = BSIZE" "unat b < BPB"
  shows "marked (without_mark c x b) x a \<longleftrightarrow> a \<noteq> b \<and> marked c x a"
proof -
  let ?m = "sb_bmapstart x"
  have "unat b div 8 < length (c ?m)" using assms by simp
  then have "marked (without_mark c x b) x a \<longleftrightarrow>
      bit (if unat b div 8 = unat a div 8 then c ?m ! (unat b div 8) AND NOT (bmask (unat b)) else c ?m ! (unat a div 8)) (unat a mod 8)"
    by (simp add: marked_def without_mark_def Let_def nth_list_update)
  also have "\<dots> \<longleftrightarrow> \<not> (unat a div 8 = unat b div 8 \<and> unat a mod 8 = unat b mod 8) \<and> marked c x a"
    by (auto simp: marked_def bit_and_iff bit_not_iff bit_bmask)
  finally show ?thesis unfolding mark_eq .
qed

lemma BBLOCK_one: "unat b < BPB \<Longrightarrow> BBLOCK b x = sb_bmapstart x"
proof -
  assume "unat b < BPB"
  then have "b div of_nat BPB = 0" by (intro word_unat_eq_iff [THEN iffD2]) (simp add: unat_div)
  then show ?thesis by (simp add: BBLOCK_def)
qed

section \<open>Allocation\<close>

definition balloc_view :: "(u32 \<Rightarrow> block) \<Rightarrow> superblock \<Rightarrow> u32 \<Rightarrow> u32 \<Rightarrow> block" where
  "balloc_view c x b = (with_mark c x b)(b := replicate BSIZE 0)"

lemma balloc_ok:
  fixes s :: "'a fsst_scheme"
  assumes t: "tx D s c bl H" and r: "space s (Suc (length (add_block (sb_bmapstart (sb s)) bl)))" and l: "fs_layout (sb s) (log_start s)" and m: "meta_marked c (sb s)"
    and H: "sb_bmapstart (sb s) \<notin> H" "\<forall>b\<in>H. marked c (sb s) b"
  shows "\<exists>b s'. balloc D s = Ok (b, s') \<and> txf D H s s' \<and>
    (b = 0 \<and> (\<forall>a < sb_size (sb s). marked c (sb s) a) \<and> tx D s' c bl H \<or>
     sb_bmapstart (sb s) < b \<and> b < sb_size (sb s) \<and> \<not> marked c (sb s) b \<and> (\<forall>a<b. marked c (sb s) a) \<and>
       tx D s' (balloc_view c (sb s) b) (add_block b (add_block (sb_bmapstart (sb s)) bl)) H)"
proof -
  let ?x = "sb s" and ?m = "sb_bmapstart (sb s)"
  have sz: "unat (sb_size ?x) \<le> BPB" "?m < sb_size ?x" using l by (simp_all add: fs_layout_def)
  have len: "length (c ?m) = BSIZE" by (rule tx_length [OF t])
  have "0 < unat (sb_size ?x)" using sz(2) by (metis gr_zeroI unat_0_iff word_not_simps(1))
  then have "(unat (sb_size ?x) + BPB - 1) div BPB = 1" using sz(1) by (intro div_nat_eqI) simp_all
  then have bs: "map (\<lambda>i. i * BPB) [0..<(unat (sb_size ?x) + BPB - 1) div BPB] = [0]" by simp
  have bb: "BBLOCK (of_nat 0) ?x = ?m" by (rule BBLOCK_one) simp
  let ?free = "\<lambda>bi. 0 + bi < unat (sb_size ?x) \<and> c ?m ! (bi div 8) AND bmask bi = 0"
  have mk: "c ?m ! (unat b div 8) AND bmask (unat b) = 0 \<longleftrightarrow> \<not> marked c ?x b" for b
    using bmask_and by (auto simp: marked_def)
  have "space s (Suc (length bl))" by (rule space_mono [OF r]) (simp add: add_block_def)
  then have r1: "space s (Suc (length bl))" "length bl + 2 \<le> NBUF" by (simp_all add: space_def)
  show ?thesis
  proof (cases "find ?free [0..<BPB]")
    case None
    from block_read [OF t H(1) r1(2)] obtain b s1 s2 where
      1: "bread D ?m s = Ok (b, s1)" "b_data (bufs s1 b) = c ?m" "txf D H s s1" "brelse b s1 = Ok s2" "tx D s2 c bl H" "txf D H s s2" by blast
    have "balloc D s = Ok (0, s2)" unfolding balloc_def bs
      using 1 None txf_fs(2) [OF 1(3)] bb by (simp add: Let_def del: BPB_def)
    moreover have "marked c ?x a" if "a < sb_size ?x" for a
    proof -
      have "unat a < unat (sb_size ?x)" using that by (simp add: word_less_nat_alt)
      then show ?thesis using None sz(1) mk [of a] unfolding find_upt_None by auto
    qed
    ultimately show ?thesis using 1(5,6) by blast
  next
    case (Some bi)
    then have bi: "bi < BPB" "bi < unat (sb_size ?x)" "c ?m ! (bi div 8) AND bmask bi = 0" "\<forall>j<bi. \<not> ?free j"
      unfolding find_upt_Some by simp_all
    define b :: u32 where "b = of_nat bi"
    have ub: "unat b = bi" using bi(1) unfolding b_def by (intro unat_of_nat_u32) simp
    have free: "\<not> marked c ?x b" using bi(3) mk [of b] by (simp add: ub)
    have low: "marked c ?x a" if "a < b" for a
    proof -
      have "unat a < bi" using that ub by (simp add: word_less_nat_alt)
      then show ?thesis using bi(2,4) mk [of a] by auto
    qed
    have mb: "?m < b" using m free by (metis meta_marked_def not_le)
    have bH: "b \<notin> H" using H(2) free by blast
    have nl: "?m \<notin> log_area (log_start s)" "b \<notin> log_area (log_start s)" using l mb by (auto simp: fs_layout_def)
    let ?d = "(c ?m)[bi div 8 := c ?m ! (bi div 8) OR bmask bi]"
    have ld: "length ?d = BSIZE" using len by simp
    obtain b1 s1 s2 s3 where
      1: "bread D ?m s = Ok (b1, s1)" "b_data (bufs s1 b1) = c ?m" "txf D H s s1" "log_write b1 (set_data b1 ?d s1) = Ok s2"
        "txf D H s s2" "brelse b1 s2 = Ok s3" "tx D s3 (c(?m := ?d)) (add_block ?m bl) H" "txf D H s s3"
      by (rule block_change [OF t H(1) nl(1) r1(1) ld])
    have nl3: "b \<notin> log_area (log_start s3)" using nl(2) txfD(1) [OF 1(8)] by simp
    have r3: "space s3 (Suc (length (add_block ?m bl)))" using space_frame [OF txfD(10) [OF 1(8)]] r by simp
    have z: "length (replicate BSIZE 0 :: block) = BSIZE" by simp
    obtain b2 t1 t2 t3 where
      2: "bread D b s3 = Ok (b2, t1)" "b_data (bufs t1 b2) = (c(?m := ?d)) b" "txf D H s3 t1"
        "log_write b2 (set_data b2 (replicate BSIZE 0) t1) = Ok t2" "txf D H s3 t2" "brelse b2 t2 = Ok t3"
        "tx D t3 ((c(?m := ?d))(b := replicate BSIZE 0)) (add_block b (add_block ?m bl)) H" "txf D H s3 t3"
      by (rule block_change [OF 1(7) bH nl3 r3 z])
    have "bzero D b s3 = Ok t3" using 2 by (simp add: bzero_def)
    then have "balloc D s = Ok (b, t3)" unfolding balloc_def bs
      using 1 Some txf_fs(2) [OF 1(3)] bb by (simp add: Let_def b_def del: BPB_def)
    moreover have "(c(?m := ?d))(b := replicate BSIZE 0) = balloc_view c ?x b" by (simp add: balloc_view_def with_mark_def Let_def ub)
    ultimately show ?thesis using 2(7) txf_trans [OF 1(8) 2(8)] mb free low bi(2) ub by (auto simp: word_less_nat_alt)
  qed
qed

lemma marked_balloc:
  assumes "length (c (sb_bmapstart x)) = BSIZE" "unat b < BPB" "sb_bmapstart x < b"
  shows "marked (balloc_view c x b) x a \<longleftrightarrow> a = b \<or> marked c x a"
proof -
  have "marked (balloc_view c x b) x a \<longleftrightarrow> marked (with_mark c x b) x a"
    using less_imp_neq [OF assms(3)] by (simp add: marked_def balloc_view_def)
  then show ?thesis using marked_with_mark [of c x b a] assms by simp
qed

lemma bfree_ok:
  fixes s :: "'a fsst_scheme"
  assumes t: "tx D s c bl H" and r: "space s (Suc (length bl))" and l: "fs_layout (sb s) (log_start s)"
    and H: "sb_bmapstart (sb s) \<notin> H" and b: "unat b < BPB"
  shows "if marked c (sb s) b
    then \<exists>s'. bfree D b s = Ok s' \<and> txf D H s s' \<and> tx D s' (without_mark c (sb s) b) (add_block (sb_bmapstart (sb s)) bl) H
    else bfree D b s = Panic ''freeing free block''"
proof -
  let ?m = "sb_bmapstart (sb s)"
  have mk: "c ?m ! (unat b div 8) AND bmask (unat b) = 0 \<longleftrightarrow> \<not> marked c (sb s) b"
    using bmask_and by (auto simp: marked_def)
  have nl: "?m \<notin> log_area (log_start s)" using l by (auto simp: fs_layout_def)
  let ?d = "(c ?m)[unat b div 8 := c ?m ! (unat b div 8) AND NOT (bmask (unat b))]"
  have ld: "length ?d = BSIZE" using tx_length [OF t] by simp
  obtain b1 s1 s2 s3 where
    1: "bread D ?m s = Ok (b1, s1)" "b_data (bufs s1 b1) = c ?m" "txf D H s s1" "log_write b1 (set_data b1 ?d s1) = Ok s2"
      "txf D H s s2" "brelse b1 s2 = Ok s3" "tx D s3 (c(?m := ?d)) (add_block ?m bl) H" "txf D H s s3"
    by (rule block_change [OF t H nl r ld])
  have i: "unat b mod BPB = unat b" using b by simp
  have "bfree D b s = (if marked c (sb s) b then Ok s3 else Panic ''freeing free block'')"
    unfolding bfree_def BBLOCK_one [OF b] i using 1(1,2,4,6) mk by (simp add: Let_def)
  moreover have "c(?m := ?d) = without_mark c (sb s) b" by (simp add: without_mark_def Let_def)
  ultimately show ?thesis using 1(7,8) by simp
qed

end
