(* ===== verification/Fs_Files.thy ===== *)
theory Fs_Files
  imports Fs_Blocks
begin

text \<open>
  The contents of files: \<^verbatim>\<open>bmap\<close>, \<^verbatim>\<open>readi\<close> and \<^verbatim>\<open>writei\<close> of \<^verbatim>\<open>kernel/fs.c\<close> over the block view of a
  transaction. \<open>faddr c as k\<close> is the block that holds block \<open>k\<close> of a file with the block numbers \<open>as\<close>
  in its inode, or 0.
\<close>

section \<open>Blocks of a file\<close>

definition faddr :: "(u32 \<Rightarrow> block) \<Rightarrow> u32 list \<Rightarrow> nat \<Rightarrow> u32" where
  "faddr c as k = (if k < NDIRECT then as ! k
     else if as ! NDIRECT = 0 then 0 else get32 (4 * (k - NDIRECT)) (c (as ! NDIRECT)))"

definition data_block :: "superblock \<Rightarrow> (u32 \<Rightarrow> block) \<Rightarrow> u32 \<Rightarrow> bool" where
  "data_block x c b \<longleftrightarrow> sb_bmapstart x < b \<and> b < sb_size x \<and> marked c x b"

text \<open>The blocks of a file are allocated data blocks, and no block is used twice.\<close>

definition file_ok :: "superblock \<Rightarrow> (u32 \<Rightarrow> block) \<Rightarrow> u32 list \<Rightarrow> bool" where
  "file_ok x c as \<longleftrightarrow> length as = NDIRECT + 1 \<and> (as ! NDIRECT \<noteq> 0 \<longrightarrow> data_block x c (as ! NDIRECT)) \<and>
     (\<forall>k<MAXFILE. faddr c as k \<noteq> 0 \<longrightarrow> data_block x c (faddr c as k) \<and> faddr c as k \<noteq> as ! NDIRECT \<and>
       (\<forall>j<MAXFILE. faddr c as j = faddr c as k \<longrightarrow> j = k))"

text \<open>
  What the allocation of block \<open>k\<close> of a file does: it gets a block that was free and is all zero now; the
  other blocks of the file, and of all other files, stay as they are.
\<close>

definition grows :: "superblock \<Rightarrow> nat \<Rightarrow> (u32 \<Rightarrow> block) \<Rightarrow> u32 list \<Rightarrow> (u32 \<Rightarrow> block) \<Rightarrow> u32 list \<Rightarrow> bool" where
  "grows x k c as c' as' \<longleftrightarrow> file_ok x c' as' \<and> meta_marked c' x \<and>
     (\<forall>b. marked c x b \<longrightarrow> marked c' x b \<and> (b \<noteq> sb_bmapstart x \<and> b \<noteq> as ! NDIRECT \<longrightarrow> c' b = c b)) \<and>
     (\<forall>j<MAXFILE. j \<noteq> k \<longrightarrow> faddr c' as' j = faddr c as j) \<and>
     (faddr c as k \<noteq> 0 \<longrightarrow> c' = c \<and> as' = as) \<and>
     (faddr c as k = 0 \<and> faddr c' as' k \<noteq> 0 \<longrightarrow> c' (faddr c' as' k) = replicate BSIZE 0 \<and> \<not> marked c x (faddr c' as' k)) \<and>
     (as ! NDIRECT \<noteq> 0 \<longrightarrow> as' ! NDIRECT = as ! NDIRECT) \<and>
     (as' ! NDIRECT = as ! NDIRECT \<or> \<not> marked c x (as' ! NDIRECT))"

section \<open>Frames\<close>

definition set_addrs :: "nat \<Rightarrow> u32 list \<Rightarrow> 'a fsst_scheme \<Rightarrow> 'a fsst_scheme" where
  "set_addrs i as s = upd_inode i (\<lambda>x. x\<lparr>i_addrs := as\<rparr>) s"

lemma set_addrs_fields [simp]:
  "bufs (set_addrs i as s) = bufs s" "log_start (set_addrs i as s) = log_start s" "log_size (set_addrs i as s) = log_size s"
  "outstanding (set_addrs i as s) = outstanding s" "sb (set_addrs i as s) = sb s" "phys (set_addrs i as s) = phys s"
  "freelist (set_addrs i as s) = freelist s" "kend (set_addrs i as s) = kend s" "mypid (set_addrs i as s) = mypid s"
  "itable (set_addrs i as s) = (itable s)(i := (itable s i)\<lparr>i_addrs := as\<rparr>)" "fsst.more (set_addrs i as s) = fsst.more s"
  by (simp_all add: set_addrs_def upd_inode_def)

lemma set_addrs_twice [simp]: "set_addrs i as' (set_addrs i as s) = set_addrs i as' s"
  by (simp add: set_addrs_def upd_inode_def)

lemma set_addrs_id [simp]: "set_addrs i (i_addrs (itable s i)) s = s"
  by (simp add: set_addrs_def upd_inode_def)

lemma set_addr_set_addrs: "set_addr i k a s = set_addrs i ((i_addrs (itable s i))[k := a]) s"
  by (simp add: set_addr_def set_addrs_def upd_inode_def)

lemma tx_frame_upd: "tx_frame s s' \<Longrightarrow> tx_frame (upd_inode i f s) (upd_inode i f s')"
proof -
  assume "tx_frame s s'"
  then obtain bs n lb where s': "s' = s\<lparr>bufs := bs, lh_n := n, lh_block := lb\<rparr>" by (auto simp: tx_frame_def)
  have "upd_inode i f s' = (upd_inode i f s)\<lparr>bufs := bs, lh_n := n, lh_block := lb\<rparr>"
    unfolding s' by (cases s) (simp add: upd_inode_def)
  then show ?thesis unfolding tx_frame_def by blast
qed

lemma handle_upd_inode [simp]: "handle D (upd_inode i f s) b n = handle D s b n"
  by (simp add: handle_def upd_inode_def)

lemma lview_upd_inode [simp]: "lview D (upd_inode i f s) c bl H = lview D s c bl H"
proof -
  have "cview D (upd_inode i f s) c r l = cview D s c r l" for r l by (rule cview_cong) (simp_all add: upd_inode_def)
  then show ?thesis by (simp add: lview_def upd_inode_def)
qed

lemma tx_set_addrs [simp]: "tx D (set_addrs i as s) c bl H = tx D s c bl H"
  by (simp add: tx_def set_addrs_def)

lemma txf_set_addrs: "txf D H s s' \<Longrightarrow> txf D H (set_addrs i as s) (set_addrs i as s')"
  unfolding txf_def set_addrs_def using tx_frame_upd by (metis handle_upd_inode)

section \<open>Growing a file\<close>

lemma data_blockD:
  assumes "data_block x c b"
  shows "b \<noteq> sb_bmapstart x" "sb_bmapstart x < b" "b < sb_size x" "marked c x b" "b \<noteq> 0"
proof -
  show 1: "sb_bmapstart x < b" "b < sb_size x" "marked c x b" using assms by (simp_all add: data_block_def)
  show "b \<noteq> sb_bmapstart x" "b \<noteq> 0" using 1(1) by auto
qed

lemma file_okD:
  assumes "file_ok x c as"
  shows "length as = NDIRECT + 1" "as ! NDIRECT \<noteq> 0 \<Longrightarrow> data_block x c (as ! NDIRECT)"
    "k < MAXFILE \<Longrightarrow> faddr c as k \<noteq> 0 \<Longrightarrow> data_block x c (faddr c as k)"
    "k < MAXFILE \<Longrightarrow> faddr c as k \<noteq> 0 \<Longrightarrow> faddr c as k \<noteq> as ! NDIRECT"
    "k < MAXFILE \<Longrightarrow> j < MAXFILE \<Longrightarrow> faddr c as k \<noteq> 0 \<Longrightarrow> faddr c as j = faddr c as k \<Longrightarrow> j = k"
  using assms unfolding file_ok_def by blast+

text \<open>A free block becomes block \<open>k\<close> of a file, or its block of block numbers.\<close>

definition newly :: "superblock \<Rightarrow> (u32 \<Rightarrow> block) \<Rightarrow> (u32 \<Rightarrow> block) \<Rightarrow> u32 \<Rightarrow> bool" where
  "newly x c c' b \<longleftrightarrow> sb_bmapstart x < b \<and> b < sb_size x \<and> \<not> marked c x b \<and> (\<forall>a. marked c' x a \<longleftrightarrow> a = b \<or> marked c x a)"

lemma newly_data: "newly x c c' b \<Longrightarrow> data_block x c' a \<longleftrightarrow> a = b \<or> data_block x c a"
  by (auto simp: newly_def data_block_def)

lemma newly_meta: "newly x c c' b \<Longrightarrow> meta_marked c x \<Longrightarrow> meta_marked c' x"
  by (auto simp: newly_def meta_marked_def)

lemma newly_not_data: "newly x c c' b \<Longrightarrow> \<not> data_block x c b"
  by (auto simp: newly_def data_block_def)

lemma file_ok_data:
  assumes f: "file_ok x c as" and n: "newly x c c' b" and l: "length as' = length as" "as' ! NDIRECT = as ! NDIRECT"
    and a: "\<And>j. j < MAXFILE \<Longrightarrow> faddr c' as' j = (if j = k then b else faddr c as j)"
  shows "file_ok x c' as'"
proof -
  note F = file_okD [OF f] and N = newly_data [OF n] newly_not_data [OF n]
  have b: "b \<noteq> as ! NDIRECT" if "as ! NDIRECT \<noteq> 0" using F(2) [OF that] N(2) by auto
  have b0: "b \<noteq> 0" using n unfolding newly_def by auto
  have bi: "b \<noteq> as ! NDIRECT" using b b0 by metis
  have bj: "faddr c as j \<noteq> b" if "j < MAXFILE" for j using F(3) [OF that] N(2) b0 by metis
  show ?thesis unfolding file_ok_def
  proof (intro conjI allI impI)
    show "length as' = NDIRECT + 1" using F(1) l by simp
    show "data_block x c' (as' ! NDIRECT)" if "as' ! NDIRECT \<noteq> 0" using F(2) that l(2) N(1) by simp
    fix m assume m: "m < MAXFILE" "faddr c' as' m \<noteq> 0"
    show "data_block x c' (faddr c' as' m)" using m F(3) [OF m(1)] N(1) a [OF m(1)] by metis
    show "faddr c' as' m \<noteq> as' ! NDIRECT" using m F(4) [OF m(1)] a [OF m(1)] bi l(2) by metis
    show "j = m" if "j < MAXFILE" "faddr c' as' j = faddr c' as' m" for j
      using that m a [OF m(1)] a [OF that(1)] bj F(5) [OF m(1) that(1)] by metis
  qed
qed

lemma file_ok_indirect:
  assumes f: "file_ok x c as" and n: "newly x c c' b" and l: "length as' = length as" "as ! NDIRECT = 0" "as' ! NDIRECT = b"
    and a: "\<And>j. j < MAXFILE \<Longrightarrow> faddr c' as' j = faddr c as j"
  shows "file_ok x c' as'"
proof -
  note F = file_okD [OF f] and N = newly_data [OF n] newly_not_data [OF n]
  show ?thesis unfolding file_ok_def
  proof (intro conjI allI impI)
    show "length as' = NDIRECT + 1" using F(1) l by simp
    show "data_block x c' (as' ! NDIRECT)" using l(3) N(1) by simp
    fix m assume m: "m < MAXFILE" "faddr c' as' m \<noteq> 0"
    show "data_block x c' (faddr c' as' m)" using m F(3) [OF m(1)] N(1) a [OF m(1)] by metis
    show "faddr c' as' m \<noteq> as' ! NDIRECT" using m F(3) [OF m(1)] a [OF m(1)] N(2) l(3) by metis
    show "j = m" if "j < MAXFILE" "faddr c' as' j = faddr c' as' m" for j
      using that m a [OF m(1)] a [OF that(1)] F(5) [OF m(1) that(1)] by metis
  qed
qed

lemma newly_balloc:
  assumes "length (c (sb_bmapstart x)) = BSIZE" "unat (sb_size x) \<le> BPB" "sb_bmapstart x < b" "b < sb_size x" "\<not> marked c x b"
    "c' (sb_bmapstart x) = balloc_view c x b (sb_bmapstart x)"
  shows "newly x c c' b"
proof -
  have "unat b < BPB" using assms(2,4) by (simp add: word_less_nat_alt)
  moreover have "marked c' x a \<longleftrightarrow> marked (balloc_view c x b) x a" for a using assms(6) by (simp add: marked_def)
  ultimately show ?thesis using marked_balloc [of c x b] assms by (simp add: newly_def)
qed

lemma get32_zero: "off + 4 \<le> n \<Longrightarrow> get32 off (replicate n 0) = 0"
  by (simp add: get32_def slice_def word32_def)

lemma get32_put32: "j < NINDIRECT \<Longrightarrow> k < NINDIRECT \<Longrightarrow> length d = BSIZE \<Longrightarrow>
    get32 (4 * j) (put32 (4 * k) a d) = (if j = k then a else get32 (4 * j) d)"
  by (cases "j = k") (auto intro: get32_put32_other)

lemma grows_refl: "file_ok x c as \<Longrightarrow> meta_marked c x \<Longrightarrow> grows x k c as c as"
  by (simp add: grows_def)

lemma growsD:
  assumes "grows x k c as c' as'"
  shows "file_ok x c' as'" "meta_marked c' x" "marked c x b \<Longrightarrow> marked c' x b"
    "marked c x b \<Longrightarrow> b \<noteq> sb_bmapstart x \<Longrightarrow> b \<noteq> as ! NDIRECT \<Longrightarrow> c' b = c b"
    "j < MAXFILE \<Longrightarrow> j \<noteq> k \<Longrightarrow> faddr c' as' j = faddr c as j"
    "faddr c as k \<noteq> 0 \<Longrightarrow> c' = c" "faddr c as k \<noteq> 0 \<Longrightarrow> as' = as"
    "faddr c as k = 0 \<Longrightarrow> faddr c' as' k \<noteq> 0 \<Longrightarrow> c' (faddr c' as' k) = replicate BSIZE 0"
    "faddr c as k = 0 \<Longrightarrow> faddr c' as' k \<noteq> 0 \<Longrightarrow> \<not> marked c x (faddr c' as' k)"
    "as ! NDIRECT \<noteq> 0 \<Longrightarrow> as' ! NDIRECT = as ! NDIRECT"
    "as' ! NDIRECT = as ! NDIRECT \<or> \<not> marked c x (as' ! NDIRECT)"
  using assms unfolding grows_def by blast+

lemma grows_trans:
  assumes a: "grows x k c as c1 as1" and b: "grows x k c1 as1 c2 as2"
  shows "grows x k c as c2 as2"
proof -
  note A = growsD [OF a] and B = growsD [OF b]
  have 1: "c2 b = c b" if "marked c x b" "b \<noteq> sb_bmapstart x" "b \<noteq> as ! NDIRECT" for b
    using A(3,4) [OF that(1)] B(4) [of b] A(11) that by metis
  have 2: "c2 (faddr c2 as2 k) = replicate BSIZE 0 \<and> \<not> marked c x (faddr c2 as2 k)" if "faddr c as k = 0" "faddr c2 as2 k \<noteq> 0"
  proof (cases "faddr c1 as1 k = 0")
    case True
    then show ?thesis using B(8,9) that(2) A(3) by metis
  next
    case False
    then show ?thesis using A(8,9) that B(6,7) by metis
  qed
  have 3: "as2 ! NDIRECT = as ! NDIRECT \<or> \<not> marked c x (as2 ! NDIRECT)" using A(3,11) B(11) by metis
  have 4: "faddr c2 as2 j = faddr c as j" if "j < MAXFILE" "j \<noteq> k" for j using A(5) [OF that] B(5) [OF that] by simp
  have 5: "c2 = c \<and> as2 = as" if "faddr c as k \<noteq> 0" using A(6,7) [OF that] B(6,7) that by simp
  have 6: "as2 ! NDIRECT = as ! NDIRECT" if "as ! NDIRECT \<noteq> 0" using A(10) [OF that] B(10) that by simp
  show ?thesis unfolding grows_def using B(1,2) A(3) B(3) 1 2 3 4 5 6 by blast
qed

lemma grows_direct:
  assumes f: "file_ok x c as" and m: "meta_marked c x" and n: "newly x c (balloc_view c x b) b"
    and k: "k < NDIRECT" "as ! k = 0"
  shows "grows x k c as (balloc_view c x b) (as[k := b])" "faddr (balloc_view c x b) (as[k := b]) k = b"
proof -
  let ?c = "balloc_view c x b" and ?as = "as[k := b]"
  note F = file_okD [OF f]
  have b: "\<not> marked c x b" "b \<noteq> 0" "b \<noteq> sb_bmapstart x" using n by (auto simp: newly_def)
  have same: "?c a = c a" if "a \<noteq> sb_bmapstart x" "a \<noteq> b" for a using that by (simp add: balloc_view_def with_mark_def Let_def)
  have ind: "?c (as ! NDIRECT) = c (as ! NDIRECT)" if "as ! NDIRECT \<noteq> 0"
    using data_blockD [OF F(2) [OF that]] b(1) same by metis
  have l: "length ?as = length as" "?as ! NDIRECT = as ! NDIRECT" using k(1) by simp_all
  have a: "faddr ?c ?as j = (if j = k then b else faddr c as j)" if "j < MAXFILE" for j
    using k(1) F(1) ind l(2) by (simp add: faddr_def nth_list_update)
  have fo: "file_ok x ?c ?as" by (rule file_ok_data [OF f n l a])
  have k0: "faddr c as k = 0" "k < MAXFILE" using k by (simp_all add: faddr_def)
  have "?c b = replicate BSIZE 0" by (simp add: balloc_view_def)
  then show "grows x k c as ?c ?as" "faddr ?c ?as k = b"
    unfolding grows_def using fo newly_meta [OF n m] same b a [OF k0(2)] a k0(1) l(2) n unfolding newly_def by auto
qed

lemma grows_ind:
  assumes f: "file_ok x c as" and m: "meta_marked c x" and n: "newly x c (balloc_view c x b) b"
    and k: "NDIRECT \<le> k" "k < MAXFILE" "as ! NDIRECT = 0"
  shows "grows x k c as (balloc_view c x b) (as[NDIRECT := b])" "faddr (balloc_view c x b) (as[NDIRECT := b]) k = 0"
proof -
  let ?c = "balloc_view c x b" and ?as = "as[NDIRECT := b]"
  note F = file_okD [OF f]
  have b: "\<not> marked c x b" "b \<noteq> 0" "b \<noteq> sb_bmapstart x" using n by (auto simp: newly_def)
  have same: "?c a = c a" if "a \<noteq> sb_bmapstart x" "a \<noteq> b" for a using that by (simp add: balloc_view_def with_mark_def Let_def)
  have l: "length ?as = length as" "?as ! NDIRECT = b" using F(1) by simp_all
  have z: "get32 (4 * (j - NDIRECT)) (?c b) = 0" if "j < MAXFILE" for j
    using that unfolding balloc_view_def by (simp add: get32_zero)
  have a: "faddr ?c ?as j = faddr c as j" if "j < MAXFILE" for j
    using F(1) l(2) z [OF that] k(3) by (simp add: faddr_def nth_list_update)
  have fo: "file_ok x ?c ?as" by (rule file_ok_indirect [OF f n l(1) k(3) l(2) a])
  have k0: "faddr c as k = 0" using k by (simp add: faddr_def)
  show "grows x k c as ?c ?as"
    unfolding grows_def using fo newly_meta [OF n m] same b a k(2,3) k0 l(2) n unfolding newly_def by auto
  show "faddr ?c ?as k = 0" using a k k0 by simp
qed

lemma grows_indirect:
  assumes f: "file_ok x c as" and m: "meta_marked c x" and n: "newly x c (balloc_view c x b) b"
    and k: "NDIRECT \<le> k" "k < MAXFILE" "as ! NDIRECT \<noteq> 0" "faddr c as k = 0" and len: "\<And>a. length (c a) = BSIZE"
    and c': "c' = (balloc_view c x b)(as ! NDIRECT := put32 (4 * (k - NDIRECT)) b (c (as ! NDIRECT)))"
  shows "grows x k c as c' as" "faddr c' as k = b"
proof -
  let ?i = "as ! NDIRECT"
  note F = file_okD [OF f]
  have b: "\<not> marked c x b" "b \<noteq> 0" "b \<noteq> sb_bmapstart x" using n by (auto simp: newly_def)
  note I = data_blockD [OF F(2) [OF k(3)]]
  have bi: "b \<noteq> ?i" using I(4) b(1) by auto
  have same: "c' a = c a" if "a \<noteq> sb_bmapstart x" "a \<noteq> b" "a \<noteq> ?i" for a
    using that by (simp add: c' balloc_view_def with_mark_def Let_def)
  have zero: "c' b = replicate BSIZE 0" using bi by (simp add: c' balloc_view_def)
  have mk: "marked c' x a \<longleftrightarrow> marked (balloc_view c x b) x a" for a using I(1) by (simp add: marked_def c')
  have n': "newly x c c' b" using n by (simp add: newly_def mk)
  have a: "faddr c' as j = (if j = k then b else faddr c as j)" if "j < MAXFILE" for j
  proof (cases "j < NDIRECT")
    case True
    then show ?thesis using k(1) by (simp add: faddr_def)
  next
    case False
    then have "j - NDIRECT < NINDIRECT" "k - NDIRECT < NINDIRECT" "j - NDIRECT = k - NDIRECT \<longleftrightarrow> j = k" using that k(1,2) by auto
    then show ?thesis using False k(3) get32_put32 [OF _ _ len] by (simp add: faddr_def c')
  qed
  have fo: "file_ok x c' as" by (rule file_ok_data [OF f n' refl refl a])
  show "grows x k c as c' as"
    unfolding grows_def using fo newly_meta [OF n' m] same b a k zero n' unfolding newly_def by auto
  show "faddr c' as k = b" using a k by simp
qed

end
