(* ===== verification/Fs_Bmap.thy ===== *)
theory Fs_Bmap
  imports Fs_Files
begin

text \<open>
  \<^verbatim>\<open>bmap\<close> of \<^verbatim>\<open>kernel/fs.c\<close> in a transaction: the block that it returns, what it does to the file and to the
  disk, and how many blocks it adds to the log.
\<close>

section \<open>Blocks in the log\<close>

text \<open>
  The number of blocks in the log once the bitmap and the block of block numbers of the file are there.
\<close>

definition log_cost :: "superblock \<Rightarrow> u32 list \<Rightarrow> u32 list \<Rightarrow> nat" where
  "log_cost x as bl = length bl + (if sb_bmapstart x \<in> set bl then 0 else 1) +
     (if as ! NDIRECT \<noteq> 0 \<and> as ! NDIRECT \<in> set bl then 0 else 1)"

lemma length_add_block: "length (add_block n bl) = length bl + (if n \<in> set bl then 0 else 1)"
  by (simp add: add_block_def)

lemma add_block_in [simp]: "n \<in> set bl \<Longrightarrow> add_block n bl = bl"
  by (simp add: add_block_def)

lemma log_cost_add: "log_cost x as (add_block n bl) \<le> log_cost x as bl + 1"
  by (simp add: log_cost_def length_add_block)

lemma log_cost_bitmap: "log_cost x as (add_block (sb_bmapstart x) bl) \<le> log_cost x as bl"
  by (simp add: log_cost_def length_add_block)

lemma log_cost_ind: "as ! NDIRECT \<noteq> 0 \<Longrightarrow> log_cost x as (add_block (as ! NDIRECT) bl) \<le> log_cost x as bl"
  by (simp add: log_cost_def length_add_block)

lemma log_cost_ind_new: "as ! NDIRECT = 0 \<Longrightarrow> b \<noteq> 0 \<Longrightarrow> as' ! NDIRECT = b \<Longrightarrow> log_cost x as' (add_block b bl) \<le> log_cost x as bl"
  by (simp add: log_cost_def length_add_block)

lemma log_cost_length: "length (add_block (sb_bmapstart x) bl) \<le> log_cost x as bl" "length bl \<le> log_cost x as bl"
  by (simp_all add: log_cost_def length_add_block)

lemma log_cost_same: "as' ! NDIRECT = as ! NDIRECT \<Longrightarrow> log_cost x as' bl = log_cost x as bl"
  by (simp add: log_cost_def)

section \<open>One block number\<close>

lemma bmap_slot_new:
  fixes s :: "'a fsst_scheme"
  assumes t: "tx D s c bl {}" and r: "space s (Suc (length (add_block (sb_bmapstart (sb s)) bl)))"
    and l: "fs_layout (sb s) (log_start s)" and m: "meta_marked c (sb s)"
    and d: "i_dev (itable s i) = D" "i_addrs (itable s i) = as" and z: "as ! k = 0"
  shows "(\<exists>s'. bmap_slot i k s = Ok (0, s') \<and> txf D {} s s' \<and> (\<forall>a < sb_size (sb s). marked c (sb s) a) \<and> tx D s' c bl {}) \<or>
    (\<exists>b s'. bmap_slot i k s = Ok (b, s') \<and> b \<noteq> 0 \<and> newly (sb s) c (balloc_view c (sb s) b) b \<and>
      tx D s' (balloc_view c (sb s) b) (add_block b (add_block (sb_bmapstart (sb s)) bl)) {} \<and>
      txf D {} (set_addrs i (as[k := b]) s) s')"
proof -
  let ?x = "sb s" and ?m = "sb_bmapstart (sb s)"
  obtain b s' where b: "balloc D s = Ok (b, s')" "txf D {} s s'" and
    c: "b = 0 \<and> (\<forall>a < sb_size ?x. marked c ?x a) \<and> tx D s' c bl {} \<or>
     ?m < b \<and> b < sb_size ?x \<and> \<not> marked c ?x b \<and> (\<forall>a<b. marked c ?x a) \<and>
       tx D s' (balloc_view c ?x b) (add_block b (add_block ?m bl)) {}"
    using balloc_ok [OF t r l m] by auto
  have s: "bmap_slot i k s = (if b = 0 then Ok (0, s') else Ok (b, set_addr i k b s'))"
    using b(1) d z by (simp add: bmap_slot_def Let_def)
  from c show ?thesis
  proof (elim disjE conjE)
    assume "b = 0" "\<forall>a < sb_size ?x. marked c ?x a" "tx D s' c bl {}"
    then show ?thesis using s b(2) by auto
  next
    assume n: "?m < b" "b < sb_size ?x" "\<not> marked c ?x b" and t': "tx D s' (balloc_view c ?x b) (add_block b (add_block ?m bl)) {}"
    have "newly ?x c (balloc_view c ?x b) b" by (rule newly_balloc) (use tx_length [OF t] l n in \<open>simp_all add: fs_layout_def\<close>)
    moreover have "set_addr i k b s' = set_addrs i (as[k := b]) s'"
      unfolding set_addr_set_addrs using d(2) txf_fs(1) [OF b(2)] by simp
    moreover have "b \<noteq> 0" using n(1) by auto
    ultimately show ?thesis using s t' txf_set_addrs [OF b(2)] by auto
  qed
qed

section \<open>bmap\<close>

definition bmap_spec :: "u32 \<Rightarrow> nat \<Rightarrow> nat \<Rightarrow> 'a fsst_scheme \<Rightarrow> (u32 \<Rightarrow> block) \<Rightarrow> u32 list \<Rightarrow> u32 \<Rightarrow> 'a fsst_scheme \<Rightarrow> bool" where
  "bmap_spec D i k s c bl a s' \<longleftrightarrow> (let x = sb s; as = i_addrs (itable s i) in
     \<exists>c' as' bl'. tx D s' c' bl' {} \<and> txf D {} (set_addrs i as' s) s' \<and> grows x k c as c' as' \<and> a = faddr c' as' k \<and>
       (a = 0 \<longrightarrow> (\<forall>b < sb_size x. marked c' x b)) \<and>
       log_cost x as' (if a = 0 then bl' else add_block a bl') \<le> log_cost x as bl + 1)"

lemma bmap_specI:
  assumes "tx D s' c' bl' {}" "txf D {} (set_addrs i as' s) s'" "grows (sb s) k c (i_addrs (itable s i)) c' as'" "a = faddr c' as' k"
    "a = 0 \<Longrightarrow> \<forall>b < sb_size (sb s). marked c' (sb s) b"
    "log_cost (sb s) as' (if a = 0 then bl' else add_block a bl') \<le> log_cost (sb s) (i_addrs (itable s i)) bl + 1"
  shows "bmap_spec D i k s c bl a s'"
  unfolding bmap_spec_def Let_def using assms by blast

lemma bmap_specD:
  assumes "bmap_spec D i k s c bl a s'"
  obtains c' as' bl' where "tx D s' c' bl' {}" "txf D {} (set_addrs i as' s) s'" "grows (sb s) k c (i_addrs (itable s i)) c' as'" "a = faddr c' as' k"
    "a = 0 \<longrightarrow> (\<forall>b < sb_size (sb s). marked c' (sb s) b)"
    "log_cost (sb s) as' (if a = 0 then bl' else add_block a bl') \<le> log_cost (sb s) (i_addrs (itable s i)) bl + 1"
  using assms unfolding bmap_spec_def Let_def by blast

lemma bmap_direct:
  fixes s :: "'a fsst_scheme"
  assumes t: "tx D s c bl {}" and r: "space s (log_cost (sb s) (i_addrs (itable s i)) bl + 2)"
    and l: "fs_layout (sb s) (log_start s)" and m: "meta_marked c (sb s)"
    and d: "i_dev (itable s i) = D" and f: "file_ok (sb s) c (i_addrs (itable s i))" and k: "k < NDIRECT"
  shows "\<exists>a s'. bmap i (of_nat k) s = Ok (a, s') \<and> bmap_spec D i k s c bl a s'"
proof -
  let ?x = "sb s" and ?as = "i_addrs (itable s i)"
  have "unat (of_nat k :: u32) = k" using k by (intro unat_of_nat_u32) simp
  then have e: "bmap i (of_nat k) s = bmap_slot i k s" using k by (simp add: bmap_def)
  have fk: "faddr c ?as k = ?as ! k" using k by (simp add: faddr_def)
  show ?thesis
  proof (cases "?as ! k = 0")
    case False
    have "bmap_spec D i k s c bl (?as ! k) s"
      by (rule bmap_specI [OF t _ grows_refl [OF f m]]) (use False fk log_cost_add in auto)
    then show ?thesis using False e by (auto simp: bmap_slot_def Let_def)
  next
    case True
    have r': "space s (Suc (length (add_block (sb_bmapstart ?x) bl)))"
      by (rule space_mono [OF r]) (use log_cost_length(1) [where x = ?x and as = ?as and bl = bl] in simp)
    from bmap_slot_new [OF t r' l m d refl True] show ?thesis
    proof (elim disjE exE conjE)
      fix s' assume 1: "bmap_slot i k s = Ok (0, s')" "txf D {} s s'" "\<forall>a < sb_size ?x. marked c ?x a" "tx D s' c bl {}"
      have "bmap_spec D i k s c bl 0 s'" by (rule bmap_specI [OF 1(4) _ grows_refl [OF f m]]) (use True fk 1 in auto)
      then show ?thesis using 1(1) e by auto
    next
      fix b s' assume 1: "bmap_slot i k s = Ok (b, s')" "b \<noteq> 0" "newly ?x c (balloc_view c ?x b) b"
        "tx D s' (balloc_view c ?x b) (add_block b (add_block (sb_bmapstart ?x) bl)) {}" "txf D {} (set_addrs i (?as[k := b]) s) s'"
      note g = grows_direct [OF f m 1(3) k True]
      have "log_cost ?x (?as[k := b]) (add_block b (add_block (sb_bmapstart ?x) bl)) \<le> log_cost ?x ?as bl + 1"
        using log_cost_add [where x = ?x and as = "?as[k := b]" and n = b and bl = "add_block (sb_bmapstart ?x) bl"]
          log_cost_bitmap [where x = ?x and as = "?as[k := b]" and bl = bl] log_cost_same [where as = ?as and as' = "?as[k := b]" and x = ?x and bl = bl] k
        by simp
      then have "bmap_spec D i k s c bl b s'" by (intro bmap_specI [OF 1(4,5) g(1)]) (use g(2) 1(2) in auto)
      then show ?thesis using 1(1) e by auto
    qed
  qed
qed

lemma bmap_entry:
  fixes s :: "'a fsst_scheme"
  assumes t: "tx D s c bl {}" and r: "space s (log_cost (sb s) (i_addrs (itable s i)) bl + 2)"
    and l: "fs_layout (sb s) (log_start s)" and m: "meta_marked c (sb s)"
    and d: "i_dev (itable s i) = D" and f: "file_ok (sb s) c (i_addrs (itable s i))"
    and k: "NDIRECT \<le> k" "k < MAXFILE" and ind: "i_addrs (itable s i) ! NDIRECT = n" "n \<noteq> 0"
  shows "\<exists>a s'. bmap i (of_nat k) s = Ok (a, s') \<and> bmap_spec D i k s c bl a s'"
proof -
  let ?x = "sb s" and ?as = "i_addrs (itable s i)" and ?m = "sb_bmapstart (sb s)" and ?o = "4 * (k - NDIRECT)"
  have u: "unat (of_nat k :: u32) = k" using k(2) by (intro unat_of_nat_u32) simp
  have kk: "\<not> k < NDIRECT" "k - NDIRECT < NINDIRECT" using k by auto
  note I = data_blockD [OF file_okD(2) [OF f, unfolded ind(1), OF ind(2)]]
  note cost = log_cost_length [where x = ?x and as = ?as]
  have r0: "length bl + 2 \<le> NBUF" using r cost(2) [of bl] by (simp add: space_def)
  have fk: "faddr c ?as k = get32 ?o (c n)" using k ind by (simp add: faddr_def)
  have slot: "bmap_slot i NDIRECT s = Ok (n, s)" using ind by (simp add: bmap_slot_def)
  obtain b s1 where
    1: "bread D n s = Ok (b, s1)" "b_data (bufs s1 b) = c n" "handle D s1 b n" "lview D s1 c bl (insert n {})" "txf D {} s s1"
    by (rule block_hold [OF t _ r0]) simp
  have d1: "i_dev (itable s1 i) = D" using d txf_fs(1) [OF 1(5)] by simp
  have e: "bmap i (of_nat k) s =
      bind_ok (if get32 ?o (c n) = 0
         then bind_ok (balloc D s1) (\<lambda>(addr, s).
           if addr \<noteq> 0 then bind_ok (log_write b (set_data b (put32 ?o addr (b_data (bufs s b))) s)) (\<lambda>s. Ok (addr, s)) else Ok (addr, s))
         else Ok (get32 ?o (c n), s1)) (\<lambda>(addr, s). bind_ok (brelse b s) (\<lambda>s. Ok (addr, s)))"
    unfolding bmap_def u Let_def using kk slot ind(2) 1(1,2) d d1 by (simp del: NDIRECT_def NINDIRECT_def)
  show ?thesis
  proof (cases "get32 ?o (c n) = 0")
    case False
    obtain s2 where 2: "brelse b s1 = Ok s2" "tx D s2 c bl {}" "txf D {} s1 s2" by (rule block_release [OF 1(4,3)]) simp_all
    have "bmap_spec D i k s c bl (get32 ?o (c n)) s2"
      by (rule bmap_specI [OF 2(2) _ grows_refl [OF f m]]) (use False fk log_cost_add txf_trans [OF 1(5) 2(3)] in auto)
    then show ?thesis using e False 2(1) by auto
  next
    case True
    have t1: "tx D s1 c bl {n}" using 1(4) by (simp add: tx_def)
    have x1: "sb s1 = ?x" "log_start s1 = log_start s" using txf_fs(2) [OF 1(5)] txfD(1) [OF 1(5)] by simp_all
    note sp1 = space_frame [OF txfD(10) [OF 1(5)]]
    have r1: "space s1 (Suc (length (add_block ?m bl)))"
      unfolding sp1 by (rule space_mono [OF r]) (use cost(1) [of bl] in simp)
    obtain a s2 where 2: "balloc D s1 = Ok (a, s2)" "txf D {n} s1 s2" and
      c: "a = 0 \<and> (\<forall>a < sb_size ?x. marked c ?x a) \<and> tx D s2 c bl {n} \<or>
       ?m < a \<and> a < sb_size ?x \<and> \<not> marked c ?x a \<and> (\<forall>b<a. marked c ?x b) \<and>
       tx D s2 (balloc_view c ?x a) (add_block a (add_block ?m bl)) {n}"
      using balloc_ok [OF t1, unfolded x1, OF r1 l m] I(1,4) by auto
    have h2: "handle D s2 b n" using 2(2) 1(3) by (simp add: txf_def)
    have f2: "txf D {} s s2" using txf_trans [OF 1(5)] txf_mono [OF 2(2)] by blast
    from c show ?thesis
    proof (elim disjE conjE)
      assume a: "a = 0" "\<forall>a < sb_size ?x. marked c ?x a" "tx D s2 c bl {n}"
      obtain s3 where 3: "brelse b s2 = Ok s3" "tx D s3 c bl {}" "txf D {} s2 s3"
        by (rule block_release [of D s2 c bl n "{}" b]) (use a(3) h2 in \<open>simp_all add: tx_def\<close>)
      have "bmap_spec D i k s c bl 0 s3"
        by (rule bmap_specI [OF 3(2) _ grows_refl [OF f m]]) (use True fk a txf_trans [OF f2 3(3)] in auto)
      then show ?thesis using e True 2(1) 3(1) a(1) by auto
    next
      let ?c = "balloc_view c ?x a" and ?bl = "add_block a (add_block ?m bl)"
      assume a: "?m < a" "a < sb_size ?x" "\<not> marked c ?x a" and t2: "tx D s2 ?c ?bl {n}"
      have v2: "lview D s2 ?c ?bl (insert n {})" using t2 by (simp add: tx_def)
      have new: "newly ?x c ?c a" by (rule newly_balloc) (use tx_length [OF t] l a in \<open>simp_all add: fs_layout_def\<close>)
      have na: "n \<noteq> a" "a \<noteq> 0" using I(4) a by auto
      have cn: "?c n = c n" using na(1) I(1) by (simp add: balloc_view_def with_mark_def Let_def)
      let ?d = "put32 ?o a (c n)"
      have ld: "length ?d = BSIZE" using tx_length [OF t, of n] k by simp
      have n2: "n \<notin> log_area (log_start s2)" using l I(2) txfD(1) [OF f2] by (auto simp: fs_layout_def)
      have "length ?bl + 1 \<le> log_cost ?x ?as bl + 2" using cost(1) [of bl] by (simp add: length_add_block)
      then have r2: "space s2 (Suc (length ?bl))" unfolding space_frame [OF txfD(10) [OF f2]] using space_mono [OF r] by simp
      obtain s3 where 3: "log_write b (set_data b ?d s2) = Ok s3" "lview D s3 (?c(n := ?d)) (add_block n ?bl) (insert n {})"
        "handle D s3 b n" "txf D (insert n {}) s2 s3" by (rule block_put [OF v2 h2 n2 ld r2])
      obtain s4 where 4: "brelse b s3 = Ok s4" "tx D s4 (?c(n := ?d)) (add_block n ?bl) {}" "txf D {} s3 s4"
        by (rule block_release [OF 3(2,3)]) simp_all
      have f4: "txf D {} s s4" using txf_trans [OF txf_trans [OF f2 txf_mono [OF 3(4)]] 4(3)] by simp
      note g = grows_indirect [OF f m new k, unfolded ind(1), OF ind(2) fk [unfolded True] tx_length [OF t] refl]
      have "log_cost ?x ?as (add_block n ?bl) \<le> log_cost ?x ?as bl + 1"
        using log_cost_ind [where x = ?x and as = ?as and bl = ?bl] log_cost_bitmap [where x = ?x and as = ?as and bl = bl]
          log_cost_add [where x = ?x and as = ?as and n = a and bl = "add_block ?m bl"] ind by simp
      moreover have "add_block a (add_block n ?bl) = add_block n ?bl" by simp
      ultimately have "bmap_spec D i k s c bl a s4"
        by (intro bmap_specI [OF 4(2) _ g(1)]) (use f4 g(2) na(2) in simp_all)
      then show ?thesis using e True 2(1) na(2) lview_data [OF v2 h2] cn 3(1) 4(1) by auto
    qed
  qed
qed

lemma bmap_spec_trans:
  fixes s :: "'a fsst_scheme"
  assumes t: "txf D {} (set_addrs i as1 s) s1" and g: "grows (sb s) k c (i_addrs (itable s i)) c1 as1"
    and n: "log_cost (sb s) as1 bl1 \<le> log_cost (sb s) (i_addrs (itable s i)) bl" and b: "bmap_spec D i k s1 c1 bl1 a s'"
  shows "bmap_spec D i k s c bl a s'"
proof -
  have s1: "sb s1 = sb s" "i_addrs (itable s1 i) = as1" using txf_fs(1,2) [OF t] by simp_all
  obtain c' as' bl' where 1: "tx D s' c' bl' {}" "txf D {} (set_addrs i as' s1) s'" "grows (sb s) k c1 as1 c' as'" "a = faddr c' as' k"
    "a = 0 \<longrightarrow> (\<forall>b < sb_size (sb s). marked c' (sb s) b)"
    "log_cost (sb s) as' (if a = 0 then bl' else add_block a bl') \<le> log_cost (sb s) as1 bl1 + 1"
    by (rule bmap_specD [OF b, unfolded s1])
  have "txf D {} (set_addrs i as' s) s'" using txf_trans [OF txf_set_addrs [OF t] 1(2)] by simp
  then show ?thesis using 1 n by (intro bmap_specI [OF 1(1) _ grows_trans [OF g 1(3)] 1(4)]) auto
qed

lemma bmap_ok:
  fixes s :: "'a fsst_scheme"
  assumes t: "tx D s c bl {}" and r: "space s (log_cost (sb s) (i_addrs (itable s i)) bl + 2)"
    and l: "fs_layout (sb s) (log_start s)" and m: "meta_marked c (sb s)"
    and d: "i_dev (itable s i) = D" and f: "file_ok (sb s) c (i_addrs (itable s i))" and k: "k < MAXFILE"
  shows "\<exists>a s'. bmap i (of_nat k) s = Ok (a, s') \<and> bmap_spec D i k s c bl a s'"
proof (cases "k < NDIRECT \<or> i_addrs (itable s i) ! NDIRECT \<noteq> 0")
  case True
  then show ?thesis using bmap_direct [OF t r l m d f] bmap_entry [OF t r l m d f _ k refl] by (metis not_less)
next
  case False
  let ?x = "sb s" and ?as = "i_addrs (itable s i)" and ?m = "sb_bmapstart (sb s)"
  from False have kn: "NDIRECT \<le> k" and z: "?as ! NDIRECT = 0" by simp_all
  have u: "unat (of_nat k :: u32) = k" using k by (intro unat_of_nat_u32) simp
  have kk: "\<not> k < NDIRECT" "k - NDIRECT < NINDIRECT" using k kn by auto
  have fk: "faddr c ?as k = 0" using kn z by (simp add: faddr_def)
  have r': "space s (Suc (length (add_block ?m bl)))"
    by (rule space_mono [OF r]) (use log_cost_length(1) [where x = ?x and as = ?as and bl = bl] in simp)
  from bmap_slot_new [OF t r' l m d refl z] show ?thesis
  proof (elim disjE exE conjE)
    fix s' assume 1: "bmap_slot i NDIRECT s = Ok (0, s')" "txf D {} s s'" "\<forall>a < sb_size ?x. marked c ?x a" "tx D s' c bl {}"
    have "bmap_spec D i k s c bl 0 s'" by (rule bmap_specI [OF 1(4) _ grows_refl [OF f m]]) (use fk 1 in auto)
    moreover have "bmap i (of_nat k) s = Ok (0, s')"
      unfolding bmap_def u Let_def using kk 1(1) by (simp del: NDIRECT_def NINDIRECT_def)
    ultimately show ?thesis by blast
  next
    fix b s' assume 1: "bmap_slot i NDIRECT s = Ok (b, s')" "b \<noteq> 0" "newly ?x c (balloc_view c ?x b) b"
      "tx D s' (balloc_view c ?x b) (add_block b (add_block ?m bl)) {}" "txf D {} (set_addrs i (?as[NDIRECT := b]) s) s'"
    let ?bl = "add_block b (add_block ?m bl)" and ?as' = "?as[NDIRECT := b]"
    note g = grows_ind [OF f m 1(3) kn k z]
    note g' = growsD [OF g(1)]
    have b: "?as' ! NDIRECT = b" using file_okD(1) [OF f] by simp
    have s': "sb s' = ?x" "i_addrs (itable s' i) = ?as'" "log_start s' = log_start s" "i_dev (itable s' i) = D"
      using txf_fs [OF 1(5)] txfD(1) [OF 1(5)] d by simp_all
    have n: "log_cost ?x ?as' ?bl \<le> log_cost ?x ?as bl"
      using log_cost_ind_new [where bl = "add_block ?m bl", OF z 1(2) b] log_cost_bitmap [where x = ?x and as = ?as and bl = bl] le_trans by blast
    have "tx_frame (set_addrs i ?as' s) s'" by (rule txfD(10) [OF 1(5)])
    then have "space s' n \<longleftrightarrow> space s n" for n using space_frame [of "set_addrs i ?as' s" s'] by (simp add: space_def)
    then have r'': "space s' (log_cost ?x ?as' ?bl + 2)" using space_mono [OF r] n by simp
    have "\<exists>a s''. bmap i (of_nat k) s' = Ok (a, s'') \<and> bmap_spec D i k s' (balloc_view c ?x b) ?bl a s''"
      by (rule bmap_entry [OF 1(4) _ _ _ _ _ kn k _ 1(2)]) (use s' r'' l g'(1,2) b in simp_all)
    then obtain a s'' where a: "bmap i (of_nat k) s' = Ok (a, s'')" "bmap_spec D i k s' (balloc_view c ?x b) ?bl a s''" by blast
    have "bmap_slot i NDIRECT s' = Ok (b, s')" unfolding bmap_slot_def s'(2) Let_def b using 1(2) by simp
    then have "bmap i (of_nat k) s = bmap i (of_nat k) s'"
      unfolding bmap_def u Let_def using kk 1(1) by (simp del: NDIRECT_def NINDIRECT_def)
    then show ?thesis using a bmap_spec_trans [OF 1(5) g(1) n a(2)] by auto
  qed
qed

text \<open>A block that the file has is found without a transaction.\<close>

lemma bmap_found:
  fixes s :: "'a fsst_scheme"
  assumes t: "tx D s c bl {}" and r: "length bl + 2 \<le> NBUF" and d: "i_dev (itable s i) = D"
    and k: "k < MAXFILE" "faddr c (i_addrs (itable s i)) k \<noteq> 0"
  obtains s' where "bmap i (of_nat k) s = Ok (faddr c (i_addrs (itable s i)) k, s')" "tx D s' c bl {}" "txf D {} s s'"
proof -
  let ?as = "i_addrs (itable s i)" and ?o = "4 * (k - NDIRECT)"
  have u: "unat (of_nat k :: u32) = k" using k by (intro unat_of_nat_u32) simp
  show thesis
  proof (cases "k < NDIRECT")
    case True
    then have "faddr c ?as k = ?as ! k" by (simp add: faddr_def)
    then have "bmap i (of_nat k) s = Ok (faddr c ?as k, s)" using True k(2) by (simp add: bmap_def u bmap_slot_def)
    then show thesis using that t txf_refl by blast
  next
    case False
    then have kk: "\<not> k < NDIRECT" "k - NDIRECT < NINDIRECT" using k by auto
    let ?n = "?as ! NDIRECT"
    have fk: "faddr c ?as k = get32 ?o (c ?n)" "?n \<noteq> 0" using k(2) kk by (auto simp: faddr_def split: if_splits)
    obtain b s1 s2 where 1: "bread D ?n s = Ok (b, s1)" "b_data (bufs s1 b) = c ?n" "txf D {} s s1"
      "brelse b s1 = Ok s2" "tx D s2 c bl {}" "txf D {} s s2" by (rule block_read [OF t _ r]) simp
    have "bmap_slot i NDIRECT s = Ok (?n, s)" unfolding bmap_slot_def Let_def using fk(2) by simp
    then have "bmap i (of_nat k) s = Ok (faddr c ?as k, s2)"
      unfolding bmap_def u Let_def using kk 1(1,2,4) fk k(2) d by (simp del: NDIRECT_def NINDIRECT_def)
    then show thesis using that 1(5,6) by blast
  qed
qed

end
