(* ===== verification/Fs_Data.thy ===== *)
theory Fs_Data
  imports Fs_Bmap
begin

text \<open>
  \<^verbatim>\<open>readi\<close> and \<^verbatim>\<open>writei\<close> of \<^verbatim>\<open>kernel/fs.c\<close> against the bytes of a file. \<open>fbyte c as j\<close> is byte \<open>j\<close> of the file
  with the block numbers \<open>as\<close>; a block that the file does not have counts as zero.
\<close>

section \<open>Bytes of a file\<close>

definition fbyte :: "(u32 \<Rightarrow> block) \<Rightarrow> u32 list \<Rightarrow> nat \<Rightarrow> u8" where
  "fbyte c as j = (let b = faddr c as (j div BSIZE) in if b = 0 then 0 else c b ! (j mod BSIZE))"

definition owned :: "(u32 \<Rightarrow> block) \<Rightarrow> u32 list \<Rightarrow> u32 \<Rightarrow> bool" where
  "owned c as b \<longleftrightarrow> b = as ! NDIRECT \<or> (\<exists>j<MAXFILE. faddr c as j = b)"

text \<open>
  A change of one file: the blocks that are in use stay in use, only the blocks of the file change, and
  blocks that the file gets were free.
\<close>

definition file_step :: "superblock \<Rightarrow> (u32 \<Rightarrow> block) \<Rightarrow> u32 list \<Rightarrow> (u32 \<Rightarrow> block) \<Rightarrow> u32 list \<Rightarrow> bool" where
  "file_step x c as c' as' \<longleftrightarrow> file_ok x c' as' \<and> meta_marked c' x \<and>
     (\<forall>b. marked c x b \<longrightarrow> marked c' x b \<and> (owned c' as' b \<longrightarrow> owned c as b) \<and>
       (b \<noteq> sb_bmapstart x \<and> \<not> owned c as b \<longrightarrow> c' b = c b)) \<and>
     (\<forall>j<MAXFILE. faddr c as j \<noteq> 0 \<longrightarrow> faddr c' as' j = faddr c as j)"

lemma file_stepD:
  assumes "file_step x c as c' as'"
  shows "file_ok x c' as'" "meta_marked c' x" "marked c x b \<Longrightarrow> marked c' x b" "marked c x b \<Longrightarrow> owned c' as' b \<Longrightarrow> owned c as b"
    "marked c x b \<Longrightarrow> b \<noteq> sb_bmapstart x \<Longrightarrow> \<not> owned c as b \<Longrightarrow> c' b = c b"
    "j < MAXFILE \<Longrightarrow> faddr c as j \<noteq> 0 \<Longrightarrow> faddr c' as' j = faddr c as j"
  using assms unfolding file_step_def by blast+

lemma file_step_refl: "file_ok x c as \<Longrightarrow> meta_marked c x \<Longrightarrow> file_step x c as c as"
  by (simp add: file_step_def)

lemma file_step_trans:
  assumes a: "file_step x c as c1 as1" and b: "file_step x c1 as1 c2 as2"
  shows "file_step x c as c2 as2"
proof -
  note A = file_stepD [OF a] and B = file_stepD [OF b]
  have 1: "marked c2 x n \<and> (owned c2 as2 n \<longrightarrow> owned c as n) \<and> (n \<noteq> sb_bmapstart x \<and> \<not> owned c as n \<longrightarrow> c2 n = c n)" if m: "marked c x n" for n
    using A(3-5) [OF m] B(3-5) [OF A(3) [OF m]] by metis
  have 2: "faddr c2 as2 j = faddr c as j" if "j < MAXFILE" "faddr c as j \<noteq> 0" for j using A(6) [OF that] B(6) that by simp
  show ?thesis unfolding file_step_def using B(1,2) 1 2 by blast
qed

lemma grows_step:
  assumes g: "grows x k c as c' as'" and k: "k < MAXFILE"
  shows "file_step x c as c' as'"
proof -
  note G = growsD [OF g]
  have f: "faddr c' as' j = faddr c as j \<or> \<not> marked c x (faddr c' as' j)" if "j < MAXFILE" for j
    using G(5) [OF that] G(6,7,9) by metis
  have 1: "owned c as n" if "marked c x n" "owned c' as' n" for n using that f G(11) unfolding owned_def by metis
  have 2: "c' n = c n" if "marked c x n" "n \<noteq> sb_bmapstart x" "\<not> owned c as n" for n
    using G(4) [OF that(1,2)] that(3) unfolding owned_def by blast
  have 3: "faddr c' as' j = faddr c as j" if "j < MAXFILE" "faddr c as j \<noteq> 0" for j using G(5) [OF that(1)] G(6,7) that(2) by metis
  show ?thesis unfolding file_step_def using G(1-3) 1 2 3 by blast
qed

lemma grows_fbyte:
  assumes g: "grows x k c as c' as'" and f: "file_ok x c as" and j: "j < MAXFILE * BSIZE"
  shows "fbyte c' as' j = fbyte c as j"
proof -
  note G = growsD [OF g] and F = file_okD [OF f]
  have jk: "j div BSIZE < MAXFILE" using j by (simp add: less_mult_imp_div_less)
  let ?b = "faddr c as (j div BSIZE)"
  have same: "c' ?b = c ?b" if "?b \<noteq> 0" using data_blockD [OF F(3) [OF jk that]] F(4) [OF jk that] G(4) by metis
  show ?thesis
  proof (cases "j div BSIZE = k")
    case False
    then show ?thesis using G(5) [OF jk] same by (simp add: fbyte_def Let_def)
  next
    case True
    show ?thesis
    proof (cases "?b = 0")
      case False
      then show ?thesis using G(6,7) True by metis
    next
      case z: True
      have "c' (faddr c' as' k) = replicate BSIZE 0" if "faddr c' as' k \<noteq> 0" using G(8) z True that by metis
      then show ?thesis using z True by (simp add: fbyte_def Let_def)
    qed
  qed
qed

lemma write_block:
  assumes f: "file_ok x c as" and m: "meta_marked c x" and k: "k < MAXFILE" "faddr c as k = a" "a \<noteq> 0"
  shows "file_step x c as (c(a := d)) as" "faddr (c(a := d)) as j = faddr c as j"
    "j < MAXFILE * BSIZE \<Longrightarrow> fbyte (c(a := d)) as j = (if j div BSIZE = k then d ! (j mod BSIZE) else fbyte c as j)"
proof -
  note F = file_okD [OF f]
  have a: "a \<noteq> as ! NDIRECT" "a \<noteq> sb_bmapstart x" using F(3,4) [OF k(1)] k(2,3) data_blockD by metis+
  show fa: "faddr (c(a := d)) as j = faddr c as j" for j using a(1) by (simp add: faddr_def)
  have mk: "marked (c(a := d)) x b = marked c x b" for b using a(2) by (simp add: marked_def)
  have ow: "owned (c(a := d)) as b = owned c as b" for b by (simp add: owned_def fa)
  have "file_ok x (c(a := d)) as" using f by (simp add: file_ok_def fa data_block_def mk)
  moreover have "meta_marked (c(a := d)) x" using m by (simp add: meta_marked_def mk)
  moreover have "owned c as a" using k unfolding owned_def by blast
  ultimately show "file_step x c as (c(a := d)) as" unfolding file_step_def mk ow fa by auto
  assume j: "j < MAXFILE * BSIZE"
  have jk: "j div BSIZE < MAXFILE" using j by (simp add: less_mult_imp_div_less)
  have "faddr c as (j div BSIZE) = a \<longleftrightarrow> j div BSIZE = k" using F(5) [OF k(1) jk] k(2,3) by metis
  then show "fbyte (c(a := d)) as j = (if j div BSIZE = k then d ! (j mod BSIZE) else fbyte c as j)"
    using k(2,3) by (auto simp: fbyte_def Let_def fa)
qed

section \<open>The source of a write\<close>

lemma walk_level_phys: "phys s' = phys s \<Longrightarrow> fst (walk_level l pt va False s') = fst (walk_level l pt va False s)"
  by (induction l arbitrary: pt) (simp_all add: Let_def)

lemma walk_level_state: "snd (walk_level l pt va False s) = s"
  by (induction l arbitrary: pt) (simp_all add: Let_def)

lemma walkaddr_phys:
  fixes s s' :: "'a kmem_scheme"
  assumes "phys s' = phys s"
  shows "walkaddr pt va s' = walkaddr pt va s"
proof -
  have e: "walkaddr pt va t = (if MAXVA \<le> va then Ok 0 else
      let pte = fst (walk_level 2 pt va False t) in if pte = 0 then Ok 0
        else if load64 (phys t) pte AND PTE_V = 0 then Ok 0
        else if load64 (phys t) pte AND PTE_U = 0 then Ok 0 else Ok (PTE2PA (load64 (phys t) pte)))" for t :: "'a kmem_scheme"
  proof -
    obtain pte where "walk_level 2 pt va False t = (pte, t)" using walk_level_state [of 2 pt va t] by (metis prod.collapse)
    then show ?thesis by (simp add: walkaddr_def walk_def)
  qed
  show ?thesis unfolding e walk_level_phys [OF assms] assms ..
qed

lemma copyin_from_phys:
  fixes s s' :: "'a kmem_scheme"
  assumes "phys s' = phys s"
  shows "copyin_from pt a n dst s' = copyin_from pt a n dst s"
  using assms
proof (induction pt a n dst s rule: copyin_from.induct)
  case (1 pt a n dst s)
  note IH = "1.IH" [OF _ refl _ _ refl "1.prems"]
  show ?case
    unfolding copyin_from.simps [of pt a n dst s] copyin_from.simps [of pt a n dst s'] Let_def walkaddr_phys [OF "1.prems"] "1.prems"
    by (intro if_cong [OF refl] bind_ok_cong refl IH)
qed

lemma copyin_phys:
  fixes s s' :: "'a kmem_scheme"
  shows "phys s' = phys s \<Longrightarrow> copyin pt a n s' = copyin pt a n s"
  unfolding copyin_def by (rule copyin_from_phys)

text \<open>Reading from the source gives the bytes \<open>data\<close>.\<close>

definition delivers :: "src \<Rightarrow> u8 list \<Rightarrow> 'a kmem_scheme \<Rightarrow> bool" where
  "delivers from data s \<longleftrightarrow> (\<forall>j m. j + m \<le> length data \<longrightarrow> either_copyin (src_add from j) m s = Ok (0, slice j m data))"

lemma src_add_add: "src_add (src_add from a) b = src_add from (a + b)"
  by (cases "from") (simp_all add: add.commute)

lemma src_add_0 [simp]: "src_add from 0 = from"
  by (cases "from") simp_all

lemma delivers_phys:
  fixes s s' :: "'a kmem_scheme"
  shows "phys s' = phys s \<Longrightarrow> delivers from data s' \<longleftrightarrow> delivers from data s"
  unfolding delivers_def either_copyin_def using copyin_phys [of s' s] by (simp split: src.splits)

lemma delivers_drop:
  assumes "delivers from data s" "m \<le> length data"
  shows "delivers (src_add from m) (drop m data) s"
proof -
  have "either_copyin (src_add from (m + j)) n s = Ok (0, slice (m + j) n data)" if "j + n \<le> length data - m" for j n
    using assms that unfolding delivers_def by simp
  then show ?thesis unfolding delivers_def src_add_add by (simp add: slice_def add.commute)
qed

lemma delivers_var: "delivers (SVar data) data s"
  by (simp add: delivers_def either_copyin_def slice_def)

section \<open>The loop of writei\<close>

text \<open>The number of blocks with a byte in \<open>[off, off + k)\<close>.\<close>

definition span :: "nat \<Rightarrow> nat \<Rightarrow> nat" where
  "span off k = (if k = 0 then 0 else (off + k - 1) div BSIZE - off div BSIZE + 1)"

lemma span_step:
  assumes k: "k > 0" and m: "m = min k (BSIZE - off mod BSIZE)"
  shows "span off k = span (off + m) (k - m) + 1" "0 < m" "off mod BSIZE + m \<le> BSIZE"
proof -
  obtain q r where e: "off div BSIZE = q" "off mod BSIZE = r" and qr: "off = BSIZE * q + r" "r < BSIZE"
    by (metis BSIZE_def mod_less_divisor mult_div_mod_eq zero_less_numeral)
  show "0 < m" "off mod BSIZE + m \<le> BSIZE" using k m qr(2) unfolding e by (auto simp: min_def)
  show "span off k = span (off + m) (k - m) + 1"
  proof (cases "k \<le> BSIZE - r")
    case True
    then have "m = k" using m e by simp
    moreover have "(off + k - 1) div BSIZE = q" using k True qr by (intro div_nat_eqI) auto
    ultimately show ?thesis using k e by (simp add: span_def)
  next
    case False
    then have m': "m = BSIZE - r" "m < k" using m e by simp_all
    have "off + m = BSIZE * (q + 1)" using m'(1) qr by (simp add: algebra_simps)
    then have d: "(off + m) div BSIZE = q + 1" by simp
    moreover have "(off + m) div BSIZE \<le> (off + k - 1) div BSIZE" using m'(2) by (intro div_le_mono) simp
    ultimately show ?thesis using m'(2) k e unfolding span_def by (simp add: Suc_diff_Suc Suc_le_eq)
  qed
qed

text \<open>
  The effect of writing \<open>w\<close> bytes of \<open>data\<close> at \<open>off\<close> of the file \<open>i\<close>: fewer than all only if no block is
  free any more.
\<close>

definition file_wrote ::
  "u32 \<Rightarrow> nat \<Rightarrow> nat \<Rightarrow> u8 list \<Rightarrow> nat \<Rightarrow> (u32 \<Rightarrow> block) \<Rightarrow> u32 list \<Rightarrow> 'a fsst_scheme \<Rightarrow>
   (u32 \<Rightarrow> block) \<Rightarrow> u32 list \<Rightarrow> u32 list \<Rightarrow> 'a fsst_scheme \<Rightarrow> bool" where
  "file_wrote D i off data w c bl s c' bl' as' s' \<longleftrightarrow> (let x = sb s; as = i_addrs (itable s i) in
     tx D s' c' bl' {} \<and> txf D {} (set_addrs i as' s) s' \<and> file_step x c as c' as' \<and>
     w \<le> length data \<and> (w < length data \<longrightarrow> (\<forall>b < sb_size x. marked c' x b)) \<and>
     (\<forall>j<MAXFILE * BSIZE. fbyte c' as' j = (if off \<le> j \<and> j < off + w then data ! (j - off) else fbyte c as j)) \<and>
     (\<forall>j. off \<le> j \<and> j < off + w \<longrightarrow> faddr c' as' (j div BSIZE) \<noteq> 0) \<and>
     log_cost x as' bl' \<le> log_cost x as bl + span off (length data))"

lemma file_wroteD:
  assumes "file_wrote D i off data w c bl s c' bl' as' s'"
  shows "tx D s' c' bl' {}" "txf D {} (set_addrs i as' s) s'" "file_step (sb s) c (i_addrs (itable s i)) c' as'"
    "w \<le> length data" "w < length data \<Longrightarrow> b < sb_size (sb s) \<Longrightarrow> marked c' (sb s) b"
    "j < MAXFILE * BSIZE \<Longrightarrow> fbyte c' as' j = (if off \<le> j \<and> j < off + w then data ! (j - off) else fbyte c (i_addrs (itable s i)) j)"
    "off \<le> j \<Longrightarrow> j < off + w \<Longrightarrow> faddr c' as' (j div BSIZE) \<noteq> 0"
    "log_cost (sb s) as' bl' \<le> log_cost (sb s) (i_addrs (itable s i)) bl + span off (length data)"
  using assms unfolding file_wrote_def Let_def by blast+

lemma file_wrote_state:
  fixes s :: "'a fsst_scheme"
  assumes "file_wrote D i off data w c bl s c' bl' as' s'"
  shows "sb s' = sb s" "itable s' = (itable s)(i := (itable s i)\<lparr>i_addrs := as'\<rparr>)" "log_start s' = log_start s" "phys s' = phys s"
    "space s' n \<longleftrightarrow> space s n" "mypid s' = mypid s"
proof -
  note f = file_wroteD(2) [OF assms]
  show "sb s' = sb s" "itable s' = (itable s)(i := (itable s i)\<lparr>i_addrs := as'\<rparr>)" using txf_fs [OF f] by simp_all
  show "log_start s' = log_start s" "phys s' = phys s" "mypid s' = mypid s" using txfD [OF f] by simp_all
  show "space s' n \<longleftrightarrow> space s n" using space_frame [OF txfD(10) [OF f]] by (simp add: space_def)
qed

lemma file_wrote_trans:
  fixes s :: "'a fsst_scheme"
  assumes a: "file_wrote D i off (take m data) m c bl s c1 bl1 as1 s1" and b: "file_wrote D i (off + m) (drop m data) w c1 bl1 s1 c2 bl2 as2 s2"
    and m: "m \<le> length data" "span off m + span (off + m) (length data - m) \<le> span off (length data)" and n: "off + length data \<le> MAXFILE * BSIZE"
  shows "file_wrote D i off data (m + w) c bl s c2 bl2 as2 s2"
proof -
  let ?x = "sb s" and ?as = "i_addrs (itable s i)"
  note A = file_wroteD [OF a] and s1 = file_wrote_state [OF a]
  have as1: "i_addrs (itable s1 i) = as1" using s1(2) by simp
  note B = file_wroteD [OF b, unfolded s1(1) as1]
  have w: "w \<le> length data - m" using B(4) by simp
  have "txf D {} (set_addrs i as2 s) s2" using txf_trans [OF txf_set_addrs [OF A(2)] B(2)] by simp
  moreover have "fbyte c2 as2 j = (if off \<le> j \<and> j < off + (m + w) then data ! (j - off) else fbyte c ?as j)" if j: "j < MAXFILE * BSIZE" for j
  proof -
    consider "off + m \<le> j" | "off \<le> j" "j < off + m" | "j < off" by linarith
    then show ?thesis using A(6) [OF j] B(6) [OF j] m(1) by cases auto
  qed
  moreover have "faddr c2 as2 (j div BSIZE) \<noteq> 0" if j: "off \<le> j" "j < off + (m + w)" for j
  proof (cases "j < off + m")
    case True
    have "j < MAXFILE * BSIZE" using j w n m(1) by linarith
    then have "j div BSIZE < MAXFILE" by (simp add: less_mult_imp_div_less)
    then show ?thesis using file_stepD(6) [OF B(3)] A(7) [OF j(1) True] by simp
  next
    case False
    then show ?thesis using B(7) j by simp
  qed
  ultimately show ?thesis unfolding file_wrote_def Let_def
    using B(1,5,8) A(8) file_step_trans [OF A(3) B(3)] w m by auto
qed

lemma same_block:
  assumes "off \<le> j" "j < off + k" "off mod BSIZE + k \<le> BSIZE"
  shows "j div BSIZE = off div BSIZE"
proof -
  have "off = BSIZE * (off div BSIZE) + off mod BSIZE" by (metis mult_div_mod_eq)
  moreover have "BSIZE * Suc (off div BSIZE) = BSIZE + BSIZE * (off div BSIZE)" by (rule mult_Suc_right)
  ultimately show ?thesis using assms by (intro div_nat_eqI) linarith+
qed

lemma block_index:
  assumes "off < MAXFILE * BSIZE"
  shows "of_nat off div of_nat BSIZE = (of_nat (off div BSIZE) :: u32)" "unat (of_nat off :: u32) = off" "off div BSIZE < MAXFILE"
proof -
  show u: "unat (of_nat off :: u32) = off" using assms by (intro unat_of_nat_u32) simp
  have "unat (of_nat (off div BSIZE) :: u32) = off div BSIZE" using assms by (intro unat_of_nat_u32) simp
  then show "of_nat off div of_nat BSIZE = (of_nat (off div BSIZE) :: u32)" using u by (intro word_unat_eq_iff [THEN iffD2]) (simp add: unat_div)
  show "off div BSIZE < MAXFILE" using assms by (simp add: less_mult_imp_div_less)
qed

lemma fbyte_splice:
  assumes d: "length (c a) = BSIZE" "off mod BSIZE + length xs \<le> BSIZE" and k: "faddr c as (off div BSIZE) = a" "a \<noteq> 0"
    and j: "j div BSIZE = off div BSIZE"
  shows "splice (off mod BSIZE) xs (c a) ! (j mod BSIZE) = (if off \<le> j \<and> j < off + length xs then xs ! (j - off) else fbyte c as j)"
proof -
  have jo: "j = BSIZE * (off div BSIZE) + j mod BSIZE" "off = BSIZE * (off div BSIZE) + off mod BSIZE" using j by (metis mult_div_mod_eq)+
  then have "off \<le> j \<longleftrightarrow> off mod BSIZE \<le> j mod BSIZE" "j < off + length xs \<longleftrightarrow> j mod BSIZE < off mod BSIZE + length xs"
    "j - off = j mod BSIZE - off mod BSIZE" by linarith+
  moreover have "j mod BSIZE < BSIZE" by simp
  ultimately show ?thesis using nth_splice [of "off mod BSIZE" xs "c a" "j mod BSIZE"] d k j by (simp add: fbyte_def Let_def del: BSIZE_def)
qed

text \<open>One turn of the loop.\<close>

lemma writei_block:
  fixes s :: "'a fsst_scheme"
  assumes t: "tx D s c bl {}" and l: "fs_layout (sb s) (log_start s)" and m: "meta_marked c (sb s)"
    and d: "i_dev (itable s i) = D" and f: "file_ok (sb s) c (i_addrs (itable s i))" and src: "delivers from data s"
    and n: "off + length data \<le> MAXFILE * BSIZE" "data \<noteq> []" and k: "k = min (length data) (BSIZE - off mod BSIZE)"
    and r: "space s (log_cost (sb s) (i_addrs (itable s i)) bl + 2)"
  shows "(\<exists>s' c' bl' as'. writei_loop i from (of_nat off) (length data) tot s = Ok (tot, of_nat off, s') \<and> file_wrote D i off data 0 c bl s c' bl' as' s') \<or>
    (\<exists>s' c' bl' as'. writei_loop i from (of_nat off) (length data) tot s =
        writei_loop i (src_add from k) (of_nat (off + k)) (length data - k) (tot + int k) s' \<and>
      file_wrote D i off (take k data) k c bl s c' bl' as' s')"
proof -
  let ?x = "sb s" and ?as = "i_addrs (itable s i)" and ?k = "off div BSIZE" and ?o = "off mod BSIZE"
  have pos: "0 < length data" and lt: "off < MAXFILE * BSIZE" using n by (cases data; simp)+
  note ix = block_index [OF lt]
  note sp = span_step [OF pos k]
  obtain a s1 where a: "bmap i (of_nat ?k) s = Ok (a, s1)" "bmap_spec D i ?k s c bl a s1"
    using bmap_ok [OF t r l m d f ix(3)] by blast
  obtain c1 as1 bl1 where 1: "tx D s1 c1 bl1 {}" "txf D {} (set_addrs i as1 s) s1" "grows ?x ?k c ?as c1 as1" "a = faddr c1 as1 ?k"
    "a = 0 \<longrightarrow> (\<forall>b < sb_size ?x. marked c1 ?x b)"
    "log_cost ?x as1 (if a = 0 then bl1 else add_block a bl1) \<le> log_cost ?x ?as bl + 1"
    by (rule bmap_specD [OF a(2)])
  note g = growsD(1,2) [OF 1(3)] and gs = grows_step [OF 1(3) ix(3)] and gb = grows_fbyte [OF 1(3) f]
  have s1: "sb s1 = ?x" "log_start s1 = log_start s" "phys s1 = phys s" "i_dev (itable s1 i) = D"
    using txf_fs [OF 1(2)] txfD [OF 1(2)] d by simp_all
  have "tx_frame (set_addrs i as1 s) s1" by (rule txfD(10) [OF 1(2)])
  then have sp1: "space s1 n \<longleftrightarrow> space s n" for n using space_frame [of "set_addrs i as1 s" s1] by (simp add: space_def)
  show ?thesis
  proof (cases "a = 0")
    case True
    have "file_wrote D i off data 0 c bl s c1 bl1 as1 s1" unfolding file_wrote_def Let_def using 1 True gs gb sp(1) by auto
    moreover have "writei_loop i from (of_nat off) (length data) tot s = Ok (tot, of_nat off, s1)"
      unfolding writei_loop.simps [of i "from" "of_nat off"] ix(1) using pos a(1) True by simp
    ultimately show ?thesis by blast
  next
    case False
    note b = data_blockD [OF file_okD(3) [OF g(1) ix(3)], folded 1(4), OF False]
    let ?d = "splice ?o (take k data) (c1 a)"
    have lk: "length (take k data) = k" using k by simp
    have ld: "length ?d = BSIZE" using tx_length [OF 1(1), of a] sp(3) lk by simp
    have na: "a \<notin> log_area (log_start s1)" using l b(2) s1(2) by (auto simp: fs_layout_def)
    have "length bl1 \<le> length (add_block a bl1)" by (simp add: length_add_block)
    also have "\<dots> \<le> log_cost ?x ?as bl + 1" using 1(6) False log_cost_length(2) le_trans by (metis (full_types))
    finally have r1: "space s1 (Suc (length bl1))" unfolding sp1 using space_mono [OF r] by simp
    obtain p s2 s3 s4 where 2: "bread D a s1 = Ok (p, s2)" "b_data (bufs s2 p) = c1 a" "txf D {} s1 s2"
      "log_write p (set_data p ?d s2) = Ok s3" "txf D {} s1 s3" "brelse p s3 = Ok s4" "tx D s4 (c1(a := ?d)) (add_block a bl1) {}" "txf D {} s1 s4"
      by (rule block_change [OF 1(1) _ na r1 ld]) simp
    have "phys s2 = phys s" using txfD(7) [OF 2(3)] s1(3) by simp
    then have "delivers from data s2" using src delivers_phys [of s2 s] by simp
    then have cp: "either_copyin from k s2 = Ok (0, take k data)"
      unfolding delivers_def using k by (metis add_0 min.cobounded1 slice_def drop0 src_add_0)
    have step: "writei_loop i from (of_nat off) (length data) tot s =
        writei_loop i (src_add from k) (of_nat (off + k)) (length data - k) (tot + int k) s4"
      unfolding writei_loop.simps [of i "from" "of_nat off"] ix(1,2) Let_def k [symmetric]
      using pos a(1) False s1(4) 2(1,2,4,6) cp by (simp del: BSIZE_def)
    note w = write_block [where d = ?d, OF g(1,2) ix(3) 1(4) [symmetric] False]
    have fs: "file_step ?x c ?as (c1(a := ?d)) as1" by (rule file_step_trans [OF gs w(1)])
    have fb: "fbyte (c1(a := ?d)) as1 j = (if off \<le> j \<and> j < off + k then take k data ! (j - off) else fbyte c ?as j)" if j: "j < MAXFILE * BSIZE" for j
    proof (cases "j div BSIZE = ?k")
      case True
      then show ?thesis using w(3) [OF j] fbyte_splice [OF tx_length [OF 1(1)] _ 1(4) [symmetric] False True, of "take k data"] sp(3) lk gb [OF j] by simp
    next
      case False
      have "\<not> (off \<le> j \<and> j < off + k)"
      proof
        assume "off \<le> j \<and> j < off + k"
        then have "j div BSIZE = ?k" using same_block sp(3) by blast
        then show False using False by simp
      qed
      then show ?thesis using w(3) [OF j] False gb [OF j] by auto
    qed
    have al: "faddr (c1(a := ?d)) as1 (j div BSIZE) \<noteq> 0" if "off \<le> j" "j < off + k" for j
    proof -
      have "j div BSIZE = ?k" by (rule same_block [OF that sp(3)])
      then show ?thesis using w(2) 1(4) False by simp
    qed
    have fr: "txf D {} (set_addrs i as1 s) s4" by (rule txf_trans [OF 1(2) 2(8)])
    have "span off k \<ge> 1" using sp(2) by (simp add: span_def)
    then have "file_wrote D i off (take k data) k c bl s (c1(a := ?d)) (add_block a bl1) as1 s4"
      unfolding file_wrote_def Let_def lk using 2(7) fr fs fb al 1(6) False by auto
    then show ?thesis using step by blast
  qed
qed

lemma writei_loop_ok:
  fixes s :: "'a fsst_scheme"
  assumes "tx D s c bl {}" "fs_layout (sb s) (log_start s)" "meta_marked c (sb s)" "i_dev (itable s i) = D"
    "file_ok (sb s) c (i_addrs (itable s i))" "delivers from data s" "off + length data \<le> MAXFILE * BSIZE"
    "space s (log_cost (sb s) (i_addrs (itable s i)) bl + span off (length data) + 1)"
  shows "\<exists>w s' c' bl' as'. writei_loop i from (of_nat off) (length data) tot s = Ok (tot + int w, of_nat (off + w), s') \<and>
    file_wrote D i off data w c bl s c' bl' as' s'"
  using assms
proof (induction "length data" arbitrary: data "from" off tot s c bl rule: less_induct)
  case (less data "from" off tot s c bl)
  note p = less.prems
  show ?case
  proof (cases "data = []")
    case True
    then have "writei_loop i from (of_nat off) (length data) tot s = Ok (tot, of_nat off, s)"
      by (simp add: writei_loop.simps [of i "from" "of_nat off"])
    moreover have "file_wrote D i off data 0 c bl s c bl (i_addrs (itable s i)) s"
      unfolding file_wrote_def Let_def using p(1) file_step_refl [OF p(5,3)] True by auto
    ultimately show ?thesis by (intro exI [of _ 0]) auto
  next
    case False
    define k where "k = min (length data) (BSIZE - off mod BSIZE)"
    have pos: "0 < length data" using False by simp
    note sp = span_step [OF pos k_def]
    have r: "space s (log_cost (sb s) (i_addrs (itable s i)) bl + 2)" by (rule space_mono [OF p(8)]) (use sp(1) in simp)
    from writei_block [OF p(1-7) False k_def r, of tot] show ?thesis
    proof (elim disjE exE conjE)
      fix s' c' bl' as' assume "writei_loop i from (of_nat off) (length data) tot s = Ok (tot, of_nat off, s')" "file_wrote D i off data 0 c bl s c' bl' as' s'"
      then show ?thesis by (intro exI [of _ 0]) auto
    next
      fix s1 c1 bl1 as1 assume 1: "writei_loop i from (of_nat off) (length data) tot s =
        writei_loop i (src_add from k) (of_nat (off + k)) (length data - k) (tot + int k) s1" "file_wrote D i off (take k data) k c bl s c1 bl1 as1 s1"
      note W = file_wroteD [OF 1(2)] and S = file_wrote_state [OF 1(2)]
      have k: "k \<le> length data" by (simp add: k_def)
      have sk: "span off k = 1" using span_step(1) [of k k off] sp(2,3) by (simp add: span_def)
      have as1: "i_addrs (itable s1 i) = as1" "i_dev (itable s1 i) = D" using S(2) p(4) by simp_all
      have d1: "delivers (src_add from k) (drop k data) s1" using delivers_phys [OF S(4)] delivers_drop [OF p(6) k] by simp
      have "log_cost (sb s) as1 bl1 + span (off + k) (length data - k) + 1 \<le> log_cost (sb s) (i_addrs (itable s i)) bl + span off (length data) + 1"
        using W(8) sk sp(1) k by simp
      then have r1: "space s1 (log_cost (sb s) as1 bl1 + span (off + k) (length data - k) + 1)" unfolding S(5) by (rule space_mono [OF p(8)])
      have lt: "length (drop k data) < length data" using sp(2) pos by simp
      obtain w s2 c2 bl2 as2 where 2: "writei_loop i (src_add from k) (of_nat (off + k)) (length (drop k data)) (tot + int k) s1 =
          Ok (tot + int k + int w, of_nat (off + k + w), s2)" "file_wrote D i (off + k) (drop k data) w c1 bl1 s1 c2 bl2 as2 s2"
        using less.hyps [OF lt W(1) _ _ as1(2) _ d1, unfolded S(1,3) as1(1), of "off + k" "tot + int k"] p(2,7) file_stepD(1,2) [OF W(3)] k r1 by auto
      have "file_wrote D i off data (k + w) c bl s c2 bl2 as2 s2"
        by (rule file_wrote_trans [OF 1(2) 2(2) k _ p(7)]) (use sk sp(1) in simp)
      then show ?thesis using 1(1) 2(1) by (intro exI [of _ "k + w"] exI [of _ s2]) (auto simp: add.assoc)
    qed
  qed
qed

end
