(* ===== verification/Proc.thy ===== *)
theory Proc
  imports Fs
begin

text \<open>
  \<^verbatim>\<open>kernel/proc.c\<close>, the part that the files and pipes need: the process table, the trap frame, the
  allocation of processes and of their page tables, \<^verbatim>\<open>sleep\<close>, \<^verbatim>\<open>wakeup\<close> and \<^verbatim>\<open>kill\<close>. Each critical
  section under a process's lock is one step. \<open>cur\<close> is the process of the running CPU, \<^verbatim>\<open>c->proc\<close>,
  and \<open>mypid\<close> is its pid. A process pointer is an index of the table.

  \<open>trampoline_pa\<close> and \<open>forkret_pc\<close> are the addresses of \<^verbatim>\<open>trampoline\<close> and \<^verbatim>\<open>forkret\<close> in the kernel
  image.
\<close>

section \<open>State\<close>

datatype procstate = UNUSED | USED | SLEEPING | RUNNABLE | RUNNING | ZOMBIE

text \<open>The addresses that are used as sleep channels.\<close>

datatype chan = ChanNone | ChanProc nat | ChanTicks | ChanPipeRead u64 | ChanPipeWrite u64 | ChanCons | ChanUart
  | ChanDiskFree | ChanBuf nat

record kcontext =
  ctx_ra :: u64
  ctx_sp :: u64
  ctx_s :: "u64 list"

record proc =
  p_state :: procstate
  p_chan :: chan
  p_killed :: bool
  p_xstate :: int
  p_pid :: int
  p_parent :: "nat option"
  p_kstack :: u64
  p_sz :: u64
  p_pagetable :: u64
  p_trapframe :: u64
  p_context :: kcontext
  p_ofile :: "nat option list"
  p_cwd :: "nat option"
  p_name :: "u8 list"
  p_mask :: u32

record procst = fsst +
  procs :: "nat \<Rightarrow> proc"
  cur :: nat
  initproc :: "nat option"
  nextpid :: int
  ticks :: u32
  trampoline_pa :: u64
  forkret_pc :: u64

definition upd_proc :: "nat \<Rightarrow> (proc \<Rightarrow> proc) \<Rightarrow> 'a procst_scheme \<Rightarrow> 'a procst_scheme" where
  "upd_proc i f s = s\<lparr>procs := (procs s)(i := f (procs s i))\<rparr>"

abbreviation myproc :: "'a procst_scheme \<Rightarrow> proc" where "myproc s \<equiv> procs s (cur s)"

text \<open>The fields of \<^verbatim>\<open>struct trapframe\<close> by their offsets.\<close>

definition TF_KERNEL_SATP :: u64 where "TF_KERNEL_SATP = 0"
definition TF_KERNEL_SP :: u64 where "TF_KERNEL_SP = 8"
definition TF_KERNEL_TRAP :: u64 where "TF_KERNEL_TRAP = 16"
definition TF_EPC :: u64 where "TF_EPC = 24"
definition TF_KERNEL_HARTID :: u64 where "TF_KERNEL_HARTID = 32"
definition TF_SP :: u64 where "TF_SP = 48"
definition TF_A :: "nat \<Rightarrow> u64" where "TF_A n = 112 + 8 * of_nat n"
definition TF_SIZE :: nat where "TF_SIZE = 288"

definition tf_get :: "u64 \<Rightarrow> 'a kmem_scheme \<Rightarrow> u64 \<Rightarrow> u64" where
  "tf_get tf s off = load64 (phys s) (tf + off)"

definition tf_set :: "u64 \<Rightarrow> u64 \<Rightarrow> u64 \<Rightarrow> 'a kmem_scheme \<Rightarrow> 'a kmem_scheme" where
  "tf_set tf off v s = s\<lparr>phys := store64 (phys s) (tf + off) v\<rparr>"

section \<open>Allocation\<close>

definition procinit :: "'a procst_scheme \<Rightarrow> 'a procst_scheme" where
  "procinit s = fold (\<lambda>i. upd_proc i (\<lambda>p. p\<lparr>p_state := UNUSED, p_kstack := KSTACK (of_nat i)\<rparr>)) [0..<NPROC] s"

definition allocpid :: "'a procst_scheme \<Rightarrow> int \<times> 'a procst_scheme" where
  "allocpid s = (nextpid s, s\<lparr>nextpid := nextpid s + 1\<rparr>)"

definition proc_pagetable :: "u64 \<Rightarrow> 'a procst_scheme \<Rightarrow> (u64 \<times> 'a procst_scheme) outcome" where
  "proc_pagetable trapframe s =
     (case uvmcreate s of (pagetable, s) \<Rightarrow>
        if pagetable = 0 then Ok (0, s)
        else bind_ok (mappages pagetable TRAMPOLINE PGSIZE (trampoline_pa s) (PTE_R OR PTE_X) s) (\<lambda>(r, s).
          if r < 0 then bind_ok (uvmfree pagetable 0 s) (\<lambda>s. Ok (0, s))
          else bind_ok (mappages pagetable TRAPFRAME PGSIZE trapframe (PTE_R OR PTE_W) s) (\<lambda>(r, s).
            if r < 0
            then bind_ok (uvmunmap pagetable TRAMPOLINE 1 False s) (\<lambda>s.
                 bind_ok (uvmfree pagetable 0 s) (\<lambda>s. Ok (0, s)))
            else Ok (pagetable, s))))"

definition proc_freepagetable :: "u64 \<Rightarrow> u64 \<Rightarrow> 'a kmem_scheme \<Rightarrow> 'a kmem_scheme outcome" where
  "proc_freepagetable pagetable sz s =
     bind_ok (uvmunmap pagetable TRAMPOLINE 1 False s) (\<lambda>s.
     bind_ok (uvmunmap pagetable TRAPFRAME 1 False s) (\<lambda>s.
     uvmfree pagetable sz s))"

definition freeproc :: "nat \<Rightarrow> 'a procst_scheme \<Rightarrow> 'a procst_scheme outcome" where
  "freeproc i s =
     bind_ok (if p_trapframe (procs s i) \<noteq> 0 then kfree (p_trapframe (procs s i)) s else Ok s) (\<lambda>s.
       let s = upd_proc i (\<lambda>p. p\<lparr>p_trapframe := 0\<rparr>) s
       in bind_ok (if p_pagetable (procs s i) \<noteq> 0
                   then proc_freepagetable (p_pagetable (procs s i)) (p_sz (procs s i)) s else Ok s) (\<lambda>s.
          Ok (upd_proc i (\<lambda>p. p\<lparr>p_pagetable := 0, p_sz := 0, p_pid := 0, p_parent := None,
                p_name := (p_name p)[0 := 0], p_chan := ChanNone, p_killed := False, p_xstate := 0,
                p_state := UNUSED\<rparr>) s)))"

definition allocproc :: "'a procst_scheme \<Rightarrow> (nat option \<times> 'a procst_scheme) outcome" where
  "allocproc s =
     (case find (\<lambda>i. p_state (procs s i) = UNUSED) [0..<NPROC] of
        None \<Rightarrow> Ok (None, s)
      | Some i \<Rightarrow>
          (case allocpid s of (pid, s) \<Rightarrow>
             let s = upd_proc i (\<lambda>p. p\<lparr>p_pid := pid, p_state := USED\<rparr>) s
             in case kalloc s of (tf, s) \<Rightarrow>
                  let s = upd_proc i (\<lambda>p. p\<lparr>p_trapframe := tf\<rparr>) s
                  in if tf = 0 then bind_ok (freeproc i s) (\<lambda>s. Ok (None, s))
                     else bind_ok (proc_pagetable tf s) (\<lambda>(pt, s).
                       let s = upd_proc i (\<lambda>p. p\<lparr>p_pagetable := pt\<rparr>) s
                       in if pt = 0 then bind_ok (freeproc i s) (\<lambda>s. Ok (None, s))
                          else Ok (Some i, upd_proc i (\<lambda>p. p\<lparr>p_context :=
                            \<lparr>ctx_ra = forkret_pc s, ctx_sp = p_kstack p + PGSIZE, ctx_s = replicate 12 0\<rparr>\<rparr>) s))))"

definition growproc :: "int \<Rightarrow> 'a procst_scheme \<Rightarrow> (int \<times> 'a procst_scheme) outcome" where
  "growproc n s =
     (let pt = p_pagetable (myproc s); sz = p_sz (myproc s)
      in if n > 0
         then bind_ok (uvmalloc pt sz (sz + word_of_int n) PTE_W s) (\<lambda>(sz, s).
           if sz = 0 then Ok (-1, s) else Ok (0, upd_proc (cur s) (\<lambda>p. p\<lparr>p_sz := sz\<rparr>) s))
         else if n < 0
         then bind_ok (uvmdealloc pt sz (sz + word_of_int n) s) (\<lambda>(sz, s).
           Ok (0, upd_proc (cur s) (\<lambda>p. p\<lparr>p_sz := sz\<rparr>) s))
         else Ok (0, s))"

section \<open>Sleep and wakeup\<close>

text \<open>
  The running process goes to sleep on \<open>ch\<close>: \<^verbatim>\<open>sleep\<close> up to its call of \<^verbatim>\<open>sched\<close>, and what it does
  when the process runs again.
\<close>

definition sleep_on :: "chan \<Rightarrow> 'a procst_scheme \<Rightarrow> 'a procst_scheme" where
  "sleep_on ch s = upd_proc (cur s) (\<lambda>p. p\<lparr>p_chan := ch, p_state := SLEEPING\<rparr>) s"

definition sleep_done :: "'a procst_scheme \<Rightarrow> 'a procst_scheme" where
  "sleep_done s = upd_proc (cur s) (\<lambda>p. p\<lparr>p_chan := ChanNone\<rparr>) s"

definition wakeup :: "chan \<Rightarrow> 'a procst_scheme \<Rightarrow> 'a procst_scheme" where
  "wakeup ch s = s\<lparr>procs := (\<lambda>i.
     if i < NPROC \<and> i \<noteq> cur s \<and> p_state (procs s i) = SLEEPING \<and> p_chan (procs s i) = ch
     then (procs s i)\<lparr>p_state := RUNNABLE\<rparr> else procs s i)\<rparr>"

definition kill :: "int \<Rightarrow> 'a procst_scheme \<Rightarrow> int \<times> 'a procst_scheme" where
  "kill pid s =
     (case find (\<lambda>i. p_pid (procs s i) = pid) [0..<NPROC] of
        None \<Rightarrow> (-1, s)
      | Some i \<Rightarrow>
          (0, upd_proc i (\<lambda>p. p\<lparr>p_killed := True,
                p_state := (if p_state p = SLEEPING then RUNNABLE else p_state p)\<rparr>) s))"

definition setkilled :: "nat \<Rightarrow> 'a procst_scheme \<Rightarrow> 'a procst_scheme" where
  "setkilled i s = upd_proc i (\<lambda>p. p\<lparr>p_killed := True\<rparr>) s"

definition killed :: "nat \<Rightarrow> 'a procst_scheme \<Rightarrow> bool" where
  "killed i s = p_killed (procs s i)"

definition unsetprocnum :: "'a procst_scheme \<Rightarrow> u64" where
  "unsetprocnum s = fold (\<lambda>i n. if p_state (procs s i) \<noteq> UNUSED then n + 1 else n) [0..<NPROC] 0"

text \<open>What sleeping and waking change.\<close>

lemma sleep_wake_fields [simp]:
  "phys (sleep_on c s) = phys s" "freelist (sleep_on c s) = freelist s" "kend (sleep_on c s) = kend s" "cur (sleep_on c s) = cur s"
  "phys (wakeup c s) = phys s" "freelist (wakeup c s) = freelist s" "kend (wakeup c s) = kend s" "cur (wakeup c s) = cur s"
  by (simp_all add: sleep_on_def wakeup_def upd_proc_def)

lemma sleep_wake_pagetable [simp]:
  "p_pagetable (procs (sleep_on c s) q) = p_pagetable (procs s q)" "p_pagetable (procs (wakeup c s) q) = p_pagetable (procs s q)"
  by (simp_all add: sleep_on_def wakeup_def upd_proc_def)

definition awake :: "chan \<Rightarrow> 'a procst_scheme \<Rightarrow> 'a procst_scheme \<Rightarrow> bool" where
  "awake c s s' \<longleftrightarrow> (\<forall>q<NPROC. q \<noteq> cur s \<and> p_state (procs s q) = SLEEPING \<and> p_chan (procs s q) = c \<longrightarrow>
     p_state (procs s' q) = RUNNABLE)"

lemma awake_wakeup [simp]: "awake c s (wakeup c s)"
  by (simp add: awake_def wakeup_def)

lemma awake_sleep [simp]: "awake c s (sleep_on d (wakeup c s))"
  by (simp add: awake_def wakeup_def sleep_on_def upd_proc_def)

section \<open>Static data\<close>

text \<open>The zero-initialised data of the kernel, with \<open>more\<close> for the components above.\<close>

definition zero_buf :: buf where
  "zero_buf = \<lparr>b_valid = False, b_dev = 0, b_blockno = 0, b_lock = \<lparr>sl_locked = False, sl_pid = 0\<rparr>, b_refcnt = 0,
     b_prev = 0, b_next = 0, b_data = replicate BSIZE 0\<rparr>"

definition zero_inode :: inode where
  "zero_inode = \<lparr>i_dev = 0, i_inum = 0, i_ref = 0, i_lock = \<lparr>sl_locked = False, sl_pid = 0\<rparr>, i_valid = False,
     i_type = 0, i_major = 0, i_minor = 0, i_nlink = 0, i_size = 0, i_addrs = replicate 13 0\<rparr>"

definition zero_proc :: proc where
  "zero_proc = \<lparr>p_state = UNUSED, p_chan = ChanNone, p_killed = False, p_xstate = 0, p_pid = 0, p_parent = None,
     p_kstack = 0, p_sz = 0, p_pagetable = 0, p_trapframe = 0,
     p_context = \<lparr>ctx_ra = 0, ctx_sp = 0, ctx_s = replicate 12 0\<rparr>, p_ofile = replicate NOFILE None, p_cwd = None,
     p_name = replicate 16 0, p_mask = 0\<rparr>"

definition zero_data :: "'a \<Rightarrow> 'a procst_scheme" where
  "zero_data m = \<lparr>phys = (\<lambda>_. 0), freelist = 0, kend = 0, mypid = 0, disk_blocks = (\<lambda>_. replicate BSIZE 0), disk_hist = [],
     bufs = (\<lambda>_. zero_buf), log_start = 0, log_size = 0, outstanding = 0, committing = False, log_dev = 0, lh_n = 0,
     lh_block = replicate LOGSIZE 0, sb = \<lparr>sb_magic = 0, sb_size = 0, sb_nblocks = 0, sb_ninodes = 0, sb_nlog = 0,
     sb_logstart = 0, sb_inodestart = 0, sb_bmapstart = 0\<rparr>, itable = (\<lambda>_. zero_inode), procs = (\<lambda>_. zero_proc), cur = 0,
     initproc = None, nextpid = 1, ticks = 0, trampoline_pa = 0, forkret_pc = 0, \<dots> = m\<rparr>"

end
