(* ===== verification/File.thy ===== *)
theory File
  imports Proc
begin

text \<open>
  \<^verbatim>\<open>kernel/pipe.c\<close> and \<^verbatim>\<open>kernel/file.c\<close>. A file pointer is an index of \<^verbatim>\<open>ftable.file\<close>; a pipe is known
  by the address of the page that holds it, which comes from \<^verbatim>\<open>kalloc\<close> and goes back to \<^verbatim>\<open>kfree\<close>.

  A call that sleeps in the middle of its work returns \<open>Asleep i\<close> with the value \<open>i\<close> of its loop
  counter and the process asleep in the table; it continues from there when the process runs
  again. \<open>Exited\<close> is the result of a call that ends the process. The device switch is an argument: \<open>devsw m\<close> are the functions of \<^verbatim>\<open>devsw[m]\<close>, if it is set.
\<close>

section \<open>State\<close>

datatype 'r progress = Done 'r | Asleep nat | Exited

datatype ftype = FD_NONE | FD_PIPE | FD_INODE | FD_DEVICE

record kfile =
  f_type :: ftype
  f_ref :: int
  f_readable :: bool
  f_writable :: bool
  f_pipe :: u64
  f_ip :: "nat option"
  f_off :: u32
  f_major :: u16

definition PIPESIZE :: nat where [simp]: "PIPESIZE = 512"

record pipe =
  pi_data :: "u8 list"
  pi_nread :: u32
  pi_nwrite :: u32
  pi_readopen :: bool
  pi_writeopen :: bool

record filest = procst +
  ftable :: "nat \<Rightarrow> kfile"
  pipes :: "u64 \<Rightarrow> pipe"

definition upd_file :: "nat \<Rightarrow> (kfile \<Rightarrow> kfile) \<Rightarrow> 'a filest_scheme \<Rightarrow> 'a filest_scheme" where
  "upd_file f g s = s\<lparr>ftable := (ftable s)(f := g (ftable s f))\<rparr>"

definition upd_pipe :: "u64 \<Rightarrow> (pipe \<Rightarrow> pipe) \<Rightarrow> 'a filest_scheme \<Rightarrow> 'a filest_scheme" where
  "upd_pipe a g s = s\<lparr>pipes := (pipes s)(a := g (pipes s a))\<rparr>"

section \<open>Pipes\<close>

text \<open>
  \<^verbatim>\<open>pi->data[pi->nwrite++ % PIPESIZE] = ch\<close> and \<^verbatim>\<open>ch = pi->data[pi->nread++ % PIPESIZE]\<close>.
\<close>

definition pipe_put :: "u8 \<Rightarrow> pipe \<Rightarrow> pipe" where
  "pipe_put ch p = p\<lparr>pi_data := (pi_data p)[unat (pi_nwrite p mod of_nat PIPESIZE) := ch],
     pi_nwrite := pi_nwrite p + 1\<rparr>"

definition pipe_get :: "pipe \<Rightarrow> u8 \<times> pipe" where
  "pipe_get p = (pi_data p ! unat (pi_nread p mod of_nat PIPESIZE), p\<lparr>pi_nread := pi_nread p + 1\<rparr>)"

definition pipeclose :: "u64 \<Rightarrow> bool \<Rightarrow> 'a filest_scheme \<Rightarrow> 'a filest_scheme outcome" where
  "pipeclose pi writable s =
     (let s = (if writable
               then wakeup (ChanPipeRead pi) (upd_pipe pi (\<lambda>p. p\<lparr>pi_writeopen := False\<rparr>) s)
               else wakeup (ChanPipeWrite pi) (upd_pipe pi (\<lambda>p. p\<lparr>pi_readopen := False\<rparr>) s))
      in if \<not> pi_readopen (pipes s pi) \<and> \<not> pi_writeopen (pipes s pi) then kfree pi s else Ok s)"

text \<open>The loop of \<^verbatim>\<open>pipewrite\<close> from its counter value \<open>i\<close> on.\<close>

function pipewrite_from :: "u64 \<Rightarrow> u64 \<Rightarrow> int \<Rightarrow> nat \<Rightarrow> 'a filest_scheme \<Rightarrow> (int progress \<times> 'a filest_scheme) outcome" where
  "pipewrite_from pi addr n i s =
     (if int i < n
      then if \<not> pi_readopen (pipes s pi) \<or> killed (cur s) s then Ok (Done (-1), s)
           else if pi_nwrite (pipes s pi) = pi_nread (pipes s pi) + of_nat PIPESIZE
           then Ok (Asleep i, sleep_on (ChanPipeWrite pi) (wakeup (ChanPipeRead pi) s))
           else bind_ok (copyin (p_pagetable (myproc s)) (addr + of_nat i) 1 s) (\<lambda>(r, bytes).
             if r = -1 then Ok (Done (int i), wakeup (ChanPipeRead pi) s)
             else pipewrite_from pi addr n (Suc i) (upd_pipe pi (pipe_put (hd bytes)) s))
      else Ok (Done (int i), wakeup (ChanPipeRead pi) s))"
  by pat_completeness auto
termination by (relation "measure (\<lambda>(pi, addr, n, i, s). nat (n - int i))") auto

declare pipewrite_from.simps [simp del]

definition pipewrite :: "u64 \<Rightarrow> u64 \<Rightarrow> int \<Rightarrow> 'a filest_scheme \<Rightarrow> (int progress \<times> 'a filest_scheme) outcome" where
  "pipewrite pi addr n s = pipewrite_from pi addr n 0 s"

text \<open>The copy loop of \<^verbatim>\<open>piperead\<close>, with \<open>k = n - i\<close> bytes to go.\<close>

fun piperead_copy :: "u64 \<Rightarrow> u64 \<Rightarrow> nat \<Rightarrow> nat \<Rightarrow> 'a filest_scheme \<Rightarrow> (nat \<times> 'a filest_scheme) outcome" where
  "piperead_copy pi addr i 0 s = Ok (i, s)"
| "piperead_copy pi addr i (Suc k) s =
     (if pi_nread (pipes s pi) = pi_nwrite (pipes s pi) then Ok (i, s)
      else case pipe_get (pipes s pi) of (ch, p) \<Rightarrow>
        bind_ok (copyout (p_pagetable (myproc s)) (addr + of_nat i) [ch] (upd_pipe pi (\<lambda>_. p) s)) (\<lambda>(r, s).
          if r = -1 then Ok (i, s) else piperead_copy pi addr (Suc i) k s))"

definition piperead :: "u64 \<Rightarrow> u64 \<Rightarrow> int \<Rightarrow> 'a filest_scheme \<Rightarrow> (int progress \<times> 'a filest_scheme) outcome" where
  "piperead pi addr n s =
     (if pi_nread (pipes s pi) = pi_nwrite (pipes s pi) \<and> pi_writeopen (pipes s pi)
      then if killed (cur s) s then Ok (Done (-1), s)
           else Ok (Asleep 0, sleep_on (ChanPipeRead pi) s)
      else bind_ok (piperead_copy pi addr 0 (nat n) s) (\<lambda>(i, s).
        Ok (Done (int i), wakeup (ChanPipeWrite pi) s)))"

section \<open>Files\<close>

definition filealloc :: "'a filest_scheme \<Rightarrow> nat option \<times> 'a filest_scheme" where
  "filealloc s =
     (case find (\<lambda>f. f_ref (ftable s f) = 0) [0..<NFILE] of
        None \<Rightarrow> (None, s)
      | Some f \<Rightarrow> (Some f, upd_file f (\<lambda>x. x\<lparr>f_ref := 1\<rparr>) s))"

definition filedup :: "nat \<Rightarrow> 'a filest_scheme \<Rightarrow> 'a filest_scheme outcome" where
  "filedup f s =
     (if f_ref (ftable s f) < 1 then Panic ''filedup''
      else Ok (upd_file f (\<lambda>x. x\<lparr>f_ref := f_ref x + 1\<rparr>) s))"

definition fileclose :: "nat \<Rightarrow> 'a filest_scheme \<Rightarrow> 'a filest_scheme outcome" where
  "fileclose f s =
     (if f_ref (ftable s f) < 1 then Panic ''fileclose''
      else let s = upd_file f (\<lambda>x. x\<lparr>f_ref := f_ref x - 1\<rparr>) s
           in if f_ref (ftable s f) > 0 then Ok s
              else let ff = ftable s f; s = upd_file f (\<lambda>x. x\<lparr>f_ref := 0, f_type := FD_NONE\<rparr>) s
                   in case f_type ff of
                        FD_PIPE \<Rightarrow> pipeclose (f_pipe ff) (f_writable ff) s
                      | FD_NONE \<Rightarrow> Ok s
                      | _ \<Rightarrow> (case f_ip ff of
                          None \<Rightarrow> Undef
                        | Some i \<Rightarrow> bind_ok (begin_op s) (\<lambda>s. bind_ok (iput i s) end_op)))"

definition new_pipe :: "pipe \<Rightarrow> pipe" where
  "new_pipe p = p\<lparr>pi_readopen := True, pi_writeopen := True, pi_nwrite := 0, pi_nread := 0\<rparr>"

definition close_opt :: "nat option \<Rightarrow> 'a filest_scheme \<Rightarrow> 'a filest_scheme outcome" where
  "close_opt f s = (case f of None \<Rightarrow> Ok s | Some f \<Rightarrow> fileclose f s)"

text \<open>The two files, or \<open>None\<close> where \<^verbatim>\<open>pipealloc\<close> returns -1.\<close>

definition pipealloc :: "'a filest_scheme \<Rightarrow> ((nat \<times> nat) option \<times> 'a filest_scheme) outcome" where
  "pipealloc s =
     (case filealloc s of (f0, s) \<Rightarrow>
        case (if f0 = None then (None, s) else filealloc s) of (f1, s) \<Rightarrow>
          case (if f0 = None \<or> f1 = None then (0, s) else kalloc s) of (pi, s) \<Rightarrow>
            if pi = 0
            then bind_ok (close_opt f0 s) (\<lambda>s. bind_ok (close_opt f1 s) (\<lambda>s. Ok (None, s)))
            else let s = upd_pipe pi new_pipe s;
                     s = upd_file (the f0) (\<lambda>x. x\<lparr>f_type := FD_PIPE, f_readable := True, f_writable := False, f_pipe := pi\<rparr>) s;
                     s = upd_file (the f1) (\<lambda>x. x\<lparr>f_type := FD_PIPE, f_readable := False, f_writable := True, f_pipe := pi\<rparr>) s
                 in Ok (Some (the f0, the f1), s))"

text \<open>
  \<^verbatim>\<open>struct stat\<close> as copied to user space. The four bytes between \<^verbatim>\<open>nlink\<close> and \<^verbatim>\<open>size\<close> are padding that
  no assignment sets; \<open>pad\<close> is what the variable has there.
\<close>

definition bytes64 :: "u64 \<Rightarrow> u8 list" where
  "bytes64 v = bytes32 (ucast v) @ bytes32 (ucast (drop_bit 32 v))"

definition bytes_stat :: "u8 list \<Rightarrow> stat \<Rightarrow> u8 list" where
  "bytes_stat pad st = bytes32 (st_dev st) @ bytes32 (st_ino st) @ bytes16 (st_type st) @ bytes16 (st_nlink st) @
     pad @ bytes64 (st_size st)"

definition filestat :: "u8 list \<Rightarrow> nat \<Rightarrow> u64 \<Rightarrow> 'a filest_scheme \<Rightarrow> (int \<times> 'a filest_scheme) outcome" where
  "filestat pad f addr s =
     (if f_type (ftable s f) = FD_INODE \<or> f_type (ftable s f) = FD_DEVICE
      then let ip = f_ip (ftable s f)
           in bind_ok (ilock ip s) (\<lambda>s.
              let st = stati (the ip) s
              in bind_ok (iunlock ip s) (\<lambda>s.
                 bind_ok (copyout (p_pagetable (myproc s)) addr (bytes_stat pad st) s) (\<lambda>(r, s).
                 if r < 0 then Ok (-1, s) else Ok (0, s))))
      else Ok (-1, s))"

type_synonym 's devfun = "u64 \<Rightarrow> int \<Rightarrow> 's \<Rightarrow> (int progress \<times> 's) outcome"
type_synonym 's devswitch = "nat \<Rightarrow> ('s devfun option \<times> 's devfun option)"

definition fileread ::
  "'a filest_scheme devswitch \<Rightarrow> nat \<Rightarrow> u64 \<Rightarrow> int \<Rightarrow> 'a filest_scheme \<Rightarrow> (int progress \<times> 'a filest_scheme) outcome" where
  "fileread devsw f addr n s =
     (let ff = ftable s f
      in if \<not> f_readable ff then Ok (Done (-1), s)
         else case f_type ff of
           FD_PIPE \<Rightarrow> piperead (f_pipe ff) addr n s
         | FD_DEVICE \<Rightarrow>
             if sint (f_major ff) < 0 \<or> sint (f_major ff) \<ge> int NDEV then Ok (Done (-1), s)
             else (case fst (devsw (nat (sint (f_major ff)))) of
               None \<Rightarrow> Ok (Done (-1), s)
             | Some g \<Rightarrow> g addr n s)
         | FD_INODE \<Rightarrow>
             bind_ok (ilock (f_ip ff) s) (\<lambda>s.
             bind_ok (readi (the (f_ip ff)) (DUser (p_pagetable (myproc s)) addr) (f_off (ftable s f)) (word_of_int n) s) (\<lambda>(r, _, s).
               let s = (if r > 0 then upd_file f (\<lambda>x. x\<lparr>f_off := f_off x + word_of_int r\<rparr>) s else s)
               in bind_ok (iunlock (f_ip ff) s) (\<lambda>s. Ok (Done r, s))))
         | FD_NONE \<Rightarrow> Panic ''fileread'')"

definition file_max :: int where "file_max = (int MAXOPBLOCKS - 1 - 1 - 2) div 2 * int BSIZE"

text \<open>The loop of \<^verbatim>\<open>filewrite\<close> for an inode; the value of \<open>i\<close> when it stops.\<close>

function filewrite_from :: "nat \<Rightarrow> u64 \<Rightarrow> int \<Rightarrow> int \<Rightarrow> 'a filest_scheme \<Rightarrow> (int \<times> 'a filest_scheme) outcome" where
  "filewrite_from f addr n i s =
     (if i < n
      then let n1 = min (n - i) file_max
           in bind_ok (begin_op s) (\<lambda>s.
              let ip = f_ip (ftable s f)
              in bind_ok (ilock ip s) (\<lambda>s.
                 bind_ok (writei (the ip) (SUser (p_pagetable (myproc s)) (addr + word_of_int i))
                     (f_off (ftable s f)) (word_of_int n1) s) (\<lambda>(r, s).
                   let s = (if r > 0 then upd_file f (\<lambda>x. x\<lparr>f_off := f_off x + word_of_int r\<rparr>) s else s)
                   in bind_ok (iunlock ip s) (\<lambda>s.
                      bind_ok (end_op s) (\<lambda>s.
                      if r \<noteq> n1 then Ok (i, s) else filewrite_from f addr n (i + r) s)))))
      else Ok (i, s))"
  by pat_completeness auto
termination by (relation "measure (\<lambda>(f, addr, n, i, s). nat (n - i))") (auto simp: file_max_def)

declare filewrite_from.simps [simp del]

definition filewrite ::
  "'a filest_scheme devswitch \<Rightarrow> nat \<Rightarrow> u64 \<Rightarrow> int \<Rightarrow> 'a filest_scheme \<Rightarrow> (int progress \<times> 'a filest_scheme) outcome" where
  "filewrite devsw f addr n s =
     (let ff = ftable s f
      in if \<not> f_writable ff then Ok (Done (-1), s)
         else case f_type ff of
           FD_PIPE \<Rightarrow> pipewrite (f_pipe ff) addr n s
         | FD_DEVICE \<Rightarrow>
             if sint (f_major ff) < 0 \<or> sint (f_major ff) \<ge> int NDEV then Ok (Done (-1), s)
             else (case snd (devsw (nat (sint (f_major ff)))) of
               None \<Rightarrow> Ok (Done (-1), s)
             | Some g \<Rightarrow> g addr n s)
         | FD_INODE \<Rightarrow>
             bind_ok (filewrite_from f addr n 0 s) (\<lambda>(i, s). Ok (Done (if i = n then n else -1), s))
         | FD_NONE \<Rightarrow> Panic ''filewrite'')"

end
