(* ===== verification/Log_Props.thy ===== *)
theory Log_Props
  imports Log_Spec
begin

text \<open>
  What the log promises to the file system: a transaction survives a crash as a whole or not at
  all, recovery may itself be interrupted, and \<^verbatim>\<open>log_write\<close> has room for the blocks it is given
  exactly up to a bound.
\<close>

section \<open>A small disk\<close>

lemma binit_cview:
  assumes "D \<noteq> 0" "\<forall>n. length (disk_blocks s n) = BSIZE"
    and zero: "\<forall>i<NBUF. b_valid (bufs s i) = False \<and> b_dev (bufs s i) = 0 \<and> b_refcnt (bufs s i) = 0"
  shows "cview D (binit s) (disk_blocks s) (\<lambda>_. 0) unlocked"
proof -
  note b = binit_inv [OF assms]
  have "disk_blocks (binit s) = disk_blocks s" by (simp add: binit_def upd_buf_def Let_def)
  then have "content D (binit s) = disk_blocks s" "refs D (binit s) = (\<lambda>_. 0)" "lock_of D (binit s) = unlocked"
    using b(2) by (auto simp: content_def refs_def lock_of_def)
  then show ?thesis using b(1) by (simp add: cview_def)
qed

definition demo_log0 :: logst where
  "demo_log0 = \<lparr>phys = (\<lambda>_. 0), freelist = 0, kend = 0, mypid = 3,
     disk_blocks = (\<lambda>n. replicate BSIZE 0), disk_hist = [],
     bufs = (\<lambda>_. \<lparr>b_valid = False, b_dev = 0, b_blockno = 0, b_lock = initsleeplock, b_refcnt = 0,
       b_prev = 0, b_next = 0, b_data = []\<rparr>),
     log_start = 2, log_size = 30, outstanding = 0, committing = False, log_dev = 1, lh_n = 0,
     lh_block = replicate LOGSIZE 0\<rparr>"

definition demo_log :: logst where
  "demo_log = binit demo_log0"

lemma demo_log_fields:
  "disk_blocks demo_log = (\<lambda>n. replicate BSIZE 0)" "log_start demo_log = 2" "log_size demo_log = 30"
  "outstanding demo_log = 0" "\<not> committing demo_log" "log_dev demo_log = 1" "lh_n demo_log = 0"
  "lh_block demo_log = replicate LOGSIZE 0"
  by (simp_all add: demo_log_def demo_log0_def binit_def upd_buf_def Let_def)

lemma demo_log_booted: "booted 1 demo_log"
proof -
  have "cview 1 demo_log (disk_blocks demo_log0) (\<lambda>_. 0) unlocked"
    unfolding demo_log_def by (rule binit_cview) (simp_all add: demo_log0_def)
  moreover have "disk_blocks demo_log0 = (\<lambda>n. replicate BSIZE 0)" by (simp add: demo_log0_def)
  ultimately show ?thesis by (simp add: booted_def demo_log_fields)
qed

lemma demo_log_n: "log_n 2 (\<lambda>n. replicate BSIZE 0) = 0"
  by (simp add: log_n_def get32_def word32_def slice_def numeral_2_eq_2 numeral_3_eq_3)

text \<open>A transaction that fills block 45.\<close>

definition demo_txn :: "logst outcome" where
  "demo_txn =
     bind_ok (begin_op demo_log) (\<lambda>s.
     bind_ok (bread 1 45 s) (\<lambda>(b, s).
     bind_ok (log_write b (set_data b (replicate BSIZE 9) s)) (brelse b)))"

lemma demo_area: "45 \<notin> log_area 2"
proof
  assume "45 \<in> log_area 2"
  then obtain i where i: "i < LOGSIZE" "(45::u32) = 2 + of_nat i" by (auto simp: log_area_def)
  then have "unat (of_nat i :: u32) = unat (43 :: u32)" by (simp add: algebra_simps)
  then show False using i(1) by (simp add: unat_of_nat_u32)
qed

lemma demo_txn:
  obtains s where "demo_txn = Ok s" "log_pending 1 s [45]" "outstanding s = 1" "\<not> committing s"
    "log_start s = 2" "disk_blocks s = (\<lambda>n. replicate BSIZE 0)" "content 1 s 45 = replicate BSIZE 9"
proof -
  let ?s = "demo_log\<lparr>outstanding := 1\<rparr>" and ?d = "\<lambda>n. replicate BSIZE 0 :: block"
  have "cview 1 ?s ?d (\<lambda>_. 0) unlocked" using demo_log_booted by (simp add: booted_def demo_log_fields)
  then have v: "lview 1 ?s ?d [] {}" by (simp add: lview_def lrefs_def lheld_def demo_log_fields)
  obtain b bs where 1: "bread 1 45 ?s = Ok (b, ?s\<lparr>bufs := bs\<rparr>)" and v1: "lview 1 (?s\<lparr>bufs := bs\<rparr>) ?d [] {45}"
    and h1: "handle 1 (?s\<lparr>bufs := bs\<rparr>) b 45"
    using bread_lview [OF v, of 45] by auto
  obtain b2 bn where 2: "log_write b (set_data b (replicate BSIZE 9) (?s\<lparr>bufs := bs\<rparr>)) =
      Ok (?s\<lparr>bufs := b2, lh_n := 1, lh_block := bn\<rparr>)"
    and v2: "lview 1 (?s\<lparr>bufs := b2, lh_n := 1, lh_block := bn\<rparr>) (?d(45 := replicate BSIZE 9)) [45] {45}"
    and k2: "kept 1 (?s\<lparr>bufs := bs\<rparr>) (?s\<lparr>bufs := b2, lh_n := 1, lh_block := bn\<rparr>)"
    using log_write_lview [OF v1 h1, of "replicate BSIZE 9"] demo_area by (auto simp: demo_log_fields add_block_def)
  have h2: "handle 1 (?s\<lparr>bufs := b2, lh_n := 1, lh_block := bn\<rparr>) b 45"
    by (rule keptD [OF k2 lview_cview [OF v2] h1]) (simp add: lrefs_def)
  obtain b3 where 3: "brelse b (?s\<lparr>bufs := b2, lh_n := 1, lh_block := bn\<rparr>) = Ok (?s\<lparr>lh_n := 1, lh_block := bn, bufs := b3\<rparr>)"
    and v3: "lview 1 (?s\<lparr>lh_n := 1, lh_block := bn, bufs := b3\<rparr>) (?d(45 := replicate BSIZE 9)) [45] {}"
    using brelse_lview [OF v2 h2] by auto
  have "demo_txn = Ok (?s\<lparr>lh_n := 1, lh_block := bn, bufs := b3\<rparr>)"
    using 1 2 3 by (simp add: demo_txn_def begin_op_def demo_log_fields)
  then show thesis using lview_pending [OF v3]
    by (intro that [of "?s\<lparr>lh_n := 1, lh_block := bn, bufs := b3\<rparr>"]) (simp_all add: demo_log_fields)
qed

section \<open>Properties\<close>

text \<open>
  C1: the commit in \<^verbatim>\<open>end_op\<close> is atomic. Let a transaction have changed the blocks \<open>bl\<close>, pinned in
  the cache, and let \<^verbatim>\<open>end_op\<close> be called for the last outstanding system call. It returns, with
  the contents of every block outside the log unchanged and all of them on disk. If the machine
  instead stops after any number \<open>k\<close> of its disk writes, then a kernel that boots from that disk
  and runs \<^verbatim>\<open>initlog\<close> finds either all of the old contents or all of the new ones: the new ones
  exactly if the header was written.
\<close>

theorem end_op_atomic:
  fixes s :: "'a logst_scheme" and sb :: superblock
  assumes p: "log_pending D s bl" "bl \<noteq> []" and o: "outstanding s = 1" "\<not> committing s"
    and e: "log_n (log_start s) (disk_blocks s) = 0" and sb: "sb_logstart sb = log_start s"
  shows "\<exists>s' ws. end_op s = Ok s' \<and> outstanding s' = 0 \<and> \<not> committing s' \<and> lh_n s' = 0 \<and>
    disk_hist s' = disk_hist s @ ws \<and>
    (\<forall>m. m \<notin> log_area (log_start s) \<longrightarrow> content D s' m = content D s m \<and> disk_blocks s' m = content D s m) \<and>
    (\<forall>k (b :: 'b logst_scheme). booted D b \<and> disk_blocks b = replay (take k ws) (disk_blocks s) \<longrightarrow>
      (\<exists>t. initlog D sb b = Ok t \<and> booted D t \<and> (\<forall>m. m \<notin> log_area (log_start s) \<longrightarrow>
        content D t m = (if k \<le> length bl then disk_blocks s m else content D s m))))"
proof -
  let ?h = "log_start s" and ?ws = "commit_writes s bl (content D s)" and ?s = "s\<lparr>outstanding := 0, committing := True\<rparr>"
  have c: "content D ?s = content D s" by (rule content_cong) simp_all
  have w: "commit_writes ?s bl (content D s) = ?ws" by (simp add: commit_writes_def log_writes_def log_head_def)
  have p': "log_pending D ?s bl" using p(1) unfolding log_pending_def c by (simp add: cview_logst)
  obtain t where t: "commit ?s = Ok (t\<lparr>lh_n := 0\<rparr>)" "wrote ?ws ?s t" "cview D t (replay ?ws (content D s)) (\<lambda>_. 0) unlocked"
    using commit_spec [OF p' p(2)] unfolding c w by auto
  note f = wrote_fields [OF t(2)]
  define s' where "s' = t\<lparr>lh_n := 0, committing := False\<rparr>"
  have "end_op s = Ok s'" using o t(1) by (simp add: end_op_def Let_def s'_def)
  moreover have "content D s' m = content D s m \<and> disk_blocks s' m = content D s m" if m: "m \<notin> log_area ?h" for m
  proof -
    have "disk_blocks s' = replay ?ws (disk_blocks s)" using f by (simp add: s'_def)
    moreover have "content D s' = content D t" by (rule content_cong) (simp_all add: s'_def)
    moreover have "content D t m = disk_blocks t m" using cview_clean [OF t(3)] t(3) by (simp add: cview_def)
    moreover have "replay ?ws (disk_blocks s) m = content D s m"
      using commit_crash [OF p(1) e m, of "length ?ws"] recovered_commit [OF p(1)] m by simp
    ultimately show ?thesis using f by simp
  qed
  moreover have "\<exists>t. initlog D sb b = Ok t \<and> booted D t \<and> (\<forall>m. m \<notin> log_area ?h \<longrightarrow>
        content D t m = (if k \<le> length bl then disk_blocks s m else content D s m))"
    if b: "booted D b" and d: "disk_blocks b = replay (take k ?ws) (disk_blocks s)" for k and b :: "'b logst_scheme"
    by (rule initlog_recovers [OF b sb]) (use commit_crash [OF p(1) e] d in simp_all)
  ultimately show ?thesis using f
    by (intro exI [of _ s'] exI [of _ ?ws]) (simp add: s'_def)
qed

theorem end_op_atomic_witness:
  "\<exists>s s' ws. demo_txn = Ok s \<and> end_op s = Ok s' \<and> disk_hist s' = disk_hist s @ ws \<and>
    disk_blocks s' 45 = replicate 1024 9 \<and>
    (\<forall>k (b :: logst). booted 1 b \<and> disk_blocks b = replay (take k ws) (disk_blocks s) \<longrightarrow>
      (\<exists>t. initlog 1 (get_superblock (replicate 20 0 @ bytes32 2 @ replicate 1000 0)) b = Ok t \<and>
        content 1 t 45 = (if k \<le> 1 then replicate 1024 0 else replicate 1024 9)))"
proof -
  let ?sb = "get_superblock (replicate 20 0 @ bytes32 2 @ replicate 1000 0)"
  obtain s where s: "demo_txn = Ok s" "log_pending 1 s [45]" "outstanding s = 1" "\<not> committing s"
    "log_start s = 2" "disk_blocks s = (\<lambda>n. replicate BSIZE 0)" "content 1 s 45 = replicate BSIZE 9" by (rule demo_txn)
  have sb: "sb_logstart ?sb = 2" by (simp add: get_superblock_def get32_def)
  obtain s' ws where "end_op s = Ok s'" "disk_hist s' = disk_hist s @ ws"
    and "\<forall>m. m \<notin> log_area 2 \<longrightarrow> content 1 s' m = content 1 s m \<and> disk_blocks s' m = content 1 s m"
    and "\<forall>k (b :: logst). booted 1 b \<and> disk_blocks b = replay (take k ws) (disk_blocks s) \<longrightarrow>
      (\<exists>t. initlog 1 ?sb b = Ok t \<and> booted 1 t \<and> (\<forall>m. m \<notin> log_area 2 \<longrightarrow>
        content 1 t m = (if k \<le> length [45 :: u32] then disk_blocks s m else content 1 s m)))"
    using end_op_atomic [OF s(2) _ s(3,4), of ?sb, where 'b = unit] demo_log_n s(5,6) sb by auto
  then show ?thesis using s(1,6,7) demo_area by (intro exI [of _ s] exI [of _ s'] exI [of _ ws]) fastforce
qed

text \<open>
  C2: recovery is idempotent. From a disk with a well-formed log, \<^verbatim>\<open>initlog\<close> returns with the
  logged blocks in their places and the log empty. If the machine stops after any number \<open>k\<close> of
  the writes of the recovery, a second boot leads to the same contents outside the log.
\<close>

theorem initlog_idempotent:
  fixes s :: "'a logst_scheme" and sb :: superblock
  assumes b: "booted D s" and h: "sb_logstart sb = h" and ok: "disk_log_ok h (disk_blocks s)"
  shows "\<exists>t ws. initlog D sb s = Ok t \<and> booted D t \<and> disk_hist t = disk_hist s @ ws \<and>
    log_n h (disk_blocks t) = 0 \<and>
    (\<forall>m. m \<notin> log_area h \<longrightarrow> content D t m = recovered h (disk_blocks s) m) \<and>
    (\<forall>k (s' :: 'b logst_scheme). booted D s' \<and> disk_blocks s' = replay (take k ws) (disk_blocks s) \<longrightarrow>
      (\<exists>t'. initlog D sb s' = Ok t' \<and> booted D t' \<and>
        (\<forall>m. m \<notin> log_area h \<longrightarrow> content D t' m = content D t m)))"
proof -
  let ?d = "disk_blocks s" and ?ws = "recover_writes h (disk_blocks s) @ [(h, cleared (disk_blocks s h))]"
  have len: "length (?d h) = BSIZE" using b cview_disk_length by (auto simp: booted_def)
  obtain t where t: "initlog D sb s = Ok t" "booted D t" "disk_blocks t = replay ?ws ?d" "disk_hist t = disk_hist s @ ?ws"
    using initlog_spec [OF b h ok] by blast
  have c: "content D t m = recovered h ?d m" if "m \<notin> log_area h" for m
    using initlog_recovers [OF b h ok refl] t(1) that by auto
  have "\<exists>t'. initlog D sb s' = Ok t' \<and> booted D t' \<and> (\<forall>m. m \<notin> log_area h \<longrightarrow> content D t' m = recovered h ?d m)"
    if "booted D s'" "disk_blocks s' = replay (take k ?ws) ?d" for k and s' :: "'b logst_scheme"
    by (rule initlog_recovers [OF that(1) h]) (use recovery_crash [OF ok len] that(2) in simp_all)
  moreover have "log_n h (disk_blocks t) = 0" using log_n_cleared [of ?d h "disk_blocks t"] len t(3) by simp
  ultimately show ?thesis using t c by (intro exI [of _ t] exI [of _ ?ws]) simp
qed

text \<open>A disk whose log holds block 45.\<close>

definition demo_head :: block where "demo_head = head_bytes 1 [45] (replicate BSIZE 0)"

definition demo_crashed :: logst where
  "demo_crashed = binit (demo_log0\<lparr>disk_blocks := (\<lambda>n. replicate BSIZE 0)(2 := demo_head, 3 := replicate BSIZE 9)\<rparr>)"

lemma demo_crashed:
  "booted 1 demo_crashed" "disk_log_ok 2 (disk_blocks demo_crashed)"
  "recovered 2 (disk_blocks demo_crashed) 45 = replicate BSIZE 9"
proof -
  let ?d = "(\<lambda>n. replicate BSIZE 0)(2 := demo_head, 3 := replicate BSIZE 9 :: block)" and ?s = "demo_log0\<lparr>disk_blocks := 
    (\<lambda>n. replicate BSIZE 0)(2 := demo_head, 3 := replicate BSIZE 9)\<rparr>"
  have "length demo_head = BSIZE" unfolding demo_head_def by (rule head_bytes_length) simp_all
  then have v: "cview 1 demo_crashed (disk_blocks ?s) (\<lambda>_. 0) unlocked"
    unfolding demo_crashed_def by (intro binit_cview) (simp_all add: demo_log0_def)
  have d: "disk_blocks demo_crashed = ?d"
    by (simp add: demo_crashed_def binit_def upd_buf_def Let_def)
  have f: "outstanding demo_crashed = 0" "\<not> committing demo_crashed" "length (lh_block demo_crashed) = LOGSIZE"
    by (simp_all add: demo_crashed_def binit_def upd_buf_def Let_def demo_log0_def)
  then show "booted 1 demo_crashed" using v d by (simp add: booted_def)
  have "get32 0 demo_head = 1" "get32 4 demo_head = 45"
    using head_bytes_get [of 1 "replicate BSIZE 0"] by (simp_all add: demo_head_def)
  then have n: "log_n 2 ?d = 1" "log_bn 2 ?d 0 = 45" by (simp_all add: log_n_def log_bn_def)
  then show "disk_log_ok 2 (disk_blocks demo_crashed)" using demo_area by (simp add: disk_log_ok_def d)
  show "recovered 2 (disk_blocks demo_crashed) 45 = replicate BSIZE 9"
    using n by (simp add: recovered_def recover_writes_def d)
qed

theorem initlog_idempotent_witness:
  "\<exists>t ws. initlog 1 (get_superblock (replicate 20 0 @ bytes32 2 @ replicate 1000 0)) demo_crashed = Ok t \<and>
    disk_hist t = disk_hist demo_crashed @ ws \<and> content 1 t 45 = replicate 1024 9 \<and>
    (\<forall>k (s' :: logst). booted 1 s' \<and> disk_blocks s' = replay (take k ws) (disk_blocks demo_crashed) \<longrightarrow>
      (\<exists>t'. initlog 1 (get_superblock (replicate 20 0 @ bytes32 2 @ replicate 1000 0)) s' = Ok t' \<and>
        content 1 t' 45 = replicate 1024 9))"
proof -
  let ?sb = "get_superblock (replicate 20 0 @ bytes32 2 @ replicate 1000 0)"
  have sb: "sb_logstart ?sb = 2" by (simp add: get_superblock_def get32_def)
  show ?thesis using initlog_idempotent [OF demo_crashed(1) sb demo_crashed(2), where 'b = unit]
    demo_area demo_crashed(3) by fastforce
qed

text \<open>
  C5: \<^verbatim>\<open>log_write\<close> of a held buffer with new contents panics exactly if the log is full or no
  system call is outstanding. The log is full at \<open>LOGSIZE\<close> blocks or one block before \<^verbatim>\<open>log.size\<close>,
  even if the block is logged already. Otherwise the block becomes part of the transaction,
  once: a block that the transaction has already logged is absorbed, another one is appended and
  its buffer pinned.
\<close>

theorem log_write_spec:
  fixes s :: "'a logst_scheme"
  assumes v: "lview D s c bl H" and h: "handle D s b n" and n: "n \<in> H" "n \<notin> log_area (log_start s)"
    and d: "length d = BSIZE"
  shows "if length bl = LOGSIZE \<or> log_size s - 1 \<le> int (length bl)
      then log_write b (set_data b d s) = Panic ''too big a transaction''
      else if outstanding s < 1
      then log_write b (set_data b d s) = Panic ''log_write outside of trans''
      else \<exists>s'. log_write b (set_data b d s) = Ok s' \<and>
        lview D s' (c(n := d)) (if n \<in> set bl then bl else bl @ [n]) H \<and> handle D s' b n"
proof -
  have l: "length bl \<le> LOGSIZE" "lh_n s = int (length bl)" using v by (simp_all add: lview_def)
  have f: "lh_n (set_data b d s) = lh_n s" "log_size (set_data b d s) = log_size s"
    "outstanding (set_data b d s) = outstanding s" by (simp_all add: set_data_def upd_buf_def)
  show ?thesis
  proof (cases "(length bl = LOGSIZE \<or> log_size s - 1 \<le> int (length bl)) \<or> outstanding s < 1")
    case True
    then show ?thesis using l by (auto simp: log_write_def f)
  next
    case False
    then have cap: "length bl < LOGSIZE" "int (length bl) < log_size s - 1" "1 \<le> outstanding s" using l by auto
    obtain s' where s': "log_write b (set_data b d s) = Ok s'" "lview D s' (c(n := d)) (add_block n bl) H" "kept D s s'"
      using log_write_lview [OF v h n d cap] by blast
    have "handle D s' b n" by (rule keptD [OF s'(3) lview_cview [OF s'(2)] h]) (use n in \<open>auto simp: lrefs_def\<close>)
    then show ?thesis using s' False by (auto simp: add_block_def)
  qed
qed

theorem log_write_spec_witness:
  "\<exists>b s. bread 1 45 (demo_log\<lparr>outstanding := 1\<rparr>) = Ok (b, s) \<and>
    (\<exists>s'. log_write b (set_data b (replicate 1024 9) s) = Ok s' \<and> lview 1 s' ((\<lambda>n. replicate 1024 0)(45 := replicate 1024 9)) [45] {45})"
proof -
  let ?s = "demo_log\<lparr>outstanding := 1\<rparr>" and ?d = "\<lambda>n. replicate BSIZE 0 :: block"
  have "cview 1 ?s ?d (\<lambda>_. 0) unlocked" using demo_log_booted by (simp add: booted_def demo_log_fields)
  then have v: "lview 1 ?s ?d [] {}" by (simp add: lview_def lrefs_def lheld_def demo_log_fields)
  obtain b bs where 1: "bread 1 45 ?s = Ok (b, ?s\<lparr>bufs := bs\<rparr>)" and v1: "lview 1 (?s\<lparr>bufs := bs\<rparr>) ?d [] {45}"
    and h1: "handle 1 (?s\<lparr>bufs := bs\<rparr>) b 45"
    using bread_lview [OF v, of 45] by auto
  show ?thesis using 1 log_write_spec [OF v1 h1, of "replicate BSIZE 9"] demo_area by (auto simp: demo_log_fields)
qed

end
