(* ===== verification/Fs_Props.thy ===== *)
theory Fs_Props
  imports Fs_Data File Log_Props
begin

text \<open>
  What the file system of \<^verbatim>\<open>kernel/fs.c\<close> guarantees within a transaction: block allocation, writing and
  reading of files.
\<close>

section \<open>Inodes on disk\<close>

definition disk_inode :: "(u32 \<Rightarrow> block) \<Rightarrow> superblock \<Rightarrow> u32 \<Rightarrow> dinode" where
  "disk_inode c x inum = get_dinode (ioff inum) (c (IBLOCK inum x))"

definition set_inode :: "(u32 \<Rightarrow> block) \<Rightarrow> superblock \<Rightarrow> u32 \<Rightarrow> dinode \<Rightarrow> u32 \<Rightarrow> block" where
  "set_inode c x inum di = (let n = IBLOCK inum x in c(n := splice (ioff inum) (bytes_dinode di) (c n)))"

lemma ioff_bound: "ioff inum + DINODE_SIZE \<le> BSIZE"
proof -
  have "unat inum mod IPB < IPB" by simp
  then show ?thesis unfolding ioff_def by simp
qed

lemma ioff_other:
  assumes "inum' \<noteq> inum" "IBLOCK inum' x = IBLOCK inum x"
  shows "ioff inum' + DINODE_SIZE \<le> ioff inum \<or> ioff inum + DINODE_SIZE \<le> ioff inum'"
proof -
  have "inum' div of_nat IPB = inum div of_nat IPB" using assms(2) by (simp add: IBLOCK_def)
  then have "unat (inum' div of_nat IPB) = unat (inum div of_nat IPB)" by simp
  then have "unat inum' div IPB = unat inum div IPB" by (simp add: unat_div)
  then have "unat inum' mod IPB \<noteq> unat inum mod IPB" using assms(1) by (metis div_mult_mod_eq word_unat_eq_iff)
  then show ?thesis unfolding ioff_def DINODE_SIZE_def by linarith
qed

lemma disk_inode_set:
  assumes "length (c (IBLOCK inum x)) = BSIZE" "length (di_addrs di) = NDIRECT + 1"
  shows "disk_inode (set_inode c x inum di) x inum' = (if inum' = inum then (di :: dinode) else disk_inode c x inum')"
proof -
  have le: "ioff inum + DINODE_SIZE \<le> length (c (IBLOCK inum x))" using ioff_bound assms(1) by simp
  then show ?thesis
    using get_dinode_splice [OF assms(2) le] get_dinode_splice_other [of "ioff inum" "bytes_dinode di" "c (IBLOCK inum x)" "ioff inum'"]
      ioff_other [of inum' inum x] length_bytes_dinode [OF assms(2)]
    by (auto simp: disk_inode_def set_inode_def Let_def simp del: DINODE_SIZE_def)
qed

text \<open>The blocks of the inodes come before the bitmap and the data blocks.\<close>

lemma set_inode_other: "b \<noteq> IBLOCK inum x \<Longrightarrow> set_inode c x inum di b = c b"
  by (simp add: set_inode_def Let_def)

lemma set_inode_views:
  assumes "IBLOCK inum x < sb_bmapstart x"
  shows "marked (set_inode c x inum di) x b = marked c x b" "meta_marked (set_inode c x inum di) x = meta_marked c x"
    "data_block x (set_inode c x inum di) b = data_block x c b"
proof -
  show 1: "marked (set_inode c x inum di) x b = marked c x b" for b
    unfolding marked_def using set_inode_other [of "sb_bmapstart x"] assms by (metis less_imp_neq)
  show "meta_marked (set_inode c x inum di) x = meta_marked c x" "data_block x (set_inode c x inum di) b = data_block x c b"
    by (simp_all add: meta_marked_def data_block_def 1)
qed

lemma set_inode_file:
  assumes i: "IBLOCK inum x < sb_bmapstart x" and f: "file_ok x c as"
  shows "faddr (set_inode c x inum di) as k = faddr c as k"
    "j < MAXFILE * BSIZE \<Longrightarrow> fbyte (set_inode c x inum di) as j = fbyte c as j" "file_ok x (set_inode c x inum di) as"
    "owned (set_inode c x inum di) as b = owned c as b"
proof -
  note F = file_okD [OF f]
  have same: "set_inode c x inum di b = c b" if "data_block x c b" for b
    by (rule set_inode_other) (use data_blockD(2) [OF that] i in auto)
  show fa: "faddr (set_inode c x inum di) as k = faddr c as k" for k using same [OF F(2)] by (simp add: faddr_def)
  show "fbyte (set_inode c x inum di) as j = fbyte c as j" if "j < MAXFILE * BSIZE"
  proof -
    have "j div BSIZE < MAXFILE" using that by (simp add: less_mult_imp_div_less)
    then show ?thesis using same [OF F(3)] by (simp add: fbyte_def Let_def fa)
  qed
  show "file_ok x (set_inode c x inum di) as" using f by (simp add: file_ok_def fa set_inode_views [OF i])
  show "owned (set_inode c x inum di) as b = owned c as b" by (simp add: owned_def fa)
qed

lemma iupdate_ok:
  fixes s :: "'a fsst_scheme"
  assumes t: "tx D s c bl {}" and r: "space s (Suc (length bl))" and l: "fs_layout (sb s) (log_start s)"
    and d: "i_dev (itable s i) = D" "i_inum (itable s i) < sb_ninodes (sb s)" and a: "length (i_addrs (itable s i)) = NDIRECT + 1"
  obtains s' where "iupdate i s = Ok s'" "tx D s' (set_inode c (sb s) (i_inum (itable s i)) (to_dinode (itable s i))) (add_block (IBLOCK (i_inum (itable s i)) (sb s)) bl) {}"
    "txf D {} s s'"
proof -
  let ?ip = "itable s i" and ?n = "IBLOCK (i_inum (itable s i)) (sb s)"
  let ?d = "splice (ioff (i_inum ?ip)) (bytes_dinode (to_dinode ?ip)) (c ?n)"
  have n: "?n \<notin> log_area (log_start s)" using l d(2) by (simp add: fs_layout_def)
  have "length (bytes_dinode (to_dinode ?ip)) = DINODE_SIZE" by (rule length_bytes_dinode) (use a in \<open>simp add: to_dinode_def\<close>)
  then have ld: "length ?d = BSIZE" using ioff_bound tx_length [OF t] by (simp del: DINODE_SIZE_def)
  obtain p s1 s2 s3 where 1: "bread D ?n s = Ok (p, s1)" "b_data (bufs s1 p) = c ?n" "txf D {} s s1"
      "log_write p (set_data p ?d s1) = Ok s2" "txf D {} s s2" "brelse p s2 = Ok s3" "tx D s3 (c(?n := ?d)) (add_block ?n bl) {}" "txf D {} s s3"
      by (rule block_change [OF t _ n r ld]) simp
  have "iupdate i s = Ok s3" unfolding iupdate_def Let_def using 1(1,2,4,6) d(1) by simp
  then show thesis using that 1(7,8) by (simp add: set_inode_def Let_def)
qed

section \<open>Files\<close>

text \<open>The file of an inode has a block for each of its bytes.\<close>

definition file_inv :: "superblock \<Rightarrow> (u32 \<Rightarrow> block) \<Rightarrow> inode \<Rightarrow> bool" where
  "file_inv x c ip \<longleftrightarrow> file_ok x c (i_addrs ip) \<and> unat (i_size ip) \<le> MAXFILE * BSIZE \<and>
     (\<forall>j<unat (i_size ip). faddr c (i_addrs ip) (j div BSIZE) \<noteq> 0)"

definition contents :: "(u32 \<Rightarrow> block) \<Rightarrow> inode \<Rightarrow> u8 list" where
  "contents c ip = map (fbyte c (i_addrs ip)) [0..<unat (i_size ip)]"

lemma length_contents [simp]: "length (contents c ip) = unat (i_size ip)"
  by (simp add: contents_def)

lemma nth_contents: "j < unat (i_size ip) \<Longrightarrow> contents c ip ! j = fbyte c (i_addrs ip) j"
  by (simp add: contents_def)

text \<open>The other files and the other inodes are as before.\<close>

definition others_kept :: "superblock \<Rightarrow> (u32 \<Rightarrow> block) \<Rightarrow> inode \<Rightarrow> (u32 \<Rightarrow> block) \<Rightarrow> bool" where
  "others_kept x c ip c' \<longleftrightarrow>
     (\<forall>b. data_block x c b \<and> \<not> owned c (i_addrs ip) b \<longrightarrow> data_block x c' b \<and> c' b = c b) \<and>
     (\<forall>inum < sb_ninodes x. inum \<noteq> i_inum ip \<longrightarrow> disk_inode c' x inum = disk_inode c x inum)"

lemma contents_write:
  assumes size: "unat (i_size ip') = max (unat (i_size ip)) (off + w)" and off: "off \<le> unat (i_size ip)" and w: "w \<le> length data"
    and m: "unat (i_size ip') \<le> M"
    and b: "\<And>j. j < M \<Longrightarrow> fbyte c' (i_addrs ip') j = (if off \<le> j \<and> j < off + w then data ! (j - off) else fbyte c (i_addrs ip) j)"
  shows "contents c' ip' = splice off (take w data) (contents c ip)"
proof (rule nth_equalityI)
  have lw: "length (take w data) = w" using w by simp
  show "length (contents c' ip') = length (splice off (take w data) (contents c ip))"
    using size off lw by (simp add: splice_def)
  fix j assume "j < length (contents c' ip')"
  then have j: "j < unat (i_size ip')" by simp
  consider "j < off" | "off \<le> j" "j < off + w" | "off + w \<le> j" by linarith
  then show "contents c' ip' ! j = splice off (take w data) (contents c ip) ! j"
    using j b [of j] m nth_contents [OF j, of c'] off size lw nth_contents [of j ip c]
    by cases (auto simp: splice_def nth_append min_def max_def split: if_splits)
qed

lemma writei_ok:
  fixes s :: "'a fsst_scheme"
  assumes t: "tx D s c bl {}" and l: "fs_layout (sb s) (log_start s)" and m: "meta_marked c (sb s)"
    and d: "i_dev (itable s i) = D" "i_inum (itable s i) < sb_ninodes (sb s)" and f: "file_inv (sb s) c (itable s i)"
    and src: "delivers from data s" and off: "off \<le> unat (i_size (itable s i))" "off + length data \<le> MAXFILE * BSIZE"
    and r: "space s (log_cost (sb s) (i_addrs (itable s i)) bl + span off (length data) + 1)"
  shows "\<exists>w s' c' bl' ip'. writei i from (of_nat off) (of_nat (length data)) s = Ok (int w, s') \<and> tx D s' c' bl' {} \<and>
    txf D {} (upd_inode i (\<lambda>_. ip') s) s' \<and> ip' = (itable s i)\<lparr>i_addrs := i_addrs ip', i_size := i_size ip'\<rparr> \<and>
    file_inv (sb s) c' ip' \<and> meta_marked c' (sb s) \<and> disk_inode c' (sb s) (i_inum ip') = to_dinode ip' \<and> others_kept (sb s) c (itable s i) c' \<and>
    w \<le> length data \<and> (w < length data \<longrightarrow> (\<forall>b < sb_size (sb s). marked c' (sb s) b)) \<and>
    contents c' ip' = splice off (take w data) (contents c (itable s i)) \<and>
    length bl' \<le> log_cost (sb s) (i_addrs (itable s i)) bl + span off (length data) + 1"
proof -
  let ?x = "sb s" and ?ip = "itable s i" and ?as = "i_addrs (itable s i)"
  have F: "file_ok ?x c ?as" "unat (i_size ?ip) \<le> MAXFILE * BSIZE" "\<And>j. j < unat (i_size ?ip) \<Longrightarrow> faddr c ?as (j div BSIZE) \<noteq> 0"
    using f by (simp_all add: file_inv_def)
  obtain w s1 c1 bl1 as1 where 1: "writei_loop i from (of_nat off) (length data) 0 s = Ok (int w, of_nat (off + w), s1)"
    "file_wrote D i off data w c bl s c1 bl1 as1 s1"
    using writei_loop_ok [OF t l m d(1) F(1) src off(2) r, of 0] by auto
  note W = file_wroteD [OF 1(2)] and S = file_wrote_state [OF 1(2)]
  have small: "MAXFILE * BSIZE < 2 ^ 32" by simp
  have u: "unat (of_nat off :: u32) = off" "unat (of_nat (length data) :: u32) = length data" "unat (of_nat (off + length data) :: u32) = off + length data"
    "unat (of_nat (off + w) :: u32) = off + w"
    using off(2) W(4) small by (intro unat_of_nat_u32; linarith)+
  define sz :: u32 where "sz = (if of_nat (off + w) > i_size ?ip then of_nat (off + w) else i_size ?ip)"
  have usz: "unat sz = max (unat (i_size ?ip)) (off + w)" using u(4) by (simp add: sz_def word_less_nat_alt max_def)
  define ip' where "ip' = ?ip\<lparr>i_addrs := as1, i_size := sz\<rparr>"
  let ?s2 = "upd_inode i (\<lambda>_. ip') s1"
  have it: "itable s1 i = ?ip\<lparr>i_addrs := as1\<rparr>" using S(2) by simp
  have s2: "(if of_nat (off + w) > i_size (itable s1 i) then upd_inode i (\<lambda>x. x\<lparr>i_size := of_nat (off + w)\<rparr>) s1 else s1) = ?s2"
    unfolding upd_inode_def it by (auto simp: ip'_def sz_def it fun_upd_idem)
  have t2: "tx D ?s2 c1 bl1 {}" using W(1) by (simp add: tx_def)
  have x2: "sb ?s2 = ?x" "log_start ?s2 = log_start s" "itable ?s2 i = ip'" "i_inum ip' = i_inum ?ip" "i_dev ip' = D" "i_addrs ip' = as1" "i_size ip' = sz"
    using S(1,3) d(1) by (simp_all add: upd_inode_def ip'_def)
  have "length bl1 \<le> log_cost ?x ?as bl + span off (length data)" using W(8) log_cost_length(2) le_trans by blast
  then have lb: "length bl1 + 1 \<le> log_cost ?x ?as bl + span off (length data) + 1" by simp
  have "space ?s2 n \<longleftrightarrow> space s n" for n using S(5) by (simp add: space_def upd_inode_def)
  then have r2: "space ?s2 (Suc (length bl1))" using space_mono [OF r lb] by simp
  note f1 = file_stepD [OF W(3)]
  have a2: "length as1 = NDIRECT + 1" by (rule file_okD(1) [OF f1(1)])
  obtain s3 where 3: "iupdate i ?s2 = Ok s3" "tx D s3 (set_inode c1 ?x (i_inum ?ip) (to_dinode ip')) (add_block (IBLOCK (i_inum ?ip) ?x) bl1) {}" "txf D {} ?s2 s3"
    by (rule iupdate_ok [where i = i, OF t2 r2, unfolded x2(1-6), OF l refl d(2) a2])
  let ?c = "set_inode c1 ?x (i_inum ?ip) (to_dinode ip')"
  have ib: "IBLOCK (i_inum ?ip) ?x < sb_bmapstart ?x" using l d(2) by (simp add: fs_layout_def)
  note V = set_inode_views [OF ib] and Y = set_inode_file [OF ib f1(1)]
  have wr: "writei i from (of_nat off) (of_nat (length data)) s = Ok (int w, s3)"
  proof -
    have "\<not> of_nat off > i_size ?ip" "\<not> of_nat off + of_nat (length data) < (of_nat off :: u32)" "\<not> unat (of_nat off + of_nat (length data) :: u32) > MAXFILE * BSIZE"
      using off u by (simp_all add: word_less_nat_alt flip: of_nat_add)
    then show ?thesis unfolding writei_def u(2) Let_def using 1(1) s2 3(1) by (simp del: of_nat_add split del: if_split)
  qed
  have fb: "fbyte ?c as1 j = (if off \<le> j \<and> j < off + w then data ! (j - off) else fbyte c ?as j)" if "j < MAXFILE * BSIZE" for j
    using W(6) [OF that] Y(2) that by simp
  have "upd_inode i (\<lambda>_. ip') (set_addrs i as1 s) = upd_inode i (\<lambda>_. ip') s" by (simp add: upd_inode_def set_addrs_def)
  then have "txf D {} (upd_inode i (\<lambda>_. ip') s) ?s2" using tx_frame_upd [OF txfD(10) [OF W(2)], of i "\<lambda>_. ip'"] by (simp add: txf_def)
  then have fr: "txf D {} (upd_inode i (\<lambda>_. ip') s) s3" by (rule txf_trans [OF _ 3(3)])
  have szm: "unat sz \<le> MAXFILE * BSIZE" unfolding usz using F(2) off(2) W(4) by simp
  have "faddr ?c as1 (j div BSIZE) \<noteq> 0" if j: "j < unat sz" for j
  proof (cases "off \<le> j \<and> j < off + w")
    case True
    then show ?thesis using W(7) Y(1) by simp
  next
    case False
    have "j < MAXFILE * BSIZE" using j szm by linarith
    then have "j div BSIZE < MAXFILE" by (simp add: less_mult_imp_div_less)
    moreover have "j < unat (i_size ?ip)" using j False off(1) usz by auto
    ultimately show ?thesis using f1(6) F(3) Y(1) by simp
  qed
  then have inv: "file_inv ?x ?c ip'" unfolding file_inv_def x2(6,7) using Y(3) szm by blast
  have li: "length (di_addrs (to_dinode ip')) = NDIRECT + 1" using a2 x2(6) by (simp add: to_dinode_def)
  note di = disk_inode_set [OF tx_length [OF W(1)] li]
  have ok: "others_kept ?x c ?ip ?c" unfolding others_kept_def
  proof (intro conjI allI impI; (elim conjE)?)
    fix b assume b: "data_block ?x c b" "\<not> owned c ?as b"
    note B = data_blockD [OF b(1)]
    show "data_block ?x ?c b" using B f1(3) [OF B(4)] by (simp add: V(1) data_block_def)
    have "b \<noteq> IBLOCK (i_inum ?ip) ?x" using B(2) ib by auto
    then show "?c b = c b" using set_inode_other f1(5) [OF B(4) B(1) b(2)] by metis
  next
    fix inum assume inum: "inum < sb_ninodes ?x" "inum \<noteq> i_inum ?ip"
    let ?b = "IBLOCK inum ?x"
    have b: "0 < ?b" "?b < sb_bmapstart ?x" using l inum(1) by (simp_all add: fs_layout_def)
    have "marked c ?x ?b" using m b(2) by (simp add: meta_marked_def)
    moreover have "\<not> owned c ?as ?b" using file_okD(2,3) [OF F(1)] data_blockD(2) b unfolding owned_def by (metis less_asym less_irrefl)
    ultimately have "c1 ?b = c ?b" using f1(5) less_imp_neq [OF b(2)] by simp
    then show "disk_inode ?c ?x inum = disk_inode c ?x inum" using di inum(2) by (simp add: disk_inode_def)
  qed
  have full: "marked ?c ?x b" if "w < length data" "b < sb_size ?x" for b using W(5) [OF that] V(1) by simp
  have mm: "meta_marked ?c ?x" using f1(2) V(2) by simp
  have ct: "contents ?c ip' = splice off (take w data) (contents c ?ip)"
    by (rule contents_write [where M = "MAXFILE * BSIZE"]) (use usz off(1) W(4) szm fb x2(6,7) in simp_all)
  have lb3: "length (add_block (IBLOCK (i_inum ?ip) ?x) bl1) \<le> log_cost ?x ?as bl + span off (length data) + 1"
    using lb by (simp add: length_add_block)
  have "ip' = ?ip\<lparr>i_addrs := i_addrs ip', i_size := i_size ip'\<rparr>" "disk_inode ?c ?x (i_inum ip') = to_dinode ip'"
    using x2(4,6,7) di by (simp_all add: ip'_def)
  then show ?thesis using wr 3(2) fr inv mm ok W(4) full ct lb3 by blast
qed

section \<open>Reading\<close>

lemma readi_loop_ok:
  fixes s :: "'a fsst_scheme"
  assumes "tx D s c bl {}" "length bl + 2 \<le> NBUF" "i_dev (itable s i) = D" "off + k \<le> MAXFILE * BSIZE"
    "\<forall>j. off \<le> j \<and> j < off + k \<longrightarrow> faddr c (i_addrs (itable s i)) (j div BSIZE) \<noteq> 0"
  shows "\<exists>s'. readi_loop i DVar (of_nat off) k tot acc s =
      Ok (tot + int k, acc @ map (fbyte c (i_addrs (itable s i))) [off..<off + k], s') \<and> tx D s' c bl {} \<and> txf D {} s s'"
  using assms
proof (induction k arbitrary: off tot acc s rule: less_induct)
  case (less k off tot acc s)
  note p = less.prems
  show ?case
  proof (cases "k = 0")
    case True
    then show ?thesis using p(1) by (simp add: readi_loop.simps [of i DVar "of_nat off"])
  next
    case False
    let ?as = "i_addrs (itable s i)" and ?k = "off div BSIZE" and ?o = "off mod BSIZE"
    define m where "m = min k (BSIZE - ?o)"
    have pos: "0 < k" "off < MAXFILE * BSIZE" using False p(4) by simp_all
    note ix = block_index [OF pos(2)] and sp = span_step [OF pos(1) m_def]
    let ?a = "faddr c ?as ?k"
    have a: "?a \<noteq> 0" using p(5) pos(1) by simp
    obtain s1 where 1: "bmap i (of_nat ?k) s = Ok (?a, s1)" "tx D s1 c bl {}" "txf D {} s s1"
      by (rule bmap_found [OF p(1-3) ix(3) a])
    obtain b s2 s3 where 2: "bread D ?a s1 = Ok (b, s2)" "b_data (bufs s2 b) = c ?a" "txf D {} s1 s2"
      "brelse b s2 = Ok s3" "tx D s3 c bl {}" "txf D {} s1 s3" by (rule block_read [OF 1(2) _ p(2)]) simp
    have f3: "txf D {} s s3" by (rule txf_trans [OF 1(3) 2(6)])
    have it: "itable s1 = itable s" "itable s3 = itable s" using txf_fs(1) [OF 1(3)] txf_fs(1) [OF f3] by simp_all
    let ?bytes = "slice ?o m (c ?a)"
    have by1: "?bytes = map (fbyte c ?as) [off..<off + m]"
    proof (rule nth_equalityI)
      show l: "length ?bytes = length (map (fbyte c ?as) [off..<off + m])" using sp(3) tx_length [OF p(1), of ?a] by simp
      fix j assume "j < length ?bytes"
      then have j: "j < m" using l by simp
      have "(off + j) div BSIZE = ?k" by (rule same_block [OF _ _ sp(3)]) (use j in simp_all)
      moreover from this have "(off + j) mod BSIZE = ?o + j" by (metis add.assoc add_left_cancel mult_div_mod_eq)
      ultimately show "?bytes ! j = map (fbyte c ?as) [off..<off + m] ! j"
        using j a sp(3) tx_length [OF p(1), of ?a] by (simp add: slice_def fbyte_def Let_def del: BSIZE_def)
    qed
    have m: "m \<le> k" "k - m < k" using sp(2) pos by (simp_all add: m_def)
    have e: "readi_loop i DVar (of_nat off) k tot acc s = readi_loop i DVar (of_nat (off + m)) (k - m) (tot + int m) (acc @ ?bytes) s3"
      unfolding readi_loop.simps [of i DVar "of_nat off"] ix(1,2) Let_def m_def [symmetric]
      using pos(1) 1(1) a 2(1,2,4) it(1) p(3) by (simp add: either_copyout_def del: BSIZE_def)
    have "off + m + (k - m) = off + k" using m(1) by simp
    then obtain s4 where 4: "readi_loop i DVar (of_nat (off + m)) (k - m) (tot + int m) (acc @ ?bytes) s3 =
        Ok (tot + int m + int (k - m), (acc @ ?bytes) @ map (fbyte c ?as) [off + m..<off + k], s4)" "tx D s4 c bl {}" "txf D {} s3 s4"
      using less.IH [OF m(2) 2(5) p(2), of "off + m" "tot + int m" "acc @ ?bytes"] p(3,4,5) it(2) by auto
    have "[off..<off + k] = [off..<off + m] @ [off + m..<off + k]" using m(1) upt_add_eq_append [of off "off + m" "k - m"] by simp
    then have "readi_loop i DVar (of_nat off) k tot acc s = Ok (tot + int k, acc @ map (fbyte c ?as) [off..<off + k], s4)"
      unfolding e 4(1) using by1 m(1) by simp
    then show ?thesis using 4(2) txf_trans [OF f3 4(3)] by blast
  qed
qed

lemma readi_ok:
  fixes s :: "'a fsst_scheme"
  assumes t: "tx D s c bl {}" and r: "length bl + 2 \<le> NBUF" and d: "i_dev (itable s i) = D" and f: "file_inv (sb s) c (itable s i)"
    and off: "off \<le> unat (i_size (itable s i))" "n < 2 ^ 31"
  obtains s' where "readi i DVar (of_nat off) (of_nat n) s =
      Ok (int (min n (unat (i_size (itable s i)) - off)), slice off n (contents c (itable s i)), s')" "tx D s' c bl {}" "txf D {} s s'"
proof -
  let ?ip = "itable s i" and ?sz = "unat (i_size (itable s i))"
  define k where "k = min n (?sz - off)"
  have F: "?sz \<le> MAXFILE * BSIZE" "\<And>j. j < ?sz \<Longrightarrow> faddr c (i_addrs ?ip) (j div BSIZE) \<noteq> 0" using f by (simp_all add: file_inv_def)
  have k: "off + k \<le> MAXFILE * BSIZE" "\<forall>j. off \<le> j \<and> j < off + k \<longrightarrow> faddr c (i_addrs ?ip) (j div BSIZE) \<noteq> 0"
    using F off(1) by (auto simp: k_def)
  obtain s' where 1: "readi_loop i DVar (of_nat off) k 0 [] s = Ok (int k, map (fbyte c (i_addrs ?ip)) [off..<off + k], s')" "tx D s' c bl {}" "txf D {} s s'"
    using readi_loop_ok [OF t r d k, of 0 "[]"] by auto
  have "off \<le> 274432" using off(1) F(1) by simp
  then have u: "unat (of_nat off :: u32) = off" "unat (of_nat n :: u32) = n" "unat (of_nat off + of_nat n :: u32) = off + n"
    using off(2) unat_of_nat_u32 [of "off + n"] by (simp_all add: unat_of_nat_u32)
  have c1: "\<not> of_nat off > i_size ?ip" "\<not> of_nat off + of_nat n < (of_nat off :: u32)" using off(1) u by (simp_all add: word_less_nat_alt)
  have c2: "unat (if of_nat off + of_nat n > i_size ?ip then i_size ?ip - of_nat off else of_nat n) = k"
    using u off(1) by (auto simp: k_def word_less_nat_alt unat_sub word_le_nat_alt)
  have b: "map (fbyte c (i_addrs ?ip)) [off..<off + k] = slice off n (contents c ?ip)"
    by (rule nth_equalityI) (auto simp: k_def slice_def contents_def)
  have "readi i DVar (of_nat off) (of_nat n) s = Ok (int k, slice off n (contents c ?ip), s')"
    unfolding readi_def Let_def c2 using c1 1(1) b by simp
  then show thesis using that 1(2,3) by (simp add: k_def)
qed

section \<open>A file system\<close>

text \<open>
  The state in a transaction, with the contents \<open>c\<close> of the blocks and the blocks \<open>bl\<close> in the log.
\<close>

definition fs_tx :: "u32 \<Rightarrow> 'a fsst_scheme \<Rightarrow> (u32 \<Rightarrow> block) \<Rightarrow> u32 list \<Rightarrow> bool" where
  "fs_tx D s c bl \<longleftrightarrow> tx D s c bl {} \<and> fs_layout (sb s) (log_start s) \<and> meta_marked c (sb s)"

text \<open>
  A file system of 100 blocks with 20 inodes: the log from block 2, the inodes from block 32, the bitmap in
  block 34. The first entry of the inode table is an empty file.
\<close>

definition demo_blocks :: "u32 \<Rightarrow> block" where
  "demo_blocks = (\<lambda>n. replicate BSIZE 0)(34 := replicate 5 255 @ replicate 1019 0)"

definition demo_sb :: superblock where
  "demo_sb = \<lparr>sb_magic = FSMAGIC, sb_size = 100, sb_nblocks = 65, sb_ninodes = 20, sb_nlog = 30, sb_logstart = 2,
     sb_inodestart = 32, sb_bmapstart = 34\<rparr>"

definition demo_inode :: inode where
  "demo_inode = \<lparr>i_dev = 1, i_inum = 2, i_ref = 1, i_lock = initsleeplock, i_valid = True, i_type = T_FILE, i_major = 0,
     i_minor = 0, i_nlink = 1, i_size = 0, i_addrs = replicate 13 0\<rparr>"

definition demo_fs0 :: fsst where
  "demo_fs0 = logst.extend (demo_log0\<lparr>disk_blocks := demo_blocks, outstanding := 1\<rparr>) (fsst.fields demo_sb (\<lambda>_. demo_inode))"

definition demo_fs :: fsst where
  "demo_fs = binit demo_fs0"

lemma demo_fs_fields:
  "disk_blocks demo_fs = demo_blocks" "log_start demo_fs = 2" "log_size demo_fs = 30" "outstanding demo_fs = 1" "log_dev demo_fs = 1"
  "lh_n demo_fs = 0" "lh_block demo_fs = replicate LOGSIZE 0" "sb demo_fs = demo_sb" "itable demo_fs = (\<lambda>_. demo_inode)" "mypid demo_fs = 3"
  by (simp_all add: demo_fs_def demo_fs0_def binit_def upd_buf_def Let_def logst.defs fsst.defs demo_log0_def)

lemma demo_fs_space: "space demo_fs 7"
  by (simp add: space_def demo_fs_fields)

lemma demo_layout: "fs_layout demo_sb 2"
proof -
  have "b < 34" if b: "b \<in> log_area 2" for b :: u32
  proof -
    obtain j where j: "j < LOGSIZE" "b = 2 + of_nat j" using b by (auto simp: log_area_def)
    have "unat b = 2 + j" unfolding j(2) using j(1) unat_of_nat_u32 [of "2 + j"] by simp
    then show ?thesis using j(1) by (simp add: word_less_nat_alt)
  qed
  moreover have "32 \<le> b \<Longrightarrow> b \<notin> log_area 2" for b :: u32
  proof
    assume b: "32 \<le> b" "b \<in> log_area 2"
    from b(2) obtain j where j: "j < LOGSIZE" "b = 2 + of_nat j" by (auto simp: log_area_def)
    have "unat b = 2 + j" unfolding j(2) using j(1) unat_of_nat_u32 [of "2 + j"] by simp
    then show False using j(1) b(1) by (simp add: word_le_nat_alt)
  qed
  moreover have "0 < IBLOCK inum demo_sb \<and> 32 \<le> IBLOCK inum demo_sb \<and> IBLOCK inum demo_sb < 34" if "inum < 20" for inum
  proof -
    have "unat inum < 20" using that by (simp add: word_less_nat_alt)
    then have "unat (inum div 16) < 2" by (simp add: unat_div)
    then have "unat (inum div 16 + 32) = unat (inum div 16) + 32" by (simp add: unat_word_ariths)
    then show ?thesis using \<open>unat (inum div 16) < 2\<close> by (simp add: IBLOCK_def demo_sb_def word_less_nat_alt word_le_nat_alt)
  qed
  ultimately show ?thesis unfolding fs_layout_def by (auto simp: demo_sb_def word_less_nat_alt word_le_nat_alt)
qed

lemma demo_meta: "meta_marked demo_blocks demo_sb"
proof -
  have "marked demo_blocks demo_sb b" if "b \<le> 34" for b
  proof -
    have "unat b \<le> 34" using that by (simp add: word_le_nat_alt)
    then have "unat b div 8 < 5" by simp
    moreover have "bit (255 :: u8) (unat b mod 8)"
    proof -
      have e: "(255 :: u8) = mask 8" by (simp add: mask_eq_exp_minus_1)
      show ?thesis unfolding e bit_mask_iff by simp
    qed
    ultimately show ?thesis by (simp add: marked_def demo_blocks_def demo_sb_def nth_append)
  qed
  then show ?thesis by (simp add: meta_marked_def demo_sb_def)
qed

lemma demo_fs_tx: "fs_tx 1 demo_fs demo_blocks []"
proof -
  have "cview 1 demo_fs (disk_blocks demo_fs0) (\<lambda>_. 0) unlocked"
    unfolding demo_fs_def by (rule binit_cview) (simp_all add: demo_fs0_def logst.defs demo_blocks_def demo_log0_def)
  then have "lview 1 demo_fs demo_blocks [] {}"
    by (simp add: lview_def lrefs_def lheld_def demo_fs_fields demo_fs0_def logst.defs)
  then show ?thesis using demo_layout demo_meta by (simp add: fs_tx_def tx_def demo_fs_fields)
qed

lemma demo_file: "file_inv demo_sb demo_blocks demo_inode" "contents demo_blocks demo_inode = []"
proof -
  have "replicate 13 0 ! k = (0 :: u32)" if "k < 13" for k using that by simp
  then have "faddr demo_blocks (replicate 13 0) k = 0" for k by (simp add: faddr_def)
  then show "file_inv demo_sb demo_blocks demo_inode" by (simp add: file_inv_def file_ok_def demo_inode_def)
  show "contents demo_blocks demo_inode = []" by (simp add: contents_def demo_inode_def)
qed

section \<open>Properties\<close>

lemma without_with_mark:
  assumes "\<not> marked c x b" "length (c (sb_bmapstart x)) = BSIZE" "unat b < BPB" "b \<noteq> sb_bmapstart x"
  shows "without_mark (balloc_view c x b) x b (sb_bmapstart x) = c (sb_bmapstart x)"
proof -
  let ?w = "c (sb_bmapstart x) ! (unat b div 8)"
  have z: "?w AND bmask (unat b) = 0" using assms(1) bmask_and by (auto simp: marked_def)
  have "(?w OR bmask (unat b)) AND NOT (bmask (unat b)) = ?w AND NOT (bmask (unat b))"
    by (rule bit_eqI) (auto simp: bit_simps)
  also have "\<dots> = ?w"
  proof (rule bit_eqI)
    fix n
    have "\<not> bit (?w AND bmask (unat b)) n" using z by simp
    then show "bit (?w AND NOT (bmask (unat b))) n = bit ?w n" if "possible_bit TYPE(u8) n"
      using that by (auto simp: bit_and_iff bit_not_iff)
  qed
  finally show ?thesis using assms(2-4) by (simp add: without_mark_def balloc_view_def with_mark_def Let_def)
qed

text \<open>C35: In a transaction with room in the log, \<^verbatim>\<open>balloc\<close> returns 0 exactly if all blocks of the file system are
  in use, and otherwise the first free block, which it marks, fills with zeros and puts into the log; all
  other blocks but the bitmap stay as they are. \<^verbatim>\<open>bfree\<close> of that block gives back the bitmap from before, and a
  second \<^verbatim>\<open>bfree\<close> panics.\<close>

theorem balloc_spec:
  fixes s :: "'a fsst_scheme"
  assumes "fs_tx D s c bl" "space s (length bl + 3)"
  shows "\<exists>b s' c' bl'. balloc D s = Ok (b, s') \<and> fs_tx D s' c' bl' \<and> txf D {} s s' \<and>
    (if \<forall>a < sb_size (sb s). marked c (sb s) a then b = 0 \<and> c' = c \<and> bl' = bl
     else sb_bmapstart (sb s) < b \<and> b < sb_size (sb s) \<and> \<not> marked c (sb s) b \<and> (\<forall>a<b. marked c (sb s) a) \<and>
       (\<forall>a. marked c' (sb s) a \<longleftrightarrow> a = b \<or> marked c (sb s) a) \<and> c' b = replicate BSIZE 0 \<and>
       (\<forall>a. a \<noteq> b \<and> a \<noteq> sb_bmapstart (sb s) \<longrightarrow> c' a = c a) \<and> set bl' = {b, sb_bmapstart (sb s)} \<union> set bl \<and>
       (\<exists>s'' c'' bl''. bfree D b s' = Ok s'' \<and> fs_tx D s'' c'' bl'' \<and> c'' (sb_bmapstart (sb s)) = c (sb_bmapstart (sb s)) \<and>
          bfree D b s'' = Panic ''freeing free block''))"
proof -
  let ?x = "sb s" and ?m = "sb_bmapstart (sb s)"
  have t: "tx D s c bl {}" and l: "fs_layout ?x (log_start s)" and m: "meta_marked c ?x" using assms(1) by (simp_all add: fs_tx_def)
  have len: "length (add_block n bl) \<le> length bl + 1" for n bl by (simp add: length_add_block)
  have r: "space s (Suc (length (add_block ?m bl)))" by (rule space_mono [OF assms(2)]) (use len [of ?m bl] in linarith)
  obtain b s' where b: "balloc D s = Ok (b, s')" "txf D {} s s'" and
    c: "b = 0 \<and> (\<forall>a < sb_size ?x. marked c ?x a) \<and> tx D s' c bl {} \<or>
     ?m < b \<and> b < sb_size ?x \<and> \<not> marked c ?x b \<and> (\<forall>a<b. marked c ?x a) \<and>
       tx D s' (balloc_view c ?x b) (add_block b (add_block ?m bl)) {}"
    using balloc_ok [OF t r l m] by auto
  have x': "sb s' = ?x" "log_start s' = log_start s" using txf_fs(2) [OF b(2)] txfD(1) [OF b(2)] by simp_all
  from c show ?thesis
  proof (elim disjE conjE)
    assume "b = 0" "\<forall>a < sb_size ?x. marked c ?x a" "tx D s' c bl {}"
    then show ?thesis using b x' l m by (auto simp: fs_tx_def)
  next
    assume n: "?m < b" "b < sb_size ?x" "\<not> marked c ?x b" "\<forall>a<b. marked c ?x a"
      and t': "tx D s' (balloc_view c ?x b) (add_block b (add_block ?m bl)) {}"
    let ?c = "balloc_view c ?x b" and ?bl = "add_block b (add_block ?m bl)"
    have nw: "newly ?x c ?c b" by (rule newly_balloc) (use tx_length [OF t] l n in \<open>simp_all add: fs_layout_def\<close>)
    have f': "fs_tx D s' ?c ?bl" using t' x' l newly_meta [OF nw m] by (simp add: fs_tx_def)
    have ub: "unat b < BPB" using n(2) l by (simp add: fs_layout_def word_less_nat_alt)
    have "length ?bl \<le> length bl + 2" using len [of b "add_block ?m bl"] len [of ?m bl] by linarith
    then have r': "space s' (Suc (length ?bl))" unfolding space_frame [OF txfD(10) [OF b(2)]] by (intro space_mono [OF assms(2)]) simp
    have mb: "marked ?c ?x b" using nw by (simp add: newly_def)
    from bfree_ok [OF t' r', unfolded x', OF l _ ub] mb
    obtain s'' where s'': "bfree D b s' = Ok s''" "txf D {} s' s''" "tx D s'' (without_mark ?c ?x b) (add_block ?m ?bl) {}" by auto
    have x'': "sb s'' = ?x" "log_start s'' = log_start s" using txf_fs(2) [OF s''(2)] txfD(1) [OF s''(2)] x' by simp_all
    have wm: "marked (without_mark ?c ?x b) ?x a \<longleftrightarrow> marked c ?x a" for a
      using marked_without_mark [of ?c ?x b a] tx_length [OF t'] ub nw n(3) by (auto simp: newly_def)
    have f'': "fs_tx D s'' (without_mark ?c ?x b) (add_block ?m ?bl)" using s''(3) x'' l m by (simp add: fs_tx_def meta_marked_def wm)
    have "add_block ?m ?bl = ?bl" by simp
    then have r'': "space s'' (Suc (length (add_block ?m ?bl)))" using r' space_frame [OF txfD(10) [OF s''(2)]] by simp
    have "bfree D b s'' = Panic ''freeing free block''"
      using bfree_ok [OF s''(3) r'', unfolded x'', OF l _ ub] wm n(3) by simp
    moreover have "without_mark ?c ?x b ?m = c ?m"
      by (rule without_with_mark [OF n(3) tx_length [OF t] ub]) (use n(1) in auto)
    moreover have "?c a = c a" if "a \<noteq> b" "a \<noteq> ?m" for a using that by (simp add: balloc_view_def with_mark_def Let_def)
    moreover have "?c b = replicate BSIZE 0" by (simp add: balloc_view_def)
    ultimately show ?thesis using b f' n nw s''(1) f'' unfolding newly_def
      by (intro exI [of _ b] exI [of _ s'] exI [of _ ?c] exI [of _ ?bl]) auto
  qed
qed

theorem balloc_spec_witness:
  "fs_tx 1 demo_fs demo_blocks [] \<and> (\<exists>s'. balloc 1 demo_fs = Ok (40, s'))"
proof -
  have sp: "space demo_fs (length ([] :: u32 list) + 3)" by (rule space_mono [OF demo_fs_space]) simp
  have bits: "marked demo_blocks demo_sb a \<longleftrightarrow> unat a < 40" if "unat a < 100" for a
  proof -
    have e: "(255 :: u8) = mask 8" by (simp add: mask_eq_exp_minus_1)
    have "unat a div 8 < 5 \<longleftrightarrow> unat a < 40" by auto
    moreover have "bit (255 :: u8) (unat a mod 8)" unfolding e bit_mask_iff by simp
    ultimately show ?thesis using that by (auto simp: marked_def demo_blocks_def demo_sb_def nth_append)
  qed
  have nf: "\<not> (\<forall>a < sb_size demo_sb. marked demo_blocks demo_sb a)"
    using bits [of 40] by (auto simp: demo_sb_def intro!: exI [of _ 40])
  obtain b s' where b: "balloc 1 demo_fs = Ok (b, s')" "b < sb_size demo_sb" "\<not> marked demo_blocks demo_sb b" "\<forall>a<b. marked demo_blocks demo_sb a"
    using balloc_spec [OF demo_fs_tx sp] unfolding demo_fs_fields if_not_P [OF nf] by blast
  have "unat b < 100" using b(2) by (simp add: demo_sb_def word_less_nat_alt)
  then have "40 \<le> unat b" using bits [of b] b(3) by simp
  moreover have "\<not> 40 < unat b" using bits [of 40] b(4) by (auto simp: word_less_nat_alt)
  ultimately have "b = 40" by (intro word_unat_eq_iff [THEN iffD2]) simp
  then show ?thesis using b(1) demo_fs_tx by blast
qed

lemma log_cost_le: "log_cost x as bl \<le> length bl + 2"
  by (simp add: log_cost_def)

text \<open>C33: In a transaction with room in the log, \<^verbatim>\<open>writei\<close> at an offset within the file writes a prefix of the
  source bytes: the contents of the file are then the old ones with that prefix at the offset. It is shorter
  than asked only if no block is free any more. The inode is on disk as in memory, its blocks are again marked
  and not shared, and the blocks of all other files and the other inodes are as before. The log has grown
  by at most the blocks touched and three more.\<close>

theorem writei_spec:
  fixes s :: "'a fsst_scheme"
  assumes "fs_tx D s c bl" "i_dev (itable s i) = D" "i_inum (itable s i) < sb_ninodes (sb s)" "file_inv (sb s) c (itable s i)"
    "delivers from data s" "off \<le> unat (i_size (itable s i))" "off + length data \<le> MAXFILE * BSIZE"
    "space s (length bl + span off (length data) + 3)"
  shows "\<exists>w s' c' bl' ip'. writei i from (of_nat off) (of_nat (length data)) s = Ok (int w, s') \<and> fs_tx D s' c' bl' \<and>
    txf D {} (upd_inode i (\<lambda>_. ip') s) s' \<and> ip' = (itable s i)\<lparr>i_addrs := i_addrs ip', i_size := i_size ip'\<rparr> \<and>
    w \<le> length data \<and> (w < length data \<longrightarrow> (\<forall>b < sb_size (sb s). marked c' (sb s) b)) \<and>
    contents c' ip' = splice off (take w data) (contents c (itable s i)) \<and>
    file_inv (sb s) c' ip' \<and> disk_inode c' (sb s) (i_inum ip') = to_dinode ip' \<and> others_kept (sb s) c (itable s i) c' \<and>
    length bl' \<le> length bl + span off (length data) + 3"
proof -
  have a: "tx D s c bl {}" "fs_layout (sb s) (log_start s)" "meta_marked c (sb s)" using assms(1) by (simp_all add: fs_tx_def)
  have n: "log_cost (sb s) (i_addrs (itable s i)) bl + span off (length data) + 1 \<le> length bl + span off (length data) + 3"
    using log_cost_le [of "sb s" "i_addrs (itable s i)" bl] by simp
  note r = space_mono [OF assms(8) n]
  from writei_ok [OF a assms(2-7) r] obtain w s' c' bl' ip' where
    1: "writei i from (of_nat off) (of_nat (length data)) s = Ok (int w, s')" "tx D s' c' bl' {}"
      "txf D {} (upd_inode i (\<lambda>_. ip') s) s'" "ip' = (itable s i)\<lparr>i_addrs := i_addrs ip', i_size := i_size ip'\<rparr>"
      "file_inv (sb s) c' ip'" "meta_marked c' (sb s)" "disk_inode c' (sb s) (i_inum ip') = to_dinode ip'" "others_kept (sb s) c (itable s i) c'"
      "w \<le> length data" "w < length data \<longrightarrow> (\<forall>b < sb_size (sb s). marked c' (sb s) b)"
      "contents c' ip' = splice off (take w data) (contents c (itable s i))"
      "length bl' \<le> log_cost (sb s) (i_addrs (itable s i)) bl + span off (length data) + 1" by blast
  have "sb s' = sb s" "log_start s' = log_start s" using txf_fs(2) [OF 1(3)] txfD(1) [OF 1(3)] by (simp_all add: upd_inode_def)
  then have "fs_tx D s' c' bl'" using 1(2,6) a(2) by (simp add: fs_tx_def)
  then show ?thesis using 1 le_trans [OF 1(12) n] by blast
qed

lemma demo_write:
  "i_dev (itable demo_fs 0) = 1" "i_inum (itable demo_fs 0) < sb_ninodes (sb demo_fs)" "file_inv (sb demo_fs) demo_blocks (itable demo_fs 0)"
  "delivers (SVar [1, 2, 3]) [1, 2, 3] demo_fs" "0 \<le> unat (i_size (itable demo_fs 0))" "0 + length ([1, 2, 3] :: u8 list) \<le> MAXFILE * BSIZE"
  "space demo_fs (length ([] :: u32 list) + span 0 (length ([1, 2, 3] :: u8 list)) + 3)"
proof -
  show "i_dev (itable demo_fs 0) = 1" "i_inum (itable demo_fs 0) < sb_ninodes (sb demo_fs)"
    by (simp_all add: demo_fs_fields demo_inode_def demo_sb_def)
  show "file_inv (sb demo_fs) demo_blocks (itable demo_fs 0)" using demo_file(1) by (simp add: demo_fs_fields)
  show "delivers (SVar [1, 2, 3]) [1, 2, 3] demo_fs" by (rule delivers_var)
  show "space demo_fs (length ([] :: u32 list) + span 0 (length ([1, 2, 3] :: u8 list)) + 3)"
    by (rule space_mono [OF demo_fs_space]) (simp add: span_def)
qed simp_all

theorem writei_spec_witness:
  "fs_tx 1 demo_fs demo_blocks [] \<and> (\<exists>w s' c' ip'. writei 0 (SVar [1, 2, 3]) 0 3 demo_fs = Ok (int w, s') \<and>
    contents c' ip' = take w [1, 2, 3] \<and> itable s' 0 = ip')"
proof -
  obtain w s' c' ip' where 1: "writei 0 (SVar [1, 2, 3]) (of_nat 0) (of_nat (length ([1, 2, 3] :: u8 list))) demo_fs = Ok (int w, s')"
    "txf 1 {} (upd_inode 0 (\<lambda>_. ip') demo_fs) s'" "contents c' ip' = splice 0 (take w [1, 2, 3]) (contents demo_blocks (itable demo_fs 0))"
    using writei_spec [OF demo_fs_tx demo_write] by blast
  have "itable s' 0 = ip'" using txf_fs(1) [OF 1(2)] by (simp add: upd_inode_def)
  moreover have "contents c' ip' = take w [1, 2, 3]" using 1(3) demo_file(2) by (simp add: demo_fs_fields splice_def)
  moreover have "writei 0 (SVar [1, 2, 3]) 0 3 demo_fs = Ok (int w, s')" using 1(1) by simp
  ultimately show ?thesis using demo_fs_tx by blast
qed

text \<open>C34: What \<^verbatim>\<open>writei\<close> has written to a file, \<^verbatim>\<open>readi\<close> reads: every read of the file in the same transaction, at
  any offset within it, returns the bytes of the old contents with the written ones in their place, and as
  many of those asked for as the file has.\<close>

theorem readi_after_writei:
  fixes s :: "'a fsst_scheme"
  assumes "fs_tx D s c bl" "i_dev (itable s i) = D" "i_inum (itable s i) < sb_ninodes (sb s)" "file_inv (sb s) c (itable s i)"
    "delivers from data s" "off \<le> unat (i_size (itable s i))" "off + length data \<le> MAXFILE * BSIZE"
    "space s (length bl + span off (length data) + 3)"
  shows "\<exists>w s'. writei i from (of_nat off) (of_nat (length data)) s = Ok (int w, s') \<and> w \<le> length data \<and>
    unat (i_size (itable s' i)) = max (unat (i_size (itable s i))) (off + w) \<and>
    (\<forall>p n. p \<le> max (unat (i_size (itable s i))) (off + w) \<and> n < 2 ^ 31 \<longrightarrow>
      (\<exists>s''. readi i DVar (of_nat p) (of_nat n) s' =
        Ok (int (min n (max (unat (i_size (itable s i))) (off + w) - p)), slice p n (splice off (take w data) (contents c (itable s i))), s'')))"
proof -
  have a: "tx D s c bl {}" "fs_layout (sb s) (log_start s)" "meta_marked c (sb s)" using assms(1) by (simp_all add: fs_tx_def)
  have n: "log_cost (sb s) (i_addrs (itable s i)) bl + span off (length data) + 1 \<le> length bl + span off (length data) + 3"
    using log_cost_le [of "sb s" "i_addrs (itable s i)" bl] by simp
  note r = space_mono [OF assms(8) n]
  from writei_ok [OF a assms(2-7) r] obtain w s' c' bl' ip' where
    1: "writei i from (of_nat off) (of_nat (length data)) s = Ok (int w, s')" "tx D s' c' bl' {}"
      "txf D {} (upd_inode i (\<lambda>_. ip') s) s'" "ip' = (itable s i)\<lparr>i_addrs := i_addrs ip', i_size := i_size ip'\<rparr>"
      "file_inv (sb s) c' ip'" "w \<le> length data"
      "contents c' ip' = splice off (take w data) (contents c (itable s i))"
      "length bl' \<le> log_cost (sb s) (i_addrs (itable s i)) bl + span off (length data) + 1" by blast
  have s': "itable s' i = ip'" "sb s' = sb s" using txf_fs [OF 1(3)] by (simp_all add: upd_inode_def)
  have d': "i_dev (itable s' i) = D" using s'(1) 1(4) assms(2) by (metis inode.select_convs(1) inode.surjective inode.update_convs(10,11))
  have "length (contents c' ip') = max (unat (i_size (itable s i))) (off + w)"
    unfolding 1(7) using assms(6) 1(6) by (simp add: splice_def)
  then have sz: "unat (i_size (itable s' i)) = max (unat (i_size (itable s i))) (off + w)" using s'(1) by simp
  have r': "length bl' + 2 \<le> NBUF" using 1(8) r by (simp add: space_def)
  have f': "file_inv (sb s') c' (itable s' i)" using 1(5) s' by simp
  have "\<exists>s''. readi i DVar (of_nat p) (of_nat n) s' = Ok (int (min n (unat (i_size (itable s' i)) - p)), slice p n (contents c' (itable s' i)), s'')"
    if "p \<le> unat (i_size (itable s' i))" "n < 2 ^ 31" for p n
    by (rule readi_ok [OF 1(2) r' d' f' that]) blast
  then show ?thesis using 1(1,6,7) sz s'(1) by auto
qed

theorem readi_after_writei_witness:
  "\<exists>w s' s''. writei 0 (SVar [1, 2, 3]) 0 3 demo_fs = Ok (int w, s') \<and> readi 0 DVar 0 100 s' = Ok (int w, take w [1, 2, 3], s'')"
proof -
  obtain w s' where 1: "writei 0 (SVar [1, 2, 3]) (of_nat 0) (of_nat (length ([1, 2, 3] :: u8 list))) demo_fs = Ok (int w, s')" "w \<le> length ([1, 2, 3] :: u8 list)"
    "\<forall>p n. p \<le> max (unat (i_size (itable demo_fs 0))) (0 + w) \<and> n < 2 ^ 31 \<longrightarrow> (\<exists>s''. readi 0 DVar (of_nat p) (of_nat n) s' =
      Ok (int (min n (max (unat (i_size (itable demo_fs 0))) (0 + w) - p)), slice p n (splice 0 (take w [1, 2, 3]) (contents demo_blocks (itable demo_fs 0))), s''))"
    using readi_after_writei [OF demo_fs_tx demo_write] by blast
  have e: "unat (i_size (itable demo_fs 0)) = 0" "contents demo_blocks (itable demo_fs 0) = []"
    using demo_file(2) by (simp_all add: demo_fs_fields demo_inode_def)
  from 1(3) [rule_format, of 0 100] 1(2)
  obtain s'' where "readi 0 DVar (of_nat 0) (of_nat 100) s' = Ok (int (min 100 (max 0 (0 + w) - 0)), slice 0 100 (splice 0 (take w [1, 2, 3]) []), s'')"
    unfolding e by auto
  moreover have "slice 0 100 (splice 0 (take w [1, 2, 3]) []) = take w [1, 2, 3 :: u8]" using 1(2) by (simp add: slice_def splice_def)
  ultimately show ?thesis using 1(1,2) by auto
qed

lemma span_chunk: "n \<le> 3 * BSIZE \<Longrightarrow> span off n \<le> 4"
proof -
  assume n: "n \<le> 3 * BSIZE"
  have "(off + n - 1) div BSIZE \<le> (off + 3 * BSIZE) div BSIZE" by (rule div_le_mono) (use n in simp)
  also have "\<dots> = off div BSIZE + 3" by simp
  finally show ?thesis by (auto simp: span_def)
qed

text \<open>C36: The pieces into which \<^verbatim>\<open>filewrite\<close> cuts a write are small enough: one \<^verbatim>\<open>writei\<close> of at most that many
  bytes adds at most seven blocks to the log (four of data, the bitmap, the indirect block and the inode),
  fewer than the \<^verbatim>\<open>MAXOPBLOCKS\<close> that \<^verbatim>\<open>begin_op\<close> reserves for it.\<close>

theorem filewrite_chunk_fits:
  fixes s :: "'a fsst_scheme"
  assumes "fs_tx D s c bl" "i_dev (itable s i) = D" "i_inum (itable s i) < sb_ninodes (sb s)" "file_inv (sb s) c (itable s i)"
    "delivers from data s" "off \<le> unat (i_size (itable s i))" "off + length data \<le> MAXFILE * BSIZE"
    "int (length data) \<le> file_max" "space s (length bl + 7)"
  shows "\<exists>r s'. writei i from (of_nat off) (of_nat (length data)) s = Ok (r, s') \<and> lh_n s' \<le> lh_n s + 7 \<and> lh_n s + 7 < lh_n s + int MAXOPBLOCKS"
proof -
  have a: "tx D s c bl {}" "fs_layout (sb s) (log_start s)" "meta_marked c (sb s)" using assms(1) by (simp_all add: fs_tx_def)
  have "span off (length data) \<le> 4" by (rule span_chunk) (use assms(8) in \<open>simp add: file_max_def\<close>)
  then have n: "log_cost (sb s) (i_addrs (itable s i)) bl + span off (length data) + 1 \<le> length bl + 7"
    using log_cost_le [of "sb s" "i_addrs (itable s i)" bl] by simp
  note r = space_mono [OF assms(9) n]
  from writei_ok [OF a assms(2-7) r] obtain w s' c' bl' where
    1: "writei i from (of_nat off) (of_nat (length data)) s = Ok (int w, s')" "tx D s' c' bl' {}"
      "length bl' \<le> log_cost (sb s) (i_addrs (itable s i)) bl + span off (length data) + 1" by blast
  have "lh_n s' = int (length bl')" "lh_n s = int (length bl)" using 1(2) a(1) by (simp_all add: tx_def lview_def)
  then show ?thesis using 1(1,3) n by auto
qed

theorem filewrite_chunk_fits_witness:
  "\<exists>r s'. writei 0 (SVar [1, 2, 3]) 0 3 demo_fs = Ok (r, s') \<and> lh_n s' \<le> 7"
  using filewrite_chunk_fits [OF demo_fs_tx demo_write(1-6)] demo_fs_space by (auto simp: file_max_def demo_fs_fields)

end
