(* ===== verification/Proc_Life.thy ===== *)
theory Proc_Life
  imports File
begin

text \<open>
  \<^verbatim>\<open>kernel/proc.c\<close>, the life of a process: the first process, \<^verbatim>\<open>fork\<close>, \<^verbatim>\<open>exit\<close>, \<^verbatim>\<open>wait\<close>, and the choice of
  the scheduler. \<^verbatim>\<open>exit\<close> does not return; its result is the state in which it calls \<^verbatim>\<open>sched\<close>.
\<close>

text \<open>\<^verbatim>\<open>safestrcpy(p->name, s, sizeof(p->name))\<close>.\<close>

definition PNAME :: nat where [simp]: "PNAME = 16"

definition set_name :: "u8 list \<Rightarrow> u8 list \<Rightarrow> u8 list" where
  "set_name old new = map (safestrcpy (chars_of old) (chars_of new) (int PNAME)) [0..<PNAME]"

definition ascii :: "string \<Rightarrow> u8 list" where
  "ascii str = map of_char str"

text \<open>\<open>initcode_pa\<close> is the address of the array \<^verbatim>\<open>initcode\<close>, of 52 bytes.\<close>

definition userinit :: "u64 \<Rightarrow> 'a filest_scheme \<Rightarrow> 'a filest_scheme outcome" where
  "userinit initcode_pa s =
     bind_ok (allocproc s) (\<lambda>(np, s).
       let s = s\<lparr>initproc := np\<rparr>
       in case np of
            None \<Rightarrow> Undef
          | Some i \<Rightarrow>
              bind_ok (uvmfirst (p_pagetable (procs s i)) initcode_pa 52 s) (\<lambda>s.
                let s = upd_proc i (\<lambda>p. p\<lparr>p_sz := PGSIZE\<rparr>) s;
                    s = tf_set (p_trapframe (procs s i)) TF_EPC 0 s;
                    s = tf_set (p_trapframe (procs s i)) TF_SP PGSIZE s;
                    s = upd_proc i (\<lambda>p. p\<lparr>p_name := set_name (p_name p) (ascii ''initcode'')\<rparr>) s
                in bind_ok (namei 0 (ascii ''/'') s) (\<lambda>(cwd, s).
                   Ok (upd_proc i (\<lambda>p. p\<lparr>p_cwd := cwd, p_state := RUNNABLE\<rparr>) s))))"

text \<open>The loop of \<^verbatim>\<open>fork\<close> over the open files.\<close>

definition fork_file :: "nat \<Rightarrow> nat \<Rightarrow> 'a filest_scheme \<Rightarrow> 'a filest_scheme outcome" where
  "fork_file np fd s =
     (case p_ofile (myproc s) ! fd of
        None \<Rightarrow> Ok s
      | Some f \<Rightarrow> bind_ok (filedup f s) (\<lambda>s. Ok (upd_proc np (\<lambda>p. p\<lparr>p_ofile := (p_ofile p)[fd := Some f]\<rparr>) s)))"

definition fork :: "'a filest_scheme \<Rightarrow> (int \<times> 'a filest_scheme) outcome" where
  "fork s =
     bind_ok (allocproc s) (\<lambda>(r, s).
       case r of
         None \<Rightarrow> Ok (-1, s)
       | Some np \<Rightarrow>
           bind_ok (uvmcopy (p_pagetable (myproc s)) (p_pagetable (procs s np)) (p_sz (myproc s)) s) (\<lambda>(r, s).
             if r < 0 then bind_ok (freeproc np s) (\<lambda>s. Ok (-1, s))
             else
               let s = upd_proc np (\<lambda>p. p\<lparr>p_sz := p_sz (myproc s), p_mask := p_mask (myproc s)\<rparr>) s;
                   tf = p_trapframe (procs s np);
                   s = s\<lparr>phys := write_bytes (phys s) tf (read_bytes (phys s) (p_trapframe (myproc s)) TF_SIZE)\<rparr>;
                   s = tf_set tf (TF_A 0) 0 s
               in bind_ok (for_ok (fork_file np) [0..<NOFILE] s) (\<lambda>s.
                  case p_cwd (myproc s) of
                    None \<Rightarrow> Undef
                  | Some cwd \<Rightarrow>
                      (case idup cwd s of (cwd, s) \<Rightarrow>
                        let s = upd_proc np (\<lambda>p. p\<lparr>p_cwd := Some cwd, p_name := set_name (p_name p) (p_name (myproc s))\<rparr>) s;
                            pid = p_pid (procs s np)
                        in Ok (pid, upd_proc np (\<lambda>p. p\<lparr>p_parent := Some (cur s), p_state := RUNNABLE\<rparr>) s)))))"

definition reparent_one :: "nat \<Rightarrow> nat \<Rightarrow> 'a procst_scheme \<Rightarrow> 'a procst_scheme" where
  "reparent_one p pp s =
     (if p_parent (procs s pp) = Some p
      then wakeup (case initproc s of None \<Rightarrow> ChanNone | Some i \<Rightarrow> ChanProc i)
             (upd_proc pp (\<lambda>x. x\<lparr>p_parent := initproc s\<rparr>) s)
      else s)"

definition reparent :: "nat \<Rightarrow> 'a procst_scheme \<Rightarrow> 'a procst_scheme" where
  "reparent p s = fold (reparent_one p) [0..<NPROC] s"

definition exit_file :: "nat \<Rightarrow> 'a filest_scheme \<Rightarrow> 'a filest_scheme outcome" where
  "exit_file fd s =
     (case p_ofile (myproc s) ! fd of
        None \<Rightarrow> Ok s
      | Some f \<Rightarrow>
          bind_ok (fileclose f s) (\<lambda>s. Ok (upd_proc (cur s) (\<lambda>p. p\<lparr>p_ofile := (p_ofile p)[fd := None]\<rparr>) s)))"

definition exit :: "int \<Rightarrow> 'a filest_scheme \<Rightarrow> 'a filest_scheme outcome" where
  "exit status s =
     (if initproc s = Some (cur s) then Panic ''init exiting''
      else bind_ok (for_ok exit_file [0..<NOFILE] s) (\<lambda>s.
           bind_ok (begin_op s) (\<lambda>s.
           case p_cwd (myproc s) of
             None \<Rightarrow> Undef
           | Some cwd \<Rightarrow>
               bind_ok (iput cwd s) (\<lambda>s.
               bind_ok (end_op s) (\<lambda>s.
               let s = upd_proc (cur s) (\<lambda>p. p\<lparr>p_cwd := None\<rparr>) s;
                   s = reparent (cur s) s;
                   s = wakeup (case p_parent (myproc s) of None \<Rightarrow> ChanNone | Some i \<Rightarrow> ChanProc i) s
               in Ok (upd_proc (cur s) (\<lambda>p. p\<lparr>p_xstate := status, p_state := ZOMBIE\<rparr>) s))))))"

text \<open>One pass of the loop of \<^verbatim>\<open>wait\<close>: its result, or the process asleep.\<close>

definition wait :: "u64 \<Rightarrow> 'a filest_scheme \<Rightarrow> (int progress \<times> 'a filest_scheme) outcome" where
  "wait addr s =
     (case find (\<lambda>i. p_parent (procs s i) = Some (cur s) \<and> p_state (procs s i) = ZOMBIE) [0..<NPROC] of
        Some i \<Rightarrow>
          (let pid = p_pid (procs s i)
           in bind_ok (if addr \<noteq> 0
                       then copyout (p_pagetable (myproc s)) addr (bytes32 (word_of_int (p_xstate (procs s i)))) s
                       else Ok (0, s)) (\<lambda>(r, s).
              if r < 0 then Ok (Done (-1), s)
              else bind_ok (freeproc i s) (\<lambda>s. Ok (Done pid, s))))
      | None \<Rightarrow>
          if \<not> list_ex (\<lambda>i. p_parent (procs s i) = Some (cur s)) [0..<NPROC] \<or> killed (cur s) s then Ok (Done (-1), s)
          else Ok (Asleep 0, sleep_on (ChanProc (cur s)) s))"

section \<open>Switching\<close>

text \<open>The scheduler runs process \<open>i\<close>, and the running process gives up the CPU.\<close>

definition run_proc :: "nat \<Rightarrow> 'a procst_scheme \<Rightarrow> 'a procst_scheme" where
  "run_proc i s = (upd_proc i (\<lambda>p. p\<lparr>p_state := RUNNING\<rparr>) s)\<lparr>cur := i, mypid := p_pid (procs s i)\<rparr>"

definition yield :: "'a procst_scheme \<Rightarrow> 'a procst_scheme" where
  "yield s = upd_proc (cur s) (\<lambda>p. p\<lparr>p_state := RUNNABLE\<rparr>) s"

text \<open>\<open>first\<close> is the static variable of \<^verbatim>\<open>forkret\<close>; the state is the one at the call of \<^verbatim>\<open>usertrapret\<close>.\<close>

definition forkret :: "bool \<Rightarrow> 'a filest_scheme \<Rightarrow> (bool \<times> 'a filest_scheme) outcome" where
  "forkret first s =
     (if first then bind_ok (fsinit ROOTDEV s) (\<lambda>s. Ok (False, s)) else Ok (False, s))"

end
