(* ===== verification/Exec.thy ===== *)
theory Exec
  imports Proc_Life
begin

text \<open>
  \<^verbatim>\<open>kernel/exec.c\<close>: replacing the memory of a process by a program file. The headers of the ELF file
  are variables of the function, read from the file as bytes. \<open>argv\<close> is the list of the argument
  strings, without their NULs.
\<close>

section \<open>ELF headers (kernel/elf.h)\<close>

definition get64 :: "nat \<Rightarrow> u8 list \<Rightarrow> u64" where
  "get64 off d = ucast (get32 off d) OR push_bit 32 (ucast (get32 (off + 4) d))"

definition ELF_MAGIC :: u32 where "ELF_MAGIC = 0x464C457F"
definition ELF_PROG_LOAD :: u32 where "ELF_PROG_LOAD = 1"
definition ELFHDR_SIZE :: nat where [simp]: "ELFHDR_SIZE = 64"
definition PROGHDR_SIZE :: nat where [simp]: "PROGHDR_SIZE = 56"

record elfhdr =
  elf_magic :: u32
  elf_entry :: u64
  elf_phoff :: u64
  elf_phnum :: u16

definition get_elfhdr :: "u8 list \<Rightarrow> elfhdr" where
  "get_elfhdr d = \<lparr>elf_magic = get32 0 d, elf_entry = get64 24 d, elf_phoff = get64 32 d, elf_phnum = get16 56 d\<rparr>"

record proghdr =
  ph_type :: u32
  ph_flags :: u32
  ph_off :: u64
  ph_vaddr :: u64
  ph_filesz :: u64
  ph_memsz :: u64

definition get_proghdr :: "u8 list \<Rightarrow> proghdr" where
  "get_proghdr d = \<lparr>ph_type = get32 0 d, ph_flags = get32 4 d, ph_off = get64 8 d, ph_vaddr = get64 16 d,
     ph_filesz = get64 32 d, ph_memsz = get64 40 d\<rparr>"

section \<open>Loading\<close>

definition flags2perm :: "u32 \<Rightarrow> u64" where
  "flags2perm flags =
     (let perm = (if flags AND 1 \<noteq> 0 then PTE_X else 0)
      in if flags AND 2 \<noteq> 0 then perm OR PTE_W else perm)"

text \<open>The loop of \<^verbatim>\<open>loadseg\<close> over the page offsets of the segment.\<close>

primrec loadseg_from ::
  "u64 \<Rightarrow> u64 \<Rightarrow> nat \<Rightarrow> u32 \<Rightarrow> u32 \<Rightarrow> nat list \<Rightarrow> 'a fsst_scheme \<Rightarrow> (int \<times> 'a fsst_scheme) outcome" where
  "loadseg_from pagetable va ip offset sz [] s = Ok (0, s)"
| "loadseg_from pagetable va ip offset sz (i # is) s =
     bind_ok (walkaddr pagetable (va + of_nat i) s) (\<lambda>pa.
       if pa = 0 then Panic ''loadseg: address should exist''
       else let n = (if unat sz - i < 4096 then unat sz - i else 4096)
            in bind_ok (readi ip (DKern pa) (offset + of_nat i) (of_nat n) s) (\<lambda>(r, _, s).
               if r \<noteq> int n then Ok (-1, s) else loadseg_from pagetable va ip offset sz is s))"

definition loadseg :: "u64 \<Rightarrow> u64 \<Rightarrow> nat \<Rightarrow> u32 \<Rightarrow> u32 \<Rightarrow> 'a fsst_scheme \<Rightarrow> (int \<times> 'a fsst_scheme) outcome" where
  "loadseg pagetable va ip offset sz s =
     loadseg_from pagetable va ip offset sz (map (\<lambda>k. k * 4096) [0..<(unat sz + 4095) div 4096]) s"

text \<open>
  The loop over the program headers, \<open>k\<close> of them to go. \<open>Inr sz\<close> is the size of the loaded
  program; \<open>Inl sz\<close> stands for \<^verbatim>\<open>goto bad\<close> with that value of the variable.
\<close>

primrec exec_load ::
  "u64 \<Rightarrow> nat \<Rightarrow> nat \<Rightarrow> u32 \<Rightarrow> u64 \<Rightarrow> 'a fsst_scheme \<Rightarrow> ((u64 + u64) \<times> 'a fsst_scheme) outcome" where
  "exec_load pagetable ip 0 off sz s = Ok (Inr sz, s)"
| "exec_load pagetable ip (Suc k) off sz s =
     bind_ok (readi ip DVar off (of_nat PROGHDR_SIZE) s) (\<lambda>(r, bytes, s).
       let ph = get_proghdr bytes
       in if r \<noteq> int PROGHDR_SIZE then Ok (Inl sz, s)
          else if ph_type ph \<noteq> ELF_PROG_LOAD then exec_load pagetable ip k (off + of_nat PROGHDR_SIZE) sz s
          else if ph_memsz ph < ph_filesz ph then Ok (Inl sz, s)
          else if ph_vaddr ph + ph_memsz ph < ph_vaddr ph then Ok (Inl sz, s)
          else if ph_vaddr ph mod PGSIZE \<noteq> 0 then Ok (Inl sz, s)
          else bind_ok (uvmalloc pagetable sz (ph_vaddr ph + ph_memsz ph) (flags2perm (ph_flags ph)) s) (\<lambda>(sz1, s).
            if sz1 = 0 then Ok (Inl sz, s)
            else bind_ok (loadseg pagetable (ph_vaddr ph) ip (ucast (ph_off ph)) (ucast (ph_filesz ph)) s) (\<lambda>(r, s).
              if r < 0 then Ok (Inl sz1, s)
              else exec_load pagetable ip k (off + of_nat PROGHDR_SIZE) sz1 s)))"

text \<open>
  Pushing the argument strings, with \<open>ustack\<close> the part of the array filled so far; \<open>None\<close> stands
  for \<^verbatim>\<open>goto bad\<close>.
\<close>

primrec push_args ::
  "u64 \<Rightarrow> u64 \<Rightarrow> u8 list list \<Rightarrow> u64 \<Rightarrow> u64 list \<Rightarrow> 'a kmem_scheme \<Rightarrow> ((u64 \<times> u64 list) option \<times> 'a kmem_scheme) outcome" where
  "push_args pagetable stackbase [] sp ustack s = Ok (Some (sp, ustack), s)"
| "push_args pagetable stackbase (arg # argv) sp ustack s =
     (if length ustack \<ge> MAXARG then Ok (None, s)
      else let sp = sp - (of_nat (length arg) + 1); sp = sp - sp mod 16
           in if sp < stackbase then Ok (None, s)
              else bind_ok (copyout pagetable sp (arg @ [0]) s) (\<lambda>(r, s).
                if r < 0 then Ok (None, s) else push_args pagetable stackbase argv sp (ustack @ [sp]) s))"

definition last_elem :: "u8 list \<Rightarrow> u8 list" where
  "last_elem path = rev (takeWhile (\<lambda>c. c \<noteq> slash) (rev path))"

section \<open>exec\<close>

text \<open>The label \<^verbatim>\<open>bad\<close>, while the inode is locked and after it has been put.\<close>

definition exec_bad :: "nat \<Rightarrow> u64 \<Rightarrow> u64 \<Rightarrow> 'a filest_scheme \<Rightarrow> (int \<times> 'a filest_scheme) outcome" where
  "exec_bad ip pagetable sz s =
     bind_ok (if pagetable \<noteq> 0 then proc_freepagetable pagetable sz s else Ok s) (\<lambda>s.
     bind_ok (iunlockput ip s) (\<lambda>s.
     bind_ok (end_op s) (\<lambda>s. Ok (-1, s))))"

definition exec_bad2 :: "u64 \<Rightarrow> u64 \<Rightarrow> 'a filest_scheme \<Rightarrow> (int \<times> 'a filest_scheme) outcome" where
  "exec_bad2 pagetable sz s = bind_ok (proc_freepagetable pagetable sz s) (\<lambda>s. Ok (-1, s))"

text \<open>From the allocation of the stack on.\<close>

definition exec_image ::
  "u8 list \<Rightarrow> u8 list list \<Rightarrow> elfhdr \<Rightarrow> u64 \<Rightarrow> u64 \<Rightarrow> 'a filest_scheme \<Rightarrow> (int \<times> 'a filest_scheme) outcome" where
  "exec_image path argv elf pagetable sz s =
     (let oldsz = p_sz (myproc s); sz = PGROUNDUP sz
      in bind_ok (uvmalloc pagetable sz (sz + 2 * PGSIZE) PTE_W s) (\<lambda>(sz1, s).
         if sz1 = 0 then exec_bad2 pagetable sz s
         else let sz = sz1
              in bind_ok (uvmclear pagetable (sz - 2 * PGSIZE) s) (\<lambda>s.
                 let stackbase = sz - PGSIZE
                 in bind_ok (push_args pagetable stackbase argv sz [] s) (\<lambda>(r, s).
                    case r of
                      None \<Rightarrow> exec_bad2 pagetable sz s
                    | Some (sp, ustack) \<Rightarrow>
                        if length ustack \<ge> MAXARG then Undef
                        else let argc = length ustack; ustack = ustack @ [0];
                                 sp = sp - (of_nat argc + 1) * 8; sp = sp - sp mod 16
                             in if sp < stackbase then exec_bad2 pagetable sz s
                                else bind_ok (copyout pagetable sp (concat (map bytes64 ustack)) s) (\<lambda>(r, s).
                                  if r < 0 then exec_bad2 pagetable sz s
                                  else let tf = p_trapframe (myproc s);
                                           s = tf_set tf (TF_A 1) sp s;
                                           s = upd_proc (cur s) (\<lambda>p. p\<lparr>p_name := set_name (p_name p) (last_elem path)\<rparr>) s;
                                           oldpagetable = p_pagetable (myproc s);
                                           s = upd_proc (cur s) (\<lambda>p. p\<lparr>p_pagetable := pagetable, p_sz := sz\<rparr>) s;
                                           s = tf_set tf TF_EPC (elf_entry elf) s;
                                           s = tf_set tf TF_SP sp s
                                       in bind_ok (proc_freepagetable oldpagetable oldsz s) (\<lambda>s. Ok (int argc, s)))))))"

definition exec :: "u8 list \<Rightarrow> u8 list list \<Rightarrow> 'a filest_scheme \<Rightarrow> (int \<times> 'a filest_scheme) outcome" where
  "exec path argv s =
     bind_ok (begin_op s) (\<lambda>s.
     bind_ok (namei (the (p_cwd (myproc s))) path s) (\<lambda>(r, s).
       case r of
         None \<Rightarrow> bind_ok (end_op s) (\<lambda>s. Ok (-1, s))
       | Some ip \<Rightarrow>
           bind_ok (ilock (Some ip) s) (\<lambda>s.
           bind_ok (readi ip DVar 0 (of_nat ELFHDR_SIZE) s) (\<lambda>(r, bytes, s).
             let elf = get_elfhdr bytes
             in if r \<noteq> int ELFHDR_SIZE then exec_bad ip 0 0 s
                else if elf_magic elf \<noteq> ELF_MAGIC then exec_bad ip 0 0 s
                else bind_ok (proc_pagetable (p_trapframe (myproc s)) s) (\<lambda>(pagetable, s).
                  if pagetable = 0 then exec_bad ip 0 0 s
                  else bind_ok (exec_load pagetable ip (unat (elf_phnum elf)) (ucast (elf_phoff elf)) 0 s) (\<lambda>(r, s).
                    case r of
                      Inl sz \<Rightarrow> exec_bad ip pagetable sz s
                    | Inr sz \<Rightarrow>
                        bind_ok (iunlockput ip s) (\<lambda>s.
                        bind_ok (end_op s) (\<lambda>s.
                        exec_image path argv elf pagetable sz s))))))))"

end
