(* ===== verification/Sysfile.thy ===== *)
theory Sysfile
  imports Exec
begin

text \<open>
  \<^verbatim>\<open>kernel/sysfile.c\<close>, the file system calls, and the functions of \<^verbatim>\<open>kernel/syscall.c\<close> that fetch their
  arguments. The result of a call is the value that ends up in register \<^verbatim>\<open>a0\<close>, or that the process
  sleeps.
\<close>

section \<open>Arguments (kernel/syscall.c)\<close>

definition fetchaddr :: "u64 \<Rightarrow> 'a procst_scheme \<Rightarrow> u64 option outcome" where
  "fetchaddr addr s =
     (if addr \<ge> p_sz (myproc s) \<or> addr + 8 > p_sz (myproc s) then Ok None
      else bind_ok (copyin (p_pagetable (myproc s)) addr 8 s) (\<lambda>(r, bytes).
        if r \<noteq> 0 then Ok None else Ok (Some (get64 0 bytes))))"

text \<open>The string without its NUL, \<open>None\<close> for an error; the return value of the C function is its length.\<close>

definition fetchstr :: "u64 \<Rightarrow> nat \<Rightarrow> 'a procst_scheme \<Rightarrow> u8 list option outcome" where
  "fetchstr addr maxlen s =
     bind_ok (copyinstr (p_pagetable (myproc s)) addr maxlen s) (\<lambda>(r, bytes).
       if r < 0 then Ok None else Ok (Some (takeWhile (\<lambda>c. c \<noteq> 0) bytes)))"

definition argraw :: "nat \<Rightarrow> 'a procst_scheme \<Rightarrow> u64 outcome" where
  "argraw n s = (if n \<le> 5 then Ok (tf_get (p_trapframe (myproc s)) s (TF_A n)) else Panic ''argraw'')"

definition argint :: "nat \<Rightarrow> 'a procst_scheme \<Rightarrow> int outcome" where
  "argint n s = bind_ok (argraw n s) (\<lambda>v. Ok (sint (ucast v :: u32)))"

definition argaddr :: "nat \<Rightarrow> 'a procst_scheme \<Rightarrow> u64 outcome" where
  "argaddr n s = argraw n s"

definition argstr :: "nat \<Rightarrow> nat \<Rightarrow> 'a procst_scheme \<Rightarrow> u8 list option outcome" where
  "argstr n maxlen s = bind_ok (argaddr n s) (\<lambda>addr. fetchstr addr maxlen s)"

section \<open>File descriptors\<close>

definition argfd :: "nat \<Rightarrow> 'a procst_scheme \<Rightarrow> (nat \<times> nat) option outcome" where
  "argfd n s =
     bind_ok (argint n s) (\<lambda>fd.
       if fd < 0 \<or> fd \<ge> int NOFILE then Ok None
       else case p_ofile (myproc s) ! nat fd of None \<Rightarrow> Ok None | Some f \<Rightarrow> Ok (Some (nat fd, f)))"

definition set_ofile :: "nat \<Rightarrow> nat option \<Rightarrow> 'a procst_scheme \<Rightarrow> 'a procst_scheme" where
  "set_ofile fd f s = upd_proc (cur s) (\<lambda>p. p\<lparr>p_ofile := (p_ofile p)[fd := f]\<rparr>) s"

definition fdalloc :: "nat \<Rightarrow> 'a procst_scheme \<Rightarrow> nat option \<times> 'a procst_scheme" where
  "fdalloc f s =
     (case find (\<lambda>fd. p_ofile (myproc s) ! fd = None) [0..<NOFILE] of
        None \<Rightarrow> (None, s)
      | Some fd \<Rightarrow> (Some fd, set_ofile fd (Some f) s))"

type_synonym 's sysres = "(int progress \<times> 's) outcome"

abbreviation ret :: "int \<Rightarrow> 's \<Rightarrow> 's sysres" where "ret v s \<equiv> Ok (Done v, s)"

definition sys_dup :: "'a filest_scheme \<Rightarrow> 'a filest_scheme sysres" where
  "sys_dup s =
     bind_ok (argfd 0 s) (\<lambda>r.
       case r of None \<Rightarrow> ret (-1) s
       | Some (_, f) \<Rightarrow>
           (case fdalloc f s of
              (None, s) \<Rightarrow> ret (-1) s
            | (Some fd, s) \<Rightarrow> bind_ok (filedup f s) (\<lambda>s. ret (int fd) s)))"

definition sys_read :: "'a filest_scheme devswitch \<Rightarrow> 'a filest_scheme \<Rightarrow> 'a filest_scheme sysres" where
  "sys_read devsw s =
     bind_ok (argaddr 1 s) (\<lambda>p.
     bind_ok (argint 2 s) (\<lambda>n.
     bind_ok (argfd 0 s) (\<lambda>r.
       case r of None \<Rightarrow> ret (-1) s | Some (_, f) \<Rightarrow> fileread devsw f p n s)))"

definition sys_write :: "'a filest_scheme devswitch \<Rightarrow> 'a filest_scheme \<Rightarrow> 'a filest_scheme sysres" where
  "sys_write devsw s =
     bind_ok (argaddr 1 s) (\<lambda>p.
     bind_ok (argint 2 s) (\<lambda>n.
     bind_ok (argfd 0 s) (\<lambda>r.
       case r of None \<Rightarrow> ret (-1) s | Some (_, f) \<Rightarrow> filewrite devsw f p n s)))"

definition sys_close :: "'a filest_scheme \<Rightarrow> 'a filest_scheme sysres" where
  "sys_close s =
     bind_ok (argfd 0 s) (\<lambda>r.
       case r of None \<Rightarrow> ret (-1) s
       | Some (fd, f) \<Rightarrow> bind_ok (fileclose f (set_ofile fd None s)) (\<lambda>s. ret 0 s))"

definition sys_fstat :: "u8 list \<Rightarrow> 'a filest_scheme \<Rightarrow> 'a filest_scheme sysres" where
  "sys_fstat pad s =
     bind_ok (argaddr 1 s) (\<lambda>st.
     bind_ok (argfd 0 s) (\<lambda>r.
       case r of None \<Rightarrow> ret (-1) s
       | Some (_, f) \<Rightarrow> bind_ok (filestat pad f st s) (\<lambda>(v, s). ret v s)))"

section \<open>Names\<close>

abbreviation my_cwd :: "'a procst_scheme \<Rightarrow> nat" where "my_cwd s \<equiv> the (p_cwd (myproc s))"

text \<open>\<^verbatim>\<open>end_op(); return v\<close>.\<close>

definition end_ret :: "int \<Rightarrow> 'a filest_scheme \<Rightarrow> 'a filest_scheme sysres" where
  "end_ret v s = bind_ok (end_op s) (\<lambda>s. ret v s)"

definition add_nlink :: "nat \<Rightarrow> u16 \<Rightarrow> 'a fsst_scheme \<Rightarrow> 'a fsst_scheme" where
  "add_nlink i d s = upd_inode i (\<lambda>x. x\<lparr>i_nlink := i_nlink x + d\<rparr>) s"

text \<open>The label \<^verbatim>\<open>bad\<close> of \<^verbatim>\<open>sys_link\<close>.\<close>

definition link_bad :: "nat \<Rightarrow> 'a filest_scheme \<Rightarrow> 'a filest_scheme sysres" where
  "link_bad ip s =
     bind_ok (ilock (Some ip) s) (\<lambda>s.
     bind_ok (iupdate ip (add_nlink ip (-1) s)) (\<lambda>s.
     bind_ok (iunlockput ip s) (end_ret (-1))))"

definition sys_link :: "'a filest_scheme \<Rightarrow> 'a filest_scheme sysres" where
  "sys_link s =
     bind_ok (argstr 0 MAXPATH s) (\<lambda>old_path.
     if old_path = None then ret (-1) s
     else bind_ok (argstr 1 MAXPATH s) (\<lambda>new_path.
     if new_path = None then ret (-1) s
     else bind_ok (begin_op s) (\<lambda>s.
     bind_ok (namei (my_cwd s) (the old_path) s) (\<lambda>(r, s).
     case r of None \<Rightarrow> end_ret (-1) s
     | Some ip \<Rightarrow>
       bind_ok (ilock (Some ip) s) (\<lambda>s.
       if i_type (itable s ip) = T_DIR then bind_ok (iunlockput ip s) (end_ret (-1))
       else bind_ok (iupdate ip (add_nlink ip 1 s)) (\<lambda>s.
       bind_ok (iunlock (Some ip) s) (\<lambda>s.
       bind_ok (nameiparent (my_cwd s) (the new_path) s) (\<lambda>(r, name, s).
       case r of None \<Rightarrow> link_bad ip s
       | Some dp \<Rightarrow>
         bind_ok (ilock (Some dp) s) (\<lambda>s.
         bind_ok (if i_dev (itable s dp) \<noteq> i_dev (itable s ip) then Ok (-1, s)
                  else dirlink dp name (i_inum (itable s ip)) s) (\<lambda>(r, s).
         if r < 0 then bind_ok (iunlockput dp s) (link_bad ip)
         else bind_ok (iunlockput dp s) (\<lambda>s.
              bind_ok (iput ip s) (end_ret 0)))))))))))) "

primrec isdirempty_from :: "nat \<Rightarrow> u32 list \<Rightarrow> 'a fsst_scheme \<Rightarrow> (bool \<times> 'a fsst_scheme) outcome" where
  "isdirempty_from dp [] s = Ok (True, s)"
| "isdirempty_from dp (off # offs) s =
     bind_ok (readi dp DVar off (of_nat DIRENT_SIZE) s) (\<lambda>(r, bytes, s).
       if r \<noteq> int DIRENT_SIZE then Panic ''isdirempty: readi''
       else if de_inum (word_dirent bytes) \<noteq> 0 then Ok (False, s)
       else isdirempty_from dp offs s)"

definition isdirempty :: "nat \<Rightarrow> 'a fsst_scheme \<Rightarrow> (bool \<times> 'a fsst_scheme) outcome" where
  "isdirempty dp s = isdirempty_from dp (drop 2 (dir_offsets (i_size (itable s dp)))) s"

definition unlink_bad :: "nat \<Rightarrow> 'a filest_scheme \<Rightarrow> 'a filest_scheme sysres" where
  "unlink_bad dp s = bind_ok (iunlockput dp s) (end_ret (-1))"

text \<open>\<^verbatim>\<open>sys_unlink\<close> once the entry is known to be removable: \<open>ip\<close> and \<open>dp\<close> are locked.\<close>

definition unlink_remove :: "nat \<Rightarrow> nat \<Rightarrow> u32 \<Rightarrow> 'a filest_scheme \<Rightarrow> 'a filest_scheme sysres" where
  "unlink_remove dp ip off s =
     bind_ok (writei dp (SVar (replicate DIRENT_SIZE 0)) off (of_nat DIRENT_SIZE) s) (\<lambda>(r, s).
     if r \<noteq> int DIRENT_SIZE then Panic ''unlink: writei''
     else bind_ok (if i_type (itable s ip) = T_DIR then iupdate dp (add_nlink dp (-1) s) else Ok s) (\<lambda>s.
     bind_ok (iunlockput dp s) (\<lambda>s.
     bind_ok (iupdate ip (add_nlink ip (-1) s)) (\<lambda>s.
     bind_ok (iunlockput ip s) (end_ret 0)))))"

definition sys_unlink :: "'a filest_scheme \<Rightarrow> 'a filest_scheme sysres" where
  "sys_unlink s =
     bind_ok (argstr 0 MAXPATH s) (\<lambda>path.
     if path = None then ret (-1) s
     else bind_ok (begin_op s) (\<lambda>s.
     bind_ok (nameiparent (my_cwd s) (the path) s) (\<lambda>(r, name, s).
     case r of None \<Rightarrow> end_ret (-1) s
     | Some dp \<Rightarrow>
       bind_ok (ilock (Some dp) s) (\<lambda>s.
       if namecmp name (ascii ''.'') = 0 \<or> namecmp name (ascii ''..'') = 0 then unlink_bad dp s
       else bind_ok (dirlookup dp name s) (\<lambda>(r, s).
       case r of None \<Rightarrow> unlink_bad dp s
       | Some (ip, off) \<Rightarrow>
         bind_ok (ilock (Some ip) s) (\<lambda>s.
         if sint (i_nlink (itable s ip)) < 1 then Panic ''unlink: nlink < 1''
         else bind_ok (if i_type (itable s ip) = T_DIR then isdirempty ip s else Ok (True, s)) (\<lambda>(e, s).
         if \<not> e then bind_ok (iunlockput ip s) (unlink_bad dp)
         else unlink_remove dp ip off s)))))))"

text \<open>The label \<^verbatim>\<open>fail\<close> of \<^verbatim>\<open>create\<close>.\<close>

definition create_fail :: "nat \<Rightarrow> nat \<Rightarrow> 'a fsst_scheme \<Rightarrow> (nat option \<times> 'a fsst_scheme) outcome" where
  "create_fail ip dp s =
     bind_ok (iupdate ip (upd_inode ip (\<lambda>x. x\<lparr>i_nlink := 0\<rparr>) s)) (\<lambda>s.
     bind_ok (iunlockput ip s) (\<lambda>s.
     bind_ok (iunlockput dp s) (\<lambda>s. Ok (None, s))))"

definition create_new ::
  "nat \<Rightarrow> u8 list \<Rightarrow> u16 \<Rightarrow> u16 \<Rightarrow> u16 \<Rightarrow> 'a fsst_scheme \<Rightarrow> (nat option \<times> 'a fsst_scheme) outcome" where
  "create_new dp name type major minor s =
     bind_ok (ialloc (i_dev (itable s dp)) type s) (\<lambda>(r, s).
     case r of None \<Rightarrow> bind_ok (iunlockput dp s) (\<lambda>s. Ok (None, s))
     | Some ip \<Rightarrow>
       bind_ok (ilock (Some ip) s) (\<lambda>s.
       bind_ok (iupdate ip (upd_inode ip (\<lambda>x. x\<lparr>i_major := major, i_minor := minor, i_nlink := 1\<rparr>) s)) (\<lambda>s.
       bind_ok
         (if type = T_DIR
          then bind_ok (dirlink ip (ascii ''.'') (i_inum (itable s ip)) s) (\<lambda>(r, s).
            if r < 0 then Ok (r, s) else dirlink ip (ascii ''..'') (i_inum (itable s dp)) s)
          else Ok (0, s)) (\<lambda>(r, s).
       if r < 0 then create_fail ip dp s
       else bind_ok (dirlink dp name (i_inum (itable s ip)) s) (\<lambda>(r, s).
       if r < 0 then create_fail ip dp s
       else bind_ok (if type = T_DIR then iupdate dp (add_nlink dp 1 s) else Ok s) (\<lambda>s.
       bind_ok (iunlockput dp s) (\<lambda>s. Ok (Some ip, s))))))))"

definition create ::
  "u8 list \<Rightarrow> u16 \<Rightarrow> u16 \<Rightarrow> u16 \<Rightarrow> 'a filest_scheme \<Rightarrow> (nat option \<times> 'a filest_scheme) outcome" where
  "create path type major minor s =
     bind_ok (nameiparent (my_cwd s) path s) (\<lambda>(r, name, s).
     case r of None \<Rightarrow> Ok (None, s)
     | Some dp \<Rightarrow>
       bind_ok (ilock (Some dp) s) (\<lambda>s.
       bind_ok (dirlookup dp name s) (\<lambda>(r, s).
       case r of
         Some (ip, _) \<Rightarrow>
           bind_ok (iunlockput dp s) (\<lambda>s.
           bind_ok (ilock (Some ip) s) (\<lambda>s.
           if type = T_FILE \<and> (i_type (itable s ip) = T_FILE \<or> i_type (itable s ip) = T_DEVICE) then Ok (Some ip, s)
           else bind_ok (iunlockput ip s) (\<lambda>s. Ok (None, s))))
       | None \<Rightarrow> create_new dp name type major minor s)))"

definition O_RDONLY :: u32 where "O_RDONLY = 0"
definition O_WRONLY :: u32 where "O_WRONLY = 1"
definition O_RDWR :: u32 where "O_RDWR = 2"
definition O_CREATE :: u32 where "O_CREATE = 0x200"
definition O_TRUNC :: u32 where "O_TRUNC = 0x400"

text \<open>The inode to open, locked; \<open>None\<close> where \<^verbatim>\<open>sys_open\<close> returns -1.\<close>

definition open_inode :: "u8 list \<Rightarrow> u32 \<Rightarrow> 'a filest_scheme \<Rightarrow> (nat option \<times> 'a filest_scheme) outcome" where
  "open_inode path omode s =
     (if omode AND O_CREATE \<noteq> 0 then create path T_FILE 0 0 s
      else bind_ok (namei (my_cwd s) path s) (\<lambda>(r, s).
        case r of None \<Rightarrow> Ok (None, s)
        | Some ip \<Rightarrow>
            bind_ok (ilock (Some ip) s) (\<lambda>s.
            if i_type (itable s ip) = T_DIR \<and> omode \<noteq> O_RDONLY
            then bind_ok (iunlockput ip s) (\<lambda>s. Ok (None, s)) else Ok (Some ip, s))))"

definition open_file :: "nat \<Rightarrow> u32 \<Rightarrow> inode \<Rightarrow> kfile \<Rightarrow> kfile" where
  "open_file ip omode x f =
     (let f = (if i_type x = T_DEVICE then f\<lparr>f_type := FD_DEVICE, f_major := i_major x\<rparr>
               else f\<lparr>f_type := FD_INODE, f_off := 0\<rparr>)
      in f\<lparr>f_ip := Some ip, f_readable := (omode AND O_WRONLY = 0),
           f_writable := (omode AND O_WRONLY \<noteq> 0 \<or> omode AND O_RDWR \<noteq> 0)\<rparr>)"

definition sys_open :: "'a filest_scheme \<Rightarrow> 'a filest_scheme sysres" where
  "sys_open s =
     bind_ok (argint 1 s) (\<lambda>om.
     bind_ok (argstr 0 MAXPATH s) (\<lambda>path.
     if path = None then ret (-1) s
     else let omode = word_of_int om :: u32
     in bind_ok (begin_op s) (\<lambda>s.
        bind_ok (open_inode (the path) omode s) (\<lambda>(r, s).
        case r of None \<Rightarrow> end_ret (-1) s
        | Some ip \<Rightarrow>
          if i_type (itable s ip) = T_DEVICE \<and> (sint (i_major (itable s ip)) < 0 \<or> sint (i_major (itable s ip)) \<ge> int NDEV)
          then bind_ok (iunlockput ip s) (end_ret (-1))
          else case filealloc s of
            (None, s) \<Rightarrow> bind_ok (iunlockput ip s) (end_ret (-1))
          | (Some f, s) \<Rightarrow>
              (case fdalloc f s of
                 (None, s) \<Rightarrow>
                   bind_ok (fileclose f s) (\<lambda>s. bind_ok (iunlockput ip s) (end_ret (-1)))
               | (Some fd, s) \<Rightarrow>
                   let s = upd_file f (open_file ip omode (itable s ip)) s
                   in bind_ok (if omode AND O_TRUNC \<noteq> 0 \<and> i_type (itable s ip) = T_FILE then itrunc ip s else Ok s) (\<lambda>s.
                      bind_ok (iunlock (Some ip) s) (end_ret (int fd)))))))) "

definition sys_mkdir :: "'a filest_scheme \<Rightarrow> 'a filest_scheme sysres" where
  "sys_mkdir s =
     bind_ok (begin_op s) (\<lambda>s.
     bind_ok (argstr 0 MAXPATH s) (\<lambda>path.
     bind_ok (case path of None \<Rightarrow> Ok (None, s) | Some path \<Rightarrow> create path T_DIR 0 0 s) (\<lambda>(r, s).
     case r of None \<Rightarrow> end_ret (-1) s
     | Some ip \<Rightarrow> bind_ok (iunlockput ip s) (end_ret 0))))"

definition sys_mknod :: "'a filest_scheme \<Rightarrow> 'a filest_scheme sysres" where
  "sys_mknod s =
     bind_ok (begin_op s) (\<lambda>s.
     bind_ok (argint 1 s) (\<lambda>major.
     bind_ok (argint 2 s) (\<lambda>minor.
     bind_ok (argstr 0 MAXPATH s) (\<lambda>path.
     bind_ok (case path of None \<Rightarrow> Ok (None, s)
              | Some path \<Rightarrow> create path T_DEVICE (word_of_int major) (word_of_int minor) s) (\<lambda>(r, s).
     case r of None \<Rightarrow> end_ret (-1) s
     | Some ip \<Rightarrow> bind_ok (iunlockput ip s) (end_ret 0))))))"

definition sys_chdir :: "'a filest_scheme \<Rightarrow> 'a filest_scheme sysres" where
  "sys_chdir s =
     bind_ok (begin_op s) (\<lambda>s.
     bind_ok (argstr 0 MAXPATH s) (\<lambda>path.
     bind_ok (case path of None \<Rightarrow> Ok (None, s) | Some path \<Rightarrow> namei (my_cwd s) path s) (\<lambda>(r, s).
     case r of None \<Rightarrow> end_ret (-1) s
     | Some ip \<Rightarrow>
       bind_ok (ilock (Some ip) s) (\<lambda>s.
       if i_type (itable s ip) \<noteq> T_DIR then bind_ok (iunlockput ip s) (end_ret (-1))
       else bind_ok (iunlock (Some ip) s) (\<lambda>s.
            bind_ok (iput (my_cwd s) s) (\<lambda>s.
            bind_ok (end_op s) (\<lambda>s.
            ret 0 (upd_proc (cur s) (\<lambda>p. p\<lparr>p_cwd := Some ip\<rparr>) s))))))))"

text \<open>
  The loop of \<^verbatim>\<open>sys_exec\<close> that fetches the arguments, \<open>k\<close> array elements from the end: the pages
  that hold them, in order, and the strings, \<open>None\<close> for \<^verbatim>\<open>goto bad\<close>.
\<close>

primrec fetch_args ::
  "nat \<Rightarrow> u64 \<Rightarrow> u64 list \<Rightarrow> u8 list list \<Rightarrow> 'a procst_scheme \<Rightarrow> (u64 list \<times> u8 list list option \<times> 'a procst_scheme) outcome" where
  "fetch_args 0 uargv pages args s = Ok (pages, None, s)"
| "fetch_args (Suc k) uargv pages args s =
     bind_ok (fetchaddr (uargv + 8 * of_nat (length pages)) s) (\<lambda>uarg.
     case uarg of None \<Rightarrow> Ok (pages, None, s)
     | Some uarg \<Rightarrow>
       if uarg = 0 then Ok (pages, Some args, s)
       else case kalloc s of (page, s) \<Rightarrow>
         if page = 0 then Ok (pages, None, s)
         else bind_ok (copyinstr (p_pagetable (myproc s)) uarg 4096 s) (\<lambda>(r, bytes).
           let s = s\<lparr>phys := write_bytes (phys s) page bytes\<rparr>
           in if r < 0 then Ok (pages @ [page], None, s)
              else fetch_args k uargv (pages @ [page]) (args @ [takeWhile (\<lambda>c. c \<noteq> 0) bytes]) s))"

definition free_args :: "u64 list \<Rightarrow> 'a kmem_scheme \<Rightarrow> 'a kmem_scheme outcome" where
  "free_args pages s = fold (\<lambda>p r. bind_ok r (kfree p)) pages (Ok s)"

definition sys_exec :: "'a filest_scheme \<Rightarrow> 'a filest_scheme sysres" where
  "sys_exec s =
     bind_ok (argaddr 1 s) (\<lambda>uargv.
     bind_ok (argstr 0 MAXPATH s) (\<lambda>path.
     if path = None then ret (-1) s
     else bind_ok (fetch_args MAXARG uargv [] [] s) (\<lambda>(pages, args, s).
     case args of None \<Rightarrow> bind_ok (free_args pages s) (\<lambda>s. ret (-1) s)
     | Some argv \<Rightarrow>
       bind_ok (exec (the path) argv s) (\<lambda>(r, s).
       bind_ok (free_args pages s) (\<lambda>s. ret r s)))))"

definition sys_pipe :: "'a filest_scheme \<Rightarrow> 'a filest_scheme sysres" where
  "sys_pipe s =
     bind_ok (argaddr 0 s) (\<lambda>fdarray.
     bind_ok (pipealloc s) (\<lambda>(r, s).
     case r of None \<Rightarrow> ret (-1) s
     | Some (rdf, wrf) \<Rightarrow>
       (case fdalloc rdf s of
          (None, s) \<Rightarrow> bind_ok (fileclose rdf s) (\<lambda>s. bind_ok (fileclose wrf s) (\<lambda>s. ret (-1) s))
        | (Some fd0, s) \<Rightarrow>
            (case fdalloc wrf s of
               (None, s) \<Rightarrow>
                 bind_ok (fileclose rdf (set_ofile fd0 None s)) (\<lambda>s. bind_ok (fileclose wrf s) (\<lambda>s. ret (-1) s))
             | (Some fd1, s) \<Rightarrow>
                 bind_ok (copyout (p_pagetable (myproc s)) fdarray (bytes32 (of_nat fd0)) s) (\<lambda>(r, s).
                 bind_ok (if r < 0 then Ok (r, s)
                          else copyout (p_pagetable (myproc s)) (fdarray + 4) (bytes32 (of_nat fd1)) s) (\<lambda>(r, s).
                 if r < 0
                 then bind_ok (fileclose rdf (set_ofile fd1 None (set_ofile fd0 None s))) (\<lambda>s.
                      bind_ok (fileclose wrf s) (\<lambda>s. ret (-1) s))
                 else ret 0 s))))))"

end
