(* ===== verification/Syscall.thy ===== *)
theory Syscall
  imports Sysfile
begin

text \<open>
  \<^verbatim>\<open>kernel/sysproc.c\<close>, the system calls on processes, and the dispatch of \<^verbatim>\<open>kernel/syscall.c\<close> with the
  tracing of system calls.
\<close>

section \<open>Processes (kernel/sysproc.c)\<close>

definition sys_exit :: "'a filest_scheme \<Rightarrow> 'a filest_scheme sysres" where
  "sys_exit s = bind_ok (argint 0 s) (\<lambda>n. bind_ok (exit n s) (\<lambda>s. Ok (Exited, s)))"

definition sys_getpid :: "'a filest_scheme \<Rightarrow> 'a filest_scheme sysres" where
  "sys_getpid s = ret (p_pid (myproc s)) s"

definition sys_fork :: "'a filest_scheme \<Rightarrow> 'a filest_scheme sysres" where
  "sys_fork s = bind_ok (fork s) (\<lambda>(pid, s). ret pid s)"

definition sys_wait :: "'a filest_scheme \<Rightarrow> 'a filest_scheme sysres" where
  "sys_wait s = bind_ok (argaddr 0 s) (\<lambda>p. wait p s)"

definition sys_sbrk :: "'a filest_scheme \<Rightarrow> 'a filest_scheme sysres" where
  "sys_sbrk s =
     bind_ok (argint 0 s) (\<lambda>n.
       let addr = p_sz (myproc s)
       in bind_ok (growproc n s) (\<lambda>(r, s). if r < 0 then ret (-1) s else ret (uint addr) s))"

text \<open>
  The loop of \<^verbatim>\<open>sys_sleep\<close>, which continues with the same \<open>ticks0\<close> each time the process wakes up.
  The comparison is one of unsigned integers.
\<close>

definition sys_sleep_from :: "u32 \<Rightarrow> int \<Rightarrow> 'a filest_scheme \<Rightarrow> 'a filest_scheme sysres" where
  "sys_sleep_from ticks0 n s =
     (if ticks s - ticks0 < word_of_int n
      then if killed (cur s) s then ret (-1) s
           else Ok (Asleep (unat ticks0), sleep_on ChanTicks s)
      else ret 0 s)"

definition sys_sleep :: "'a filest_scheme \<Rightarrow> 'a filest_scheme sysres" where
  "sys_sleep s =
     bind_ok (argint 0 s) (\<lambda>n. let n = (if n < 0 then 0 else n) in sys_sleep_from (ticks s) n s)"

definition sys_kill :: "'a filest_scheme \<Rightarrow> 'a filest_scheme sysres" where
  "sys_kill s = bind_ok (argint 0 s) (\<lambda>pid. case kill pid s of (r, s) \<Rightarrow> ret r s)"

definition sys_uptime :: "'a filest_scheme \<Rightarrow> 'a filest_scheme sysres" where
  "sys_uptime s = ret (uint (ticks s)) s"

definition sys_trace :: "'a filest_scheme \<Rightarrow> 'a filest_scheme sysres" where
  "sys_trace s =
     bind_ok (argint 0 s) (\<lambda>mask. ret 0 (upd_proc (cur s) (\<lambda>p. p\<lparr>p_mask := word_of_int mask\<rparr>) s))"

definition sys_sysinfo :: "'a filest_scheme \<Rightarrow> 'a filest_scheme sysres" where
  "sys_sysinfo s =
     (case availmemory s of
        None \<Rightarrow> Blocks
      | Some freemem \<Rightarrow>
          let nproc = unsetprocnum s
          in bind_ok (argaddr 0 s) (\<lambda>addr.
             bind_ok (copyout (p_pagetable (myproc s)) addr (bytes64 freemem @ bytes64 nproc) s) (\<lambda>(r, s).
             if r < 0 then ret (-1) s else ret 0 s)))"

section \<open>Dispatch (kernel/syscall.c)\<close>

definition syscallname :: "string list" where
  "syscallname = ['''', ''fork'', ''exit'', ''wait'', ''pipe'', ''read'', ''kill'', ''exec'', ''fstat'', ''chdir'',
     ''dup'', ''getpid'', ''sbrk'', ''sleep'', ''uptime'', ''open'', ''write'', ''mknod'', ''unlink'', ''link'',
     ''mkdir'', ''close'', ''trace'', ''sysinfo'']"

text \<open>The table of system calls, by the numbers of \<^verbatim>\<open>kernel/syscall.h\<close>.\<close>

definition syscalls ::
  "'a filest_scheme devswitch \<Rightarrow> u8 list \<Rightarrow> nat \<Rightarrow> ('a filest_scheme \<Rightarrow> 'a filest_scheme sysres) option" where
  "syscalls devsw pad num = map_of
     [(1, sys_fork), (2, sys_exit), (3, sys_wait), (4, sys_pipe), (5, sys_read devsw), (6, sys_kill), (7, sys_exec),
      (8, sys_fstat pad), (9, sys_chdir), (10, sys_dup), (11, sys_getpid), (12, sys_sbrk), (13, sys_sleep),
      (14, sys_uptime), (15, sys_open), (16, sys_write devsw), (17, sys_mknod), (18, sys_unlink), (19, sys_link),
      (20, sys_mkdir), (21, sys_close), (22, sys_trace), (23, sys_sysinfo)] num"

datatype message = Traced int string int | UnknownCall int "u8 list" int

text \<open>
  What \<^verbatim>\<open>syscall\<close> does with the value of a finished call, with the message it prints. \<^verbatim>\<open>%d\<close> shows
  the low 32 bits of \<^verbatim>\<open>a0\<close>.
\<close>

definition syscall_done :: "nat \<Rightarrow> int \<Rightarrow> 'a filest_scheme \<Rightarrow> message option \<times> 'a filest_scheme" where
  "syscall_done num v s =
     (let tf = p_trapframe (myproc s); s = tf_set tf (TF_A 0) (word_of_int v) s
      in (if push_bit num 1 AND p_mask (myproc s) \<noteq> 0
          then Some (Traced (p_pid (myproc s)) (syscallname ! num) (sint (ucast (tf_get tf s (TF_A 0)) :: u32)))
          else None, s))"

definition syscall ::
  "'a filest_scheme devswitch \<Rightarrow> u8 list \<Rightarrow> 'a filest_scheme \<Rightarrow> (message option progress \<times> 'a filest_scheme) outcome" where
  "syscall devsw pad s =
     (let tf = p_trapframe (myproc s); num = sint (ucast (tf_get tf s (TF_A 7)) :: u32)
      in case (if num > 0 \<and> num < 24 then syscalls devsw pad (nat num) else None) of
           Some f \<Rightarrow>
             bind_ok (f s) (\<lambda>(r, s).
               case r of
                 Done v \<Rightarrow> (case syscall_done (nat num) v s of (msg, s) \<Rightarrow> Ok (Done msg, s))
               | Asleep i \<Rightarrow> Ok (Asleep i, s)
               | Exited \<Rightarrow> Ok (Exited, s))
         | None \<Rightarrow>
             Ok (Done (Some (UnknownCall (p_pid (myproc s)) (p_name (myproc s)) num)), tf_set tf (TF_A 0) (-1) s))"

end
