(* ===== verification/Kprintf.thy ===== *)
theory Kprintf
  imports Xv6_Prelude
begin

text \<open>
  The formatting of \<^verbatim>\<open>kernel/printf.c\<close>: the characters that \<^verbatim>\<open>printint\<close>, \<^verbatim>\<open>printptr\<close> and \<^verbatim>\<open>printf\<close> hand to
  \<^verbatim>\<open>consputc\<close>, in order. The variable arguments are a list of values of the types that the formats
  name; too few of them, or one of another type, is undefined behaviour and gives \<open>None\<close>.
\<close>

section \<open>Numbers\<close>

definition kdigits :: "u8 list" where
  "kdigits = map of_char ''0123456789abcdef''"

definition minus_sign :: u8 where "minus_sign = of_char (CHR ''-'')"

text \<open>
  The loop of \<^verbatim>\<open>printint\<close> that fills \<^verbatim>\<open>buf\<close>, least significant digit first. The base is 10 or 16.
\<close>

function digits_of :: "nat \<Rightarrow> nat \<Rightarrow> u8 list" where
  "digits_of base x =
     (if base < 2 then []
      else kdigits ! (x mod base) # (if x div base = 0 then [] else digits_of base (x div base)))"
  by pat_completeness auto
termination by (relation "measure (\<lambda>(base, x). x)") (auto simp: div_eq_0_iff)

declare digits_of.simps [simp del]

text \<open>
  For the most negative number \<^verbatim>\<open>-xx\<close> overflows, which C leaves open; the negation here wraps around, as
  the instruction that it compiles to does.
\<close>

definition printint :: "u32 \<Rightarrow> nat \<Rightarrow> bool \<Rightarrow> u8 list" where
  "printint xx base sign =
     (let neg = sign \<and> sint xx < 0; x = (if neg then - xx else xx);
          buf = digits_of base (unat x)
      in rev (if neg then buf @ [minus_sign] else buf))"

text \<open>The sixteen hexadecimal digits of an address.\<close>

fun printptr_from :: "nat \<Rightarrow> u64 \<Rightarrow> u8 list" where
  "printptr_from 0 x = []"
| "printptr_from (Suc k) x = kdigits ! unat (drop_bit 60 x) # printptr_from k (push_bit 4 x)"

definition printptr :: "u64 \<Rightarrow> u8 list" where
  "printptr x = map of_char ''0x'' @ printptr_from 16 x"

section \<open>Formats\<close>

datatype parg = PInt u32 | PPtr u64 | PStr "u8 list option"

abbreviation ch :: "char \<Rightarrow> u8" where "ch c \<equiv> of_char c"

fun kprintf :: "u8 list \<Rightarrow> parg list \<Rightarrow> u8 list option" where
  "kprintf [] args = Some []"
| "kprintf (c # fmt) args =
     (if c \<noteq> ch CHR ''%'' then map_option ((#) c) (kprintf fmt args)
      else case fmt of
        [] \<Rightarrow> Some []
      | k # fmt \<Rightarrow>
          if k = ch CHR ''d'' then
            (case args of PInt v # args \<Rightarrow> map_option ((@) (printint v 10 True)) (kprintf fmt args) | _ \<Rightarrow> None)
          else if k = ch CHR ''x'' then
            (case args of PInt v # args \<Rightarrow> map_option ((@) (printint v 16 True)) (kprintf fmt args) | _ \<Rightarrow> None)
          else if k = ch CHR ''p'' then
            (case args of PPtr v # args \<Rightarrow> map_option ((@) (printptr v)) (kprintf fmt args) | _ \<Rightarrow> None)
          else if k = ch CHR ''s'' then
            (case args of
               PStr s # args \<Rightarrow>
                 map_option ((@) (case s of None \<Rightarrow> map of_char ''(null)'' | Some s \<Rightarrow> s)) (kprintf fmt args)
             | _ \<Rightarrow> None)
          else if k = ch CHR ''%'' then map_option ((#) (ch CHR ''%'')) (kprintf fmt args)
          else map_option (\<lambda>r. ch CHR ''%'' # k # r) (kprintf fmt args))"

section \<open>Correctness of the digits\<close>

text \<open>The value that a string of digits denotes, most significant digit first.\<close>

definition digit_val :: "u8 \<Rightarrow> nat" where
  "digit_val c = (if unat c < 58 then unat c - 48 else unat c - 87)"

definition number_val :: "nat \<Rightarrow> u8 list \<Rightarrow> nat" where
  "number_val base cs = foldl (\<lambda>n c. base * n + digit_val c) 0 cs"

definition int_val :: "nat \<Rightarrow> u8 list \<Rightarrow> int" where
  "int_val base cs =
     (if cs \<noteq> [] \<and> hd cs = minus_sign then - int (number_val base (tl cs)) else int (number_val base cs))"

lemma digit_val_kdigits: "d < 16 \<Longrightarrow> digit_val (kdigits ! d) = d"
proof -
  assume "d < 16"
  then have "d \<in> set [0..<16]" by simp
  then show ?thesis by (auto simp: upt_rec kdigits_def digit_val_def)
qed

lemma kdigits_not_minus: "d < 16 \<Longrightarrow> kdigits ! d \<noteq> minus_sign"
proof -
  assume "d < 16"
  then have "d \<in> set [0..<16]" by simp
  then show ?thesis by (auto simp: upt_rec kdigits_def minus_sign_def)
qed

lemma number_val_digits:
  assumes "2 \<le> base" "base \<le> 16"
  shows "number_val base (rev (digits_of base x)) = x"
proof (induction x rule: less_induct)
  case (less x)
  have d: "digit_val (kdigits ! (x mod base)) = x mod base"
    by (rule digit_val_kdigits) (use assms mod_less_divisor [of base x] in linarith)
  show ?case
  proof (cases "x div base = 0")
    case True
    then show ?thesis using d assms by (subst digits_of.simps) (simp add: number_val_def div_eq_0_iff)
  next
    case False
    then have "number_val base (rev (digits_of base (x div base))) = x div base"
      using assms by (intro less) (auto simp: div_eq_0_iff)
    then show ?thesis using False assms d by (subst digits_of.simps) (simp add: number_val_def)
  qed
qed

lemma digits_of_length:
  assumes "2 \<le> base" "x < base ^ n" "0 < n"
  shows "length (digits_of base x) \<le> n"
  using assms(2,3)
proof (induction n arbitrary: x)
  case (Suc n)
  show ?case
  proof (cases "x div base = 0")
    case True
    then show ?thesis using assms(1) by (subst digits_of.simps) simp
  next
    case False
    have "x div base < base ^ n" using Suc.prems(1) assms(1) by (simp add: less_mult_imp_div_less mult.commute)
    moreover have "0 < n" using False Suc.prems(1) by (cases n) (auto simp: div_eq_0_iff)
    ultimately show ?thesis using Suc.IH False assms(1) by (subst digits_of.simps) simp
  qed
qed simp

lemma digits_of_ne:
  assumes "2 \<le> base" "base \<le> 16"
  shows "digits_of base x \<noteq> []" "set (digits_of base x) \<subseteq> (!) kdigits ` {..<16}"
proof -
  show "digits_of base x \<noteq> []" using assms by (subst digits_of.simps) simp
  show "set (digits_of base x) \<subseteq> (!) kdigits ` {..<16}"
  proof (induction x rule: less_induct)
    case (less x)
    have m: "x mod base < 16" using assms mod_less_divisor [of base x] by linarith
    show ?case
    proof (cases "x div base = 0")
      case True
      then show ?thesis using assms m by (subst digits_of.simps) auto
    next
      case False
      then have "set (digits_of base (x div base)) \<subseteq> (!) kdigits ` {..<16}"
        using assms by (intro less) (auto simp: div_eq_0_iff)
      then show ?thesis using assms m by (subst digits_of.simps) auto
    qed
  qed
qed

lemma unat_uminus_neg: "sint (w :: u32) < 0 \<Longrightarrow> int (unat (- w)) = - sint w"
proof -
  assume neg: "sint w < 0"
  have "- w = word_of_int (- sint w)" by simp
  moreover have "- sint w \<le> 2 ^ 31" using sint_greater_eq [of w] by simp
  ultimately have "uint (- w) = - sint w"
    using neg by (simp only: uint_word_of_int) (simp add: take_bit_int_eq_self)
  then show ?thesis by simp
qed

lemma sint_nonneg: "0 \<le> sint (w :: u32) \<Longrightarrow> int (unat w) = sint w"
proof -
  assume nn: "0 \<le> sint w"
  have "uint (word_of_int (sint w) :: u32) = sint w"
    using nn sint_less [of w] by (simp only: uint_word_of_int) (simp add: take_bit_int_eq_self)
  then show ?thesis by simp
qed

section \<open>Properties\<close>

text \<open>
  C18: for the bases 10 and 16, what \<^verbatim>\<open>printint\<close> prints is the number: read back in the same base,
  the characters denote the signed or the unsigned value of the argument, the most negative
  integer included. The array \<^verbatim>\<open>buf\<close> of 16 characters is large enough: at most 11 are used.
\<close>

theorem printint_correct:
  assumes "base = 10 \<or> base = 16"
  shows "int_val base (printint xx base sign) = (if sign then sint xx else uint xx) \<and>
    length (printint xx base sign) \<le> 11"
proof -
  have b: "2 \<le> base" "base \<le> 16" using assms by auto
  define x where "x = (if sign \<and> sint xx < 0 then - xx else xx)"
  let ?d = "digits_of base (unat x)"
  have "unat x < 2 ^ 32" using unat_u32_less [of x] by simp
  also have "(2::nat) ^ 32 \<le> base ^ 10" using power_mono [of 10 base 10] b assms by (auto intro: order.trans [of _ "10 ^ 10"])
  finally have len: "length ?d \<le> 10" using digits_of_length [of base "unat x" 10] b by simp
  have val: "number_val base (rev ?d) = unat x" by (rule number_val_digits [OF b])
  have ne: "rev ?d \<noteq> []" using digits_of_ne [OF b] by simp
  have "hd (rev ?d) \<in> set ?d" using ne by (metis hd_in_set set_rev)
  then have m: "hd (rev ?d) \<noteq> minus_sign" using digits_of_ne(2) [OF b, of "unat x"] kdigits_not_minus by auto
  show ?thesis
  proof (cases "sign \<and> sint xx < 0")
    case True
    then have "printint xx base sign = minus_sign # rev ?d" by (simp add: printint_def x_def)
    then show ?thesis using True val len unat_uminus_neg [of xx] by (simp add: int_val_def x_def)
  next
    case False
    then have p: "printint xx base sign = rev ?d" by (auto simp: printint_def x_def)
    have "int_val base (rev ?d) = int (unat x)" unfolding int_val_def using m val by simp
    moreover have "x = xx" using False by (auto simp: x_def)
    ultimately show ?thesis using False p len sint_nonneg [of xx] by auto
  qed
qed

theorem printint_correct_witness:
  "printint (-2147483648) 10 True = map of_char ''-2147483648'' \<and> int_val 10 (printint (-2147483648) 10 True) = -2147483648"
proof -
  have "printint (-2147483648) 10 True = map of_char ''-2147483648''"
    by (simp add: printint_def digits_of.simps kdigits_def minus_sign_def)
  then show ?thesis using printint_correct [of 10 "-2147483648" True] by simp
qed

end
