(* ===== verification/Console.thy ===== *)
theory Console
  imports Syscall Kprintf
begin

text \<open>
  \<^verbatim>\<open>kernel/uart.c\<close>, \<^verbatim>\<open>kernel/console.c\<close> and the output functions of \<^verbatim>\<open>kernel/printf.c\<close>.

  The 16550 UART is part of the state as far as the driver sees it: \<open>uart_log\<close> is the sequence of
  the writes to its registers, \<open>uart_rx\<close> the bytes that wait in its receive FIFO, \<open>uart_room\<close> the number
  of bytes that it accepts before \<^verbatim>\<open>LSR_TX_IDLE\<close> reads as 0, and \<open>uart_line\<close> the bytes that it has accepted and
  sends. A byte written to \<^verbatim>\<open>THR\<close> when there is no room is lost. How fast the UART sends is open:
  \<open>uart_next\<close> has, for each reading of \<^verbatim>\<open>LSR\<close> to come that would find the UART full, the room it has by then, 0 if
  it is still full; after the listed readings it always has room for a byte.
\<close>

section \<open>State\<close>

definition UART_TX_BUF_SIZE :: nat where [simp]: "UART_TX_BUF_SIZE = 32"
definition INPUT_BUF_SIZE :: nat where [simp]: "INPUT_BUF_SIZE = 128"

record consst = filest +
  panicked :: bool
  uart_log :: "(nat \<times> u8) list"
  uart_rx :: "u8 list"
  uart_room :: nat
  uart_next :: "nat list"
  uart_line :: "u8 list"
  uart_tx_buf :: "u8 list"
  uart_tx_w :: u64
  uart_tx_r :: u64
  cons_buf :: "u8 list"
  cons_r :: u32
  cons_w :: u32
  cons_e :: u32

definition THR :: nat where "THR = 0"
definition IER :: nat where "IER = 1"
definition FCR :: nat where "FCR = 2"
definition LCR :: nat where "LCR = 3"

section \<open>The UART (kernel/uart.c)\<close>

definition WriteReg :: "nat \<Rightarrow> u8 \<Rightarrow> 'a consst_scheme \<Rightarrow> 'a consst_scheme" where
  "WriteReg reg v s = s\<lparr>uart_log := uart_log s @ [(reg, v)]\<rparr>"

definition uartinit :: "'a consst_scheme \<Rightarrow> 'a consst_scheme" where
  "uartinit s =
     (let s = WriteReg IER 0 s;
          s = WriteReg LCR (push_bit 7 1) s;
          s = WriteReg 0 3 s;
          s = WriteReg 1 0 s;
          s = WriteReg LCR 3 s;
          s = WriteReg FCR (1 OR push_bit 1 3) s
      in WriteReg IER (push_bit 1 1 OR 1) s)"

text \<open>The transmit buffer.\<close>

definition uart_tx_put :: "u8 \<Rightarrow> 'a consst_scheme \<Rightarrow> 'a consst_scheme" where
  "uart_tx_put c s =
     s\<lparr>uart_tx_buf := (uart_tx_buf s)[unat (uart_tx_w s mod of_nat UART_TX_BUF_SIZE) := c],
       uart_tx_w := uart_tx_w s + 1\<rparr>"

definition uart_tx_get :: "'a consst_scheme \<Rightarrow> u8 \<times> 'a consst_scheme" where
  "uart_tx_get s =
     (uart_tx_buf s ! unat (uart_tx_r s mod of_nat UART_TX_BUF_SIZE), s\<lparr>uart_tx_r := uart_tx_r s + 1\<rparr>)"

text \<open>\<^verbatim>\<open>ReadReg(LSR) & LSR_TX_IDLE\<close>, and \<^verbatim>\<open>WriteReg(THR, c)\<close> after \<^verbatim>\<open>uartinit\<close>, with what they make the UART do.\<close>

definition tx_idle :: "'a consst_scheme \<Rightarrow> bool \<times> 'a consst_scheme" where
  "tx_idle s =
     (if uart_room s \<noteq> 0 then (True, s)
      else case uart_next s of
        [] \<Rightarrow> (True, s\<lparr>uart_room := 1\<rparr>)
      | n # ns \<Rightarrow> (n \<noteq> 0, s\<lparr>uart_room := n, uart_next := ns\<rparr>))"

definition WriteTHR :: "u8 \<Rightarrow> 'a consst_scheme \<Rightarrow> 'a consst_scheme" where
  "WriteTHR c s =
     (let s = WriteReg THR c s
      in if uart_room s = 0 then s else s\<lparr>uart_room := uart_room s - 1, uart_line := uart_line s @ [c]\<rparr>)"

lemma tx_idle_frame:
  assumes "tx_idle s = (b, t)"
  shows "\<exists>n ns. t = s\<lparr>uart_room := n, uart_next := ns\<rparr> \<and> (b \<longleftrightarrow> n \<noteq> 0) \<and> (b \<or> length ns < length (uart_next s))"
  by (intro exI [of _ "uart_room t"] exI [of _ "uart_next t"], use assms in \<open>cases s\<close>)
    (auto simp: tx_idle_def split: if_splits list.splits)

text \<open>
  The loop of \<^verbatim>\<open>uartstart\<close>; each round takes a byte from the transmit buffer.
\<close>

function uartstart :: "'a consst_scheme \<Rightarrow> 'a consst_scheme" where
  "uartstart s =
     (if uart_tx_w s = uart_tx_r s then s
      else case tx_idle s of (idle, s) \<Rightarrow>
        if \<not> idle then s
        else case uart_tx_get s of (c, s) \<Rightarrow>
             let s = wakeup ChanUart s
             in uartstart (WriteTHR c s))"
  by pat_completeness auto
termination
proof (relation "measure (\<lambda>s. unat (uart_tx_w s - uart_tx_r s))", simp)
  fix s :: "'a consst_scheme" and idle t c u v
  assume ne: "uart_tx_w s \<noteq> uart_tx_r s" and "(idle, t) = tx_idle s" "\<not> \<not> idle" "(c, u) = uart_tx_get t" "v = wakeup ChanUart u"
  moreover from this have "uart_tx_w t = uart_tx_w s \<and> uart_tx_r t = uart_tx_r s" using tx_idle_frame [of s idle t] by auto
  moreover have "0 < unat (uart_tx_w s - uart_tx_r s)" using ne by (simp add: unat_gt_0)
  ultimately show "(WriteTHR c v, s) \<in> measure (\<lambda>s. unat (uart_tx_w s - uart_tx_r s))"
    by (auto simp: WriteTHR_def WriteReg_def wakeup_def uart_tx_get_def Let_def diff_diff_eq [symmetric] unat_minus_one)
qed

declare uartstart.simps [simp del]

definition uartputc :: "u8 \<Rightarrow> 'a consst_scheme \<Rightarrow> (unit progress \<times> 'a consst_scheme) outcome" where
  "uartputc c s =
     (if panicked s then Blocks
      else if uart_tx_w s = uart_tx_r s + of_nat UART_TX_BUF_SIZE then Ok (Asleep 0, sleep_on ChanUart s)
      else Ok (Done (), uartstart (uart_tx_put c s)))"

text \<open>The loop of \<^verbatim>\<open>uartputc_sync\<close> that waits for the UART.\<close>

function tx_wait :: "'a consst_scheme \<Rightarrow> 'a consst_scheme" where
  "tx_wait s = (case tx_idle s of (idle, s) \<Rightarrow> if \<not> idle then tx_wait s else s)"
  by pat_completeness auto
termination by (relation "measure (\<lambda>s. length (uart_next s))") (auto dest!: sym [of "(_, _)"] tx_idle_frame)

declare tx_wait.simps [simp del]

definition uartputc_sync :: "u8 \<Rightarrow> 'a consst_scheme \<Rightarrow> 'a consst_scheme outcome" where
  "uartputc_sync c s = (if panicked s then Blocks else Ok (WriteTHR c (tx_wait s)))"

definition uartgetc :: "'a consst_scheme \<Rightarrow> int \<times> 'a consst_scheme" where
  "uartgetc s = (case uart_rx s of [] \<Rightarrow> (-1, s) | c # cs \<Rightarrow> (uint c, s\<lparr>uart_rx := cs\<rparr>))"

section \<open>Output\<close>

definition BACKSPACE :: int where "BACKSPACE = 0x100"

definition consputc :: "int \<Rightarrow> 'a consst_scheme \<Rightarrow> 'a consst_scheme outcome" where
  "consputc c s =
     (if c = BACKSPACE
      then bind_ok (uartputc_sync 8 s) (\<lambda>s. bind_ok (uartputc_sync 32 s) (uartputc_sync 8))
      else uartputc_sync (word_of_int c) s)"

definition cons_puts :: "u8 list \<Rightarrow> 'a consst_scheme \<Rightarrow> 'a consst_scheme outcome" where
  "cons_puts cs s = fold (\<lambda>c r. bind_ok r (consputc (uint c))) cs (Ok s)"

text \<open>\<^verbatim>\<open>printf\<close>, and what \<^verbatim>\<open>panic\<close> does before its endless loop.\<close>

definition printf :: "string \<Rightarrow> parg list \<Rightarrow> 'a consst_scheme \<Rightarrow> 'a consst_scheme outcome" where
  "printf fmt args s =
     (case kprintf (map of_char fmt) args of None \<Rightarrow> Undef | Some cs \<Rightarrow> cons_puts cs s)"

definition panic :: "string \<Rightarrow> 'a consst_scheme \<Rightarrow> 'a consst_scheme outcome" where
  "panic msg s =
     bind_ok (printf ''panic: '' [] s) (\<lambda>s.
     bind_ok (printf msg [] s) (\<lambda>s.
     bind_ok (printf [CHR 0x0A] [] s) (\<lambda>s.
     Ok (s\<lparr>panicked := True\<rparr>))))"

fun state_name :: "procstate \<Rightarrow> string" where
  "state_name UNUSED = ''unused''"
| "state_name USED = ''used''"
| "state_name SLEEPING = ''sleep ''"
| "state_name RUNNABLE = ''runble''"
| "state_name RUNNING = ''run   ''"
| "state_name ZOMBIE = ''zombie''"

definition procdump_one :: "nat \<Rightarrow> 'a consst_scheme \<Rightarrow> 'a consst_scheme outcome" where
  "procdump_one i s =
     (let p = procs s i
      in if p_state p = UNUSED then Ok s
         else bind_ok (printf ''%d %s %s'' [PInt (word_of_int (p_pid p)), PStr (Some (map of_char (state_name (p_state p)))),
                PStr (Some (takeWhile (\<lambda>c. c \<noteq> 0) (p_name p)))] s)
              (printf [CHR 0x0A] []))"

definition procdump :: "'a consst_scheme \<Rightarrow> 'a consst_scheme outcome" where
  "procdump s = bind_ok (printf [CHR 0x0A] [] s) (for_ok procdump_one [0..<NPROC])"

section \<open>Console input and the console device (kernel/console.c)\<close>

definition Ctrl :: "char \<Rightarrow> int" where
  "Ctrl x = of_char x - of_char CHR ''@''"

text \<open>
  The loop of \<^verbatim>\<open>consolewrite\<close> from counter \<open>i\<close> on. \<open>pending\<close> is the character that a sleeping
  \<^verbatim>\<open>uartputc\<close> still has to store; \<open>Asleep (256 * i + c)\<close> is the state of the two variables.
\<close>

function consolewrite_from ::
  "u64 \<Rightarrow> int \<Rightarrow> nat \<Rightarrow> u8 option \<Rightarrow> 'a consst_scheme \<Rightarrow> (int progress \<times> 'a consst_scheme) outcome" where
  "consolewrite_from src n i pending s =
     (if int i < n
      then bind_ok (case pending of
             Some c \<Rightarrow> Ok (0, [c]) | None \<Rightarrow> either_copyin (SUser (p_pagetable (myproc s)) (src + of_nat i)) 1 s) (\<lambda>(r, bytes).
        if r = -1 then Ok (Done (int i), s)
        else bind_ok (uartputc (hd bytes) s) (\<lambda>(r, s).
          case r of
            Done _ \<Rightarrow> consolewrite_from src n (Suc i) None s
          | _ \<Rightarrow> Ok (Asleep (256 * i + unat (hd bytes)), s)))
      else Ok (Done (int i), s))"
  by pat_completeness auto
termination by (relation "measure (\<lambda>(src, n, i, p, s). nat (n - int i))") auto

declare consolewrite_from.simps [simp del]

definition consolewrite :: "'a consst_scheme devfun" where
  "consolewrite src n s = consolewrite_from src n 0 None s"

text \<open>The input buffer.\<close>

definition cons_put :: "u8 \<Rightarrow> 'a consst_scheme \<Rightarrow> 'a consst_scheme" where
  "cons_put c s =
     s\<lparr>cons_buf := (cons_buf s)[unat (cons_e s mod of_nat INPUT_BUF_SIZE) := c], cons_e := cons_e s + 1\<rparr>"

definition cons_get :: "'a consst_scheme \<Rightarrow> u8 \<times> 'a consst_scheme" where
  "cons_get s = (cons_buf s ! unat (cons_r s mod of_nat INPUT_BUF_SIZE), s\<lparr>cons_r := cons_r s + 1\<rparr>)"

text \<open>
  The loop of \<^verbatim>\<open>consoleread\<close> with \<open>k\<close> bytes to go out of \<open>target\<close>.
\<close>

function consoleread_from :: "nat \<Rightarrow> u64 \<Rightarrow> nat \<Rightarrow> 'a consst_scheme \<Rightarrow> (int progress \<times> 'a consst_scheme) outcome" where
  "consoleread_from target dst k s =
     (if k > 0
      then if cons_r s = cons_w s
           then if killed (cur s) s then Ok (Done (-1), s)
                else Ok (Asleep (target - k), sleep_on ChanCons s)
           else case cons_get s of (c, s) \<Rightarrow>
                if uint c = Ctrl CHR ''D''
                   then Ok (Done (int (target - k)), if k < target then s\<lparr>cons_r := cons_r s - 1\<rparr> else s)
                   else bind_ok (either_copyout (DUser (p_pagetable (myproc s)) dst) [c] s) (\<lambda>(r, s).
                     if r = -1 then Ok (Done (int (target - k)), s)
                     else if c = 10 then Ok (Done (int (target - (k - 1))), s)
                     else consoleread_from target (dst + 1) (k - 1) s)
      else Ok (Done (int (target - k)), s))"
  by pat_completeness auto
termination by (relation "measure (\<lambda>(target, dst, k, s). k)") auto

declare consoleread_from.simps [simp del]

definition consoleread :: "'a consst_scheme devfun" where
  "consoleread dst n s = consoleread_from (nat n) dst (nat n) s"

text \<open>The loop that kills the line; \<open>k\<close> bounds its rounds by the number of characters to edit.\<close>

fun kill_line :: "nat \<Rightarrow> 'a consst_scheme \<Rightarrow> 'a consst_scheme outcome" where
  "kill_line 0 s = Ok s"
| "kill_line (Suc k) s =
     (if cons_e s \<noteq> cons_w s \<and> cons_buf s ! unat ((cons_e s - 1) mod of_nat INPUT_BUF_SIZE) \<noteq> 10
      then bind_ok (consputc BACKSPACE (s\<lparr>cons_e := cons_e s - 1\<rparr>)) (kill_line k)
      else Ok s)"

definition consoleintr :: "int \<Rightarrow> 'a consst_scheme \<Rightarrow> 'a consst_scheme outcome" where
  "consoleintr c s =
     (if c = Ctrl CHR ''P'' then procdump s
      else if c = Ctrl CHR ''U'' then kill_line (unat (cons_e s - cons_w s)) s
      else if c = Ctrl CHR ''H'' \<or> c = 0x7f
      then if cons_e s \<noteq> cons_w s then consputc BACKSPACE (s\<lparr>cons_e := cons_e s - 1\<rparr>) else Ok s
      else if c \<noteq> 0 \<and> cons_e s - cons_r s < of_nat INPUT_BUF_SIZE
      then let c = (if c = 13 then 10 else c)
           in bind_ok (consputc c s) (\<lambda>s.
              let s = cons_put (word_of_int c) s
              in Ok (if c = 10 \<or> c = Ctrl CHR ''D'' \<or> cons_e s - cons_r s = of_nat INPUT_BUF_SIZE
                     then wakeup ChanCons (s\<lparr>cons_w := cons_e s\<rparr>) else s))
      else Ok s)"

text \<open>The loop of \<^verbatim>\<open>uartintr\<close> over the bytes \<open>cs\<close> of the receive FIFO.\<close>

primrec uartintr_input :: "u8 list \<Rightarrow> 'a consst_scheme \<Rightarrow> 'a consst_scheme outcome" where
  "uartintr_input [] s = Ok s"
| "uartintr_input (c # cs) s = (case uartgetc s of (c, s) \<Rightarrow> bind_ok (consoleintr c s) (uartintr_input cs))"

definition uartintr :: "'a consst_scheme \<Rightarrow> 'a consst_scheme outcome" where
  "uartintr s = bind_ok (uartintr_input (uart_rx s) s) (\<lambda>s. Ok (uartstart s))"

text \<open>The console's entry of the device switch; \<^verbatim>\<open>CONSOLE\<close> is 1.\<close>

definition console_devsw :: "'a consst_scheme devswitch" where
  "console_devsw m = (if m = 1 then (Some consoleread, Some consolewrite) else (None, None))"

definition consoleinit :: "'a consst_scheme \<Rightarrow> 'a consst_scheme devswitch \<times> 'a consst_scheme" where
  "consoleinit s = (console_devsw, uartinit s)"

end
