(* ===== verification/User_Mem.thy ===== *)
theory User_Mem
  imports Uvm_Props
begin

text \<open>
  User memory as the file layers use it: a well-formed address space is kept by every change that
  leaves physical memory and the free list alone, and the copies of single bytes are reads and writes
  of the byte view.
\<close>

definition user_mem :: "'a kmem_scheme \<Rightarrow> u64 \<Rightarrow> nat set \<Rightarrow> bool" where
  "user_mem s pt M \<longleftrightarrow> (\<exists>xs T. uvm s pt xs M T \<and> top_private s pt)"

abbreviation same_mem :: "'a kmem_scheme \<Rightarrow> 'b kmem_scheme \<Rightarrow> bool" where
  "same_mem s s' \<equiv> phys s' = phys s \<and> freelist s' = freelist s \<and> kend s' = kend s"

lemma uvm_cong: "same_mem s s' \<Longrightarrow> uvm s' pt xs M T \<longleftrightarrow> uvm s pt xs M T"
  by (simp only: uvm_def table_inv_def kmem_inv_def)

lemma user_mem_cong: "same_mem s s' \<Longrightarrow> user_mem s' pt M \<longleftrightarrow> user_mem s pt M"
  using uvm_cong [of s s' pt _ M] by (simp add: user_mem_def top_private_def)

lemma ubyte_cong: "phys s' = phys s \<Longrightarrow> ubyte s' pt a = ubyte s pt a"
  by (simp add: ubyte_def)

lemma uacc_cong: "phys s' = phys s \<Longrightarrow> uacc s' pt a \<longleftrightarrow> uacc s pt a"
  by (simp only: uacc_def)

lemma ubytes_cong: "phys s' = phys s \<Longrightarrow> ubytes s' pt a n = ubytes s pt a n"
  by (simp add: ubytes_def ubyte_def)

lemma ubytes_Suc: "ubytes s pt a (Suc k) = ubyte s pt a # ubytes s pt (Suc a) k"
  using ubytes_append [of s pt a 1 k] by (simp add: ubytes_def)

lemma ubytes_0 [simp]: "ubytes s pt a 0 = []"
  by (simp add: ubytes_def)

lemma uacc_range: "uacc s pt a \<Longrightarrow> a < 2 ^ 38"
  by (simp add: uacc_def MAXVA_eq)

lemma uacc_in: "user_mem s pt M \<Longrightarrow> uacc s pt a \<Longrightarrow> a div 4096 \<in> M"
  by (auto simp: user_mem_def intro: uacc_mapped)

lemma copyin_byte:
  assumes "user_mem s pt M"
  shows "copyin pt va 1 s = Ok (if uacc s pt (unat va) then (0, [ubyte s pt (unat va)]) else (-1, []))"
proof -
  from assms obtain xs T where "uvm s pt xs M T" "top_private s pt" by (auto simp: user_mem_def)
  from copyin_from_spec [OF this, of va 1 "[]"] obtain k where
    k: "reach s pt (unat va) 1 k" "copyin pt va 1 s = Ok (if k = 1 then 0 else -1, ubytes s pt (unat va) k)"
    by (auto simp: copyin_def)
  then show ?thesis by (cases k) (auto simp: reach_def ubytes_Suc)
qed

lemma copyout_byte:
  assumes "user_mem s pt M"
  shows "if uacc s pt (unat va)
    then \<exists>m. copyout pt va [c] s = Ok (0, s\<lparr>phys := m\<rparr>) \<and> user_mem (s\<lparr>phys := m\<rparr>) pt M \<and>
      wrote pt M s (unat va) [c] (s\<lparr>phys := m\<rparr>)
    else copyout pt va [c] s = Ok (-1, s)"
proof -
  from assms obtain xs T where u: "uvm s pt xs M T" and t: "top_private s pt" by (auto simp: user_mem_def)
  from copyout_spec_from [OF this, of va "[c]"] obtain k s' where
    k: "reach s pt (unat va) 1 k" "uvm s' pt xs M T" "copyout pt va [c] s = Ok (if k = 1 then 0 else -1, s')"
    "wrote pt M s (unat va) (take k [c]) s'" by auto
  show ?thesis
  proof (cases "uacc s pt (unat va)")
    case True
    then have "k = 1" using k(1) by (cases k) (auto simp: reach_def)
    moreover obtain m where m: "s' = s\<lparr>phys := m\<rparr>" using k(4) by (auto simp: wrote_def)
    moreover have "top_private s' pt" using t k(4) by (simp add: top_private_def wrote_def)
    ultimately show ?thesis using k True by (auto simp: user_mem_def)
  next
    case False
    then show ?thesis using walkaddr_page(1) [OF u t, of va] by (simp add: copyout.simps [of pt va "[c]"])
  qed
qed

lemma wrote_uacc: "wrote pt M s a src s' \<Longrightarrow> uacc s' pt b \<longleftrightarrow> uacc s pt b"
  by (simp add: wrote_def uacc_leaf)

lemma wrote_ubytes:
  assumes "wrote pt M s a src s'" "\<forall>j<length src. (a + j) div 4096 \<in> M"
  shows "ubytes s' pt a (length src) = src"
  using assms by (intro nth_equalityI) (auto simp: ubytes_def wrote_def)

text \<open>Bytes written to user memory, in terms of physical memory alone.\<close>

definition pwrote :: "u64 \<Rightarrow> nat set \<Rightarrow> 'a kmem_scheme \<Rightarrow> nat \<Rightarrow> u8 list \<Rightarrow> memory \<Rightarrow> bool" where
  "pwrote pt M s a src m \<longleftrightarrow> wrote pt M s a src (s\<lparr>phys := m\<rparr>)"

lemma pwrote_cong: "phys s' = phys s \<Longrightarrow> pwrote pt M s' a src m \<longleftrightarrow> pwrote pt M s a src m"
  by (auto simp: pwrote_def wrote_def ubyte_def)

lemma pwrote_Nil: "pwrote pt M s a [] (phys s)"
  by (auto simp: pwrote_def wrote_def intro!: exI [of _ "phys s"])

lemma pwrote_Cons:
  assumes "wrote pt M s a [c] (s\<lparr>phys := m1\<rparr>)" "phys s1 = m1" "pwrote pt M s1 (Suc a) src m2"
  shows "pwrote pt M s a (c # src) m2"
proof -
  have "pwrote pt M (s\<lparr>phys := m1\<rparr>) (Suc a) src m2" using assms(2,3) pwrote_cong [of s1 "s\<lparr>phys := m1\<rparr>"] by simp
  then show ?thesis using wrote_append [of pt M s a "[c]" "s\<lparr>phys := m1\<rparr>" src] assms(1) by (simp add: pwrote_def)
qed

text \<open>The address space of the small machine, in any state that has its memory.\<close>

lemma demo2_user_mem:
  assumes "same_mem demo2 s"
  shows "user_mem s demo_pt {..<1}" "a < 4096 \<Longrightarrow> uacc s demo_pt a" "uacc s demo_pt a \<Longrightarrow> a < 4096"
proof -
  from demo2_uvm obtain xs where u: "uvm demo2 demo_pt xs {..<1} {}"
    and f: "fresh_user_page demo2 demo_pt (PTE_R OR PTE_U OR PTE_W) 0" by blast
  have d: "user_mem demo2 demo_pt {..<1}" using u uvm_top_private [OF u] by (auto simp: user_mem_def)
  then show "user_mem s demo_pt {..<1}" using user_mem_cong [OF assms] by blast
  have "uacc demo2 demo_pt a" if "a < 4096" for a by (rule uacc_fresh [OF f]) (use that in auto)
  then show "a < 4096 \<Longrightarrow> uacc s demo_pt a" using uacc_cong [of s demo2 demo_pt a] assms by blast
  show "uacc s demo_pt a \<Longrightarrow> a < 4096" using uacc_cong [of s demo2 demo_pt a] assms uacc_in [OF d, of a] by auto
qed

end
