(* ===== verification/Ring.thy ===== *)
theory Ring
  imports Xv6_Prelude
begin

text \<open>
  Bounded queues as the kernel builds them: an array whose size divides the range of two free-running
  counters, as in pipes, in the console and in the UART driver. \<open>bounded_queue\<close> is what their clients
  rely on, \<open>ring\<close> the implementation; the components interpret it with their own operations.
\<close>

section \<open>The interface\<close>

locale bounded_queue =
  fixes cap :: nat
    and ok :: "'s \<Rightarrow> bool"
    and elems :: "'s \<Rightarrow> 'e list"
    and put :: "'e \<Rightarrow> 's \<Rightarrow> 's"
    and get :: "'s \<Rightarrow> 'e \<times> 's"
  assumes bounded: "ok s \<Longrightarrow> length (elems s) \<le> cap"
    and ok_put: "ok s \<Longrightarrow> length (elems s) < cap \<Longrightarrow> ok (put x s)"
    and elems_put: "ok s \<Longrightarrow> length (elems s) < cap \<Longrightarrow> elems (put x s) = elems s @ [x]"
    and ok_get: "ok s \<Longrightarrow> elems s \<noteq> [] \<Longrightarrow> ok (snd (get s))"
    and elems_get: "ok s \<Longrightarrow> elems s \<noteq> [] \<Longrightarrow> elems s = fst (get s) # elems (snd (get s))"
begin

lemma hd_get: "ok s \<Longrightarrow> elems s \<noteq> [] \<Longrightarrow> fst (get s) = hd (elems s)"
  using elems_get [of s] by (cases "elems s") auto

lemma tl_get: "ok s \<Longrightarrow> elems s \<noteq> [] \<Longrightarrow> elems (snd (get s)) = tl (elems s)"
  using elems_get [of s] by (cases "elems s") auto

lemma puts:
  assumes "ok s" "length (elems s) + length xs \<le> cap"
  shows "ok (fold put xs s) \<and> elems (fold put xs s) = elems s @ xs"
  using assms by (induction xs arbitrary: s) (auto simp: ok_put elems_put)

end

section \<open>The implementation\<close>

locale ring =
  fixes N :: nat
    and cells :: "'s \<Rightarrow> 'e list"
    and rd :: "'s \<Rightarrow> 'n::len word"
    and wr :: "'s \<Rightarrow> 'n word"
    and put :: "'e \<Rightarrow> 's \<Rightarrow> 's"
    and get :: "'s \<Rightarrow> 'e \<times> 's"
  assumes N: "0 < N" "N dvd 2 ^ LENGTH('n)" "N < 2 ^ LENGTH('n)"
    and put_cells: "cells (put x s) = (cells s)[unat (wr s mod of_nat N) := x]"
    and put_rd: "rd (put x s) = rd s"
    and put_wr: "wr (put x s) = wr s + 1"
    and get_fst: "fst (get s) = cells s ! unat (rd s mod of_nat N)"
    and get_cells: "cells (snd (get s)) = cells s"
    and get_rd: "rd (snd (get s)) = rd s + 1"
    and get_wr: "wr (snd (get s)) = wr s"
begin

definition count :: "'s \<Rightarrow> nat" where
  "count s = unat (wr s - rd s)"

definition valid :: "'s \<Rightarrow> bool" where
  "valid s \<longleftrightarrow> length (cells s) = N \<and> count s \<le> N"

definition queued :: "'s \<Rightarrow> 'e list" where
  "queued s = map (\<lambda>i. cells s ! ((unat (rd s) + i) mod N)) [0..<count s]"

lemma length_queued: "length (queued s) = count s"
  by (simp add: queued_def)

lemma slot: "unat (w mod of_nat N) = unat w mod N" for w :: "'n word"
  using N by (simp add: unat_mod unat_of_nat take_bit_nat_eq_self)

lemma unat_add_mod: "unat (w + v) mod N = (unat w + unat v) mod N" for w v :: "'n word"
  using N(2) by (simp add: unat_word_ariths mod_mod_cancel)

lemma unat_1: "unat (1 :: 'n word) = 1"
  by simp

lemma wr_slot: "unat (wr s) mod N = (unat (rd s) + count s) mod N"
  using unat_add_mod [of "rd s" "wr s - rd s"] by (simp add: count_def)

lemma slots_differ: "i < d \<Longrightarrow> d < N \<Longrightarrow> (u + i) mod N \<noteq> (u + d) mod N" for u :: nat
proof
  assume *: "i < d" "d < N" "(u + i) mod N = (u + d) mod N"
  then have "N dvd (u + d) - (u + i)" by (metis mod_eq_dvd_iff_nat add_le_mono1 add.commute less_imp_le)
  with * show False by (auto dest: dvd_imp_le)
qed

lemma count_put: "count s < N \<Longrightarrow> count (put x s) = Suc (count s)"
proof -
  assume "count s < N"
  then have "unat (wr s - rd s) + unat (1 :: 'n word) < 2 ^ LENGTH('n)" using N by (simp add: count_def)
  then have "unat ((wr s - rd s) + 1) = Suc (count s)" by (simp add: unat_add_lem [THEN iffD1] count_def)
  then show ?thesis by (simp add: count_def put_rd put_wr algebra_simps)
qed

lemma count_get: "count s \<noteq> 0 \<Longrightarrow> count s = Suc (count (snd (get s)))"
proof -
  assume "count s \<noteq> 0"
  then have "unat ((wr s - rd s) - 1) = unat (wr s - rd s) - 1"
    by (intro unat_minus_one) (auto simp: count_def)
  with \<open>count s \<noteq> 0\<close> show ?thesis by (simp add: count_def get_rd get_wr algebra_simps)
qed

lemma queued_put:
  assumes "valid s" "count s < N"
  shows "queued (put x s) = queued s @ [x]"
proof (rule nth_equalityI)
  show "length (queued (put x s)) = length (queued s @ [x])" using assms by (simp add: count_put length_queued)
  fix i assume "i < length (queued (put x s))"
  then have i: "i < Suc (count s)" using assms by (simp add: count_put length_queued)
  let ?d = "count s"
  have c: "cells (put x s) = (cells s)[(unat (rd s) + ?d) mod N := x]" by (simp add: put_cells slot wr_slot)
  have l: "length (cells s) = N" using assms by (simp add: valid_def)
  show "queued (put x s) ! i = (queued s @ [x]) ! i"
  proof (cases "i = ?d")
    case True
    then show ?thesis using assms l N(1) by (simp add: queued_def count_put c put_rd nth_append length_queued)
  next
    case False
    with i have "i < ?d" by simp
    then show ?thesis using assms slots_differ [of i ?d "unat (rd s)"]
      by (simp add: queued_def count_put c put_rd nth_append nth_list_update length_queued)
  qed
qed

lemma queued_get:
  assumes "queued s \<noteq> []"
  shows "queued s = fst (get s) # queued (snd (get s))"
proof -
  have c: "count s \<noteq> 0" using assms by (simp flip: length_queued)
  have "(unat (rd s + 1) + i) mod N = (unat (rd s) + Suc i) mod N" for i
    using unat_add_mod [of "rd s" 1] by (simp add: mod_simps flip: mod_add_left_eq [of "unat (rd s + 1)"])
  then show ?thesis
    unfolding queued_def by (simp add: count_get [OF c] upt_conv_Cons map_Suc_upt [symmetric] get_fst get_cells get_rd slot
      comp_def del: upt_Suc)
qed

sublocale bounded_queue N valid queued put get
proof
  fix s x
  assume v: "valid s"
  show "length (queued s) \<le> N" using v by (simp add: valid_def length_queued)
  {
    assume "length (queued s) < N"
    then have c: "count s < N" by (simp add: length_queued)
    then show "valid (put x s)" using v by (simp add: valid_def count_put put_cells)
    show "queued (put x s) = queued s @ [x]" using v c by (rule queued_put)
  }
  {
    assume ne: "queued s \<noteq> []"
    then have "count s \<noteq> 0" by (simp flip: length_queued)
    then show "valid (snd (get s))" using v count_get [of s] by (simp add: valid_def get_cells)
    show "queued s = fst (get s) # queued (snd (get s))" using ne by (rule queued_get)
  }
qed

lemma empty_iff: "queued s = [] \<longleftrightarrow> rd s = wr s"
  by (auto simp: queued_def count_def unat_eq_0)

text \<open>Taking back the newest element.\<close>

lemma last_queued:
  assumes "queued s \<noteq> []"
  shows "last (queued s) = cells s ! unat ((wr s - 1) mod of_nat N)"
proof -
  have c: "count s \<noteq> 0" using assms by (simp flip: length_queued)
  have "unat ((wr s - rd s) - 1) = count s - 1"
    unfolding count_def by (rule unat_minus_one) (use c in \<open>auto simp: count_def\<close>)
  then have "unat (wr s - 1) mod N = (unat (rd s) + (count s - 1)) mod N"
    using unat_add_mod [of "rd s" "wr s - rd s - 1"] by (simp add: algebra_simps)
  then show ?thesis using assms c by (simp add: last_conv_nth length_queued slot) (simp add: queued_def)
qed

lemma unput:
  assumes "queued s \<noteq> []" "cells s' = cells s" "rd s' = rd s" "wr s' = wr s - 1"
  shows "queued s' = butlast (queued s)" "valid s \<Longrightarrow> valid s'"
proof -
  have c: "count s \<noteq> 0" using assms(1) by (simp flip: length_queued)
  have "unat ((wr s - rd s) - 1) = count s - 1"
    unfolding count_def by (rule unat_minus_one) (use c in \<open>auto simp: count_def\<close>)
  then have n: "count s' = count s - 1" unfolding count_def [of s'] assms(3,4) by (simp add: algebra_simps)
  show "queued s' = butlast (queued s)"
    using c by (cases "count s") (simp_all add: queued_def n assms(2,3))
  show "valid s \<Longrightarrow> valid s'" using n assms(2) by (auto simp: valid_def)
qed

lemma full_iff: "wr s = rd s + of_nat N \<longleftrightarrow> length (queued s) = N"
proof -
  have "wr s = rd s + of_nat N \<longleftrightarrow> wr s - rd s = of_nat N" by (auto simp: algebra_simps)
  also have "\<dots> \<longleftrightarrow> unat (wr s - rd s) = unat (of_nat N :: 'n word)" by (simp add: word_unat_eq_iff)
  also have "\<dots> \<longleftrightarrow> count s = N" using N by (simp add: count_def unat_of_nat take_bit_nat_eq_self)
  finally show ?thesis by (simp add: length_queued)
qed

end

end
