(* ===== verification/Pipe_Props.thy ===== *)
theory Pipe_Props
  imports File User_Mem Ring
begin

text \<open>
  Pipes are bounded queues of bytes between address spaces: \<open>pipe_bytes\<close> is the contents of a pipe,
  and \<^verbatim>\<open>pipewrite\<close> and \<^verbatim>\<open>piperead\<close> append to it and take from it, for every way in which they end.
\<close>

definition pipe_bytes :: "pipe \<Rightarrow> u8 list" where
  "pipe_bytes p = map (\<lambda>i. pi_data p ! ((unat (pi_nread p) + i) mod PIPESIZE)) [0..<unat (pi_nwrite p - pi_nread p)]"

definition pipe_ok :: "pipe \<Rightarrow> bool" where
  "pipe_ok p \<longleftrightarrow> length (pi_data p) = PIPESIZE \<and> unat (pi_nwrite p - pi_nread p) \<le> PIPESIZE"

interpretation pipe_ring: ring PIPESIZE pi_data pi_nread pi_nwrite pipe_put pipe_get
  rewrites "ring.queued PIPESIZE pi_data pi_nread pi_nwrite = pipe_bytes"
    and "ring.valid PIPESIZE pi_data pi_nread pi_nwrite = pipe_ok"
proof -
  show r: "ring PIPESIZE pi_data pi_nread pi_nwrite pipe_put pipe_get"
    by unfold_locales (simp_all add: pipe_put_def pipe_get_def)
  show "ring.queued PIPESIZE pi_data pi_nread pi_nwrite = pipe_bytes"
    by (rule ext) (simp only: ring.queued_def [OF r] ring.count_def [OF r] pipe_bytes_def)
  show "ring.valid PIPESIZE pi_data pi_nread pi_nwrite = pipe_ok"
    by (rule ext) (simp only: ring.valid_def [OF r] ring.count_def [OF r] pipe_ok_def)
qed

lemma pipe_lives: "pipe_ok (p\<lparr>pi_writeopen := b\<rparr>) = pipe_ok p" "pipe_bytes (p\<lparr>pi_writeopen := b\<rparr>) = pipe_bytes p"
  "pipe_ok (p\<lparr>pi_readopen := b\<rparr>) = pipe_ok p" "pipe_bytes (p\<lparr>pi_readopen := b\<rparr>) = pipe_bytes p"
  by (simp_all add: pipe_ok_def pipe_bytes_def)

section \<open>Writing\<close>

lemma sleep_wake_pipes [simp]: "pipes (sleep_on c s) = pipes s" "pipes (wakeup c s) = pipes s"
  by (simp_all add: sleep_on_def wakeup_def upd_proc_def)

text \<open>
  \<open>wrote_pipe\<close>: \<open>k\<close> bytes of user memory from \<open>a\<close> on have gone into the pipe, with result \<open>r\<close> of a
  call that had come to byte \<open>i\<close> of \<open>n\<close>. With bytes left to write and the read end closed or the process
  killed, the call does nothing but return -1; otherwise it ends with the last byte, at a byte that
  there is room for but that cannot be read, or asleep with the pipe full.
\<close>

definition wrote_pipe :: "u64 \<Rightarrow> nat \<Rightarrow> int \<Rightarrow> nat \<Rightarrow> 'a filest_scheme \<Rightarrow> nat \<Rightarrow> int progress \<Rightarrow> 'a filest_scheme \<Rightarrow> bool" where
  "wrote_pipe pi a n i s k r s' \<longleftrightarrow> (let pt = p_pagetable (myproc s); p = pipes s pi; p' = pipes s' pi in
     int (i + k) \<le> max n (int i) \<and> same_mem s s' \<and> cur s' = cur s \<and>
     (\<forall>q. p_pagetable (procs s' q) = p_pagetable (procs s q)) \<and> (\<forall>q. q \<noteq> pi \<longrightarrow> pipes s' q = pipes s q) \<and> pi_readopen p' = pi_readopen p \<and> pi_writeopen p' = pi_writeopen p \<and>
     pipe_ok p' \<and> (\<forall>j<k. uacc s pt (a + j)) \<and> pipe_bytes p' = pipe_bytes p @ ubytes s pt a k \<and>
     (case r of
        Done m \<Rightarrow>
          if int i < n \<and> (\<not> pi_readopen p \<or> killed (cur s) s) then m = -1 \<and> k = 0 \<and> s' = s
          else m = int (i + k) \<and> (n \<le> m \<or> \<not> uacc s pt (a + k) \<and> length (pipe_bytes p') < PIPESIZE) \<and>
            awake (ChanPipeRead pi) s s'
      | Asleep j \<Rightarrow>
          pi_readopen p \<and> \<not> killed (cur s) s \<and> j = i + k \<and> int j < n \<and> length (pipe_bytes p') = PIPESIZE \<and> awake (ChanPipeRead pi) s s' \<and>
          p_state (myproc s') = SLEEPING \<and> p_chan (myproc s') = ChanPipeWrite pi
      | Exited \<Rightarrow> False))"

lemma wrote_pipe_step:
  fixes s :: "'a filest_scheme"
  assumes ok: "pipe_ok (pipes s pi)" and room: "length (pipe_bytes (pipes s pi)) < PIPESIZE"
    and acc: "uacc s (p_pagetable (myproc s)) a" and i: "int i < n" and live: "pi_readopen (pipes s pi)" "\<not> killed (cur s) s"
    and w: "wrote_pipe pi (Suc a) n (Suc i) (upd_pipe pi (pipe_put (ubyte s (p_pagetable (myproc s)) a)) s) k r s'"
  shows "wrote_pipe pi a n i s (Suc k) r s'"
proof -
  let ?pt = "p_pagetable (myproc s)" and ?s1 = "upd_pipe pi (pipe_put (ubyte s (p_pagetable (myproc s)) a)) s"
  have f: "procs ?s1 = procs s" "cur ?s1 = cur s" "phys ?s1 = phys s" "freelist ?s1 = freelist s" "kend ?s1 = kend s"
    by (simp_all add: upd_pipe_def)
  have p: "pipes ?s1 pi = pipe_put (ubyte s ?pt a) (pipes s pi)" "\<And>q. q \<noteq> pi \<Longrightarrow> pipes ?s1 q = pipes s q"
    by (simp_all add: upd_pipe_def)
  have o: "pi_readopen (pipes ?s1 pi) = pi_readopen (pipes s pi)" "pi_writeopen (pipes ?s1 pi) = pi_writeopen (pipes s pi)"
    by (simp_all add: p pipe_put_def)
  have a1: "uacc ?s1 ?pt b = uacc s ?pt b" "ubytes ?s1 ?pt b m = ubytes s ?pt b m" "awake c ?s1 s' = awake c s s'" for b m c
    by (rule uacc_cong ubytes_cong, simp add: f)+ (simp add: awake_def f)
  have b1: "pipe_bytes (pipes ?s1 pi) = pipe_bytes (pipes s pi) @ [ubyte s ?pt a]"
    unfolding p using ok room by (rule pipe_ring.elems_put)
  have "\<forall>j<Suc k. uacc s ?pt (a + j)" if "\<forall>j<k. uacc s ?pt (Suc a + j)"
  proof (intro allI impI)
    fix j assume "j < Suc k"
    then show "uacc s ?pt (a + j)" using that acc by (cases j) auto
  qed
  then show ?thesis using w live i
    by (auto simp: wrote_pipe_def Let_def f a1 b1 o killed_def ubytes_Suc p(2) split: progress.splits)
qed

lemma pipewrite_from_spec:
  fixes s :: "'a filest_scheme"
  assumes "pipe_ok (pipes s pi)" "user_mem s (p_pagetable (myproc s)) M" "unat addr + i < 2 ^ 64"
  shows "\<exists>k r s'. pipewrite_from pi addr n i s = Ok (r, s') \<and> wrote_pipe pi (unat addr + i) n i s k r s'"
  using assms
proof (induction pi addr n i s rule: pipewrite_from.induct)
  case (1 pi addr n i s)
  let ?pt = "p_pagetable (myproc s)" and ?p = "pipes s pi" and ?a = "unat addr + i"
  note ok = "1.prems"(1) and u = "1.prems"(2)
  have va: "unat (addr + of_nat i) = ?a" using "1.prems"(3) by (simp add: unat_word_ariths unat_of_nat)
  have full: "pi_nwrite ?p = pi_nread ?p + of_nat PIPESIZE \<longleftrightarrow> length (pipe_bytes ?p) = PIPESIZE" by (rule pipe_ring.full_iff)
  note cb = copyin_byte [OF u, of "addr + of_nat i", unfolded va]
  note simps = pipewrite_from.simps [of pi addr n i s] full cb wrote_pipe_def Let_def
  consider "\<not> int i < n" | "int i < n" "\<not> pi_readopen ?p \<or> killed (cur s) s"
    | "int i < n" "\<not> (\<not> pi_readopen ?p \<or> killed (cur s) s)" "length (pipe_bytes ?p) = PIPESIZE"
    | "int i < n" "\<not> (\<not> pi_readopen ?p \<or> killed (cur s) s)" "length (pipe_bytes ?p) \<noteq> PIPESIZE" "\<not> uacc s ?pt ?a"
    | "int i < n" "\<not> (\<not> pi_readopen ?p \<or> killed (cur s) s)" "length (pipe_bytes ?p) \<noteq> PIPESIZE" "uacc s ?pt ?a" by blast
  then show ?case
  proof cases
    case 1
    then show ?thesis using ok by (intro exI [of _ 0]) (simp add: simps del: PIPESIZE_def One_nat_def)
  next
    case 2
    then show ?thesis using ok by (intro exI [of _ 0]) (simp add: simps del: PIPESIZE_def One_nat_def)
  next
    case 3
    then show ?thesis using ok
      by (intro exI [of _ 0]) (simp add: simps del: PIPESIZE_def One_nat_def, simp add: sleep_on_def upd_proc_def)
  next
    case 4
    then have "length (pipe_bytes ?p) < PIPESIZE" using pipe_ring.bounded [OF ok] by simp
    then show ?thesis using 4 ok by (intro exI [of _ 0]) (simp add: simps del: PIPESIZE_def One_nat_def)
  next
    case 5
    let ?s1 = "upd_pipe pi (pipe_put (ubyte s ?pt ?a)) s"
    have room: "length (pipe_bytes ?p) < PIPESIZE" using 5(3) pipe_ring.bounded [OF ok] by simp
    have s1: "pipewrite_from pi addr n i s = pipewrite_from pi addr n (Suc i) ?s1" using 5 by (simp add: simps del: PIPESIZE_def One_nat_def)
    have ok1: "pipe_ok (pipes ?s1 pi)" using pipe_ring.ok_put [OF ok room] by (simp add: upd_pipe_def)
    have same: "same_mem s ?s1" "procs ?s1 = procs s" "cur ?s1 = cur s" by (simp_all add: upd_pipe_def)
    then have u1: "user_mem ?s1 (p_pagetable (myproc ?s1)) M" using u user_mem_cong [OF same(1)] by simp
    have lt: "unat addr + Suc i < 2 ^ 64" using uacc_range [OF 5(4)] by simp
    have nf: "pi_nwrite ?p \<noteq> pi_nread ?p + of_nat PIPESIZE" unfolding full by (rule 5(3))
    have b: "copyin ?pt (addr + of_nat i) 1 s = Ok (0, [ubyte s ?pt ?a])" using cb 5(4) by simp
    have hd: "hd [ubyte s ?pt ?a] = ubyte s ?pt ?a" by simp
    have ih: "\<exists>k r s'. pipewrite_from pi addr n (Suc i) ?s1 = Ok (r, s') \<and> wrote_pipe pi (unat addr + Suc i) n (Suc i) ?s1 k r s'"
      using "1.IH" [OF 5(1,2) nf b refl, unfolded hd] ok1 u1 lt by simp
    then obtain k r s' where "pipewrite_from pi addr n (Suc i) ?s1 = Ok (r, s')"
      "wrote_pipe pi (Suc ?a) n (Suc i) ?s1 k r s'" by auto
    moreover from this(2) have "wrote_pipe pi ?a n i s (Suc k) r s'"
      using wrote_pipe_step [OF ok room 5(4,1)] 5(2) by blast
    ultimately show ?thesis unfolding s1 by blast
  qed
qed

section \<open>Reading\<close>

text \<open>
  \<open>read_pipe\<close>: of the bytes in the pipe, as many as were asked for and as the memory at \<open>a\<close> takes
  are stored there. A byte that cannot be stored is gone.
\<close>

definition read_pipe :: "u64 \<Rightarrow> nat \<Rightarrow> nat \<Rightarrow> nat set \<Rightarrow> 'a filest_scheme \<Rightarrow> nat \<Rightarrow> 'a filest_scheme \<Rightarrow> bool" where
  "read_pipe pi a n M s k s' \<longleftrightarrow> (let pt = p_pagetable (myproc s); p = pipes s pi; p' = pipes s' pi; len = min n (length (pipe_bytes p)) in
     freelist s' = freelist s \<and> kend s' = kend s \<and> cur s' = cur s \<and> (\<forall>q. q \<noteq> pi \<longrightarrow> pipes s' q = pipes s q) \<and>
     pi_readopen p' = pi_readopen p \<and> pi_writeopen p' = pi_writeopen p \<and> user_mem s' pt M \<and> pipe_ok p' \<and>
     reach s pt a len k \<and> pwrote pt M s a (take k (pipe_bytes p)) (phys s') \<and>
     pipe_bytes p' = drop (if k = len then k else Suc k) (pipe_bytes p))"

lemma read_pipe_step:
  fixes s :: "'a filest_scheme"
  assumes bs: "pipe_bytes (pipes s pi) = c # bs" and acc: "uacc s pt a" and pt: "pt = p_pagetable (myproc s)"
    and w: "wrote pt M s a [c] (s\<lparr>phys := m\<rparr>)" and s1: "s1 = upd_pipe pi (\<lambda>_. p1) (s\<lparr>phys := m\<rparr>)"
    and p1: "pipe_bytes p1 = bs" "pi_readopen p1 = pi_readopen (pipes s pi)" "pi_writeopen p1 = pi_writeopen (pipes s pi)"
    and r: "read_pipe pi (Suc a) n M s1 k s'"
  shows "read_pipe pi a (Suc n) M s (Suc k) s'"
proof -
  have f: "procs s1 = procs s" "cur s1 = cur s" "phys s1 = m" "freelist s1 = freelist s" "kend s1 = kend s" "pipes s1 pi = p1"
    "\<And>q. q \<noteq> pi \<Longrightarrow> pipes s1 q = pipes s q" by (simp_all add: s1 upd_pipe_def)
  have a1: "uacc s1 pt b = uacc s pt b" for b
    using wrote_uacc [OF w, of b] uacc_cong [of s1 "s\<lparr>phys := m\<rparr>" pt b] f(3) by simp
  have "reach s pt a (Suc len) (Suc k)" if "reach s1 pt (Suc a) len k" for len
    using that reach_extend [of 1 s pt a "Suc len" k] acc a1 by (simp add: reach_def)
  moreover have "pwrote pt M s a (c # take k bs) (phys s')" if "pwrote pt M s1 (Suc a) (take k bs) (phys s')"
    using w f(3) that by (rule pwrote_Cons)
  ultimately show ?thesis using r unfolding read_pipe_def Let_def by (simp add: f bs p1 pt [symmetric])
qed

lemma piperead_copy_spec:
  fixes s :: "'a filest_scheme"
  assumes "pipe_ok (pipes s pi)" "user_mem s (p_pagetable (myproc s)) M" "unat addr + i < 2 ^ 64"
  shows "\<exists>k s'. piperead_copy pi addr i n s = Ok (i + k, s') \<and> procs s' = procs s \<and> read_pipe pi (unat addr + i) n M s k s'"
  using assms
proof (induction n arbitrary: i s)
  case 0
  then show ?case by (intro exI [of _ 0]) (simp add: read_pipe_def Let_def reach_def pwrote_Nil)
next
  case (Suc n)
  let ?pt = "p_pagetable (myproc s)" and ?p = "pipes s pi" and ?a = "unat addr + i"
  note ok = Suc.prems(1) and u = Suc.prems(2)
  have va: "unat (addr + of_nat i) = ?a" using Suc.prems(3) by (simp add: unat_word_ariths unat_of_nat)
  have empty: "pi_nread ?p = pi_nwrite ?p \<longleftrightarrow> pipe_bytes ?p = []" by (rule pipe_ring.empty_iff [symmetric])
  show ?case
  proof (cases "pipe_bytes ?p")
    case Nil
    then show ?thesis using u ok
      by (intro exI [of _ 0]) (simp add: empty read_pipe_def Let_def reach_def pwrote_Nil)
  next
    case (Cons c bs)
    then have ne: "pipe_bytes ?p \<noteq> []" by simp
    obtain p1 where g: "pipe_get ?p = (c, p1)" and p1: "pipe_ok p1" "pipe_bytes p1 = bs"
      using pipe_ring.elems_get [OF ok ne] pipe_ring.ok_get [OF ok ne] Cons by (cases "pipe_get ?p") auto
    have o1: "pi_readopen p1 = pi_readopen ?p" "pi_writeopen p1 = pi_writeopen ?p" using g by (auto simp: pipe_get_def)
    let ?t = "upd_pipe pi (\<lambda>_. p1) s"
    have t: "procs ?t = procs s" "cur ?t = cur s" "phys ?t = phys s" "freelist ?t = freelist s" "kend ?t = kend s"
      by (simp_all add: upd_pipe_def)
    have ut: "user_mem ?t ?pt M" using u user_mem_cong [of s ?t] t by simp
    have at: "uacc ?t ?pt ?a = uacc s ?pt ?a" by (rule uacc_cong) (rule t)
    note cb = copyout_byte [OF ut, of "addr + of_nat i" c, unfolded va]
    show ?thesis
    proof (cases "uacc s ?pt ?a")
      case False
      then have "piperead_copy pi addr i (Suc n) s = Ok (i, ?t)" using g ne cb at by (simp add: empty)
      moreover have "read_pipe pi ?a (Suc n) M s 0 ?t"
        using False u ut p1 o1 Cons pwrote_Nil [of ?pt M s ?a] t(3) by (simp add: read_pipe_def Let_def reach_def t) (simp add: upd_pipe_def)
      ultimately show ?thesis using t by (intro exI [of _ 0]) simp
    next
      case True
      then obtain m where m: "copyout ?pt (addr + of_nat i) [c] ?t = Ok (0, ?t\<lparr>phys := m\<rparr>)"
        "user_mem (?t\<lparr>phys := m\<rparr>) ?pt M" "wrote ?pt M ?t ?a [c] (?t\<lparr>phys := m\<rparr>)" using cb at by auto
      have eq: "?t\<lparr>phys := m\<rparr> = upd_pipe pi (\<lambda>_. p1) (s\<lparr>phys := m\<rparr>)" by (simp add: upd_pipe_def)
      let ?s1 = "upd_pipe pi (\<lambda>_. p1) (s\<lparr>phys := m\<rparr>)"
      have w: "wrote ?pt M s ?a [c] (s\<lparr>phys := m\<rparr>)"
        using m(3) pwrote_cong [of ?t s ?pt M ?a "[c]" m] t(3) by (simp add: pwrote_def)
      have s1: "piperead_copy pi addr i (Suc n) s = piperead_copy pi addr (Suc i) n ?s1" using g ne m(1) by (simp add: empty eq)
      have f1: "procs ?s1 = procs s" "cur ?s1 = cur s" "pipes ?s1 pi = p1" by (simp_all add: upd_pipe_def)
      have "unat addr + Suc i < 2 ^ 64" using uacc_range [OF True] by simp
      then obtain k s' where k: "piperead_copy pi addr (Suc i) n ?s1 = Ok (Suc i + k, s')" "procs s' = procs s"
        "read_pipe pi (Suc ?a) n M ?s1 k s'" using Suc.IH [of ?s1 "Suc i"] m(2) p1(1) f1 eq by auto
      have "read_pipe pi ?a (Suc n) M s (Suc k) s'"
        using Cons True refl w refl p1(2) o1 k(3) by (rule read_pipe_step)
      then show ?thesis using s1 k by (intro exI [of _ "Suc k"]) simp
    qed
  qed
qed

section \<open>A machine with a pipe\<close>

text \<open>The process 0 with the address space of the small machine, and an empty pipe whose counters are about to wrap.\<close>

definition demo_pipe :: filest where
  "demo_pipe = (zero_data (filest.fields (\<lambda>_. \<lparr>f_type = FD_NONE, f_ref = 0, f_readable = False, f_writable = False,
       f_pipe = 0, f_ip = None, f_off = 0, f_major = 0\<rparr>)
     (\<lambda>_. \<lparr>pi_data = replicate PIPESIZE 1, pi_nread = 4294967295, pi_nwrite = 4294967295, pi_readopen = True, pi_writeopen = True\<rparr>)))
     \<lparr>phys := phys demo2, freelist := freelist demo2, kend := kend demo2,
      procs := (\<lambda>_. zero_proc\<lparr>p_pagetable := demo_pt\<rparr>)\<rparr>"

lemma demo_pipe_simps:
  "same_mem demo2 demo_pipe" "p_pagetable (procs demo_pipe i) = demo_pt" "pipe_ok (pipes demo_pipe pi)"
  "pipe_bytes (pipes demo_pipe pi) = []" "pi_readopen (pipes demo_pipe pi)" "\<not> killed i demo_pipe" "cur demo_pipe = 0"
  by (simp_all add: demo_pipe_def zero_data_def filest.defs pipe_ok_def pipe_bytes_def killed_def zero_proc_def)

lemma demo_pipe_mem:
  "user_mem demo_pipe demo_pt {..<1}" "a < 4096 \<Longrightarrow> uacc demo_pipe demo_pt a"
  using demo2_user_mem [of demo_pipe] demo_pipe_simps(1) by auto

section \<open>Properties\<close>

text \<open>
  C23: \<^verbatim>\<open>pipewrite\<close>, called or woken up at byte \<open>i\<close> of \<open>n\<close>, appends bytes of the writer's memory in
  order and loses none: it returns the number written once all are, or at the first byte that it
  cannot read; it sleeps exactly when the pipe is full before that, having woken the readers; it returns -1
  and changes nothing exactly if bytes are left and the read end is closed or the process is killed. The pipe never holds more than
  \<^verbatim>\<open>PIPESIZE\<close> bytes, also when its 32-bit counters wrap around.
\<close>

theorem pipewrite_fifo:
  fixes s :: "'a filest_scheme"
  assumes "pipe_ok (pipes s pi)" "user_mem s (p_pagetable (myproc s)) M" "unat addr + i < 2 ^ 64"
  shows "\<exists>k r s'. pipewrite_from pi addr n i s = Ok (r, s') \<and> wrote_pipe pi (unat addr + i) n i s k r s'"
  using assms by (rule pipewrite_from_spec)

theorem pipewrite_fifo_witness:
  "\<exists>k r s'. pipewrite_from 7 2 5 0 demo_pipe = Ok (r, s') \<and> wrote_pipe 7 2 5 0 demo_pipe k r s'"
  using pipewrite_fifo [of demo_pipe 7 "{..<1}" 2 0 5] demo_pipe_mem(1) by (simp add: demo_pipe_simps)

text \<open>
  C24: \<^verbatim>\<open>piperead\<close> waits while the pipe is empty and may still be written; then it stores the oldest
  bytes of the pipe, as many as asked for and available, in order in the reader's memory, removes
  them from the pipe and wakes the writers. At memory that is not accessible it stops; the byte it
  could not store is lost.
\<close>

theorem piperead_fifo:
  fixes s :: "'a filest_scheme"
  assumes ok: "pipe_ok (pipes s pi)" and u: "user_mem s (p_pagetable (myproc s)) M"
  shows "if pipe_bytes (pipes s pi) = [] \<and> pi_writeopen (pipes s pi)
    then piperead pi addr n s = Ok (if killed (cur s) s then (Done (-1), s) else (Asleep 0, sleep_on (ChanPipeRead pi) s))
    else \<exists>k s'. piperead pi addr n s = Ok (Done (int k), s') \<and> read_pipe pi (unat addr) (nat n) M s k s' \<and>
      awake (ChanPipeWrite pi) s s'"
proof -
  have empty: "pi_nread (pipes s pi) = pi_nwrite (pipes s pi) \<longleftrightarrow> pipe_bytes (pipes s pi) = []"
    by (rule pipe_ring.empty_iff [symmetric])
  obtain k s' where k: "piperead_copy pi addr 0 (nat n) s = Ok (k, s')" "procs s' = procs s" "read_pipe pi (unat addr) (nat n) M s k s'"
    using piperead_copy_spec [OF ok u, of addr 0 "nat n"] unat_u64_less [of addr] by auto
  let ?s' = "wakeup (ChanPipeWrite pi) s'"
  have "read_pipe pi (unat addr) (nat n) M s k ?s'"
    using k(3) user_mem_cong [of s' ?s'] by (simp add: read_pipe_def Let_def)
  moreover have "awake (ChanPipeWrite pi) s ?s'"
    using k(2,3) by (simp add: awake_def wakeup_def read_pipe_def Let_def)
  ultimately show ?thesis using k(1) by (simp add: piperead_def empty)
qed

theorem piperead_fifo_witness: "piperead 7 0 5 demo_pipe = Ok (Asleep 0, sleep_on (ChanPipeRead 7) demo_pipe)"
proof -
  have "pi_writeopen (pipes demo_pipe 7)" by (simp add: demo_pipe_def zero_data_def filest.defs)
  then show ?thesis using piperead_fifo [of demo_pipe 7 "{..<1}" 0 5] demo_pipe_mem(1) by (simp add: demo_pipe_simps)
qed

text \<open>
  C25: what one process writes to an empty pipe, another process reads: \<open>n\<close> bytes at \<open>src\<close> in the
  writer's memory, up to the size of the pipe, arrive at \<open>dst\<close> in the reader's.
\<close>

theorem pipe_roundtrip:
  fixes s :: "'a filest_scheme"
  assumes ok: "pipe_ok (pipes s pi)" and e: "pipe_bytes (pipes s pi) = []" and live: "pi_readopen (pipes s pi)" "\<not> killed (cur s) s"
    and n: "0 < n" "n \<le> PIPESIZE"
    and w: "user_mem s (p_pagetable (myproc s)) M" "\<forall>j<n. uacc s (p_pagetable (myproc s)) (unat src + j)"
    and r: "user_mem s (p_pagetable (procs s q)) M'" "\<forall>j<n. uacc s (p_pagetable (procs s q)) (unat dst + j)"
  shows "\<exists>s1 s2. pipewrite pi src (int n) s = Ok (Done (int n), s1) \<and>
    piperead pi dst (int n) (s1\<lparr>cur := q\<rparr>) = Ok (Done (int n), s2) \<and>
    ubytes s2 (p_pagetable (procs s q)) (unat dst) n = ubytes s (p_pagetable (myproc s)) (unat src) n \<and> pipe_bytes (pipes s2 pi) = []"
proof -
  obtain k rs s1 where k: "pipewrite pi src (int n) s = Ok (rs, s1)" "wrote_pipe pi (unat src) (int n) 0 s k rs s1"
    using pipewrite_from_spec [OF ok w(1), of src 0 "int n"] unat_u64_less [of src] by (auto simp: pipewrite_def)
  let ?bs = "ubytes s (p_pagetable (myproc s)) (unat src) k"
  have b1: "pipe_bytes (pipes s1 pi) = ?bs" and ok1: "pipe_ok (pipes s1 pi)" and same: "same_mem s s1"
    using k(2) e by (simp_all add: wrote_pipe_def Let_def)
  have len: "length ?bs = k" by (simp add: ubytes_def)
  have kn: "rs = Done (int n) \<and> k = n"
  proof (cases rs)
    case (Done m)
    then have m: "m = int k" "int n \<le> m \<or> \<not> uacc s (p_pagetable (myproc s)) (unat src + k)"
      "\<forall>j<k. uacc s (p_pagetable (myproc s)) (unat src + j)" using k(2) live by (auto simp: wrote_pipe_def Let_def)
    moreover have "k \<le> n" using k(2) by (simp add: wrote_pipe_def Let_def)
    moreover have "k = n" if "k < n" using w(2) that m by auto
    ultimately show ?thesis using Done by force
  next
    case (Asleep j)
    then have "length (pipe_bytes (pipes s1 pi)) = PIPESIZE" "j = k" "j < n" using k(2) by (auto simp: wrote_pipe_def Let_def)
    then show ?thesis using n b1 len by simp
  qed (use k(2) in \<open>simp add: wrote_pipe_def Let_def\<close>)
  let ?t = "s1\<lparr>cur := q\<rparr>" and ?pt = "p_pagetable (procs s q)"
  have pt: "p_pagetable (myproc ?t) = ?pt" using k(2) by (simp add: wrote_pipe_def Let_def)
  have ut: "user_mem ?t ?pt M'" using r(1) same user_mem_cong [of s ?t] by simp
  have "\<exists>j s2. piperead_copy pi dst 0 n ?t = Ok (j, s2) \<and> procs s2 = procs ?t \<and> read_pipe pi (unat dst) n M' ?t j s2"
    using piperead_copy_spec [of ?t pi M' dst 0 n] ok1 ut pt unat_u64_less [of dst] by auto
  then obtain j s2 where j: "piperead_copy pi dst 0 n ?t = Ok (j, s2)" "read_pipe pi (unat dst) n M' ?t j s2" by blast
  have bt: "pipe_bytes (pipes ?t pi) = ?bs" using b1 by simp
  have rd: "reach ?t ?pt (unat dst) n j" "pwrote ?pt M' ?t (unat dst) (take j ?bs) (phys s2)"
      "pipe_bytes (pipes s2 pi) = drop (if j = n then j else Suc j) ?bs"
    using j(2) kn len unfolding read_pipe_def Let_def pt bt by simp_all
  have "uacc ?t ?pt b = uacc s ?pt b" for b using same uacc_cong [of ?t s] by simp
  then have "reach ?t ?pt (unat dst) n n" using r(2) by (simp add: reach_def)
  then have jn: "j = n" using rd(1) by (rule reach_unique [symmetric])
  have "ubytes (?t\<lparr>phys := phys s2\<rparr>) ?pt (unat dst) (length ?bs) = ?bs"
  proof (rule wrote_ubytes)
    show "wrote ?pt M' ?t (unat dst) ?bs (?t\<lparr>phys := phys s2\<rparr>)" using rd(2) jn kn len by (simp add: pwrote_def)
    show "\<forall>j<length ?bs. (unat dst + j) div 4096 \<in> M'" using uacc_in [OF r(1)] r(2) len kn by simp
  qed
  then have "ubytes s2 ?pt (unat dst) n = ubytes s (p_pagetable (myproc s)) (unat src) n"
    using ubytes_cong [of s2 "?t\<lparr>phys := phys s2\<rparr>" ?pt "unat dst" n] kn len by simp
  moreover have ne: "pi_nread (pipes ?t pi) \<noteq> pi_nwrite (pipes ?t pi)"
    using pipe_ring.empty_iff [of "pipes ?t pi"] bt len kn n(1) by auto
  have "piperead pi dst (int n) ?t = Ok (Done (int n), wakeup (ChanPipeWrite pi) s2)"
    using j(1) jn ne by (simp add: piperead_def)
  ultimately show ?thesis using k(1) kn rd(3) jn len ubytes_cong [of "wakeup (ChanPipeWrite pi) s2" s2]
    by (intro exI [of _ s1] exI [of _ "wakeup (ChanPipeWrite pi) s2"]) simp
qed

theorem pipe_roundtrip_witness:
  "\<exists>s1 s2. pipewrite 7 2 3 demo_pipe = Ok (Done 3, s1) \<and> piperead 7 9 3 (s1\<lparr>cur := 1\<rparr>) = Ok (Done 3, s2)"
proof -
  have "\<exists>s1 s2. pipewrite 7 2 (int 3) demo_pipe = Ok (Done (int 3), s1) \<and> piperead 7 9 (int 3) (s1\<lparr>cur := 1\<rparr>) = Ok (Done (int 3), s2)"
    using pipe_roundtrip [of demo_pipe 7 3 "{..<1}" 2 1 "{..<1}" 9] demo_pipe_mem by (simp add: demo_pipe_simps) blast
  then show ?thesis by simp
qed

end
