(* ===== verification/Console_Props.thy ===== *)
theory Console_Props
  imports Console Pipe_Props
begin

text \<open>
  The console refines a line discipline on two lists, the lines that are ready and the line being
  typed; the UART driver sends the bytes it is given in their order.
\<close>

section \<open>The transmit buffer\<close>

definition tx_bytes :: "'a consst_scheme \<Rightarrow> u8 list" where
  "tx_bytes s = map (\<lambda>i. uart_tx_buf s ! ((unat (uart_tx_r s) + i) mod UART_TX_BUF_SIZE)) [0..<unat (uart_tx_w s - uart_tx_r s)]"

definition tx_ok :: "'a consst_scheme \<Rightarrow> bool" where
  "tx_ok s \<longleftrightarrow> length (uart_tx_buf s) = UART_TX_BUF_SIZE \<and> unat (uart_tx_w s - uart_tx_r s) \<le> UART_TX_BUF_SIZE"

interpretation tx: ring UART_TX_BUF_SIZE uart_tx_buf uart_tx_r uart_tx_w uart_tx_put uart_tx_get
  rewrites "ring.queued UART_TX_BUF_SIZE uart_tx_buf uart_tx_r uart_tx_w = tx_bytes"
    and "ring.valid UART_TX_BUF_SIZE uart_tx_buf uart_tx_r uart_tx_w = tx_ok"
proof -
  show r: "ring UART_TX_BUF_SIZE uart_tx_buf uart_tx_r uart_tx_w uart_tx_put uart_tx_get"
    by unfold_locales (simp_all add: uart_tx_put_def uart_tx_get_def)
  show "ring.queued UART_TX_BUF_SIZE uart_tx_buf uart_tx_r uart_tx_w = tx_bytes"
    by (rule ext) (simp only: ring.queued_def [OF r] ring.count_def [OF r] tx_bytes_def)
  show "ring.valid UART_TX_BUF_SIZE uart_tx_buf uart_tx_r uart_tx_w = tx_ok"
    by (rule ext) (simp only: ring.valid_def [OF r] ring.count_def [OF r] tx_ok_def)
qed

lemma tx_cong:
  "uart_tx_buf s' = uart_tx_buf s \<Longrightarrow> uart_tx_r s' = uart_tx_r s \<Longrightarrow> uart_tx_w s' = uart_tx_w s \<Longrightarrow> tx_bytes s' = tx_bytes s \<and> tx_ok s' = tx_ok s"
  by (simp add: tx_bytes_def tx_ok_def)

text \<open>What one round of \<^verbatim>\<open>uartstart\<close> does.\<close>

lemma uartstart_cases:
  fixes s :: "'a consst_scheme"
  assumes "tx_ok s"
  obtains (empty) "uartstart s = s" "tx_bytes s = []"
  | (full) ns where "uartstart s = s\<lparr>uart_room := 0, uart_next := ns\<rparr>"
  | (send) n ns c t u where "uart_tx_w s \<noteq> uart_tx_r s" "tx_idle s = (True, t)" "t = s\<lparr>uart_room := Suc n, uart_next := ns\<rparr>"
    "uart_tx_get t = (c, u)" "tx_ok u" "tx_bytes s = c # tx_bytes u" "uartstart s = uartstart (WriteTHR c (wakeup ChanUart u))"
proof (cases "uart_tx_w s = uart_tx_r s")
  case True
  then show thesis using empty tx.empty_iff [of s] by (simp add: uartstart.simps [of s])
next
  case False
  obtain b t where i: "tx_idle s = (b, t)" by (cases "tx_idle s")
  from tx_idle_frame [OF i] obtain m ns where t: "t = s\<lparr>uart_room := m, uart_next := ns\<rparr>" "b \<longleftrightarrow> m \<noteq> 0" by blast
  show thesis
  proof (cases b)
    case b: False
    then show thesis using full [of ns] t i False by (simp add: uartstart.simps [of s])
  next
    case True
    then obtain n where n: "m = Suc n" using t(2) by (cases m) auto
    have tt: "tx_bytes t = tx_bytes s" "tx_ok t" using tx_cong [of t s] assms by (simp_all add: t(1))
    have ne: "tx_bytes t \<noteq> []" using False tx.empty_iff [of s] tt by simp
    obtain c u where g: "uart_tx_get t = (c, u)" by (cases "uart_tx_get t")
    have "tx_ok u" "tx_bytes s = c # tx_bytes u" using tx.ok_get [OF tt(2) ne] tx.elems_get [OF tt(2) ne] g tt(1) by simp_all
    moreover have "uartstart s = uartstart (WriteTHR c (wakeup ChanUart u))"
      using False i True g by (simp add: uartstart.simps [of s] Let_def)
    ultimately show thesis using send [where n = n and ns = ns and t = t and c = c and u = u] False i True t(1) n g by simp
  qed
qed

lemma uartstart_spec:
  fixes s :: "'a consst_scheme"
  assumes "tx_ok s"
  shows "tx_ok (uartstart s) \<and> uart_line (uartstart s) @ tx_bytes (uartstart s) = uart_line s @ tx_bytes s \<and>
    (tx_bytes (uartstart s) = [] \<or> uart_room (uartstart s) = 0)"
  using assms
proof (induction s rule: uartstart.induct)
  case (1 s)
  from "1.prems" show ?case
  proof (cases rule: uartstart_cases)
    case empty
    then show ?thesis using "1.prems" by simp
  next
    case (full ns)
    then show ?thesis using "1.prems" tx_cong [of "s\<lparr>uart_room := 0, uart_next := ns\<rparr>" s] by simp
  next
    case (send n ns c t u)
    let ?u = "WriteTHR c (wakeup ChanUart u)"
    have u: "tx_ok ?u = tx_ok u \<and> tx_bytes ?u = tx_bytes u"
      using tx_cong [of ?u u] by (simp add: WriteTHR_def WriteReg_def wakeup_def Let_def)
    have l: "uart_line ?u = uart_line s @ [c]" using send(3,4) by (auto simp: WriteTHR_def WriteReg_def wakeup_def uart_tx_get_def Let_def)
    have "tx_ok (uartstart ?u) \<and> uart_line (uartstart ?u) @ tx_bytes (uartstart ?u) = uart_line ?u @ tx_bytes ?u \<and>
        (tx_bytes (uartstart ?u) = [] \<or> uart_room (uartstart ?u) = 0)"
      using "1.IH" [OF send(1) send(2) [symmetric] _ send(4) [symmetric] refl] send(5) u by simp
    then show ?thesis unfolding send(7) using u l send(6) by simp
  qed
qed

section \<open>Console output\<close>

text \<open>Output changes nothing but the UART.\<close>

definition only_log :: "'a consst_scheme \<Rightarrow> 'a consst_scheme \<Rightarrow> bool" where
  "only_log s s' \<longleftrightarrow> (\<exists>l n ns bs. s' = s\<lparr>uart_log := l, uart_room := n, uart_next := ns, uart_line := bs\<rparr>)"

lemma only_log_refl [simp]: "only_log s s"
  unfolding only_log_def
  by (intro exI [of _ "uart_log s"] exI [of _ "uart_room s"] exI [of _ "uart_next s"] exI [of _ "uart_line s"]) simp

lemma only_log_trans: "only_log s t \<Longrightarrow> only_log t u \<Longrightarrow> only_log s u"
  unfolding only_log_def by (elim exE, intro exI) simp

lemma only_log_panicked: "only_log s t \<Longrightarrow> panicked t = panicked s"
  by (auto simp: only_log_def)

lemma tx_wait_ok: "\<exists>n ns. tx_wait s = s\<lparr>uart_room := Suc n, uart_next := ns\<rparr>"
proof (induction s rule: tx_wait.induct)
  case (1 s)
  obtain b t where i: "tx_idle s = (b, t)" by (cases "tx_idle s")
  from tx_idle_frame [OF i] obtain m ns where t: "t = s\<lparr>uart_room := m, uart_next := ns\<rparr>" "b \<longleftrightarrow> m \<noteq> 0" by blast
  show ?case
  proof (cases m)
    case 0
    then have "\<exists>n ns. tx_wait t = t\<lparr>uart_room := Suc n, uart_next := ns\<rparr>" using "1.IH" [OF i [symmetric]] t(2) by simp
    then show ?thesis using 0 t i by (auto simp: tx_wait.simps [of s])
  next
    case (Suc n)
    then show ?thesis using t i by (auto simp: tx_wait.simps [of s])
  qed
qed

lemma uartputc_sync_spec:
  assumes "\<not> panicked s"
  shows "\<exists>t. uartputc_sync c s = Ok t \<and> only_log s t \<and> uart_line t = uart_line s @ [c]"
proof -
  obtain n ns where w: "tx_wait s = s\<lparr>uart_room := Suc n, uart_next := ns\<rparr>" using tx_wait_ok by blast
  let ?t = "s\<lparr>uart_log := uart_log s @ [(THR, c)], uart_room := n, uart_next := ns, uart_line := uart_line s @ [c]\<rparr>"
  have "only_log s ?t" unfolding only_log_def by (intro exI) (rule refl)
  then show ?thesis using assms by (intro exI [of _ ?t]) (simp add: uartputc_sync_def w WriteTHR_def WriteReg_def Let_def)
qed

lemma uartputc_sync_ok: "\<not> panicked s \<Longrightarrow> \<exists>t. uartputc_sync c s = Ok t \<and> only_log s t"
  using uartputc_sync_spec [of s c] by blast

lemma bind_only_log:
  assumes "\<exists>t. m = Ok t \<and> only_log s t" "\<And>t. only_log s t \<Longrightarrow> \<exists>u. f t = Ok u \<and> only_log t u"
  shows "\<exists>u. bind_ok m f = Ok u \<and> only_log s u"
  using assms by (metis bind_ok_simps(1) only_log_trans)

lemma consputc_ok: "\<not> panicked s \<Longrightarrow> \<exists>t. consputc c s = Ok t \<and> only_log s t"
  unfolding consputc_def
  by (auto intro!: bind_only_log uartputc_sync_ok simp: only_log_panicked)

lemma cons_puts_ok: "\<not> panicked s \<Longrightarrow> \<exists>t. cons_puts cs s = Ok t \<and> only_log s t"
proof (induction cs rule: rev_induct)
  case Nil
  then show ?case by (simp add: cons_puts_def)
next
  case (snoc c cs)
  have "cons_puts (cs @ [c]) s = bind_ok (cons_puts cs s) (consputc (uint c))" by (simp add: cons_puts_def)
  then show ?case using snoc by (auto intro!: bind_only_log consputc_ok simp: only_log_panicked)
qed

lemma printf_ok: "\<not> panicked s \<Longrightarrow> kprintf (map of_char fmt) args \<noteq> None \<Longrightarrow> \<exists>t. printf fmt args s = Ok t \<and> only_log s t"
  using cons_puts_ok by (auto simp: printf_def split: option.splits)

lemma procdump_one_ok: "\<not> panicked s \<Longrightarrow> \<exists>t. procdump_one i s = Ok t \<and> only_log s t"
  unfolding procdump_one_def Let_def by (auto intro!: bind_only_log printf_ok simp: only_log_panicked)

lemma for_only_log:
  assumes "\<And>i t. \<not> panicked t \<Longrightarrow> \<exists>u. f i t = Ok u \<and> only_log t u"
  shows "\<not> panicked s \<Longrightarrow> \<exists>t. for_ok f ns s = Ok t \<and> only_log s t"
  using assms by (induction ns arbitrary: s) (auto intro!: bind_only_log simp: only_log_panicked)

lemma procdump_ok: "\<not> panicked s \<Longrightarrow> \<exists>t. procdump s = Ok t \<and> only_log s t"
  unfolding procdump_def by (auto intro!: bind_only_log printf_ok for_only_log procdump_one_ok simp: only_log_panicked)

section \<open>The input buffer\<close>

definition cons_bytes :: "'a consst_scheme \<Rightarrow> u8 list" where
  "cons_bytes s = map (\<lambda>i. cons_buf s ! ((unat (cons_r s) + i) mod INPUT_BUF_SIZE)) [0..<unat (cons_e s - cons_r s)]"

definition cons_ok :: "'a consst_scheme \<Rightarrow> bool" where
  "cons_ok s \<longleftrightarrow> length (cons_buf s) = INPUT_BUF_SIZE \<and> unat (cons_e s - cons_r s) \<le> INPUT_BUF_SIZE"

interpretation input: ring INPUT_BUF_SIZE cons_buf cons_r cons_e cons_put cons_get
  rewrites "ring.queued INPUT_BUF_SIZE cons_buf cons_r cons_e = cons_bytes"
    and "ring.valid INPUT_BUF_SIZE cons_buf cons_r cons_e = cons_ok"
proof -
  show r: "ring INPUT_BUF_SIZE cons_buf cons_r cons_e cons_put cons_get"
    by unfold_locales (simp_all add: cons_put_def cons_get_def)
  show "ring.queued INPUT_BUF_SIZE cons_buf cons_r cons_e = cons_bytes"
    by (rule ext) (simp only: ring.queued_def [OF r] ring.count_def [OF r] cons_bytes_def)
  show "ring.valid INPUT_BUF_SIZE cons_buf cons_r cons_e = cons_ok"
    by (rule ext) (simp only: ring.valid_def [OF r] ring.count_def [OF r] cons_ok_def)
qed

text \<open>The complete lines, up to \<^verbatim>\<open>cons.w\<close>, and the line being typed.\<close>

definition ready :: "'a consst_scheme \<Rightarrow> u8 list" where
  "ready s = take (unat (cons_w s - cons_r s)) (cons_bytes s)"

definition typing :: "'a consst_scheme \<Rightarrow> u8 list" where
  "typing s = drop (unat (cons_w s - cons_r s)) (cons_bytes s)"

definition cons_inv :: "'a consst_scheme \<Rightarrow> bool" where
  "cons_inv s \<longleftrightarrow> cons_ok s \<and> unat (cons_w s - cons_r s) \<le> unat (cons_e s - cons_r s) \<and> 10 \<notin> set (typing s)"

lemma length_cons_bytes: "length (cons_bytes s) = unat (cons_e s - cons_r s)"
  by (simp add: cons_bytes_def)

lemma ready_typing: "ready s @ typing s = cons_bytes s"
  by (simp add: ready_def typing_def)

lemma length_ready: "cons_inv s \<Longrightarrow> length (ready s) = unat (cons_w s - cons_r s)"
  by (simp add: ready_def length_cons_bytes cons_inv_def)

lemma length_typing: "cons_inv s \<Longrightarrow> length (typing s) = unat (cons_e s - cons_w s)"
proof -
  assume "cons_inv s"
  then have "cons_w s - cons_r s \<le> cons_e s - cons_r s" by (simp add: cons_inv_def word_le_nat_alt)
  then have "unat ((cons_e s - cons_r s) - (cons_w s - cons_r s)) = unat (cons_e s - cons_r s) - unat (cons_w s - cons_r s)"
    by (rule unat_sub)
  then show ?thesis by (simp add: typing_def length_cons_bytes)
qed

lemma typing_empty: "cons_inv s \<Longrightarrow> cons_e s = cons_w s \<longleftrightarrow> typing s = []"
  using length_typing [of s] by (metis length_0_conv right_minus_eq unat_eq_0)

lemma only_log_cons:
  "only_log s t \<Longrightarrow> cons_inv t = cons_inv s \<and> ready t = ready s \<and> typing t = typing s \<and> cons_bytes t = cons_bytes s \<and> cons_ok t = cons_ok s \<and>
     cons_e t = cons_e s \<and> cons_w t = cons_w s \<and> cons_r t = cons_r s \<and> cons_buf t = cons_buf s \<and> procs t = procs s \<and> cur t = cur s"
  by (auto simp: only_log_def cons_inv_def ready_def typing_def cons_bytes_def cons_ok_def)

text \<open>What the console leaves alone.\<close>

definition cons_frame :: "'a consst_scheme \<Rightarrow> 'a consst_scheme \<Rightarrow> bool" where
  "cons_frame s t \<longleftrightarrow> uart_rx t = uart_rx s \<and> same_mem s t \<and> cur t = cur s \<and>
     (\<forall>q. p_pagetable (procs t q) = p_pagetable (procs s q)) \<and> panicked t = panicked s"

lemma cons_frame_refl [simp]: "cons_frame s s"
  by (simp add: cons_frame_def)

lemma cons_frame_trans: "cons_frame s t \<Longrightarrow> cons_frame t u \<Longrightarrow> cons_frame s u"
  by (simp add: cons_frame_def)

lemma only_log_frame: "only_log s t \<Longrightarrow> cons_frame s t"
  by (auto simp: only_log_def cons_frame_def)

text \<open>Erasing the last character of the line.\<close>

lemma erase_one:
  assumes inv: "cons_inv s" and t: "typing s \<noteq> []"
  shows "cons_inv (s\<lparr>cons_e := cons_e s - 1\<rparr>)" "ready (s\<lparr>cons_e := cons_e s - 1\<rparr>) = ready s"
    "typing (s\<lparr>cons_e := cons_e s - 1\<rparr>) = butlast (typing s)"
proof -
  let ?s = "s\<lparr>cons_e := cons_e s - 1\<rparr>" and ?k = "unat (cons_w s - cons_r s)"
  have ne: "cons_bytes s \<noteq> []" using t by (auto simp: typing_def)
  have b: "cons_bytes ?s = butlast (cons_bytes s)" "cons_ok s \<Longrightarrow> cons_ok ?s" by (rule input.unput [OF ne]; simp)+
  have k: "?k < length (cons_bytes s)" using t by (simp add: typing_def)
  show r: "ready ?s = ready s" using k by (simp add: ready_def b(1) take_butlast)
  show ty: "typing ?s = butlast (typing s)" by (simp add: typing_def b(1) drop_butlast)
  have "10 \<notin> set (typing ?s)" using inv unfolding ty by (auto simp: cons_inv_def dest: in_set_butlastD)
  then show "cons_inv ?s" using inv b k length_cons_bytes [of ?s] length_butlast [of "cons_bytes s"] by (simp add: cons_inv_def)
qed

lemma erase_echo:
  assumes "cons_inv s" "typing s \<noteq> []" "\<not> panicked s"
  shows "\<exists>t. consputc BACKSPACE (s\<lparr>cons_e := cons_e s - 1\<rparr>) = Ok t \<and> cons_inv t \<and> ready t = ready s \<and>
    typing t = butlast (typing s) \<and> cons_frame s t"
proof -
  obtain t where t: "consputc BACKSPACE (s\<lparr>cons_e := cons_e s - 1\<rparr>) = Ok t" "only_log (s\<lparr>cons_e := cons_e s - 1\<rparr>) t"
    using consputc_ok [of "s\<lparr>cons_e := cons_e s - 1\<rparr>" BACKSPACE] assms(3) by auto
  moreover have "cons_frame s t" using only_log_frame [OF t(2)] by (simp add: cons_frame_def)
  ultimately show ?thesis using only_log_cons [OF t(2)] erase_one [OF assms(1,2)] by auto
qed

lemma kill_line_spec:
  assumes "cons_inv s" "length (typing s) \<le> k" "\<not> panicked s"
  shows "\<exists>t. kill_line k s = Ok t \<and> cons_inv t \<and> ready t = ready s \<and> typing t = [] \<and> cons_frame s t"
  using assms
proof (induction k arbitrary: s)
  case (Suc k)
  show ?case
  proof (cases "typing s = []")
    case True
    then show ?thesis using Suc.prems typing_empty by auto
  next
    case False
    then have ne: "cons_bytes s \<noteq> []" by (auto simp: typing_def)
    have "last (cons_bytes s) = last (typing s)" using False ready_typing [of s] by (metis last_appendR)
    then have "cons_buf s ! unat ((cons_e s - 1) mod of_nat INPUT_BUF_SIZE) \<noteq> 10"
      using input.last_queued [OF ne] False Suc.prems(1) by (metis cons_inv_def last_in_set)
    then have "kill_line (Suc k) s = bind_ok (consputc BACKSPACE (s\<lparr>cons_e := cons_e s - 1\<rparr>)) (kill_line k)"
      using False typing_empty [OF Suc.prems(1)] by (simp del: INPUT_BUF_SIZE_def)
    moreover from erase_echo [OF Suc.prems(1) False Suc.prems(3)] obtain t where
      "consputc BACKSPACE (s\<lparr>cons_e := cons_e s - 1\<rparr>) = Ok t" "cons_inv t" "ready t = ready s" "typing t = butlast (typing s)" "cons_frame s t"
      by blast
    moreover from this have "length (typing t) \<le> k" "\<not> panicked t" using Suc.prems(2,3) by (simp_all add: cons_frame_def)
    ultimately show ?thesis using Suc.IH [of t] cons_frame_trans [of s t] by auto
  qed
qed auto

text \<open>Adding a character, and handing the line over.\<close>

lemma type_one:
  assumes inv: "cons_inv s" and room: "length (cons_bytes s) < INPUT_BUF_SIZE"
  shows "cons_ok (cons_put c s)" "ready (cons_put c s) = ready s" "typing (cons_put c s) = typing s @ [c]"
    "length (cons_bytes (cons_put c s)) = Suc (length (cons_bytes s))"
proof -
  have ok: "cons_ok s" using inv by (simp add: cons_inv_def)
  show "cons_ok (cons_put c s)" using ok room by (rule input.ok_put)
  have b: "cons_bytes (cons_put c s) = cons_bytes s @ [c]" using ok room by (rule input.elems_put)
  have f: "cons_w (cons_put c s) = cons_w s" "cons_r (cons_put c s) = cons_r s" by (simp_all add: cons_put_def)
  have k: "unat (cons_w s - cons_r s) \<le> length (cons_bytes s)" using inv by (simp add: cons_inv_def length_cons_bytes)
  show "ready (cons_put c s) = ready s" "typing (cons_put c s) = typing s @ [c]"
    using k by (simp_all add: ready_def typing_def f b)
  show "length (cons_bytes (cons_put c s)) = Suc (length (cons_bytes s))" by (simp add: b)
qed

lemma hand_over:
  assumes "cons_ok s"
  shows "cons_inv (wakeup c (s\<lparr>cons_w := cons_e s\<rparr>))" "ready (wakeup c (s\<lparr>cons_w := cons_e s\<rparr>)) = cons_bytes s"
    "typing (wakeup c (s\<lparr>cons_w := cons_e s\<rparr>)) = []"
proof -
  let ?s = "wakeup c (s\<lparr>cons_w := cons_e s\<rparr>)"
  have f: "cons_bytes ?s = cons_bytes s" "cons_ok ?s = cons_ok s" "cons_w ?s = cons_e s" "cons_r ?s = cons_r s" "cons_e ?s = cons_e s"
    by (simp_all add: wakeup_def cons_bytes_def cons_ok_def)
  show r: "ready ?s = cons_bytes s" "typing ?s = []" by (simp_all add: ready_def typing_def f flip: length_cons_bytes)
  show "cons_inv ?s" using assms r(2) by (simp add: cons_inv_def f)
qed

text \<open>The line discipline on the two lists.\<close>

definition ldisc :: "int \<Rightarrow> u8 list \<times> u8 list \<Rightarrow> u8 list \<times> u8 list" where
  "ldisc c = (\<lambda>(lines, line).
     if c = Ctrl CHR ''P'' then (lines, line)
     else if c = Ctrl CHR ''U'' then (lines, [])
     else if c = Ctrl CHR ''H'' \<or> c = 0x7f then (lines, butlast line)
     else if c = 0 \<or> length lines + length line = INPUT_BUF_SIZE then (lines, line)
     else let b = word_of_int (if c = 13 then 10 else c); line = line @ [b]
          in if b = 10 \<or> b = word_of_int (Ctrl CHR ''D'') \<or> length lines + length line = INPUT_BUF_SIZE
             then (lines @ line, []) else (lines, line))"

lemma byte_eq: "0 \<le> c \<Longrightarrow> c < 256 \<Longrightarrow> 0 \<le> d \<Longrightarrow> d < 256 \<Longrightarrow> (word_of_int c :: u8) = word_of_int d \<longleftrightarrow> c = d"
  by (simp add: word_of_int_eq_iff take_bit_int_eq_self)

lemma consoleintr_type:
  fixes s :: "'a consst_scheme"
  assumes inv: "cons_inv s" and np: "\<not> panicked s" and c: "0 < c" "c < 256"
    and plain: "c \<noteq> Ctrl CHR ''P''" "c \<noteq> Ctrl CHR ''U''" "c \<noteq> Ctrl CHR ''H''" "c \<noteq> 0x7f"
    and room: "length (cons_bytes s) < INPUT_BUF_SIZE"
  shows "\<exists>t. consoleintr c s = Ok t \<and> cons_inv t \<and> (ready t, typing t) = ldisc c (ready s, typing s) \<and> cons_frame s t \<and>
    (ready t \<noteq> ready s \<longrightarrow> awake ChanCons s t)"
proof -
  define d where "d = (if c = 13 then 10 else c)"
  have d: "0 \<le> d" "d < 256" using c by (auto simp: d_def)
  from consputc_ok [OF np, of d] obtain s1 where s1: "consputc d s = Ok s1" "only_log s s1" by blast
  note f1 = only_log_cons [OF s1(2)]
  let ?b = "word_of_int d :: u8" and ?s2 = "cons_put (word_of_int d) s1"
  have inv1: "cons_inv s1" and room1: "length (cons_bytes s1) < INPUT_BUF_SIZE" using f1 inv room by simp_all
  note t = type_one [OF inv1 room1, of ?b]
  let ?eol = "d = 10 \<or> d = Ctrl CHR ''D'' \<or> cons_e ?s2 - cons_r ?s2 = of_nat INPUT_BUF_SIZE"
  let ?s3 = "if ?eol then wakeup ChanCons (?s2\<lparr>cons_w := cons_e ?s2\<rparr>) else ?s2"
  have r: "cons_e s - cons_r s < of_nat INPUT_BUF_SIZE" using room by (simp add: length_cons_bytes word_less_nat_alt)
  have eq: "consoleintr c s = Ok ?s3"
    using plain c r s1(1) by (simp add: consoleintr_def Let_def d_def del: INPUT_BUF_SIZE_def)
  have len: "length (cons_bytes s) = length (ready s) + length (typing s)" by (metis length_append ready_typing)
  have full: "cons_e ?s2 - cons_r ?s2 = of_nat INPUT_BUF_SIZE \<longleftrightarrow> length (ready s) + Suc (length (typing s)) = INPUT_BUF_SIZE"
    using t(4) f1 len by (simp add: length_cons_bytes word_unat_eq_iff)
  have dD: "(?b = 10) = (d = 10)" "(?b = word_of_int (Ctrl CHR ''D'')) = (d = Ctrl CHR ''D'')"
    using byte_eq [OF d, of 10] byte_eq [OF d, of "Ctrl CHR ''D''"] by (simp_all add: Ctrl_def)
  have l: "ldisc c (ready s, typing s) = (if ?eol then (ready s @ typing s @ [?b], []) else (ready s, typing s @ [?b]))"
    using plain c room len unfolding ldisc_def d_def [symmetric] Let_def full dD [symmetric]
    by (simp add: d_def [symmetric] del: INPUT_BUF_SIZE_def)
  have "cons_bytes ?s2 = ready s @ typing s @ [?b]" using t(2,3) f1 ready_typing [of ?s2] by simp
  moreover have "cons_inv ?s2" if "\<not> ?eol"
  proof -
    have "unat (cons_w ?s2 - cons_r ?s2) \<le> unat (cons_e ?s2 - cons_r ?s2)"
      using inv1 t(4) by (simp add: cons_inv_def length_cons_bytes cons_put_def)
    moreover have "10 \<notin> set (typing ?s2)" using inv1 that dD by (auto simp: cons_inv_def t(3))
    ultimately show ?thesis using t(1) by (simp add: cons_inv_def)
  qed
  moreover have "cons_frame s ?s3" using only_log_frame [OF s1(2)] by (simp add: cons_put_def wakeup_def cons_frame_def)
  moreover have "awake ChanCons s (wakeup ChanCons (?s2\<lparr>cons_w := cons_e ?s2\<rparr>))"
    using f1 by (simp add: awake_def wakeup_def cons_put_def)
  ultimately show ?thesis using eq l t(1-3) hand_over [OF t(1), of ChanCons] f1 by auto
qed

section \<open>Reading a line\<close>

lemma take_one:
  assumes inv: "cons_inv s" and r: "ready s = c # cs"
  shows "cons_r s \<noteq> cons_w s" "fst (cons_get s) = c" "cons_inv (snd (cons_get s))" "ready (snd (cons_get s)) = cs"
    "typing (snd (cons_get s)) = typing s"
proof -
  let ?t = "snd (cons_get s)" and ?k = "unat (cons_w s - cons_r s)"
  have k: "?k = Suc (length cs)" using length_ready [OF inv] r by simp
  then show "cons_r s \<noteq> cons_w s" by auto
  have ok: "cons_ok s" and ne: "cons_bytes s \<noteq> []" using inv r by (auto simp: cons_inv_def ready_def)
  have b: "cons_bytes s = fst (cons_get s) # cons_bytes ?t" "cons_ok ?t"
    using input.elems_get [OF ok ne] input.ok_get [OF ok ne] by simp_all
  have "unat ((cons_w s - cons_r s) - 1) = ?k - 1" by (rule unat_minus_one) (use k in auto)
  then have k': "unat (cons_w ?t - cons_r ?t) = length cs" using k by (simp add: cons_get_def algebra_simps)
  show fst: "fst (cons_get s) = c" using r b(1) k by (simp add: ready_def)
  show "ready ?t = cs" using r b(1) k by (simp add: ready_def k')
  show ty: "typing ?t = typing s" using b(1) by (simp add: typing_def k k')
  have "length (cons_bytes s) = Suc (length (cons_bytes ?t))" by (subst b(1)) simp
  then show "cons_inv ?t" using inv b(2) ty k k' by (simp add: cons_inv_def flip: length_cons_bytes)
qed

text \<open>Storing a byte that was read.\<close>

lemma store_one:
  fixes s :: "'a consst_scheme"
  assumes "user_mem s pt M" "uacc s pt (unat dst)"
  obtains m where "either_copyout (DUser pt dst) [c] s = Ok (0, s\<lparr>phys := m\<rparr>)" "user_mem (s\<lparr>phys := m\<rparr>) pt M"
    "wrote pt M s (unat dst) [c] (s\<lparr>phys := m\<rparr>)"
  using copyout_byte [OF assms(1), of dst c] assms(2) by (auto simp: either_copyout_def)

lemma cons_phys [simp]: "cons_inv (s\<lparr>phys := m\<rparr>) = cons_inv s" "ready (s\<lparr>phys := m\<rparr>) = ready s" "typing (s\<lparr>phys := m\<rparr>) = typing s"
  by (simp_all add: cons_inv_def ready_def typing_def cons_bytes_def cons_ok_def)

lemma cons_get_frame: "procs (snd (cons_get s)) = procs s" "cur (snd (cons_get s)) = cur s" "same_mem s (snd (cons_get s))"
  by (simp_all add: cons_get_def)

lemma consoleread_line:
  fixes s :: "'a consst_scheme"
  assumes "cons_inv s" "user_mem s pt M" "pt = p_pagetable (myproc s)" "ready s = line @ 10 # rest" "10 \<notin> set line" "4 \<notin> set line"
    "length line < k" "k \<le> target" "\<forall>j\<le>length line. uacc s pt (unat dst + j)"
  shows "\<exists>s'. consoleread_from target dst k s = Ok (Done (int (target - (k - Suc (length line)))), s') \<and> cons_inv s' \<and>
    ready s' = rest \<and> typing s' = typing s \<and> pwrote pt M s (unat dst) (line @ [10]) (phys s')"
  using assms
proof (induction line arbitrary: s dst k)
  case Nil
  let ?t = "snd (cons_get s)"
  have r: "ready s = 10 # rest" using Nil by simp
  note t = take_one [OF Nil.prems(1) r] and f = cons_get_frame [of s]
  obtain u where g: "cons_get s = (10, u)" using t(2) by (cases "cons_get s") simp
  have ut: "user_mem ?t pt M" using Nil.prems(2) user_mem_cong [OF f(3)] by blast
  have at: "uacc ?t pt (unat dst)" using Nil.prems(9) uacc_cong [of ?t s] f(3) by simp
  from store_one [OF ut at, of 10] obtain m where m: "either_copyout (DUser pt dst) [10] ?t = Ok (0, ?t\<lparr>phys := m\<rparr>)"
    "wrote pt M ?t (unat dst) [10] (?t\<lparr>phys := m\<rparr>)" by metis
  have "pwrote pt M s (unat dst) [10] m" using m(2) pwrote_cong [of ?t s] f(3) by (simp add: pwrote_def)
  moreover have "consoleread_from target dst k s = Ok (Done (int (target - (k - 1))), ?t\<lparr>phys := m\<rparr>)"
    using Nil.prems(3,7) t(1) g m(1) f(1,2) by (simp add: consoleread_from.simps [of target dst k s] Ctrl_def)
  ultimately show ?case using t by simp
next
  case (Cons c line)
  let ?t = "snd (cons_get s)"
  have r: "ready s = c # line @ 10 # rest" using Cons.prems(4) by simp
  note t = take_one [OF Cons.prems(1) r] and f = cons_get_frame [of s]
  obtain u where g: "cons_get s = (c, u)" using t(2) by (cases "cons_get s") simp
  have ut: "user_mem ?t pt M" using Cons.prems(2) user_mem_cong [OF f(3)] by blast
  have a0: "uacc s pt (unat dst)" using Cons.prems(9) [rule_format, of 0] by simp
  then have at: "uacc ?t pt (unat dst)" using uacc_cong [of ?t s] f(3) by simp
  from store_one [OF ut at, of c] obtain m where m: "either_copyout (DUser pt dst) [c] ?t = Ok (0, ?t\<lparr>phys := m\<rparr>)"
    "user_mem (?t\<lparr>phys := m\<rparr>) pt M" "wrote pt M ?t (unat dst) [c] (?t\<lparr>phys := m\<rparr>)" by metis
  let ?u = "?t\<lparr>phys := m\<rparr>"
  have w: "wrote pt M s (unat dst) [c] (s\<lparr>phys := m\<rparr>)" using m(3) pwrote_cong [of ?t s] f(3) by (simp add: pwrote_def)
  have "c \<noteq> 4" using Cons.prems(6) by auto
  then have "uint c \<noteq> 4" by (simp add: word_uint_eq_iff)
  then have st: "consoleread_from target dst k s = consoleread_from target (dst + 1) (k - 1) ?u"
    using Cons.prems(3,5,7) t(1) g m(1) f(1,2) by (simp add: consoleread_from.simps [of target dst k s] Ctrl_def)
  have d1: "unat (dst + 1) = Suc (unat dst)" using uacc_range [OF a0] by (simp add: unat_word_ariths)
  have "\<exists>s'. consoleread_from target (dst + 1) (k - 1) ?u = Ok (Done (int (target - (k - 1 - Suc (length line)))), s') \<and> cons_inv s' \<and>
      ready s' = rest \<and> typing s' = typing ?u \<and> pwrote pt M ?u (unat (dst + 1)) (line @ [10]) (phys s')"
  proof (rule Cons.IH)
    show "cons_inv ?u" "user_mem ?u pt M" "ready ?u = line @ 10 # rest" using t m(2) by simp_all
    show "pt = p_pagetable (myproc ?u)" using Cons.prems(3) f by simp
    show "\<forall>j\<le>length line. uacc ?u pt (unat (dst + 1) + j)"
    proof (intro allI impI)
      fix j assume "j \<le> length line"
      then have "uacc s pt (unat dst + Suc j)" using Cons.prems(9) [rule_format, of "Suc j"] by simp
      then show "uacc ?u pt (unat (dst + 1) + j)"
        unfolding d1 using wrote_uacc [OF m(3)] uacc_cong [of ?t s] f(3) by simp
    qed
  qed (use Cons.prems in auto)
  then obtain s' where s': "consoleread_from target dst k s = Ok (Done (int (target - (k - Suc (length (c # line))))), s')" "cons_inv s'"
    "ready s' = rest" "typing s' = typing s" "pwrote pt M ?u (Suc (unat dst)) (line @ [10]) (phys s')"
    unfolding st using t(5) d1 by auto
  have "pwrote pt M s (unat dst) (c # line @ [10]) (phys s')" by (rule pwrote_Cons [OF w _ s'(5)]) simp
  then show ?case using s' by simp
qed

lemma consoleintr_spec:
  fixes s :: "'a consst_scheme"
  assumes inv: "cons_inv s" and np: "\<not> panicked s" and c: "0 \<le> c" "c < 256"
  shows "\<exists>t. consoleintr c s = Ok t \<and> cons_inv t \<and> (ready t, typing t) = ldisc c (ready s, typing s) \<and> cons_frame s t \<and>
    (ready t \<noteq> ready s \<longrightarrow> awake ChanCons s t)"
proof -
  note ctrl = Ctrl_def [of "CHR ''P''"] Ctrl_def [of "CHR ''U''"] Ctrl_def [of "CHR ''H''"] Ctrl_def [of "CHR ''D''"]
  have len: "length (cons_bytes s) = length (ready s) + length (typing s)" by (metis length_append ready_typing)
  have le: "length (cons_bytes s) \<le> INPUT_BUF_SIZE" using inv by (simp add: cons_inv_def cons_ok_def length_cons_bytes)
  consider "c = Ctrl CHR ''P''" | "c = Ctrl CHR ''U''" | "c = Ctrl CHR ''H'' \<or> c = 0x7f"
    | "c \<noteq> Ctrl CHR ''P''" "c \<noteq> Ctrl CHR ''U''" "c \<noteq> Ctrl CHR ''H''" "c \<noteq> 0x7f" by blast
  then show ?thesis
  proof cases
    case 1
    from procdump_ok [OF np] obtain t where t: "procdump s = Ok t" "only_log s t" by blast
    then have "cons_inv t" "ready t = ready s" "typing t = typing s" "cons_frame s t"
      using only_log_cons [OF t(2)] only_log_frame [OF t(2)] inv by simp_all
    then show ?thesis using 1 t(1) by (simp add: consoleintr_def ldisc_def)
  next
    case 2
    then show ?thesis using kill_line_spec [OF inv _ np, of "unat (cons_e s - cons_w s)"] length_typing [OF inv]
      by (auto simp: consoleintr_def ldisc_def ctrl)
  next
    case 3
    show ?thesis
    proof (cases "typing s = []")
      case True
      then show ?thesis using 3 typing_empty [OF inv] inv np by (auto simp: consoleintr_def ldisc_def ctrl)
    next
      case False
      then show ?thesis using 3 typing_empty [OF inv] erase_echo [OF inv False np] by (auto simp: consoleintr_def ldisc_def ctrl)
    qed
  next
    case 4
    show ?thesis
    proof (cases "c = 0 \<or> length (cons_bytes s) = INPUT_BUF_SIZE")
      case True
      then have "\<not> cons_e s - cons_r s < of_nat INPUT_BUF_SIZE \<or> c = 0" by (auto simp: length_cons_bytes word_less_nat_alt)
      then have "consoleintr c s = Ok s" using 4 by (auto simp: consoleintr_def)
      moreover have "ldisc c (ready s, typing s) = (ready s, typing s)" using 4 True len by (auto simp: ldisc_def)
      ultimately show ?thesis using inv np by simp
    next
      case False
      then show ?thesis using consoleintr_type [OF inv np _ c(2) 4] le c(1) by simp
    qed
  qed
qed


lemma uartstart_frame:
  "cons_inv (uartstart s) = cons_inv s \<and> ready (uartstart s) = ready s \<and> typing (uartstart s) = typing s \<and> same_mem s (uartstart s) \<and>
   cur (uartstart s) = cur s \<and> (\<forall>q. p_pagetable (procs (uartstart s) q) = p_pagetable (procs s q))"
proof (induction s rule: uartstart.induct)
  case (1 s)
  obtain b t where i: "tx_idle s = (b, t)" by (cases "tx_idle s")
  from tx_idle_frame [OF i] obtain m ns where t: "t = s\<lparr>uart_room := m, uart_next := ns\<rparr>" by blast
  obtain c u where g: "uart_tx_get t = (c, u)" by (cases "uart_tx_get t")
  let ?u = "WriteTHR c (wakeup ChanUart u)"
  note defs = cons_inv_def ready_def typing_def cons_bytes_def cons_ok_def
  show ?case
  proof (cases "uart_tx_w s = uart_tx_r s \<or> \<not> b")
    case True
    then show ?thesis using i by (auto simp: uartstart.simps [of s] t defs)
  next
    case False
    have "cons_inv ?u = cons_inv s \<and> ready ?u = ready s \<and> typing ?u = typing s \<and> same_mem s ?u \<and> cur ?u = cur s \<and>
        (\<forall>q. p_pagetable (procs ?u q) = p_pagetable (procs s q))"
      using g by (auto simp: t uart_tx_get_def WriteTHR_def WriteReg_def wakeup_def defs Let_def)
    moreover have "uartstart s = uartstart ?u" using False i g by (simp add: uartstart.simps [of s] Let_def)
    ultimately show ?thesis using "1.IH" [OF _ i [symmetric] _ g [symmetric] refl] False by simp
  qed
qed

text \<open>Characters without a meaning to the console.\<close>

definition plain :: "u8 \<Rightarrow> bool" where
  "plain c \<longleftrightarrow> c \<notin> {0, 4, 8, 10, 13, 16, 21, 127}"

lemma ldisc_plain:
  "plain c \<Longrightarrow> length line + 1 < INPUT_BUF_SIZE \<Longrightarrow> ldisc (uint c) ([], line) = ([], line @ [c])"
  by (simp add: plain_def ldisc_def Ctrl_def Let_def word_uint_eq_iff)

lemma ldisc_newline: "length line < INPUT_BUF_SIZE \<Longrightarrow> ldisc 13 ([], line) = (line @ [10], [])"
  by (simp add: ldisc_def Ctrl_def Let_def)

lemma uartgetc_Cons: "uart_rx s = c # cs \<Longrightarrow> uartgetc s = (uint c, s\<lparr>uart_rx := cs\<rparr>)"
  by (simp add: uartgetc_def)

lemma cons_rx [simp]: "cons_inv (s\<lparr>uart_rx := x\<rparr>) = cons_inv s" "ready (s\<lparr>uart_rx := x\<rparr>) = ready s" "typing (s\<lparr>uart_rx := x\<rparr>) = typing s"
  by (simp_all add: cons_inv_def ready_def typing_def cons_bytes_def cons_ok_def)

lemma type_line:
  fixes s :: "'a consst_scheme"
  assumes "cons_inv s" "\<not> panicked s" "uart_rx s = cs @ [13]" "ready s = []" "\<forall>c\<in>set cs. plain c"
    "length (typing s) + length cs < INPUT_BUF_SIZE"
  shows "\<exists>t. uartintr_input (cs @ [13]) s = Ok t \<and> cons_inv t \<and> ready t = typing s @ cs @ [10] \<and> typing t = [] \<and>
    cons_frame (s\<lparr>uart_rx := []\<rparr>) t"
  using assms
proof (induction cs arbitrary: s)
  case Nil
  let ?s = "s\<lparr>uart_rx := []\<rparr>"
  obtain t where "consoleintr 13 ?s = Ok t" "cons_inv t" "(ready t, typing t) = ldisc 13 ([], typing s)" "cons_frame ?s t"
    using consoleintr_spec [of ?s 13] Nil by auto
  then show ?case using Nil ldisc_newline [of "typing s"] uartgetc_Cons [of s 13 "[]"] by auto
next
  case (Cons c cs)
  let ?s = "s\<lparr>uart_rx := cs @ [13]\<rparr>"
  have g: "uartgetc s = (uint c, ?s)" using Cons.prems(3) by (simp add: uartgetc_Cons)
  have uc: "uint c < 256" using uint_lt2p [of c] by simp
  obtain t where t: "consoleintr (uint c) ?s = Ok t" "cons_inv t" "(ready t, typing t) = ldisc (uint c) ([], typing s)" "cons_frame ?s t"
    using consoleintr_spec [of ?s "uint c"] Cons.prems uc by auto
  then have r: "ready t = []" "typing t = typing s @ [c]" using ldisc_plain [of c "typing s"] Cons.prems by auto
  have "\<exists>u. uartintr_input (cs @ [13]) t = Ok u \<and> cons_inv u \<and> ready u = typing t @ cs @ [10] \<and> typing u = [] \<and>
      cons_frame (t\<lparr>uart_rx := []\<rparr>) u"
    using t r Cons.prems by (intro Cons.IH) (auto simp: cons_frame_def)
  then show ?case using g t(1,4) r by (auto simp: cons_frame_def)
qed

section \<open>A console\<close>

text \<open>The machine with a pipe, with a console whose input counters are about to wrap.\<close>

definition demo_cons :: consst where
  "demo_cons = filest.extend demo_pipe (consst.fields False [] [] 0 [0, 2] [] (replicate UART_TX_BUF_SIZE 0) 0 0
     (replicate INPUT_BUF_SIZE 0) 4294967295 4294967295 4294967295)"

lemma demo_cons_simps:
  "cons_inv demo_cons" "ready demo_cons = []" "typing demo_cons = []" "\<not> panicked demo_cons" "tx_ok demo_cons"
  "tx_bytes demo_cons = []" "uart_line demo_cons = []" "uart_room demo_cons = 0" "same_mem demo2 demo_cons" "p_pagetable (procs demo_cons i) = demo_pt"
  using demo_pipe_simps by (simp_all add: demo_cons_def filest.defs consst.defs cons_inv_def ready_def typing_def cons_ok_def
    cons_bytes_def tx_ok_def tx_bytes_def)

section \<open>Properties\<close>

text \<open>
  C26: the console input is a line discipline. Every byte from the UART is handled without a panic
  and has the effect of \<open>ldisc\<close> on the complete lines and the line being typed: characters are
  appended, backspace erases one and Control-U all of the current line, a newline, Control-D or a
  full buffer hands the line over and wakes the readers. The three indices stay in order and at
  most \<^verbatim>\<open>INPUT_BUF_SIZE\<close> apart, also across their wrap-around.
\<close>

theorem consoleintr_ldisc:
  fixes s :: "'a consst_scheme"
  assumes inv: "cons_inv s" and np: "\<not> panicked s" and c: "0 \<le> c" "c < 256"
  shows "\<exists>t. consoleintr c s = Ok t \<and> cons_inv t \<and> (ready t, typing t) = ldisc c (ready s, typing s) \<and> cons_frame s t \<and>
    (ready t \<noteq> ready s \<longrightarrow> awake ChanCons s t)"
  using assms by (rule consoleintr_spec)

theorem consoleintr_ldisc_witness:
  "\<exists>t. consoleintr 97 demo_cons = Ok t \<and> cons_inv t \<and> (ready t, typing t) = ([], [97])"
proof -
  have "ldisc 97 ([], []) = ([], [97])" by (simp add: ldisc_def Ctrl_def)
  then show ?thesis using consoleintr_ldisc [of demo_cons 97] by (auto simp: demo_cons_simps)
qed

text \<open>
  C27: a typed line reaches the reader. When the characters of a line and a carriage return arrive at
  an empty console, the interrupt handler accepts them; a \<^verbatim>\<open>consoleread\<close> with room for the line then
  returns exactly the characters and a newline, stored in user memory, and leaves the console empty.
\<close>

theorem console_roundtrip:
  fixes s :: "'a consst_scheme"
  assumes inv: "cons_inv s" "\<not> panicked s" "ready s = []" "typing s = []" and tx: "tx_ok s"
    and rx: "uart_rx s = cs @ [13]" "\<forall>c\<in>set cs. plain c" "length cs < INPUT_BUF_SIZE"
    and n: "int (length cs) < n" and u: "user_mem s (p_pagetable (myproc s)) M"
    and acc: "\<forall>j\<le>length cs. uacc s (p_pagetable (myproc s)) (unat dst + j)"
  shows "\<exists>t s'. uartintr s = Ok t \<and> consoleread dst n t = Ok (Done (int (length cs + 1)), s') \<and>
    ubytes s' (p_pagetable (myproc s)) (unat dst) (length cs + 1) = cs @ [10] \<and> cons_inv s' \<and> ready s' = [] \<and> typing s' = []"
proof -
  let ?pt = "p_pagetable (myproc s)"
  obtain t0 where t0: "uartintr_input (cs @ [13]) s = Ok t0" "cons_inv t0" "ready t0 = cs @ [10]" "typing t0 = []"
    "cons_frame (s\<lparr>uart_rx := []\<rparr>) t0" using type_line [of s cs] assms by auto
  let ?t = "uartstart t0"
  note st = uartstart_frame [of t0]
  have pt: "p_pagetable (myproc ?t) = ?pt" and same: "same_mem s ?t" using st t0(5) by (simp_all add: cons_frame_def)
  have "\<exists>s'. consoleread_from (nat n) dst (nat n) ?t = Ok (Done (int (nat n - (nat n - Suc (length cs)))), s') \<and> cons_inv s' \<and>
      ready s' = [] \<and> typing s' = typing ?t \<and> pwrote ?pt M ?t (unat dst) (cs @ [10]) (phys s')"
  proof (rule consoleread_line)
    show "user_mem ?t ?pt M" using u user_mem_cong [OF same] by blast
    show "\<forall>j\<le>length cs. uacc ?t ?pt (unat dst + j)" using acc uacc_cong [of ?t s] same by simp
    show "10 \<notin> set cs" "4 \<notin> set cs" using rx(2) by (auto simp: plain_def)
  qed (use st t0 pt n in auto)
  moreover have "int (nat n - (nat n - Suc (length cs))) = int (length cs + 1)" using n by simp
  ultimately obtain s' where s': "consoleread dst n ?t = Ok (Done (int (length cs + 1)), s')" "cons_inv s'" "ready s' = []"
    "typing s' = []" "pwrote ?pt M ?t (unat dst) (cs @ [10]) (phys s')"
    unfolding consoleread_def using st t0(4) by auto
  have "ubytes (?t\<lparr>phys := phys s'\<rparr>) ?pt (unat dst) (length (cs @ [10])) = cs @ [10]"
  proof (rule wrote_ubytes)
    show "wrote ?pt M ?t (unat dst) (cs @ [10]) (?t\<lparr>phys := phys s'\<rparr>)" using s'(5) by (simp add: pwrote_def)
    show "\<forall>j<length (cs @ [10 :: u8]). (unat dst + j) div 4096 \<in> M" using acc uacc_in [OF u] by simp
  qed
  then have "ubytes s' ?pt (unat dst) (length cs + 1) = cs @ [10]"
    using ubytes_cong [of s' "?t\<lparr>phys := phys s'\<rparr>" ?pt] by simp
  moreover have "uartintr s = Ok ?t" using t0(1) rx(1) by (simp add: uartintr_def)
  ultimately show ?thesis using s' by blast
qed

theorem console_roundtrip_witness:
  "\<exists>t s'. uartintr (demo_cons\<lparr>uart_rx := [108, 115, 13]\<rparr>) = Ok t \<and> consoleread 5 100 t = Ok (Done 3, s') \<and>
    ubytes s' demo_pt 5 3 = [108, 115, 10]"
proof -
  let ?s = "demo_cons\<lparr>uart_rx := [108, 115, 13]\<rparr>"
  have m: "same_mem demo2 ?s" by (simp add: demo_cons_simps)
  note u = demo2_user_mem [OF m]
  have tx: "tx_ok ?s" using demo_cons_simps(5) by (simp add: tx_ok_def)
  show ?thesis using console_roundtrip [of ?s "[108, 115]" 100 "{..<1}" 5] u(1,2) tx
    by (simp add: demo_cons_simps plain_def numeral_3_eq_3) blast
qed

text \<open>
  C28: the UART driver keeps the order of the output and loses no byte, however slowly the UART sends.
  \<^verbatim>\<open>uartputc\<close> waits while the transmit buffer is full and otherwise appends the byte; what the UART has
  accepted followed by what waits in the buffer is always the sequence of bytes handed to the
  driver, and bytes wait only while the UART has no room. A byte from \<^verbatim>\<open>uartputc_sync\<close> is accepted by the
  UART at once and leaves the buffer alone.
\<close>

theorem uartputc_order:
  fixes s :: "'a consst_scheme"
  assumes ok: "tx_ok s" and np: "\<not> panicked s"
  shows "(if length (tx_bytes s) = UART_TX_BUF_SIZE then uartputc c s = Ok (Asleep 0, sleep_on ChanUart s)
    else \<exists>t. uartputc c s = Ok (Done (), t) \<and> tx_ok t \<and> uart_line t @ tx_bytes t = uart_line s @ tx_bytes s @ [c] \<and>
      (tx_bytes t = [] \<or> uart_room t = 0)) \<and>
    (\<exists>t. uartputc_sync c s = Ok t \<and> tx_ok t \<and> uart_line t = uart_line s @ [c] \<and> tx_bytes t = tx_bytes s)"
proof
  show "if length (tx_bytes s) = UART_TX_BUF_SIZE then uartputc c s = Ok (Asleep 0, sleep_on ChanUart s)
    else \<exists>t. uartputc c s = Ok (Done (), t) \<and> tx_ok t \<and> uart_line t @ tx_bytes t = uart_line s @ tx_bytes s @ [c] \<and>
      (tx_bytes t = [] \<or> uart_room t = 0)"
  proof (cases "length (tx_bytes s) = UART_TX_BUF_SIZE")
    case True
    then show ?thesis using np tx.full_iff [of s] by (simp add: uartputc_def)
  next
    case False
    have full: "uart_tx_w s = uart_tx_r s + of_nat UART_TX_BUF_SIZE \<longleftrightarrow> length (tx_bytes s) = UART_TX_BUF_SIZE" by (rule tx.full_iff)
    have room: "length (tx_bytes s) < UART_TX_BUF_SIZE" using False tx.bounded [OF ok] by simp
    have "uart_line (uart_tx_put c s) = uart_line s" by (simp add: uart_tx_put_def)
    then show ?thesis using False np full uartstart_spec [OF tx.ok_put [OF ok room, of c]] tx.elems_put [OF ok room, of c]
      by (simp add: uartputc_def del: UART_TX_BUF_SIZE_def)
  qed
  obtain t where t: "uartputc_sync c s = Ok t" "only_log s t" "uart_line t = uart_line s @ [c]" using uartputc_sync_spec [OF np, of c] by blast
  then show "\<exists>t. uartputc_sync c s = Ok t \<and> tx_ok t \<and> uart_line t = uart_line s @ [c] \<and> tx_bytes t = tx_bytes s"
    using tx_cong [of t s] ok by (auto simp: only_log_def)
qed

theorem uartputc_order_witness:
  "uart_room demo_cons = 0 \<and> (\<exists>t. uartputc 65 demo_cons = Ok (Done (), t) \<and> uart_line t @ tx_bytes t = [65]) \<and>
    (\<exists>t. uartputc_sync 65 demo_cons = Ok t \<and> uart_line t = [65])"
  using uartputc_order [of demo_cons 65] by (auto simp: demo_cons_simps)

end
