(* ===== verification/Virtio.thy ===== *)
theory Virtio
  imports Proc
begin

text \<open>
  \<^verbatim>\<open>kernel/virtio_disk.c\<close>, the driver of the disk. \<open>vdisk\<close> adds \<^verbatim>\<open>struct disk\<close>, with the rings it shares
  with the device, to the state of the buffer cache and the processes; the addresses in descriptors
  are typed. The 32-bit registers of the device are an argument as far as the driver reads them, and
  \<open>vd_regs\<close> has the writes to them in order.

  \<^verbatim>\<open>virtio_disk_rw\<close> sleeps in two loops: until three descriptors are free, and until the request is
  done, which splits it into \<open>virtio_submit\<close> and \<open>virtio_finish\<close>; the results \<open>None\<close> and \<open>False\<close> say
  that the process sleeps and will run the same step again. The device itself is QEMU; the properties
  state what they need of it.
\<close>

section \<open>State\<close>

definition NUM :: nat where [simp]: "NUM = 8"

datatype vaddr = VNull | VOp nat | VData nat | VStatus nat

record desc =
  d_addr :: vaddr
  d_len :: u32
  d_flags :: u16
  d_next :: u16

definition VRING_DESC_F_NEXT :: u16 where "VRING_DESC_F_NEXT = 1"
definition VRING_DESC_F_WRITE :: u16 where "VRING_DESC_F_WRITE = 2"
definition VIRTIO_BLK_T_IN :: u32 where "VIRTIO_BLK_T_IN = 0"
definition VIRTIO_BLK_T_OUT :: u32 where "VIRTIO_BLK_T_OUT = 1"

record virtio_blk_req =
  op_type :: u32
  op_reserved :: u32
  op_sector :: u64

record vdisk = procst +
  vd_desc :: "nat \<Rightarrow> desc"
  avail_idx :: u16
  avail_ring :: "nat \<Rightarrow> u16"
  used_dev_idx :: u16
  used_ring :: "nat \<Rightarrow> u32"
  vd_free :: "nat \<Rightarrow> bool"
  vd_used_idx :: u16
  info_b :: "nat \<Rightarrow> nat option"
  info_status :: "nat \<Rightarrow> u8"
  vd_ops :: "nat \<Rightarrow> virtio_blk_req"
  b_disk :: "nat \<Rightarrow> bool"
  vd_regs :: "(nat \<times> u32) list"

section \<open>Initialisation\<close>

definition init_checks :: "(nat \<Rightarrow> u32) \<Rightarrow> string option" where
  "init_checks R =
     (if R 0x000 \<noteq> 0x74726976 \<or> R 0x004 \<noteq> 2 \<or> R 0x008 \<noteq> 2 \<or> R 0x00c \<noteq> 0x554d4551
      then Some ''could not find virtio disk''
      else if R 0x070 AND 8 = 0 then Some ''virtio disk FEATURES_OK unset''
      else if R 0x044 \<noteq> 0 then Some ''virtio disk should not be ready''
      else if R 0x034 = 0 then Some ''virtio disk has no queue 0''
      else if R 0x034 < of_nat NUM then Some ''virtio disk max queue too short''
      else None)"

definition features :: "u32 \<Rightarrow> u32" where
  "features f = fold (\<lambda>b f. f AND NOT (push_bit b 1)) [5, 7, 11, 12, 27, 29, 28] f"

text \<open>
  \<open>R\<close> gives the values of the registers when they are read.
\<close>

definition virtio_disk_init :: "(nat \<Rightarrow> u32) \<Rightarrow> 'a vdisk_scheme \<Rightarrow> 'a vdisk_scheme outcome" where
  "virtio_disk_init R s =
     (case init_checks R of
        Some msg \<Rightarrow> Panic msg
      | None \<Rightarrow>
          (case kalloc s of (desc, s) \<Rightarrow> case kalloc s of (avail, s) \<Rightarrow> case kalloc s of (used, s) \<Rightarrow>
             if desc = 0 \<or> avail = 0 \<or> used = 0 then Panic ''virtio disk kalloc''
             else Ok (s\<lparr>vd_regs := vd_regs s @
               [(0x070, 0), (0x070, 1), (0x070, 3), (0x020, features (R 0x010)), (0x070, 11), (0x030, 0),
                (0x038, of_nat NUM), (0x080, ucast desc), (0x084, ucast (drop_bit 32 desc)),
                (0x090, ucast avail), (0x094, ucast (drop_bit 32 avail)),
                (0x0a0, ucast used), (0x0a4, ucast (drop_bit 32 used)), (0x044, 1), (0x070, R 0x070 OR 4)],
                 vd_desc := (\<lambda>_. \<lparr>d_addr = VNull, d_len = 0, d_flags = 0, d_next = 0\<rparr>),
                 avail_idx := 0, avail_ring := (\<lambda>_. 0), used_dev_idx := 0, used_ring := (\<lambda>_. 0),
                 vd_free := (\<lambda>i. if i < NUM then True else vd_free s i)\<rparr>)))"

section \<open>Descriptors\<close>

definition alloc_desc :: "'a vdisk_scheme \<Rightarrow> nat option \<times> 'a vdisk_scheme" where
  "alloc_desc s =
     (case find (vd_free s) [0..<NUM] of
        None \<Rightarrow> (None, s)
      | Some i \<Rightarrow> (Some i, s\<lparr>vd_free := (vd_free s)(i := False)\<rparr>))"

definition free_desc :: "nat \<Rightarrow> 'a vdisk_scheme \<Rightarrow> 'a vdisk_scheme outcome" where
  "free_desc i s =
     (if i \<ge> NUM then Panic ''free_desc 1''
      else if vd_free s i then Panic ''free_desc 2''
      else Ok (wakeup ChanDiskFree
        (s\<lparr>vd_desc := (vd_desc s)(i := \<lparr>d_addr = VNull, d_len = 0, d_flags = 0, d_next = 0\<rparr>),
           vd_free := (vd_free s)(i := True)\<rparr>)))"

text \<open>
  The chain is followed until a descriptor without the flag \<^verbatim>\<open>NEXT\<close>. Each round frees a descriptor
  and a free one is a panic, so that \<open>NUM + 1\<close> rounds are enough.
\<close>

fun free_chain_n :: "nat \<Rightarrow> nat \<Rightarrow> 'a vdisk_scheme \<Rightarrow> 'a vdisk_scheme outcome" where
  "free_chain_n 0 i s = Blocks"
| "free_chain_n (Suc k) i s =
     (let flag = d_flags (vd_desc s i); nxt = d_next (vd_desc s i)
      in bind_ok (free_desc i s) (\<lambda>s.
         if flag AND VRING_DESC_F_NEXT \<noteq> 0 then free_chain_n k (unat nxt) s else Ok s))"

definition free_chain :: "nat \<Rightarrow> 'a vdisk_scheme \<Rightarrow> 'a vdisk_scheme outcome" where
  "free_chain i s = free_chain_n (NUM + 1) i s"

primrec alloc_descs :: "nat \<Rightarrow> nat list \<Rightarrow> 'a vdisk_scheme \<Rightarrow> (nat list option \<times> 'a vdisk_scheme) outcome" where
  "alloc_descs 0 ids s = Ok (Some ids, s)"
| "alloc_descs (Suc k) ids s =
     (case alloc_desc s of
        (Some i, s) \<Rightarrow> alloc_descs k (ids @ [i]) s
      | (None, s) \<Rightarrow> bind_ok (for_ok free_desc ids s) (\<lambda>s. Ok (None, s)))"

definition alloc3_desc :: "'a vdisk_scheme \<Rightarrow> (nat list option \<times> 'a vdisk_scheme) outcome" where
  "alloc3_desc s = alloc_descs 3 [] s"

section \<open>Requests\<close>

definition fill_chain :: "nat \<Rightarrow> bool \<Rightarrow> nat \<Rightarrow> nat \<Rightarrow> nat \<Rightarrow> 'a vdisk_scheme \<Rightarrow> 'a vdisk_scheme" where
  "fill_chain b write i0 i1 i2 s =
     s\<lparr>vd_ops := (vd_ops s)(i0 := \<lparr>op_type = (if write then VIRTIO_BLK_T_OUT else VIRTIO_BLK_T_IN),
           op_reserved = 0, op_sector = ucast (b_blockno (bufs s b) * of_nat (BSIZE div 512))\<rparr>),
       vd_desc := (vd_desc s)(
         i0 := \<lparr>d_addr = VOp i0, d_len = 16, d_flags = VRING_DESC_F_NEXT, d_next = of_nat i1\<rparr>,
         i1 := \<lparr>d_addr = VData b, d_len = of_nat BSIZE,
                d_flags = (if write then 0 else VRING_DESC_F_WRITE) OR VRING_DESC_F_NEXT, d_next = of_nat i2\<rparr>,
         i2 := \<lparr>d_addr = VStatus i0, d_len = 1, d_flags = VRING_DESC_F_WRITE, d_next = 0\<rparr>),
       info_status := (info_status s)(i0 := 0xff)\<rparr>"

definition virtio_submit :: "nat \<Rightarrow> bool \<Rightarrow> 'a vdisk_scheme \<Rightarrow> (nat option \<times> 'a vdisk_scheme) outcome" where
  "virtio_submit b write s =
     bind_ok (alloc3_desc s) (\<lambda>(ids, s).
       case ids of
         Some [i0, i1, i2] \<Rightarrow>
           (let s = fill_chain b write i0 i1 i2 s;
                s = s\<lparr>b_disk := (b_disk s)(b := True), info_b := (info_b s)(i0 := Some b)\<rparr>
            in Ok (Some i0, s\<lparr>avail_ring := (avail_ring s)(unat (avail_idx s mod of_nat NUM) := of_nat i0),
                              avail_idx := avail_idx s + 1, vd_regs := vd_regs s @ [(0x050, 0)]\<rparr>))
       | _ \<Rightarrow> Ok (None, sleep_on ChanDiskFree s))"

definition virtio_finish :: "nat \<Rightarrow> nat \<Rightarrow> 'a vdisk_scheme \<Rightarrow> (bool \<times> 'a vdisk_scheme) outcome" where
  "virtio_finish b i0 s =
     (if b_disk s b then Ok (False, sleep_on (ChanBuf b) s)
      else bind_ok (free_chain i0 (s\<lparr>info_b := (info_b s)(i0 := None)\<rparr>)) (\<lambda>s. Ok (True, s)))"

text \<open>The loop of the interrupt handler, over \<open>k\<close> entries of the used ring.\<close>

primrec virtio_intr_loop :: "nat \<Rightarrow> 'a vdisk_scheme \<Rightarrow> 'a vdisk_scheme outcome" where
  "virtio_intr_loop 0 s = Ok s"
| "virtio_intr_loop (Suc k) s =
     (let id = unat (used_ring s (unat (vd_used_idx s mod of_nat NUM)))
      in if info_status s id \<noteq> 0 then Panic ''virtio_disk_intr status''
         else case info_b s id of
           None \<Rightarrow> Undef
         | Some b \<Rightarrow>
             virtio_intr_loop k ((wakeup (ChanBuf b) (s\<lparr>b_disk := (b_disk s)(b := False)\<rparr>))
               \<lparr>vd_used_idx := vd_used_idx s + 1\<rparr>))"

text \<open>\<open>irq\<close> is the value of the register \<^verbatim>\<open>INTERRUPT_STATUS\<close>.\<close>

definition virtio_disk_intr :: "u32 \<Rightarrow> 'a vdisk_scheme \<Rightarrow> 'a vdisk_scheme outcome" where
  "virtio_disk_intr irq s =
     virtio_intr_loop (unat (used_dev_idx s - vd_used_idx s)) (s\<lparr>vd_regs := vd_regs s @ [(0x064, irq AND 3)]\<rparr>)"

section \<open>A request, the device and the interrupt\<close>

abbreviation free_descs :: "'a vdisk_scheme \<Rightarrow> nat set" where
  "free_descs s \<equiv> {i. i < NUM \<and> vd_free s i}"

lemma alloc_desc_Some:
  assumes "free_descs s \<noteq> {}"
  obtains i where "alloc_desc s = (Some i, s\<lparr>vd_free := (vd_free s)(i := False)\<rparr>)" "i < NUM" "vd_free s i"
proof (cases "find (vd_free s) [0..<NUM]")
  case None
  then show thesis using assms unfolding find_upt_None by blast
next
  case (Some i)
  then have "i < NUM" "vd_free s i" by (simp_all only: find_upt_Some)
  moreover have "alloc_desc s = (Some i, s\<lparr>vd_free := (vd_free s)(i := False)\<rparr>)"
    by (simp only: alloc_desc_def Some option.case)
  ultimately show thesis by (intro that)
qed

lemma card_nonempty: "k \<le> card A \<Longrightarrow> 0 < k \<Longrightarrow> A \<noteq> {}"
  by auto

lemma alloc3_desc_ok:
  fixes s :: "'a vdisk_scheme"
  assumes "3 \<le> card (free_descs s)"
  obtains i0 i1 i2 where "alloc3_desc s = Ok (Some [i0, i1, i2], s\<lparr>vd_free := (vd_free s)(i0 := False, i1 := False, i2 := False)\<rparr>)"
    "distinct [i0, i1, i2]" "{i0, i1, i2} \<subseteq> free_descs s"
proof -
  have "free_descs s \<noteq> {}" using card_nonempty [OF assms] by simp
  then obtain i0 where 0: "alloc_desc s = (Some i0, s\<lparr>vd_free := (vd_free s)(i0 := False)\<rparr>)" "i0 < NUM" "vd_free s i0"
    by (rule alloc_desc_Some)
  let ?s0 = "s\<lparr>vd_free := (vd_free s)(i0 := False)\<rparr>"
  have f0: "free_descs ?s0 = free_descs s - {i0}" by auto
  then have c0: "2 \<le> card (free_descs ?s0)" using assms 0 by simp
  then have "free_descs ?s0 \<noteq> {}" by (rule card_nonempty) simp
  then obtain i1 where 1: "alloc_desc ?s0 = (Some i1, ?s0\<lparr>vd_free := (vd_free ?s0)(i1 := False)\<rparr>)" "i1 < NUM" "vd_free ?s0 i1"
    by (rule alloc_desc_Some)
  let ?s1 = "s\<lparr>vd_free := (vd_free s)(i0 := False, i1 := False)\<rparr>"
  have "free_descs ?s1 = free_descs ?s0 - {i1}" by auto
  then have "1 \<le> card (free_descs ?s1)" using c0 1 by simp
  then have "free_descs ?s1 \<noteq> {}" by (rule card_nonempty) simp
  then obtain i2 where 2: "alloc_desc ?s1 = (Some i2, ?s1\<lparr>vd_free := (vd_free ?s1)(i2 := False)\<rparr>)" "i2 < NUM" "vd_free ?s1 i2"
    by (rule alloc_desc_Some)
  have "alloc3_desc s = Ok (Some [i0, i1, i2], s\<lparr>vd_free := (vd_free s)(i0 := False, i1 := False, i2 := False)\<rparr>)"
    using 0 1 2 by (simp add: alloc3_desc_def numeral_3_eq_3)
  moreover have "i1 \<noteq> i0" "vd_free s i1" using 1(3) by (auto split: if_splits)
  moreover have "i2 \<noteq> i0" "i2 \<noteq> i1" "vd_free s i2" using 2(3) by (auto split: if_splits)
  moreover note 0(2,3) 1(2) 2(2)
  ultimately show thesis by (intro that [of i0 i1 i2]) simp_all
qed

text \<open>
  The requests that the specification of the block device asks it to serve (virtio 1.1, sections
  2.6 and 5.2.6): a chain of three descriptors, which are the 16 bytes of the header, read by the
  device; the data, one block long, which the device writes if the request is \<^verbatim>\<open>IN\<close> and reads if it is \<^verbatim>\<open>OUT\<close>;
  and the byte of the status, written by the device. The sectors are within the capacity \<open>cap\<close> of the
  disk.
\<close>

definition desc_ok :: "desc \<Rightarrow> vaddr \<Rightarrow> nat \<Rightarrow> bool \<Rightarrow> bool \<Rightarrow> bool" where
  "desc_ok d a len wr nxt \<longleftrightarrow> d_addr d = a \<and> d_len d = of_nat len \<and>
     (d_flags d AND VRING_DESC_F_WRITE \<noteq> 0 \<longleftrightarrow> wr) \<and> (d_flags d AND VRING_DESC_F_NEXT \<noteq> 0 \<longleftrightarrow> nxt)"

definition blk_request :: "nat \<Rightarrow> 'a vdisk_scheme \<Rightarrow> nat \<Rightarrow> nat \<Rightarrow> bool" where
  "blk_request cap s i0 b =
     (let r = vd_ops s i0; i1 = unat (d_next (vd_desc s i0)); i2 = unat (d_next (vd_desc s i1))
      in i0 < NUM \<and> i1 < NUM \<and> i2 < NUM \<and> distinct [i0, i1, i2] \<and>
         desc_ok (vd_desc s i0) (VOp i0) 16 False True \<and>
         desc_ok (vd_desc s i1) (VData b) BSIZE (op_type r = VIRTIO_BLK_T_IN) True \<and>
         desc_ok (vd_desc s i2) (VStatus i0) 1 True False \<and>
         (op_type r = VIRTIO_BLK_T_IN \<or> op_type r = VIRTIO_BLK_T_OUT) \<and> op_reserved r = 0 \<and>
         even (unat (op_sector r)) \<and> unat (op_sector r) + BSIZE div 512 \<le> cap)"

text \<open>The device has been notified of one request that it has not served: the one with head \<open>i0\<close>.\<close>

definition blk_pending :: "'a vdisk_scheme \<Rightarrow> nat \<Rightarrow> bool" where
  "blk_pending s i0 \<longleftrightarrow> avail_idx s = used_dev_idx s + 1 \<and> avail_ring s (unat (used_dev_idx s mod of_nat NUM)) = of_nat i0 \<and>
     vd_regs s \<noteq> [] \<and> last (vd_regs s) = (0x050, 0)"

text \<open>
  What the device does with such a request when no error occurs: it moves the data, stores the
  status 0 and adds the head of the chain to the used ring. Of other states nothing is assumed.
\<close>

definition blk_serve :: "nat \<Rightarrow> nat \<Rightarrow> 'a vdisk_scheme \<Rightarrow> 'a vdisk_scheme" where
  "blk_serve i0 b s =
     (let n = ucast (op_sector (vd_ops s i0) div 2)
      in (if op_type (vd_ops s i0) = VIRTIO_BLK_T_OUT
          then s\<lparr>disk_blocks := (disk_blocks s)(n := b_data (bufs s b)), disk_hist := disk_hist s @ [(n, b_data (bufs s b))]\<rparr>
          else upd_buf b (\<lambda>x. x\<lparr>b_data := disk_blocks s n\<rparr>) s)
         \<lparr>info_status := (info_status s)(i0 := 0),
          used_ring := (used_ring s)(unat (used_dev_idx s mod of_nat NUM) := of_nat i0),
          used_dev_idx := used_dev_idx s + 1\<rparr>)"

definition serves :: "nat \<Rightarrow> ('a vdisk_scheme \<Rightarrow> 'a vdisk_scheme) \<Rightarrow> bool" where
  "serves cap dev \<longleftrightarrow> (\<forall>s i0 b. blk_pending s i0 \<and> blk_request cap s i0 b \<longrightarrow> dev s = blk_serve i0 b s)"

lemma sector_unat: "unat b < 2 ^ 31 \<Longrightarrow> unat (ucast (b * of_nat (BSIZE div 512) :: u32) :: u64) = 2 * unat b" for b :: u32
  by (simp add: unat_word_ariths)

lemma sector_block: "unat b < 2 ^ 31 \<Longrightarrow> ucast (ucast (b * of_nat (BSIZE div 512) :: u32) div 2 :: u64) = b" for b :: u32
proof -
  assume b: "unat b < 2 ^ 31"
  have "unat (b * 2) = 2 * unat b" using b by (simp add: unat_word_ariths)
  then have "unat (ucast (b * 2 :: u32) div 2 :: u64) = unat b" by (simp add: unat_div)
  then have "unat (ucast (ucast (b * 2 :: u32) div 2 :: u64) :: u32) = unat b"
    using unat_u32_less [of b] by (simp only: unsigned_ucast_eq) (simp add: take_bit_nat_eq_self)
  then show ?thesis by (simp add: word_unat_eq_iff)
qed

lemma submit_spec:
  fixes s :: "'a vdisk_scheme"
  assumes "3 \<le> card (free_descs s)"
  obtains i0 i1 i2 where "virtio_submit b write s = Ok (Some i0, (fill_chain b write i0 i1 i2
      (s\<lparr>vd_free := (vd_free s)(i0 := False, i1 := False, i2 := False)\<rparr>))
      \<lparr>b_disk := (b_disk s)(b := True), info_b := (info_b s)(i0 := Some b),
       avail_ring := (avail_ring s)(unat (avail_idx s mod of_nat NUM) := of_nat i0), avail_idx := avail_idx s + 1,
       vd_regs := vd_regs s @ [(0x050, 0)]\<rparr>)"
    "distinct [i0, i1, i2]" "i0 < NUM" "i1 < NUM" "i2 < NUM" "vd_free s i0" "vd_free s i1" "vd_free s i2"
proof -
  from assms obtain i0 i1 i2 where
    a: "alloc3_desc s = Ok (Some [i0, i1, i2], s\<lparr>vd_free := (vd_free s)(i0 := False, i1 := False, i2 := False)\<rparr>)"
    and d: "distinct [i0, i1, i2]" "{i0, i1, i2} \<subseteq> free_descs s" by (rule alloc3_desc_ok)
  have "virtio_submit b write s = Ok (Some i0, (fill_chain b write i0 i1 i2
      (s\<lparr>vd_free := (vd_free s)(i0 := False, i1 := False, i2 := False)\<rparr>))
      \<lparr>b_disk := (b_disk s)(b := True), info_b := (info_b s)(i0 := Some b),
       avail_ring := (avail_ring s)(unat (avail_idx s mod of_nat NUM) := of_nat i0), avail_idx := avail_idx s + 1,
       vd_regs := vd_regs s @ [(0x050, 0)]\<rparr>)"
    by (simp add: virtio_submit_def a Let_def fill_chain_def)
  then show thesis using that d by simp
qed

lemma unat_desc: "i < NUM \<Longrightarrow> unat (of_nat i :: u16) = i" "i < NUM \<Longrightarrow> unat (of_nat i :: u32) = i"
  by (simp_all add: unat_of_nat take_bit_nat_eq_self)

lemma wakeup_disk [simp]:
  "vd_desc (wakeup c s) = vd_desc s" "vd_free (wakeup c s) = vd_free s" "info_b (wakeup c s) = info_b s"
  "info_status (wakeup c s) = info_status s" "b_disk (wakeup c s) = b_disk s" "used_ring (wakeup c s) = used_ring s"
  "used_dev_idx (wakeup c s) = used_dev_idx s" "avail_idx (wakeup c s) = avail_idx s" "vd_used_idx (wakeup c s) = vd_used_idx s" "bufs (wakeup c s) = bufs s"
  "disk_blocks (wakeup c s) = disk_blocks s" "disk_hist (wakeup c s) = disk_hist s" "phys (wakeup c s) = phys s"
  by (simp_all add: wakeup_def)

text \<open>What the end of a request leaves alone.\<close>

definition disk_frame :: "'a vdisk_scheme \<Rightarrow> 'a vdisk_scheme \<Rightarrow> bool" where
  "disk_frame s s' \<longleftrightarrow> bufs s' = bufs s \<and> disk_blocks s' = disk_blocks s \<and> disk_hist s' = disk_hist s \<and> phys s' = phys s \<and>
     used_dev_idx s' = used_dev_idx s \<and> avail_idx s' = avail_idx s \<and> vd_used_idx s' = vd_used_idx s \<and> b_disk s' = b_disk s"

lemma free_chain_three:
  fixes s :: "'a vdisk_scheme"
  assumes d: "distinct [i0, i1, i2]" "i0 < NUM" "i1 < NUM" "i2 < NUM"
    and f: "\<not> vd_free s i0" "\<not> vd_free s i1" "\<not> vd_free s i2"
    and c: "d_flags (vd_desc s i0) AND 1 \<noteq> 0" "d_next (vd_desc s i0) = of_nat i1"
      "d_flags (vd_desc s i1) AND 1 \<noteq> 0" "d_next (vd_desc s i1) = of_nat i2" "d_flags (vd_desc s i2) AND 1 = 0"
  obtains s' where "free_chain i0 s = Ok s'" "vd_free s' = (vd_free s)(i0 := True, i1 := True, i2 := True)" "disk_frame s s'"
proof -
  have "\<exists>s'. free_chain_n (Suc (Suc (Suc k))) i0 s = Ok s' \<and>
      vd_free s' = (vd_free s)(i0 := True, i1 := True, i2 := True) \<and> disk_frame s s'" for k
    using d f c unat_desc(1) [OF d(3)] unat_desc(1) [OF d(4)]
    by (simp add: free_desc_def VRING_DESC_F_NEXT_def Let_def disk_frame_def del: NUM_def)
  from this [of 6] show thesis using that by (auto simp: free_chain_def)
qed

section \<open>Properties\<close>

text \<open>
  C17: the driver implements the disk operation of the buffer cache. With three descriptors free,
  no other request and no completion left to look at, \<^verbatim>\<open>virtio_disk_rw\<close> notifies the device of a request
  that has the form the specification of the device prescribes, in the direction, the length and
  the place of each part; after a device that serves such requests has run and the interrupt
  handler has been called, it finishes, with the descriptors free again. By then the disk and the
  buffers are what \<open>disk_rw\<close> makes of them: the write has reached the disk or the buffer holds the
  block.
\<close>

theorem virtio_disk_rw_refines:
  fixes s :: "'a vdisk_scheme" and dev :: "'a vdisk_scheme \<Rightarrow> 'a vdisk_scheme"
  assumes dev: "serves cap dev" and free: "3 \<le> card (free_descs s)"
    and used: "used_dev_idx s = vd_used_idx s" and idle: "avail_idx s = used_dev_idx s"
    and b: "unat (b_blockno (bufs s b)) < 2 ^ 31" and cap: "2 * unat (b_blockno (bufs s b)) + 2 \<le> cap"
  shows "\<exists>i0 s1 s2 s3. virtio_submit b write s = Ok (Some i0, s1) \<and> blk_pending s1 i0 \<and> blk_request cap s1 i0 b \<and>
    virtio_disk_intr irq (dev s1) = Ok s2 \<and>
    virtio_finish b i0 s2 = Ok (True, s3) \<and> disk_blocks s3 = disk_blocks (disk_rw b write s) \<and>
    bufs s3 = bufs (disk_rw b write s) \<and> disk_hist s3 = disk_hist (disk_rw b write s) \<and>
    phys s3 = phys s \<and> free_descs s3 = free_descs s \<and> used_dev_idx s3 = vd_used_idx s3 \<and>
    avail_idx s3 = used_dev_idx s3 \<and> \<not> b_disk s3 b"
proof -
  from free obtain i0 i1 i2 where sub: "virtio_submit b write s = Ok (Some i0, (fill_chain b write i0 i1 i2
      (s\<lparr>vd_free := (vd_free s)(i0 := False, i1 := False, i2 := False)\<rparr>))
      \<lparr>b_disk := (b_disk s)(b := True), info_b := (info_b s)(i0 := Some b),
       avail_ring := (avail_ring s)(unat (avail_idx s mod of_nat NUM) := of_nat i0), avail_idx := avail_idx s + 1,
       vd_regs := vd_regs s @ [(0x050, 0)]\<rparr>)"
    and d: "distinct [i0, i1, i2]" "i0 < NUM" "i1 < NUM" "i2 < NUM"
    and fr: "vd_free s i0" "vd_free s i1" "vd_free s i2"
    by (rule submit_spec)
  define s1 where "s1 = (fill_chain b write i0 i1 i2
      (s\<lparr>vd_free := (vd_free s)(i0 := False, i1 := False, i2 := False)\<rparr>))
      \<lparr>b_disk := (b_disk s)(b := True), info_b := (info_b s)(i0 := Some b),
       avail_ring := (avail_ring s)(unat (avail_idx s mod of_nat NUM) := of_nat i0), avail_idx := avail_idx s + 1,
       vd_regs := vd_regs s @ [(0x050, 0)]\<rparr>"
  let ?n = "b_blockno (bufs s b)"
  have u: "unat (of_nat i1 :: u16) = i1" "unat (of_nat i2 :: u16) = i2" "unat (of_nat i0 :: u32) = i0"
    using unat_desc d by auto
  have c: "d_addr (vd_desc s1 i0) = VOp i0" "d_next (vd_desc s1 i0) = of_nat i1" "d_addr (vd_desc s1 i1) = VData b"
    "d_next (vd_desc s1 i1) = of_nat i2" "d_addr (vd_desc s1 i2) = VStatus i0"
    "d_flags (vd_desc s1 i0) AND 1 \<noteq> 0" "d_flags (vd_desc s1 i1) AND 1 \<noteq> 0" "d_flags (vd_desc s1 i2) AND 1 = 0"
    "op_sector (vd_ops s1 i0) = ucast (?n * of_nat (BSIZE div 512))"
    "op_type (vd_ops s1 i0) = (if write then VIRTIO_BLK_T_OUT else VIRTIO_BLK_T_IN)" "op_reserved (vd_ops s1 i0) = 0"
    using d(1) by (simp_all add: s1_def fill_chain_def VRING_DESC_F_NEXT_def VRING_DESC_F_WRITE_def)
  have pend: "blk_pending s1 i0" using idle by (simp add: s1_def fill_chain_def blk_pending_def)
  have sec: "unat (op_sector (vd_ops s1 i0)) = 2 * unat ?n" unfolding c(9) by (rule sector_unat [OF b])
  have "desc_ok (vd_desc s1 i0) (VOp i0) 16 False True" "desc_ok (vd_desc s1 i1) (VData b) BSIZE (\<not> write) True"
    "desc_ok (vd_desc s1 i2) (VStatus i0) 1 True False"
    using d(1) by (simp_all add: s1_def fill_chain_def desc_ok_def VRING_DESC_F_NEXT_def VRING_DESC_F_WRITE_def)
  moreover have "op_type (vd_ops s1 i0) = VIRTIO_BLK_T_IN \<longleftrightarrow> \<not> write" by (simp add: c(10) VIRTIO_BLK_T_OUT_def VIRTIO_BLK_T_IN_def)
  ultimately have req: "blk_request cap s1 i0 b" using d c(2,4,10,11) u(1,2) sec cap by (auto simp: blk_request_def Let_def)
  have same: "bufs s1 = bufs s" "disk_blocks s1 = disk_blocks s" "disk_hist s1 = disk_hist s" "phys s1 = phys s"
    "used_dev_idx s1 = used_dev_idx s" "vd_used_idx s1 = vd_used_idx s" "info_b s1 i0 = Some b"
    "vd_free s1 = (vd_free s)(i0 := False, i1 := False, i2 := False)"
    by (simp_all add: s1_def fill_chain_def)
  have n: "ucast (op_sector (vd_ops s1 i0) div 2) = ?n" unfolding c(9) by (rule sector_block [OF b])
  have t: "dev s1 = (disk_rw b write s1)\<lparr>info_status := (info_status s1)(i0 := 0),
      used_ring := (used_ring s1)(unat (used_dev_idx s1 mod of_nat NUM) := of_nat i0), used_dev_idx := used_dev_idx s1 + 1\<rparr>"
    using dev [unfolded serves_def, rule_format, of s1 i0 b] pend req c(10)
    by (simp add: blk_serve_def n Let_def disk_rw_def upd_buf_def same VIRTIO_BLK_T_OUT_def VIRTIO_BLK_T_IN_def split: if_splits)
  have rw: "vd_desc (disk_rw b write s1) = vd_desc s1" "vd_free (disk_rw b write s1) = vd_free s1"
      "info_b (disk_rw b write s1) = info_b s1" "b_disk (disk_rw b write s1) = b_disk s1"
      "vd_used_idx (disk_rw b write s1) = vd_used_idx s" "phys (disk_rw b write s1) = phys s" "avail_idx (disk_rw b write s1) = avail_idx s + 1"
      "bufs (disk_rw b write s1) = bufs (disk_rw b write s)" "disk_blocks (disk_rw b write s1) = disk_blocks (disk_rw b write s)"
      "disk_hist (disk_rw b write s1) = disk_hist (disk_rw b write s)"
    using same by (simp_all add: disk_rw_def upd_buf_def s1_def fill_chain_def)
  define s2 where "s2 = (wakeup (ChanBuf b) ((dev s1)\<lparr>vd_regs := vd_regs (dev s1) @ [(0x064, irq AND 3)], b_disk := (b_disk s1)(b := False)\<rparr>))
    \<lparr>vd_used_idx := vd_used_idx s + 1\<rparr>"
  have intr: "virtio_disk_intr irq (dev s1) = Ok s2"
    unfolding virtio_disk_intr_def using used same rw u(3) by (simp add: s2_def t Let_def)
  let ?s2 = "s2\<lparr>info_b := (info_b s2)(i0 := None)\<rparr>"
  have f2: "\<not> vd_free ?s2 i0" "\<not> vd_free ?s2 i1" "\<not> vd_free ?s2 i2" using d(1) by (simp_all add: s2_def t rw same)
  have c2: "d_flags (vd_desc ?s2 i0) AND 1 \<noteq> 0" "d_next (vd_desc ?s2 i0) = of_nat i1"
      "d_flags (vd_desc ?s2 i1) AND 1 \<noteq> 0" "d_next (vd_desc ?s2 i1) = of_nat i2" "d_flags (vd_desc ?s2 i2) AND 1 = 0"
    using c by (simp_all add: s2_def t rw)
  from d f2 c2 obtain s3 where fin: "free_chain i0 ?s2 = Ok s3"
      "vd_free s3 = (vd_free ?s2)(i0 := True, i1 := True, i2 := True)" "disk_frame ?s2 s3" by (rule free_chain_three)
  have "virtio_finish b i0 s2 = Ok (True, s3)" using fin(1) by (simp add: virtio_finish_def s2_def)
  moreover have "free_descs s3 = free_descs s" using fr by (auto simp: fin(2) s2_def t rw same)
  moreover have "disk_blocks s3 = disk_blocks (disk_rw b write s)" "bufs s3 = bufs (disk_rw b write s)"
      "disk_hist s3 = disk_hist (disk_rw b write s)" "phys s3 = phys s" "used_dev_idx s3 = vd_used_idx s3" "avail_idx s3 = used_dev_idx s3" "\<not> b_disk s3 b"
    using used idle fin(3) by (simp_all add: disk_frame_def s2_def t rw same)
  moreover note sub [folded s1_def] intr pend req
  ultimately show ?thesis by blast
qed

text \<open>
  A device that checks the request, so that a malformed one is ignored, and a state in which a block
  is written.
\<close>

definition example_device :: "nat \<Rightarrow> vdisk \<Rightarrow> vdisk" where
  "example_device cap s =
     (let i0 = unat (avail_ring s (unat (used_dev_idx s mod of_nat NUM)))
      in case d_addr (vd_desc s (unat (d_next (vd_desc s i0)))) of
           VData b \<Rightarrow> if blk_pending s i0 \<and> blk_request cap s i0 b then blk_serve i0 b s else s
         | _ \<Rightarrow> s)"

lemma example_device_serves: "serves cap (example_device cap)"
proof -
  have "example_device cap s = blk_serve i0 b s" if "blk_pending s i0" "blk_request cap s i0 b" for s i0 b
  proof -
    have "i0 < NUM" "d_addr (vd_desc s (unat (d_next (vd_desc s i0)))) = VData b"
      using that(2) by (simp_all add: blk_request_def Let_def desc_ok_def)
    moreover have "avail_ring s (unat (used_dev_idx s mod of_nat NUM)) = of_nat i0" using that(1) by (simp add: blk_pending_def)
    ultimately show ?thesis using that by (simp add: example_device_def unat_desc Let_def)
  qed
  then show ?thesis by (simp add: serves_def)
qed

definition example_vdisk :: vdisk where
  "example_vdisk = upd_buf 2 (\<lambda>b. b\<lparr>b_valid := True, b_dev := 1, b_blockno := 5, b_refcnt := 1, b_data := replicate BSIZE 7\<rparr>)
     (zero_data (vdisk.fields (\<lambda>_. \<lparr>d_addr = VNull, d_len = 0, d_flags = 0, d_next = 0\<rparr>) 65535 (\<lambda>_. 0) 65535 (\<lambda>_. 0)
        (\<lambda>i. i < NUM) 65535 (\<lambda>_. None) (\<lambda>_. 0) (\<lambda>_. \<lparr>op_type = 0, op_reserved = 0, op_sector = 0\<rparr>) (\<lambda>_. False) []))"

lemma example_vdisk_simps:
  "vd_free example_vdisk = (\<lambda>i. i < NUM)" "used_dev_idx example_vdisk = 65535" "vd_used_idx example_vdisk = 65535" "avail_idx example_vdisk = 65535"
  "b_blockno (bufs example_vdisk 2) = 5" "b_data (bufs example_vdisk 2) = replicate BSIZE 7"
  by (simp_all add: example_vdisk_def zero_data_def upd_buf_def vdisk.defs)

theorem virtio_disk_rw_refines_witness:
  "\<exists>i0 s1 s2 s3. virtio_submit 2 True example_vdisk = Ok (Some i0, s1) \<and> virtio_disk_intr 1 (example_device 2000 s1) = Ok s2 \<and>
    virtio_finish 2 i0 s2 = Ok (True, s3) \<and> disk_blocks s3 5 = replicate BSIZE 7 \<and> \<not> b_disk s3 2"
proof -
  have "3 \<le> card (free_descs example_vdisk)" by (simp add: example_vdisk_simps)
  with virtio_disk_rw_refines [OF example_device_serves, of example_vdisk 2 2000 True 1] obtain i0 s1 s2 s3 where
    "virtio_submit 2 True example_vdisk = Ok (Some i0, s1)" "virtio_disk_intr 1 (example_device 2000 s1) = Ok s2"
    "virtio_finish 2 i0 s2 = Ok (True, s3)" "disk_blocks s3 = disk_blocks (disk_rw 2 True example_vdisk)" "\<not> b_disk s3 2"
    by (auto simp: example_vdisk_simps)
  then show ?thesis by (intro exI conjI) (assumption | simp add: example_vdisk_simps disk_rw_def)+
qed

end
