(* ===== verification/Spinlock.thy ===== *)
theory Spinlock
  imports Xv6_Prelude
begin

text \<open>
  \<^verbatim>\<open>kernel/spinlock.c\<close>. The state has the fields of \<^verbatim>\<open>struct cpu\<close> that the locks use, with the interrupt
  enable bit of each CPU, and the locks by name; \<^verbatim>\<open>mycpu()\<close> is the argument \<open>c\<close>. \<^verbatim>\<open>noff\<close> is a 32-bit \<^verbatim>\<open>int\<close>, read
  by \<open>sint\<close>; to count beyond its largest value is undefined in C, the outcome \<open>Undef\<close>. Each function is an
  atomic step here, \<open>Blocks\<close> where \<^verbatim>\<open>acquire\<close> spins. The second part splits \<^verbatim>\<open>acquire\<close> and
  \<^verbatim>\<open>release\<close> into their single accesses to memory, interleaved over the CPUs, and shows that the locks
  exclude each other at that level.
\<close>

section \<open>Operations\<close>

record cpu =
  noff :: "32 word"
  intena :: bool
  intr :: bool

record spinlock =
  lk_locked :: bool
  lk_cpu :: "nat option"

record 'l lkst =
  cpus :: "nat \<Rightarrow> cpu"
  locks :: "'l \<Rightarrow> spinlock"

definition upd_cpu :: "nat \<Rightarrow> (cpu \<Rightarrow> cpu) \<Rightarrow> ('l, 'a) lkst_scheme \<Rightarrow> ('l, 'a) lkst_scheme" where
  "upd_cpu c f s = s\<lparr>cpus := (cpus s)(c := f (cpus s c))\<rparr>"

definition upd_lock :: "'l \<Rightarrow> (spinlock \<Rightarrow> spinlock) \<Rightarrow> ('l, 'a) lkst_scheme \<Rightarrow> ('l, 'a) lkst_scheme" where
  "upd_lock l f s = s\<lparr>locks := (locks s)(l := f (locks s l))\<rparr>"

definition initlock :: "'l \<Rightarrow> ('l, 'a) lkst_scheme \<Rightarrow> ('l, 'a) lkst_scheme" where
  "initlock l s = upd_lock l (\<lambda>_. \<lparr>lk_locked = False, lk_cpu = None\<rparr>) s"

definition holding :: "nat \<Rightarrow> 'l \<Rightarrow> ('l, 'a) lkst_scheme \<Rightarrow> bool" where
  "holding c l s \<longleftrightarrow> lk_locked (locks s l) \<and> lk_cpu (locks s l) = Some c"

definition push_off :: "nat \<Rightarrow> ('l, 'a) lkst_scheme \<Rightarrow> ('l, 'a) lkst_scheme outcome" where
  "push_off c s =
     (let old = intr (cpus s c);
          s = upd_cpu c (\<lambda>x. x\<lparr>intr := False\<rparr>) s;
          s = (if noff (cpus s c) = 0 then upd_cpu c (\<lambda>x. x\<lparr>intena := old\<rparr>) s else s)
      in if sint (noff (cpus s c)) = 2 ^ 31 - 1 then Undef
         else Ok (upd_cpu c (\<lambda>x. x\<lparr>noff := noff x + 1\<rparr>) s))"

definition pop_off :: "nat \<Rightarrow> ('l, 'a) lkst_scheme \<Rightarrow> ('l, 'a) lkst_scheme outcome" where
  "pop_off c s =
     (if intr (cpus s c) then Panic ''pop_off - interruptible''
      else if sint (noff (cpus s c)) < 1 then Panic ''pop_off''
      else let s = upd_cpu c (\<lambda>x. x\<lparr>noff := noff x - 1\<rparr>) s
           in Ok (if noff (cpus s c) = 0 \<and> intena (cpus s c) then upd_cpu c (\<lambda>x. x\<lparr>intr := True\<rparr>) s else s))"

definition acquire :: "nat \<Rightarrow> 'l \<Rightarrow> ('l, 'a) lkst_scheme \<Rightarrow> ('l, 'a) lkst_scheme outcome" where
  "acquire c l s =
     bind_ok (push_off c s) (\<lambda>s.
       if holding c l s then Panic ''acquire''
       else if lk_locked (locks s l) then Blocks
       else Ok (upd_lock l (\<lambda>_. \<lparr>lk_locked = True, lk_cpu = Some c\<rparr>) s))"

definition release :: "nat \<Rightarrow> 'l \<Rightarrow> ('l, 'a) lkst_scheme \<Rightarrow> ('l, 'a) lkst_scheme outcome" where
  "release c l s =
     (if \<not> holding c l s then Panic ''release''
      else pop_off c (upd_lock l (\<lambda>_. \<lparr>lk_locked = False, lk_cpu = None\<rparr>) s))"

section \<open>Nested critical sections on one CPU\<close>

text \<open>
  \<open>nested c d e s\<close>: \<open>d\<close> sections are open on CPU \<open>c\<close>, and interrupts were enabled before the first
  if \<open>e\<close>.
\<close>

definition nested :: "nat \<Rightarrow> nat \<Rightarrow> bool \<Rightarrow> ('l, 'a) lkst_scheme \<Rightarrow> bool" where
  "nested c d e s \<longleftrightarrow> noff (cpus s c) = of_nat d \<and> d < 2 ^ 31 \<and>
     (if d = 0 then intr (cpus s c) = e else \<not> intr (cpus s c) \<and> intena (cpus s c) = e)"

lemma noff_of_nat:
  assumes "d < 2 ^ 31"
  shows "sint (of_nat d :: 32 word) = int d" "(of_nat d :: 32 word) = 0 \<longleftrightarrow> d = 0"
proof -
  have u: "unat (of_nat d :: 32 word) = d" using assms by (intro unat_of_nat_u32) simp
  then have i: "uint (of_nat d :: 32 word) = int d" by (simp add: uint_nat)
  have "signed_take_bit 31 (int d) = int d" by (rule signed_take_bit_int_eq_self) (use assms in simp_all)
  then show "sint (of_nat d :: 32 word) = int d" unfolding sint_uint i by simp
  show "(of_nat d :: 32 word) = 0 \<longleftrightarrow> d = 0" using unat_eq_zero [of "of_nat d :: 32 word"] u by metis
qed

lemma push_off_cases:
  assumes "nested c d e s"
  shows "push_off c s = (if d = 2 ^ 31 - 1 then Undef
    else Ok (upd_cpu c (\<lambda>x. x\<lparr>intr := False, intena := if d = 0 then intr x else intena x, noff := noff x + 1\<rparr>) s))"
proof -
  have d: "noff (cpus s c) = of_nat d" "d < 2 ^ 31" using assms by (simp_all add: nested_def)
  have "int d = 2 ^ 31 - 1 \<longleftrightarrow> d = 2 ^ 31 - 1" by auto
  then show ?thesis using noff_of_nat [OF d(2)] d(1) by (simp add: push_off_def upd_cpu_def Let_def)
qed

lemma nested_push:
  assumes "nested c d e s" "push_off c s = Ok t"
  shows "nested c (Suc d) e t"
proof -
  have "d < 2 ^ 31" "d \<noteq> 2 ^ 31 - 1" using assms push_off_cases [OF assms(1)] by (auto simp: nested_def)
  then have "Suc d < 2 ^ 31" by simp
  then show ?thesis using assms push_off_cases [OF assms(1)] by (auto simp: nested_def upd_cpu_def split: if_splits)
qed

lemma nested_push_ok: "nested c d e s \<Longrightarrow> Suc d < 2 ^ 31 \<Longrightarrow> \<exists>t. push_off c s = Ok t"
  using push_off_cases [of c d e s] by auto

lemma nested_pop:
  assumes "nested c (Suc d) e s"
  shows "\<exists>t. pop_off c s = Ok t \<and> nested c d e t \<and> locks t = locks s"
proof -
  have d: "noff (cpus s c) = of_nat (Suc d)" "Suc d < 2 ^ 31" "\<not> intr (cpus s c)" "intena (cpus s c) = e"
    using assms by (simp_all add: nested_def)
  have s: "sint (noff (cpus s c)) = int (Suc d)" unfolding d(1) by (rule noff_of_nat(1) [OF d(2)])
  have m: "noff (cpus s c) - 1 = of_nat d" unfolding d(1) by simp
  have z: "(of_nat d :: 32 word) = 0 \<longleftrightarrow> d = 0" by (rule noff_of_nat(2)) (use d(2) in simp)
  show ?thesis using d s m z by (simp add: pop_off_def upd_cpu_def Let_def nested_def)
qed

lemma nested_other:
  "c' \<noteq> c \<Longrightarrow> push_off c' s = Ok t \<Longrightarrow> nested c d e t = nested c d e s"
  "c' \<noteq> c \<Longrightarrow> pop_off c' s = Ok t \<Longrightarrow> nested c d e t = nested c d e s"
  by (auto simp: nested_def push_off_def pop_off_def upd_cpu_def Let_def split: if_splits)

datatype bracket = Push | Pop

primrec brackets :: "nat \<Rightarrow> bracket list \<Rightarrow> ('l, 'a) lkst_scheme \<Rightarrow> ('l, 'a) lkst_scheme outcome" where
  "brackets c [] s = Ok s"
| "brackets c (b # bs) s = bind_ok (case b of Push \<Rightarrow> push_off c s | Pop \<Rightarrow> pop_off c s) (brackets c bs)"

text \<open>
  The number of open sections after a sequence; \<open>None\<close> if one is closed that is not open, or if more are
  open at once than an \<^verbatim>\<open>int\<close> can count.
\<close>

primrec depth :: "bracket list \<Rightarrow> nat \<Rightarrow> nat option" where
  "depth [] d = Some d"
| "depth (b # bs) d = (case b of Push \<Rightarrow> if Suc d < 2 ^ 31 then depth bs (Suc d) else None | Pop \<Rightarrow> if d = 0 then None else depth bs (d - 1))"

lemma brackets_nested:
  "nested c d e s \<Longrightarrow> depth bs d = Some d' \<Longrightarrow> \<exists>t. brackets c bs s = Ok t \<and> nested c d' e t"
proof (induction bs arbitrary: s d)
  case (Cons b bs)
  show ?case
  proof (cases b)
    case Push
    then have d: "Suc d < 2 ^ 31" "depth bs (Suc d) = Some d'" using Cons.prems(2) by (simp_all split: if_splits)
    then obtain t where t: "push_off c s = Ok t" using nested_push_ok [OF Cons.prems(1)] by blast
    show ?thesis using Cons.IH [OF nested_push [OF Cons.prems(1) t] d(2)] Push t by simp
  next
    case Pop
    then obtain d1 where d1: "d = Suc d1" using Cons.prems(2) by (cases d) auto
    then obtain t where "pop_off c s = Ok t" "nested c d1 e t" using nested_pop Cons.prems(1) by blast
    then show ?thesis using Cons.IH [of d1 t] Cons.prems(2) Pop d1 by simp
  qed
qed simp

section \<open>Acquire and release, access by access\<close>

text \<open>
  Where a CPU is in \<^verbatim>\<open>acquire\<close> and \<^verbatim>\<open>release\<close> of one lock: outside; after \<^verbatim>\<open>push_off\<close>; spinning; after
  the successful swap; inside; after the check of \<^verbatim>\<open>release\<close>; with \<^verbatim>\<open>lk->cpu\<close> cleared; with the lock
  released; in a panic.
\<close>

datatype lpc = LOut | LPushed | LSpin | LSwapped | LIn | LChecked | LCleared | LFreed | LPanic

record 'l mlkst = "'l lkst" +
  lpcs :: "nat \<Rightarrow> lpc"

definition goto :: "nat \<Rightarrow> lpc \<Rightarrow> ('l, 'a) mlkst_scheme \<Rightarrow> ('l, 'a) mlkst_scheme" where
  "goto c p s = s\<lparr>lpcs := (lpcs s)(c := p)\<rparr>"

inductive lstep :: "'l \<Rightarrow> ('l, 'a) mlkst_scheme \<Rightarrow> ('l, 'a) mlkst_scheme \<Rightarrow> bool" for l where
  l_push: "lpcs s c = LOut \<Longrightarrow>
    lstep l s (case push_off c s of Ok t \<Rightarrow> goto c LPushed t | _ \<Rightarrow> goto c LPanic s)"
| l_check: "lpcs s c = LPushed \<Longrightarrow> lstep l s (goto c (if holding c l s then LPanic else LSpin) s)"
| l_swap: "lpcs s c = LSpin \<Longrightarrow>
    lstep l s (goto c (if lk_locked (locks s l) then LSpin else LSwapped) (upd_lock l (\<lambda>k. k\<lparr>lk_locked := True\<rparr>) s))"
| l_owner: "lpcs s c = LSwapped \<Longrightarrow> lstep l s (goto c LIn (upd_lock l (\<lambda>k. k\<lparr>lk_cpu := Some c\<rparr>) s))"
| l_checked: "lpcs s c = LIn \<Longrightarrow> lstep l s (goto c (if holding c l s then LChecked else LPanic) s)"
| l_clear: "lpcs s c = LChecked \<Longrightarrow> lstep l s (goto c LCleared (upd_lock l (\<lambda>k. k\<lparr>lk_cpu := None\<rparr>) s))"
| l_free: "lpcs s c = LCleared \<Longrightarrow> lstep l s (goto c LFreed (upd_lock l (\<lambda>k. k\<lparr>lk_locked := False\<rparr>) s))"
| l_pop: "lpcs s c = LFreed \<Longrightarrow>
    lstep l s (case pop_off c s of Ok t \<Rightarrow> goto c LOut t | _ \<Rightarrow> goto c LPanic s)"

fun has_lock :: "lpc \<Rightarrow> bool" where
  "has_lock p = (p = LSwapped \<or> p = LIn \<or> p = LChecked \<or> p = LCleared)"

fun inside :: "lpc \<Rightarrow> bool" where
  "inside p = (p = LIn \<or> p = LChecked)"

text \<open>
  The invariant, with \<open>h\<close> the CPU that has the lock: the lock is taken exactly if there is one;
  \<^verbatim>\<open>lk->cpu\<close> names it while it is inside; a CPU between \<^verbatim>\<open>push_off\<close> and \<^verbatim>\<open>pop_off\<close> has interrupts off.
\<close>

definition lock_held :: "'l \<Rightarrow> nat option \<Rightarrow> ('l, 'a) mlkst_scheme \<Rightarrow> bool" where
  "lock_held l h s \<longleftrightarrow> (\<forall>c. has_lock (lpcs s c) \<longleftrightarrow> h = Some c) \<and>
     (lk_locked (locks s l) \<longleftrightarrow> h \<noteq> None) \<and>
     lk_cpu (locks s l) = (case h of Some c \<Rightarrow> if inside (lpcs s c) then Some c else None | None \<Rightarrow> None)"

fun ldepth :: "lpc \<Rightarrow> nat" where
  "ldepth p = (if p = LOut then 0 else 1)"

definition lock_cpus :: "('l, 'a) mlkst_scheme \<Rightarrow> bool" where
  "lock_cpus s \<longleftrightarrow> (\<forall>c. lpcs s c \<noteq> LPanic \<and> (\<exists>e. nested c (ldepth (lpcs s c)) e s))"

definition lock_inv :: "'l \<Rightarrow> ('l, 'a) mlkst_scheme \<Rightarrow> bool" where
  "lock_inv l s \<longleftrightarrow> (\<exists>h. lock_held l h s) \<and> lock_cpus s"

lemma goto_simps [simp]:
  "locks (goto c p s) = locks s" "cpus (goto c p s) = cpus s" "lpcs (goto c p s) = (lpcs s)(c := p)"
  "nested c' d e (goto c p s) = nested c' d e s"
  by (simp_all add: goto_def nested_def)

lemma upd_lock_simps [simp]:
  "locks (upd_lock l f s) = (locks s)(l := f (locks s l))" "cpus (upd_lock l f s) = cpus s"
  "nested c' d e (upd_lock l f s) = nested c' d e s" "lpcs (upd_lock l f t) = lpcs t"
  by (simp_all add: upd_lock_def nested_def)

lemma push_off_locks: "push_off c s = Ok t \<Longrightarrow> locks t = locks s"
  by (auto simp: push_off_def upd_cpu_def Let_def split: if_splits)

lemma push_off_lpcs: "push_off c s = Ok t \<Longrightarrow> lpcs t = lpcs s"
  by (auto simp: push_off_def upd_cpu_def Let_def split: if_splits)

lemma pop_off_lpcs: "pop_off c t = Ok u \<Longrightarrow> lpcs u = lpcs t"
  by (auto simp: pop_off_def upd_cpu_def Let_def split: if_splits)

lemma lock_cpusD: "lock_cpus s \<Longrightarrow> \<exists>e. nested c (ldepth (lpcs s c)) e s" "lock_cpus s \<Longrightarrow> lpcs s c \<noteq> LPanic"
  unfolding lock_cpus_def by blast+

lemma lock_cpusI:
  assumes "lock_cpus s" "\<And>c'. c' \<noteq> c \<Longrightarrow> lpcs t c' = lpcs s c'" "\<And>c' d e. c' \<noteq> c \<Longrightarrow> nested c' d e t = nested c' d e s"
    "lpcs t c \<noteq> LPanic" "\<exists>e. nested c (ldepth (lpcs t c)) e t"
  shows "lock_cpus t"
  unfolding lock_cpus_def
proof
  fix c'
  show "lpcs t c' \<noteq> LPanic \<and> (\<exists>e. nested c' (ldepth (lpcs t c')) e t)"
    using assms lock_cpusD [OF assms(1), of c'] by (cases "c' = c") auto
qed

lemma lock_cpus_goto:
  assumes "lock_cpus s" "lpcs s c \<noteq> LOut" "p \<noteq> LOut" "p \<noteq> LPanic"
  shows "lock_cpus (goto c p (upd_lock l f s))" "lock_cpus (goto c p s)"
  using assms lock_cpusD(1) [OF assms(1), of c] by (auto intro!: lock_cpusI [OF assms(1), of c])

lemma lock_cpus_push:
  assumes "lock_cpus s" "lpcs s c = LOut"
  shows "\<exists>t. push_off c s = Ok t \<and> lock_cpus (goto c LPushed t) \<and> lpcs t = lpcs s \<and> locks t = locks s"
proof -
  obtain e where e: "nested c 0 e s" using lock_cpusD(1) [OF assms(1), of c] assms(2) by auto
  then obtain t where t: "push_off c s = Ok t" using nested_push_ok [of c 0 e s] by auto
  note p = push_off_lpcs [OF t] and n = nested_push [OF e t]
  have "lock_cpus (goto c LPushed t)"
    by (rule lock_cpusI [OF assms(1), of c]) (use n p nested_other(1) [OF _ t] in auto)
  then show ?thesis using t p push_off_locks [OF t] by blast
qed

lemma lock_cpus_pop:
  assumes "lock_cpus s" "lpcs s c = LFreed"
  shows "\<exists>t. pop_off c s = Ok t \<and> lock_cpus (goto c LOut t) \<and> lpcs t = lpcs s \<and> locks t = locks s"
proof -
  obtain e where "nested c (Suc 0) e s" using lock_cpusD(1) [OF assms(1), of c] assms(2) by auto
  then obtain t where t: "pop_off c s = Ok t" "nested c 0 e t" "locks t = locks s" using nested_pop by blast
  note p = pop_off_lpcs [OF t(1)]
  have "lock_cpus (goto c LOut t)"
    by (rule lock_cpusI [OF assms(1), of c]) (use t(2) p nested_other(2) [OF _ t(1)] in auto)
  then show ?thesis using t p by blast
qed

lemma held_goto:
  assumes "lock_held l h s" "has_lock p = has_lock (lpcs s c)" "inside p = inside (lpcs s c)" "locks t = locks s" "lpcs t = lpcs s"
  shows "lock_held l h (goto c p t)"
proof -
  have "has_lock (if c' = c then p else lpcs s c') = has_lock (lpcs s c')" "inside (if c' = c then p else lpcs s c') = inside (lpcs s c')" for c'
    using assms(2,3) by auto
  then show ?thesis using assms(1) by (simp add: lock_held_def assms(4,5) del: has_lock.simps inside.simps split: option.splits)
qed

lemma held_swap:
  assumes "lock_held l h s" "lpcs s c = LSpin"
  shows "\<exists>h. lock_held l h (goto c (if lk_locked (locks s l) then LSpin else LSwapped) (upd_lock l (\<lambda>k. k\<lparr>lk_locked := True\<rparr>) s))"
proof (cases h)
  case None
  then show ?thesis using assms by (intro exI [of _ "Some c"]) (simp add: lock_held_def)
next
  case (Some c')
  then have "has_lock (lpcs s c')" using assms(1) by (simp add: lock_held_def)
  then have "c' \<noteq> c" using assms(2) by auto
  then show ?thesis using assms Some by (intro exI [of _ h]) (simp add: lock_held_def)
qed

lemma heldD: "lock_held l h s \<Longrightarrow> has_lock (lpcs s c) \<longleftrightarrow> h = Some c"
  by (simp add: lock_held_def del: has_lock.simps)

lemma held_owner:
  assumes "lock_held l h s" "lpcs s c = LSwapped"
  shows "lock_held l h (goto c LIn (upd_lock l (\<lambda>k. k\<lparr>lk_cpu := Some c\<rparr>) s))"
  using assms heldD [OF assms(1), of c] by (auto simp: lock_held_def)

lemma held_clear:
  assumes "lock_held l h s" "lpcs s c = LChecked"
  shows "lock_held l h (goto c LCleared (upd_lock l (\<lambda>k. k\<lparr>lk_cpu := None\<rparr>) s))"
  using assms heldD [OF assms(1), of c] by (auto simp: lock_held_def)

lemma held_free:
  assumes "lock_held l h s" "lpcs s c = LCleared"
  shows "lock_held l None (goto c LFreed (upd_lock l (\<lambda>k. k\<lparr>lk_locked := False\<rparr>) s))"
  using assms heldD [OF assms(1), of c] by (auto simp: lock_held_def)

lemma held_holding: "lock_held l h s \<Longrightarrow> holding c l s \<longleftrightarrow> inside (lpcs s c)"
proof -
  assume h: "lock_held l h s"
  then have "holding c l s \<longleftrightarrow> h = Some c \<and> inside (lpcs s c)"
    by (auto simp: lock_held_def holding_def split: option.splits if_splits)
  moreover have "h = Some c" if "inside (lpcs s c)" using heldD [OF h, of c] that by auto
  ultimately show ?thesis by blast
qed

lemma lock_inv_step:
  assumes "lstep l s t" "lock_inv l s"
  shows "lock_inv l t"
  using assms
proof (induction rule: lstep.induct)
  case (l_push s c)
  then obtain h where h: "lock_held l h s" "lock_cpus s" by (auto simp: lock_inv_def)
  from lock_cpus_push [OF h(2) l_push(1)] obtain t where
    t: "push_off c s = Ok t" "lock_cpus (goto c LPushed t)" "lpcs t = lpcs s" "locks t = locks s" by blast
  have "lock_held l h (goto c LPushed t)" by (rule held_goto [OF h(1)]) (use l_push t in auto)
  then show ?case using t by (auto simp: lock_inv_def)
next
  case (l_check s c)
  then obtain h where h: "lock_held l h s" "lock_cpus s" by (auto simp: lock_inv_def)
  have "lock_held l h (goto c LSpin s)" by (rule held_goto [OF h(1)]) (use l_check in auto)
  then show ?case using lock_cpus_goto(2) [OF h(2), of c LSpin] l_check held_holding [OF h(1), of c] by (auto simp: lock_inv_def)
next
  case (l_swap s c)
  then obtain h where h: "lock_held l h s" "lock_cpus s" by (auto simp: lock_inv_def)
  then show ?case using held_swap [OF h(1) l_swap(1)] l_swap(1)
      lock_cpus_goto(1) [OF h(2), of c "if lk_locked (locks s l) then LSpin else LSwapped" l] by (simp add: lock_inv_def)
next
  case (l_owner s c)
  then obtain h where h: "lock_held l h s" "lock_cpus s" by (auto simp: lock_inv_def)
  show ?case unfolding lock_inv_def using held_owner [OF h(1) l_owner(1)] lock_cpus_goto(1) [OF h(2), of c LIn l "\<lambda>k. k\<lparr>lk_cpu := Some c\<rparr>"] l_owner(1) by auto
next
  case (l_checked s c)
  then obtain h where h: "lock_held l h s" "lock_cpus s" by (auto simp: lock_inv_def)
  have "lock_held l h (goto c LChecked s)" by (rule held_goto [OF h(1)]) (use l_checked in auto)
  then show ?case using lock_cpus_goto(2) [OF h(2), of c LChecked] l_checked held_holding [OF h(1), of c] by (auto simp: lock_inv_def)
next
  case (l_clear s c)
  then obtain h where h: "lock_held l h s" "lock_cpus s" by (auto simp: lock_inv_def)
  show ?case unfolding lock_inv_def using held_clear [OF h(1) l_clear(1)] lock_cpus_goto(1) [OF h(2), of c LCleared l "\<lambda>k. k\<lparr>lk_cpu := None\<rparr>"] l_clear(1) by auto
next
  case (l_free s c)
  then obtain h where h: "lock_held l h s" "lock_cpus s" by (auto simp: lock_inv_def)
  show ?case unfolding lock_inv_def using held_free [OF h(1) l_free(1)] lock_cpus_goto(1) [OF h(2), of c LFreed l "\<lambda>k. k\<lparr>lk_locked := False\<rparr>"] l_free(1) by auto
next
  case (l_pop s c)
  then obtain h where h: "lock_held l h s" "lock_cpus s" by (auto simp: lock_inv_def)
  from lock_cpus_pop [OF h(2) l_pop(1)] obtain t where
    t: "pop_off c s = Ok t" "lock_cpus (goto c LOut t)" "lpcs t = lpcs s" "locks t = locks s" by blast
  have "lock_held l h (goto c LOut t)" by (rule held_goto [OF h(1)]) (use l_pop t in auto)
  then show ?case using t by (auto simp: lock_inv_def)
qed

text \<open>The atomic \<^verbatim>\<open>acquire\<close> and \<^verbatim>\<open>release\<close> are runs of the single accesses.\<close>

lemma upd_lock_twice: "upd_lock l f (upd_lock l g s) = upd_lock l (\<lambda>k. f (g k)) s"
  by (simp add: upd_lock_def)

lemma whole_lock:
  "k\<lparr>lk_locked := a, lk_cpu := b\<rparr> = \<lparr>lk_locked = a, lk_cpu = b\<rparr>" "k\<lparr>lk_cpu := b, lk_locked := a\<rparr> = \<lparr>lk_locked = a, lk_cpu = b\<rparr>"
  by (cases k, simp)+

lemma goto_upd_lock: "upd_lock l f (goto c p s) = goto c p (upd_lock l f s)"
  by (simp add: upd_lock_def goto_def)

lemma goto_twice [simp]: "goto c p (goto c q s) = goto c p s"
  by (simp add: goto_def)

lemma holding_goto [simp]: "holding c l (goto c' p s) = holding c l s"
  by (simp add: holding_def)

lemma pop_off_goto: "pop_off c s = Ok t \<Longrightarrow> pop_off c (goto c' p s) = Ok (goto c' p t)"
  by (auto simp: pop_off_def goto_def upd_cpu_def Let_def split: if_splits)

lemma acquire_runs:
  assumes "acquire c l s = Ok t" "lpcs s c = LOut"
  shows "(lstep l)\<^sup>*\<^sup>* s (goto c LIn t)"
proof -
  obtain s1 where s1: "push_off c s = Ok s1" using assms(1) by (auto simp: acquire_def bind_ok_eq_Ok)
  have f: "\<not> holding c l s1" "\<not> lk_locked (locks s1 l)" and t: "t = upd_lock l (\<lambda>_. \<lparr>lk_locked = True, lk_cpu = Some c\<rparr>) s1"
    using assms(1) s1 by (auto simp: acquire_def split: if_splits)
  have "lstep l s (goto c LPushed s1)" using l_push [of s c l] assms(2) s1 by simp
  moreover have "lstep l (goto c LPushed s1) (goto c LSpin s1)" using l_check [of "goto c LPushed s1" c l] f(1) by simp
  moreover have "lstep l (goto c LSpin s1) (goto c LSwapped (upd_lock l (\<lambda>k. k\<lparr>lk_locked := True\<rparr>) s1))"
    using l_swap [of "goto c LSpin s1" c l] f(2) by (simp add: goto_upd_lock)
  moreover have "lstep l (goto c LSwapped (upd_lock l (\<lambda>k. k\<lparr>lk_locked := True\<rparr>) s1)) (goto c LIn t)"
    using l_owner [of "goto c LSwapped (upd_lock l (\<lambda>k. k\<lparr>lk_locked := True\<rparr>) s1)" c l]
    by (simp add: goto_upd_lock upd_lock_twice whole_lock t)
  ultimately show ?thesis by (meson converse_rtranclp_into_rtranclp rtranclp.rtrancl_refl)
qed

lemma release_runs:
  assumes "release c l s = Ok t" "lpcs s c = LIn"
  shows "(lstep l)\<^sup>*\<^sup>* s (goto c LOut t)"
proof -
  let ?s3 = "upd_lock l (\<lambda>_. \<lparr>lk_locked = False, lk_cpu = None\<rparr>) s"
  have h: "holding c l s" and p: "pop_off c ?s3 = Ok t" using assms(1) by (auto simp: release_def split: if_splits)
  have "lstep l s (goto c LChecked s)" using l_checked [of s c l] h assms(2) by simp
  moreover have "lstep l (goto c LChecked s) (goto c LCleared (upd_lock l (\<lambda>k. k\<lparr>lk_cpu := None\<rparr>) s))"
    using l_clear [of "goto c LChecked s" c l] by (simp add: goto_upd_lock)
  moreover have "lstep l (goto c LCleared (upd_lock l (\<lambda>k. k\<lparr>lk_cpu := None\<rparr>) s)) (goto c LFreed ?s3)"
    using l_free [of "goto c LCleared (upd_lock l (\<lambda>k. k\<lparr>lk_cpu := None\<rparr>) s)" c l]
    by (simp add: goto_upd_lock upd_lock_twice whole_lock)
  moreover have "lstep l (goto c LFreed ?s3) (goto c LOut t)"
    using l_pop [of "goto c LFreed ?s3" c l] pop_off_goto [OF p, of c LFreed] by simp
  ultimately show ?thesis by (meson converse_rtranclp_into_rtranclp rtranclp.rtrancl_refl)
qed

section \<open>Properties\<close>

text \<open>The lock free and every CPU outside.\<close>

definition lock_start :: "'l \<Rightarrow> ('l, 'a) mlkst_scheme \<Rightarrow> bool" where
  "lock_start l s \<longleftrightarrow> locks s l = \<lparr>lk_locked = False, lk_cpu = None\<rparr> \<and> (\<forall>c. lpcs s c = LOut \<and> noff (cpus s c) = 0)"

lemma lock_start_inv: "lock_start l s \<Longrightarrow> lock_inv l s"
  by (auto simp: lock_start_def lock_inv_def lock_held_def lock_cpus_def nested_def)

lemma lock_inv_run: "(lstep l)\<^sup>*\<^sup>* s t \<Longrightarrow> lock_inv l s \<Longrightarrow> lock_inv l t"
  by (induction rule: rtranclp_induct) (auto intro: lock_inv_step)

text \<open>
  C19: a spin lock gives mutual exclusion. However the single memory accesses of \<^verbatim>\<open>acquire\<close> and
  \<^verbatim>\<open>release\<close> on any number of CPUs interleave, at most one CPU is between the two, \<^verbatim>\<open>holding\<close> is true
  exactly for it, none of the panics of the lock code is reached, and interrupts are off on every
  CPU that holds or waits for the lock.
\<close>

theorem spinlock_mutual_exclusion:
  assumes "lock_start l s" "(lstep l)\<^sup>*\<^sup>* s t"
  shows "(\<forall>c c'. has_lock (lpcs t c) \<and> has_lock (lpcs t c') \<longrightarrow> c = c') \<and>
    (\<forall>c. holding c l t \<longleftrightarrow> inside (lpcs t c)) \<and> (\<forall>c. lpcs t c \<noteq> LPanic) \<and>
    (\<forall>c. lpcs t c \<noteq> LOut \<longrightarrow> \<not> intr (cpus t c))"
proof -
  have "lock_inv l t" using lock_inv_run [OF assms(2) lock_start_inv [OF assms(1)]] .
  then obtain h where h: "lock_held l h t" "lock_cpus t" by (auto simp: lock_inv_def)
  have "\<not> intr (cpus t c)" if "lpcs t c \<noteq> LOut" for c
    using lock_cpusD(1) [OF h(2), of c] that by (auto simp: nested_def)
  moreover have "c = c'" if "has_lock (lpcs t c)" "has_lock (lpcs t c')" for c c'
    using heldD [OF h(1)] that by (simp del: has_lock.simps)
  ultimately show ?thesis using held_holding [OF h(1)] lock_cpusD(2) [OF h(2)] by blast
qed

definition demo_locks :: "unit mlkst" where
  "demo_locks = \<lparr>cpus = (\<lambda>_. \<lparr>noff = 0, intena = False, intr = True\<rparr>), locks = (\<lambda>_. \<lparr>lk_locked = False, lk_cpu = None\<rparr>),
     lpcs = (\<lambda>_. LOut)\<rparr>"

theorem spinlock_mutual_exclusion_witness:
  "\<exists>t. acquire 0 () demo_locks = Ok t \<and> (lstep ())\<^sup>*\<^sup>* demo_locks (goto 0 LIn t) \<and> holding 0 () (goto 0 LIn t)"
proof -
  obtain t where t: "acquire 0 () demo_locks = Ok t"
    by (simp add: acquire_def push_off_def upd_cpu_def demo_locks_def holding_def Let_def)
  then have r: "(lstep ())\<^sup>*\<^sup>* demo_locks (goto 0 LIn t)" by (rule acquire_runs) (simp add: demo_locks_def)
  have "lock_start () demo_locks" by (simp add: lock_start_def demo_locks_def)
  from spinlock_mutual_exclusion [OF this r] show ?thesis using t r by auto
qed

text \<open>
  C20: \<^verbatim>\<open>push_off\<close> and \<^verbatim>\<open>pop_off\<close> nest. A sequence of them that never closes more sections than it
  opened, and never has more open at once than the 32-bit \<^verbatim>\<open>noff\<close> can count, runs without a panic or overflow
  and leaves in \<^verbatim>\<open>noff\<close> the number of open sections; interrupts are off while a section is open, and when the last one is
  closed they are enabled exactly if they were before the first.
\<close>

theorem push_pop_nest:
  assumes "noff (cpus s c) = 0" "depth bs 0 = Some d"
  shows "\<exists>t. brackets c bs s = Ok t \<and> sint (noff (cpus t c)) = int d \<and>
    intr (cpus t c) = (d = 0 \<and> intr (cpus s c))"
proof -
  have "nested c 0 (intr (cpus s c)) s" using assms(1) by (simp add: nested_def)
  from brackets_nested [OF this assms(2)] show ?thesis using noff_of_nat(1) by (auto simp: nested_def split: if_splits)
qed

theorem push_pop_nest_witness:
  "\<exists>t. brackets 0 [Push, Push, Pop, Push, Pop, Pop] demo_locks = Ok t \<and> intr (cpus t 0)"
  using push_pop_nest [of demo_locks 0 "[Push, Push, Pop, Push, Pop, Pop]" 0] by (auto simp: demo_locks_def)

end
