(* ===== verification/Sched.thy ===== *)
theory Sched
  imports Proc Spinlock
begin

text \<open>
  The scheduling functions of \<^verbatim>\<open>kernel/proc.c\<close> as they interleave on several CPUs: \<^verbatim>\<open>scheduler\<close>, \<^verbatim>\<open>sched\<close>,
  \<^verbatim>\<open>yield\<close>, \<^verbatim>\<open>sleep\<close>, \<^verbatim>\<open>wakeup\<close>, \<^verbatim>\<open>forkret\<close>, the end of \<^verbatim>\<open>exit\<close>, and the parts of \<^verbatim>\<open>allocproc\<close>, \<^verbatim>\<open>fork\<close>,
  \<^verbatim>\<open>wait\<close> and \<^verbatim>\<open>kill\<close> that change the state of a process. A step is what a CPU does between two
  operations on locks, which are those of \<open>Spinlock\<close>.

  \<open>tpc\<close> says where each CPU is. \<^verbatim>\<open>swtch\<close> moves a CPU between the stack of the scheduler and that of a
  process; \<open>cont\<close> is the place at which the thread of a process will go on.
\<close>

section \<open>State\<close>

text \<open>The lock of process \<open>i\<close>, and the other locks by number.\<close>

datatype klock = PLock nat | Lk nat

datatype cont = CYield | CSleep nat | CFork

text \<open>
  A CPU is in the scheduler (\<open>TSched\<close>, with the lock of a process \<open>TLook\<close>, coming back from it
  \<open>TBack\<close>), or on the stack of a process: resumed with its lock held, about to take the lock of
  \<^verbatim>\<open>sleep\<close> again, or running with a list of locks; \<open>TRun None\<close> is an interrupt handler over the
  scheduler. The rest are the places inside the functions. Between the two locks at the end of
  \<^verbatim>\<open>sleep\<close> interrupts may be on, and a timer interrupt there yields: \<open>relock s i\<close> is the lock that process
  \<open>i\<close> goes on to take when it returns from the interrupt.
\<close>

datatype tpc =
    TSched | TLook nat | TBack nat
  | TResume nat | TRelock nat nat | TRun "nat option" "nat list"
  | TYield nat | TSleep1 nat chan | TSleep2 nat chan | TExit nat | TSwitch nat
  | TWake "nat option" "nat list" chan nat | TWakeL "nat option" "nat list" chan nat
  | TSlot "nat option" "nat list" nat

record sched = "klock lkst" +
  pstate :: "nat \<Rightarrow> procstate"
  pchan :: "nat \<Rightarrow> chan"
  cproc :: "nat \<Rightarrow> nat option"
  saved :: "nat \<Rightarrow> bool"
  cont :: "nat \<Rightarrow> cont"
  relock :: "nat \<Rightarrow> nat option"
  tpc :: "nat \<Rightarrow> tpc"

definition at :: "nat \<Rightarrow> tpc \<Rightarrow> sched \<Rightarrow> sched" where
  "at c p s = s\<lparr>tpc := (tpc s)(c := p)\<rparr>"

definition set_pstate :: "nat \<Rightarrow> procstate \<Rightarrow> sched \<Rightarrow> sched" where
  "set_pstate i x s = s\<lparr>pstate := (pstate s)(i := x)\<rparr>"

text \<open>\<^verbatim>\<open>sched\<close>, up to the switch to the scheduler and after the switch back.\<close>

definition sched_out :: "nat \<Rightarrow> nat \<Rightarrow> sched \<Rightarrow> sched outcome" where
  "sched_out c i s =
     (if \<not> holding c (PLock i) s then Panic ''sched p->lock''
      else if noff (cpus s c) \<noteq> 1 then Panic ''sched locks''
      else if pstate s i = RUNNING then Panic ''sched running''
      else if intr (cpus s c) then Panic ''sched interruptible''
      else Ok (s\<lparr>saved := (saved s)(i := intena (cpus s c))\<rparr>))"

definition sched_back :: "nat \<Rightarrow> nat \<Rightarrow> sched \<Rightarrow> sched" where
  "sched_back c i s = upd_cpu c (\<lambda>x. x\<lparr>intena := saved s i\<rparr>) s"

text \<open>
  What the functions do to the state of a process whose lock they hold: one round of \<^verbatim>\<open>wakeup\<close>, \<^verbatim>\<open>kill\<close> on
  its victim, \<^verbatim>\<open>allocproc\<close> on a slot it takes, the last part of \<^verbatim>\<open>fork\<close>, \<^verbatim>\<open>freeproc\<close> as \<^verbatim>\<open>wait\<close> and a failed
  \<^verbatim>\<open>fork\<close> call it, and the last part of \<^verbatim>\<open>exit\<close>.
\<close>

definition wake_slot :: "chan \<Rightarrow> nat \<Rightarrow> sched \<Rightarrow> sched" where
  [simp]: "wake_slot ch j s = (if pstate s j = SLEEPING \<and> pchan s j = ch then set_pstate j RUNNABLE s else s)"

definition kill_slot :: "nat \<Rightarrow> sched \<Rightarrow> sched" where
  [simp]: "kill_slot j s = (if pstate s j = SLEEPING then set_pstate j RUNNABLE s else s)"

definition alloc_slot :: "nat \<Rightarrow> sched \<Rightarrow> sched" where
  [simp]: "alloc_slot j s = (set_pstate j USED s)\<lparr>cont := (cont s)(j := CFork)\<rparr>"

definition fork_slot :: "nat \<Rightarrow> sched \<Rightarrow> sched" where
  [simp]: "fork_slot j s = set_pstate j RUNNABLE s"

definition free_slot :: "nat \<Rightarrow> sched \<Rightarrow> sched" where
  [simp]: "free_slot j s = (set_pstate j UNUSED s)\<lparr>pchan := (pchan s)(j := ChanNone)\<rparr>"

definition exit_slot :: "nat \<Rightarrow> sched \<Rightarrow> sched" where
  [simp]: "exit_slot i s = set_pstate i ZOMBIE s"

section \<open>Steps\<close>

text \<open>
  \<open>guard ch\<close> is the number of the lock that protects the condition of channel \<open>ch\<close>, which callers
  of \<^verbatim>\<open>sleep\<close> on \<open>ch\<close> pass to it as their only lock; \<open>wl\<close> is \<^verbatim>\<open>wait_lock\<close>.
\<close>

inductive step :: "(chan \<Rightarrow> nat) \<Rightarrow> nat \<Rightarrow> sched \<Rightarrow> sched \<Rightarrow> bool" for guard wl where
  k_intr_on: "tpc s c = TSched \<Longrightarrow> step guard wl s (upd_cpu c (\<lambda>x. x\<lparr>intr := True\<rparr>) s)"
| k_look: "tpc s c = TSched \<Longrightarrow> i < NPROC \<Longrightarrow> acquire c (PLock i) s = Ok t \<Longrightarrow> step guard wl s (at c (TLook i) t)"
| k_skip: "tpc s c = TLook i \<Longrightarrow> pstate s i \<noteq> RUNNABLE \<Longrightarrow> release c (PLock i) s = Ok t \<Longrightarrow> step guard wl s (at c TSched t)"
| k_pick: "tpc s c = TLook i \<Longrightarrow> pstate s i = RUNNABLE \<Longrightarrow>
    step guard wl s (at c (TResume i) ((set_pstate i RUNNING s)\<lparr>cproc := (cproc s)(c := Some i)\<rparr>))"
| k_resume_yield: "tpc s c = TResume i \<Longrightarrow> cont s i = CYield \<Longrightarrow> release c (PLock i) (sched_back c i s) = Ok t \<Longrightarrow>
    step guard wl s (at c (TRun (Some i) []) t)"
| k_resume_sleep: "tpc s c = TResume i \<Longrightarrow> cont s i = CSleep l \<Longrightarrow>
    release c (PLock i) ((sched_back c i s)\<lparr>pchan := (pchan s)(i := ChanNone)\<rparr>) = Ok t \<Longrightarrow>
    step guard wl s (at c (TRelock i l) t)"
| k_relock: "tpc s c = TRelock i l \<Longrightarrow> acquire c (Lk l) s = Ok t \<Longrightarrow> step guard wl s (at c (TRun (Some i) [l]) t)"
| k_relock_trap: "tpc s c = TRelock i l \<Longrightarrow> intr (cpus s c) \<Longrightarrow>
    step guard wl s (at c (TRun (Some i) []) (s\<lparr>relock := (relock s)(i := Some l)\<rparr>))"
| k_relock_ret: "tpc s c = TRun (Some i) [] \<Longrightarrow> relock s i = Some l \<Longrightarrow>
    step guard wl s (at c (TRelock i l) (s\<lparr>relock := (relock s)(i := None)\<rparr>))"
| k_forkret: "tpc s c = TResume i \<Longrightarrow> cont s i = CFork \<Longrightarrow> release c (PLock i) s = Ok t \<Longrightarrow>
    step guard wl s (at c (TRun (Some i) []) t)"
| k_lock: "tpc s c = TRun p ls \<Longrightarrow> l \<notin> set ls \<Longrightarrow> acquire c (Lk l) s = Ok t \<Longrightarrow> step guard wl s (at c (TRun p (l # ls)) t)"
| k_unlock: "tpc s c = TRun p ls \<Longrightarrow> l \<in> set ls \<Longrightarrow> release c (Lk l) s = Ok t \<Longrightarrow> step guard wl s (at c (TRun p (remove1 l ls)) t)"
| k_trap: "tpc s c = TSched \<Longrightarrow> intr (cpus s c) \<Longrightarrow> step guard wl s (at c (TRun None []) s)"
| k_trap_ret: "tpc s c = TRun None [] \<Longrightarrow> step guard wl s (at c TSched s)"
| k_yield: "tpc s c = TRun (Some i) [] \<Longrightarrow> acquire c (PLock i) s = Ok t \<Longrightarrow> step guard wl s (at c (TYield i) t)"
| k_yielded: "tpc s c = TYield i \<Longrightarrow> step guard wl s (at c (TSwitch i) ((set_pstate i RUNNABLE s)\<lparr>cont := (cont s)(i := CYield)\<rparr>))"
| k_sleep: "tpc s c = TRun (Some i) [guard ch] \<Longrightarrow> acquire c (PLock i) s = Ok t \<Longrightarrow> step guard wl s (at c (TSleep1 i ch) t)"
| k_sleep_release: "tpc s c = TSleep1 i ch \<Longrightarrow> release c (Lk (guard ch)) s = Ok t \<Longrightarrow> step guard wl s (at c (TSleep2 i ch) t)"
| k_asleep: "tpc s c = TSleep2 i ch \<Longrightarrow> step guard wl s (at c (TSwitch i)
    ((set_pstate i SLEEPING s)\<lparr>pchan := (pchan s)(i := ch), cont := (cont s)(i := CSleep (guard ch))\<rparr>))"
| k_switch: "tpc s c = TSwitch i \<Longrightarrow> sched_out c i s = Ok t \<Longrightarrow> step guard wl s (at c (TBack i) t)"
| k_back: "tpc s c = TBack i \<Longrightarrow> release c (PLock i) (s\<lparr>cproc := (cproc s)(c := None)\<rparr>) = Ok t \<Longrightarrow> step guard wl s (at c TSched t)"
| k_exit: "tpc s c = TRun (Some i) [wl] \<Longrightarrow> acquire c (PLock i) s = Ok t \<Longrightarrow> step guard wl s (at c (TExit i) t)"
| k_exited: "tpc s c = TExit i \<Longrightarrow> release c (Lk wl) (exit_slot i s) = Ok t \<Longrightarrow> step guard wl s (at c (TSwitch i) t)"
| k_wakeup: "tpc s c = TRun p ls \<Longrightarrow> step guard wl s (at c (TWake p ls ch 0) s)"
| k_wake_self: "tpc s c = TWake p ls ch j \<Longrightarrow> p = Some j \<Longrightarrow> step guard wl s (at c (TWake p ls ch (Suc j)) s)"
| k_wake_lock: "tpc s c = TWake p ls ch j \<Longrightarrow> j < NPROC \<Longrightarrow> p \<noteq> Some j \<Longrightarrow> acquire c (PLock j) s = Ok t \<Longrightarrow>
    step guard wl s (at c (TWakeL p ls ch j) t)"
| k_wake_one: "tpc s c = TWakeL p ls ch j \<Longrightarrow>
    release c (PLock j) (wake_slot ch j s) = Ok t \<Longrightarrow>
    step guard wl s (at c (TWake p ls ch (Suc j)) t)"
| k_wake_done: "tpc s c = TWake p ls ch NPROC \<Longrightarrow> step guard wl s (at c (TRun p ls) s)"
| k_slot: "tpc s c = TRun p ls \<Longrightarrow> j < NPROC \<Longrightarrow> acquire c (PLock j) s = Ok t \<Longrightarrow> step guard wl s (at c (TSlot p ls j) t)"
| k_kill: "tpc s c = TSlot p ls j \<Longrightarrow> release c (PLock j) (kill_slot j s) = Ok t \<Longrightarrow>
    step guard wl s (at c (TRun p ls) t)"
| k_alloc: "tpc s c = TSlot p ls j \<Longrightarrow> pstate s j = UNUSED \<Longrightarrow> release c (PLock j) (alloc_slot j s) = Ok t \<Longrightarrow>
    step guard wl s (at c (TRun p ls) t)"
| k_forked: "tpc s c = TSlot p ls j \<Longrightarrow> pstate s j = USED \<Longrightarrow>
    release c (PLock j) (fork_slot j s) = Ok t \<Longrightarrow>
    step guard wl s (at c (TRun p ls) t)"
| k_freed: "tpc s c = TSlot p ls j \<Longrightarrow> pstate s j = USED \<or> pstate s j = ZOMBIE \<Longrightarrow>
    release c (PLock j) (free_slot j s) = Ok t \<Longrightarrow> step guard wl s (at c (TRun p ls) t)"

text \<open>After \<^verbatim>\<open>procinit\<close> and \<^verbatim>\<open>userinit\<close>, with every CPU in its scheduler.\<close>

definition booted :: "sched \<Rightarrow> bool" where
  "booted s \<longleftrightarrow> (\<forall>l. locks s l = \<lparr>lk_locked = False, lk_cpu = None\<rparr>) \<and> (\<forall>c. noff (cpus s c) = 0 \<and> tpc s c = TSched) \<and>
     (\<forall>i. pstate s i \<in> {UNUSED, RUNNABLE} \<and> cont s i = CFork)"

section \<open>Locks held\<close>

fun plock :: "tpc \<Rightarrow> nat option" where
  "plock (TLook i) = Some i" | "plock (TBack i) = Some i" | "plock (TResume i) = Some i" | "plock (TYield i) = Some i"
| "plock (TSleep1 i ch) = Some i" | "plock (TSleep2 i ch) = Some i" | "plock (TExit i) = Some i" | "plock (TSwitch i) = Some i"
| "plock (TWakeL p ls ch j) = Some j" | "plock (TSlot p ls j) = Some j" | "plock _ = None"

fun others :: "(chan \<Rightarrow> nat) \<Rightarrow> nat \<Rightarrow> tpc \<Rightarrow> nat list" where
  "others g wl (TRun p ls) = ls" | "others g wl (TWake p ls ch j) = ls" | "others g wl (TWakeL p ls ch j) = ls"
| "others g wl (TSlot p ls j) = ls" | "others g wl (TSleep1 i ch) = [g ch]" | "others g wl (TExit i) = [wl]" | "others g wl _ = []"

definition held :: "(chan \<Rightarrow> nat) \<Rightarrow> nat \<Rightarrow> tpc \<Rightarrow> klock set" where
  "held g wl p = PLock ` set_option (plock p) \<union> Lk ` set (others g wl p)"

lemma finite_held [simp]: "finite (held g wl p)"
  by (simp add: held_def)

definition locks_ok :: "(chan \<Rightarrow> nat) \<Rightarrow> nat \<Rightarrow> sched \<Rightarrow> bool" where
  "locks_ok g wl s \<longleftrightarrow> (\<forall>l. lk_locked (locks s l) \<longleftrightarrow> lk_cpu (locks s l) \<noteq> None) \<and>
     (\<forall>c. (\<forall>l. lk_cpu (locks s l) = Some c \<longleftrightarrow> l \<in> held g wl (tpc s c)) \<and> distinct (others g wl (tpc s c)) \<and>
          (\<exists>e. nested c (card (held g wl (tpc s c))) e s))"

lemma at_simps [simp]:
  "locks (at c p s) = locks s" "cpus (at c p s) = cpus s" "pstate (at c p s) = pstate s" "pchan (at c p s) = pchan s"
  "cproc (at c p s) = cproc s" "tpc (at c p s) = (tpc s)(c := p)" "nested c' d e (at c p s) = nested c' d e s"
  by (simp_all add: at_def nested_def)

text \<open>What locking leaves alone.\<close>

definition same_procs :: "sched \<Rightarrow> sched \<Rightarrow> bool" where
  "same_procs s t \<longleftrightarrow> pstate t = pstate s \<and> pchan t = pchan s \<and> tpc t = tpc s"

lemma acquire_same: "acquire c l s = Ok t \<Longrightarrow> same_procs s t"
  by (auto simp: acquire_def push_off_def upd_cpu_def upd_lock_def same_procs_def Let_def bind_ok_eq_Ok split: if_splits)

lemma pop_off_same: "pop_off c s = Ok t \<Longrightarrow> same_procs s t"
  by (auto simp: pop_off_def upd_cpu_def same_procs_def Let_def split: if_splits)

lemma release_same: "release c l s = Ok t \<Longrightarrow> same_procs s t"
  using pop_off_same [of c "upd_lock l (\<lambda>_. \<lparr>lk_locked = False, lk_cpu = None\<rparr>) s" t]
  by (auto simp: release_def upd_lock_def same_procs_def split: if_splits)

lemma locks_okD:
  assumes "locks_ok g wl s"
  shows "lk_locked (locks s l) \<longleftrightarrow> lk_cpu (locks s l) \<noteq> None" "lk_cpu (locks s l) = Some c \<longleftrightarrow> l \<in> held g wl (tpc s c)"
    "distinct (others g wl (tpc s c))" "\<exists>e. nested c (card (held g wl (tpc s c))) e s"
  using assms unfolding locks_ok_def by blast+

lemma locks_okI:
  assumes "locks_ok g wl s" "tpc t = (tpc s)(c := p)" "\<And>l. lk_locked (locks t l) \<longleftrightarrow> lk_cpu (locks t l) \<noteq> None"
    "\<And>l. lk_cpu (locks t l) = Some c \<longleftrightarrow> l \<in> held g wl p"
    "\<And>l c'. c' \<noteq> c \<Longrightarrow> lk_cpu (locks t l) = Some c' \<longleftrightarrow> lk_cpu (locks s l) = Some c'"
    "distinct (others g wl p)" "\<exists>e. nested c (card (held g wl p)) e t" "\<And>c' d e. c' \<noteq> c \<Longrightarrow> nested c' d e t = nested c' d e s"
  shows "locks_ok g wl t"
  unfolding locks_ok_def
proof (intro conjI allI)
  fix l show "lk_locked (locks t l) = (lk_cpu (locks t l) \<noteq> None)" by (rule assms(3))
next
  fix c' l show "(lk_cpu (locks t l) = Some c') = (l \<in> held g wl (tpc t c'))"
    using assms(2,4,5) locks_okD(2) [OF assms(1), of l c'] by (cases "c' = c") auto
next
  fix c' show "distinct (others g wl (tpc t c'))" using assms(2,6) locks_okD(3) [OF assms(1), of c'] by (cases "c' = c") auto
next
  fix c' show "\<exists>e. nested c' (card (held g wl (tpc t c'))) e t"
    using assms(2,7,8) locks_okD(4) [OF assms(1), of c'] by (cases "c' = c") auto
qed

lemma held_unique: "locks_ok g wl s \<Longrightarrow> l \<in> held g wl (tpc s c) \<Longrightarrow> l \<in> held g wl (tpc s c') \<Longrightarrow> c = c'"
  using locks_okD(2) by (metis option.inject)

lemma nested_cong: "cpus t = cpus s \<Longrightarrow> nested c d e t = nested c d e s"
  by (simp add: nested_def)

lemma locks_ok_same:
  assumes "locks_ok g wl s" "locks t = locks s" "cpus t = cpus s" "tpc t = (tpc s)(c := p)" "held g wl p = held g wl (tpc s c)"
    "distinct (others g wl p)"
  shows "locks_ok g wl t"
proof (rule locks_okI [OF assms(1,4)])
  fix l c'
  show "lk_locked (locks t l) = (lk_cpu (locks t l) \<noteq> None)" "(lk_cpu (locks t l) = Some c) = (l \<in> held g wl p)"
    using locks_okD(1,2) [OF assms(1), of l] by (simp_all add: assms(2,5))
  show "\<exists>e. nested c (card (held g wl p)) e t" using locks_okD(4) [OF assms(1), of c] nested_cong [OF assms(3)] by (simp add: assms(5))
qed (simp_all add: assms nested_def)

lemma locks_ok_acquire:
  assumes ok: "locks_ok g wl s" and a: "acquire c l s = Ok t" and p: "held g wl p = insert l (held g wl (tpc s c))" "distinct (others g wl p)"
  shows "locks_ok g wl (at c p t)" "lk_cpu (locks s l) = None"
proof -
  obtain s1 where s1: "push_off c s = Ok s1" using a by (auto simp: acquire_def bind_ok_eq_Ok)
  have l1: "locks s1 = locks s" by (rule push_off_locks [OF s1])
  have free: "\<not> lk_locked (locks s l)" and t: "t = upd_lock l (\<lambda>_. \<lparr>lk_locked = True, lk_cpu = Some c\<rparr>) s1"
    using a s1 l1 by (auto simp: acquire_def split: if_splits)
  then show n: "lk_cpu (locks s l) = None" using locks_okD(1) [OF ok, of l] by simp
  then have "l \<notin> held g wl (tpc s c)" using locks_okD(2) [OF ok, of l c] by simp
  then have card: "card (held g wl p) = Suc (card (held g wl (tpc s c)))" using p by simp
  obtain e where "nested c (card (held g wl (tpc s c))) e s" using locks_okD(4) [OF ok] by blast
  then have "nested c (card (held g wl p)) e s1" unfolding card by (rule nested_push [OF _ s1])
  then have ne: "\<exists>e. nested c (card (held g wl p)) e (at c p t)" by (auto simp: t)
  show "locks_ok g wl (at c p t)"
  proof (rule locks_okI [OF ok, of _ c p])
    fix l' c'
    show "lk_locked (locks (at c p t) l') = (lk_cpu (locks (at c p t) l') \<noteq> None)" using locks_okD(1) [OF ok, of l'] by (simp add: t l1)
    show "(lk_cpu (locks (at c p t) l') = Some c) = (l' \<in> held g wl p)" using locks_okD(2) [OF ok, of l' c] by (simp add: t l1 p(1))
    show "c' \<noteq> c \<Longrightarrow> (lk_cpu (locks (at c p t) l') = Some c') = (lk_cpu (locks s l') = Some c')" using n by (simp add: t l1)
    show "c' \<noteq> c \<Longrightarrow> nested c' d e (at c p t) = nested c' d e s" for d e using nested_other(1) [OF _ s1, of c' d e] by (simp add: t)
    show "tpc (at c p t) = (tpc s)(c := p)" using acquire_same [OF a] by (simp add: same_procs_def)
  qed (use p ne in auto)
qed

lemma locks_ok_release:
  assumes ok: "locks_ok g wl s" and r: "release c l s = Ok t" and p: "held g wl p = held g wl (tpc s c) - {l}" "distinct (others g wl p)"
  shows "locks_ok g wl (at c p t)"
proof -
  let ?u = "upd_lock l (\<lambda>_. \<lparr>lk_locked = False, lk_cpu = None\<rparr>) s"
  have h: "holding c l s" and t: "pop_off c ?u = Ok t" using r by (auto simp: release_def split: if_splits)
  have l: "l \<in> held g wl (tpc s c)" using h locks_okD(2) [OF ok] by (auto simp: holding_def)
  then have card: "card (held g wl (tpc s c)) = Suc (card (held g wl p))" unfolding p(1) by (intro card.remove) simp_all
  obtain e where "nested c (card (held g wl (tpc s c))) e s" using locks_okD(4) [OF ok] by blast
  then have "nested c (Suc (card (held g wl p))) e ?u" by (simp add: card)
  then have n: "nested c (card (held g wl p)) e t" and lt: "locks t = locks ?u" using nested_pop [of c _ e ?u] t by auto
  have nt: "c' \<noteq> c \<Longrightarrow> nested c' d e t = nested c' d e s" for c' d e using nested_other(2) [OF _ t, of c'] by simp
  have lc: "lk_cpu (locks s l) = Some c" using h by (simp add: holding_def)
  have ne: "\<exists>e. nested c (card (held g wl p)) e (at c p t)" using n by auto
  show ?thesis
  proof (rule locks_okI [OF ok, of _ c p])
    fix l' c'
    show "lk_locked (locks (at c p t) l') = (lk_cpu (locks (at c p t) l') \<noteq> None)" using locks_okD(1) [OF ok, of l'] by (simp add: lt)
    show "(lk_cpu (locks (at c p t) l') = Some c) = (l' \<in> held g wl p)" using locks_okD(2) [OF ok, of l' c] by (simp add: lt p(1))
    show "c' \<noteq> c \<Longrightarrow> (lk_cpu (locks (at c p t) l') = Some c') = (lk_cpu (locks s l') = Some c')" using lc by (simp add: lt)
    show "c' \<noteq> c \<Longrightarrow> nested c' d e (at c p t) = nested c' d e s" for d e using nt [of c' d e] by simp
    show "tpc (at c p t) = (tpc s)(c := p)" using release_same [OF r] by (simp add: same_procs_def)
  qed (use p ne in auto)
qed

section \<open>Processes and CPUs\<close>

text \<open>The process that a CPU runs, and the process whose stack it is on.\<close>

fun running :: "tpc \<Rightarrow> nat option" where
  "running (TResume i) = Some i" | "running (TRelock i l) = Some i" | "running (TRun p ls) = p" | "running (TYield i) = Some i"
| "running (TSleep1 i ch) = Some i" | "running (TSleep2 i ch) = Some i" | "running (TExit i) = Some i"
| "running (TWake p ls ch j) = p" | "running (TWakeL p ls ch j) = p" | "running (TSlot p ls j) = p" | "running _ = None"

definition on_stack :: "tpc \<Rightarrow> nat option" where
  "on_stack p = (case p of TSwitch i \<Rightarrow> Some i | _ \<Rightarrow> running p)"

lemma on_stack_simps [simp]:
  "on_stack (TSwitch i) = Some i" "on_stack TSched = None" "on_stack (TLook i) = None" "on_stack (TBack i) = None"
  "on_stack (TResume i) = Some i" "on_stack (TRelock i l) = Some i" "on_stack (TRun p ls) = p" "on_stack (TYield i) = Some i"
  "on_stack (TSleep1 i ch) = Some i" "on_stack (TSleep2 i ch) = Some i" "on_stack (TExit i) = Some i"
  "on_stack (TWake p ls ch j) = p" "on_stack (TWakeL p ls ch j) = p" "on_stack (TSlot p ls j) = p"
  by (simp_all add: on_stack_def)

lemma on_stack_cases: "on_stack p = Some i \<Longrightarrow> running p = Some i \<or> p = TSwitch i"
  by (cases p) auto

lemma running_on_stack: "running p = Some i \<Longrightarrow> on_stack p = Some i"
  by (cases p) auto

definition procs_ok :: "sched \<Rightarrow> bool" where
  "procs_ok s \<longleftrightarrow> (\<forall>c i. running (tpc s c) = Some i \<longrightarrow> pstate s i = RUNNING) \<and>
     (\<forall>c i. tpc s c = TSwitch i \<longrightarrow> pstate s i \<noteq> RUNNING) \<and>
     (\<forall>c c' i. on_stack (tpc s c) = Some i \<and> on_stack (tpc s c') = Some i \<longrightarrow> c = c')"

lemma procs_okD:
  assumes "procs_ok s"
  shows "running (tpc s c) = Some i \<Longrightarrow> pstate s i = RUNNING" "tpc s c = TSwitch i \<Longrightarrow> pstate s i \<noteq> RUNNING"
    "on_stack (tpc s c) = Some i \<Longrightarrow> on_stack (tpc s c') = Some i \<Longrightarrow> c = c'"
  using assms unfolding procs_ok_def by blast+

text \<open>A step that moves a CPU within the same process.\<close>

lemma procs_ok_move:
  assumes "procs_ok s" "pstate t = pstate s" "tpc t = (tpc s)(c := p)" "running p = running (tpc s c)" "on_stack p = on_stack (tpc s c)"
    "\<And>i. p \<noteq> TSwitch i"
  shows "procs_ok t"
proof -
  have "running (tpc t d) = running (tpc s d)" "on_stack (tpc t d) = on_stack (tpc s d)" "tpc t d = TSwitch i \<Longrightarrow> tpc s d = TSwitch i" for d i
    using assms(3-6) by (auto split: if_splits)
  then show ?thesis using assms(1) unfolding procs_ok_def assms(2) by metis
qed

text \<open>A step that changes the state of a process that does not run.\<close>

lemma procs_ok_other:
  assumes "procs_ok s" "pstate t = (pstate s)(j := x)" "pstate s j \<noteq> RUNNING" "x \<noteq> RUNNING" "tpc t = (tpc s)(c := p)"
    "running p = running (tpc s c)" "on_stack p = on_stack (tpc s c)" "\<And>i. p \<noteq> TSwitch i"
  shows "procs_ok t"
proof -
  have "running (tpc t d) = running (tpc s d)" "on_stack (tpc t d) = on_stack (tpc s d)" "tpc t d = TSwitch i \<Longrightarrow> tpc s d = TSwitch i" for d i
    using assms(5-8) by (auto split: if_splits)
  moreover have "pstate t i = RUNNING \<longleftrightarrow> pstate s i = RUNNING" for i using assms(2-4) by simp
  ultimately show ?thesis using assms(1) unfolding procs_ok_def by metis
qed

text \<open>A process that leaves the CPU.\<close>

lemma procs_ok_leave:
  assumes ok: "procs_ok s" and r: "running (tpc s c) = Some i" and t: "pstate t = (pstate s)(i := x)" "x \<noteq> RUNNING" "tpc t = (tpc s)(c := TSwitch i)"
  shows "procs_ok t"
proof -
  note u = procs_okD(3) [OF ok running_on_stack [OF r]]
  have st: "on_stack (tpc t d) = on_stack (tpc s d)" for d using running_on_stack [OF r] t(3) by auto
  have "running (tpc t d) = Some k \<Longrightarrow> pstate t k = RUNNING" for d k
  proof -
    assume d: "running (tpc t d) = Some k"
    then have dc: "d \<noteq> c" using t(3) by auto
    then have "running (tpc s d) = Some k" using d t(3) by simp
    moreover from this have "k \<noteq> i" using u [of d] running_on_stack dc by blast
    ultimately show ?thesis using procs_okD(1) [OF ok] t(1) by simp
  qed
  moreover have "tpc t d = TSwitch k \<Longrightarrow> pstate t k \<noteq> RUNNING" for d k
    using t procs_okD(2) [OF ok, of d k] by (auto split: if_splits)
  ultimately show ?thesis using ok unfolding procs_ok_def st by blast
qed

lemma procs_ok_pick:
  assumes ok: "procs_ok s" and l: "locks_ok g wl s" and c: "tpc s c = TLook i" "pstate s i = RUNNABLE"
    and t: "pstate t = (pstate s)(i := RUNNING)" "tpc t = (tpc s)(c := TResume i)"
  shows "procs_ok t"
proof -
  have no: "on_stack (tpc s d) \<noteq> Some i" for d
  proof
    assume "on_stack (tpc s d) = Some i"
    then consider "running (tpc s d) = Some i" | "tpc s d = TSwitch i" using on_stack_cases by blast
    then show False
    proof cases
      case 1
      then show False using procs_okD(1) [OF ok 1] c(2) by simp
    next
      case 2
      then have "d = c" using held_unique [OF l, of "PLock i" d c] c(1) by (simp add: held_def)
      then show False using 2 c(1) by simp
    qed
  qed
  have "tpc t d = TSwitch k \<Longrightarrow> pstate t k \<noteq> RUNNING" for d k
    using t no [of d] procs_okD(2) [OF ok, of d k] by (auto split: if_splits)
  moreover have "running (tpc t d) = Some k \<Longrightarrow> pstate t k = RUNNING" for d k
    using t procs_okD(1) [OF ok, of d k] by (auto split: if_splits)
  moreover have "on_stack (tpc t d) = Some k \<Longrightarrow> on_stack (tpc t d') = Some k \<Longrightarrow> d = d'" for d d' k
    using t no procs_okD(3) [OF ok] by (auto split: if_splits)
  ultimately show ?thesis unfolding procs_ok_def by blast
qed

section \<open>The invariant\<close>

lemma locks_ok_cong: "locks t = locks s \<Longrightarrow> cpus t = cpus s \<Longrightarrow> tpc t = tpc s \<Longrightarrow> locks_ok g wl t \<longleftrightarrow> locks_ok g wl s"
  by (simp add: locks_ok_def nested_def)

lemma set_pstate_simps [simp]:
  "locks (set_pstate i x s) = locks s" "cpus (set_pstate i x s) = cpus s" "tpc (set_pstate i x s) = tpc s"
  "pchan (set_pstate i x s) = pchan s" "pstate (set_pstate i x s) = (pstate s)(i := x)"
  by (simp_all add: set_pstate_def)

lemma sched_back_simps [simp]:
  "locks (sched_back c i s) = locks s" "tpc (sched_back c i s) = tpc s" "pstate (sched_back c i s) = pstate s" "pchan (sched_back c i s) = pchan s"
  by (simp_all add: sched_back_def upd_cpu_def)

lemma locks_ok_back:
  assumes "locks_ok g wl s" "plock (tpc s c) = Some i"
  shows "locks_ok g wl (sched_back c i s)"
proof (rule locks_okI [OF assms(1), of _ c "tpc s c"])
  have "card (held g wl (tpc s c)) \<noteq> 0" using assms(2) by (auto simp: held_def)
  then show "\<exists>e. nested c (card (held g wl (tpc s c))) e (sched_back c i s)"
    using locks_okD(4) [OF assms(1), of c] by (auto simp: nested_def sched_back_def upd_cpu_def)
qed (use locks_okD [OF assms(1)] in \<open>simp_all add: nested_def sched_back_def upd_cpu_def\<close>)

lemma sched_out_same: "sched_out c i s = Ok t \<Longrightarrow> locks t = locks s \<and> cpus t = cpus s \<and> tpc t = tpc s \<and> pstate t = pstate s \<and> pchan t = pchan s"
  by (auto simp: sched_out_def split: if_splits)

lemma step_locks: "step g wl s t \<Longrightarrow> locks_ok g wl s \<Longrightarrow> locks_ok g wl t"
proof (induction rule: step.induct)
  case (k_intr_on s c)
  show ?case
  proof (rule locks_okI [OF k_intr_on(2), of _ c TSched])
    show "\<exists>e. nested c (card (held g wl TSched)) e (upd_cpu c (\<lambda>x. x\<lparr>intr := True\<rparr>) s)"
      using locks_okD(4) [OF k_intr_on(2), of c] k_intr_on(1) by (auto simp: nested_def upd_cpu_def held_def)
  qed (use k_intr_on(1) locks_okD [OF k_intr_on(2)] in \<open>simp_all add: nested_def upd_cpu_def fun_upd_idem held_def\<close>)
next
  case (k_look s c i t)
  then show ?case by - (rule locks_ok_acquire(1) [of g wl s], auto simp: held_def)
next
  case (k_skip s c i t)
  then show ?case by - (rule locks_ok_release [of g wl s], auto simp: held_def)
next
  case (k_pick s c i)
  then show ?case by - (rule locks_ok_same [of g wl s _ c "TResume i"], auto simp: held_def)
next
  case (k_resume_yield s c i t)
  then show ?case by - (rule locks_ok_release [OF locks_ok_back [of g wl s c i]], auto simp: held_def)
next
  case (k_resume_sleep s c i l t)
  have "locks_ok g wl ((sched_back c i s)\<lparr>pchan := (pchan s)(i := ChanNone)\<rparr>)"
    using locks_ok_back [of g wl s c i] k_resume_sleep locks_ok_cong [of "(sched_back c i s)\<lparr>pchan := (pchan s)(i := ChanNone)\<rparr>" "sched_back c i s"] by simp
  then show ?case using k_resume_sleep by - (rule locks_ok_release, auto simp: held_def)
next
  case (k_relock s c i l t)
  then show ?case by - (rule locks_ok_acquire(1) [of g wl s], auto simp: held_def)
next
  case (k_relock_trap s c i l)
  then show ?case by - (rule locks_ok_same [of g wl s _ c "TRun (Some i) []"], auto simp: held_def)
next
  case (k_relock_ret s c i l)
  then show ?case by - (rule locks_ok_same [of g wl s _ c "TRelock i l"], auto simp: held_def)
next
  case (k_forkret s c i t)
  then show ?case by - (rule locks_ok_release [of g wl s], auto simp: held_def)
next
  case (k_lock s c p ls l t)
  then show ?case using locks_okD(3) [OF k_lock(4), of c] by - (rule locks_ok_acquire(1) [of g wl s], auto simp: held_def)
next
  case (k_unlock s c p ls l t)
  then show ?case using locks_okD(3) [OF k_unlock(4), of c] by - (rule locks_ok_release [of g wl s], auto simp: held_def)
next
  case (k_trap s c)
  then show ?case by - (rule locks_ok_same [of g wl s _ c "TRun None []"], auto simp: held_def)
next
  case (k_trap_ret s c)
  then show ?case by - (rule locks_ok_same [of g wl s _ c TSched], auto simp: held_def)
next
  case (k_yield s c i t)
  then show ?case by - (rule locks_ok_acquire(1) [of g wl s], auto simp: held_def)
next
  case (k_yielded s c i)
  then show ?case by - (rule locks_ok_same [of g wl s _ c "TSwitch i"], auto simp: held_def)
next
  case (k_sleep s c i ch t)
  then show ?case by - (rule locks_ok_acquire(1) [of g wl s], auto simp: held_def)
next
  case (k_sleep_release s c i ch t)
  then show ?case by - (rule locks_ok_release [of g wl s], auto simp: held_def)
next
  case (k_asleep s c i ch)
  then show ?case by - (rule locks_ok_same [of g wl s _ c "TSwitch i"], auto simp: held_def)
next
  case (k_switch s c i t)
  then show ?case using sched_out_same [OF k_switch(2)] by - (rule locks_ok_same [of g wl s _ c "TBack i"], auto simp: held_def)
next
  case (k_back s c i t)
  then show ?case using locks_ok_cong [of "s\<lparr>cproc := (cproc s)(c := None)\<rparr>" s] by - (rule locks_ok_release, auto simp: held_def)
next
  case (k_exit s c i t)
  then show ?case by - (rule locks_ok_acquire(1) [of g wl s], auto simp: held_def)
next
  case (k_exited s c i t)
  then show ?case using locks_ok_cong [of "set_pstate i ZOMBIE s" s] by - (rule locks_ok_release, auto simp: held_def)
next
  case (k_wakeup s c p ls ch)
  then show ?case using locks_okD(3) [OF k_wakeup(2), of c] by - (rule locks_ok_same [of g wl s _ c "TWake p ls ch 0"], auto simp: held_def)
next
  case (k_wake_self s c p ls ch j)
  then show ?case using locks_okD(3) [OF k_wake_self(3), of c] by - (rule locks_ok_same [of g wl s _ c "TWake p ls ch (Suc j)"], auto simp: held_def)
next
  case (k_wake_lock s c p ls ch j t)
  then show ?case using locks_okD(3) [OF k_wake_lock(5), of c] by - (rule locks_ok_acquire(1) [of g wl s], auto simp: held_def)
next
  case (k_wake_one s c p ls ch j t)
  then show ?case using locks_okD(3) [OF k_wake_one(3), of c] locks_ok_cong [of "set_pstate j RUNNABLE s" s]
    by - (rule locks_ok_release, auto simp: held_def split: if_splits)
next
  case (k_wake_done s c p ls ch)
  then show ?case using locks_okD(3) [OF k_wake_done(2), of c] by - (rule locks_ok_same [of g wl s _ c "TRun p ls"], auto simp: held_def)
next
  case (k_slot s c p ls j t)
  then show ?case using locks_okD(3) [OF k_slot(4), of c] by - (rule locks_ok_acquire(1) [of g wl s], auto simp: held_def)
next
  case (k_kill s c p ls j t)
  then show ?case using locks_okD(3) [OF k_kill(3), of c] locks_ok_cong [of "set_pstate j RUNNABLE s" s]
    by - (rule locks_ok_release, auto simp: held_def split: if_splits)
next
  case (k_alloc s c p ls j t)
  then show ?case using locks_okD(3) [OF k_alloc(4), of c] locks_ok_cong [of "(set_pstate j USED s)\<lparr>cont := (cont s)(j := CFork)\<rparr>" s]
    by - (rule locks_ok_release, auto simp: held_def)
next
  case (k_forked s c p ls j t)
  then show ?case using locks_okD(3) [OF k_forked(4), of c] locks_ok_cong [of "set_pstate j RUNNABLE s" s] by - (rule locks_ok_release, auto simp: held_def)
next
  case (k_freed s c p ls j t)
  then show ?case using locks_okD(3) [OF k_freed(4), of c] locks_ok_cong [of "(set_pstate j UNUSED s)\<lparr>pchan := (pchan s)(j := ChanNone)\<rparr>" s]
    by - (rule locks_ok_release, auto simp: held_def)
qed

lemma step_procs: "step g wl s t \<Longrightarrow> locks_ok g wl s \<Longrightarrow> procs_ok s \<Longrightarrow> procs_ok t"
proof (induction rule: step.induct)
  case (k_intr_on s c)
  then show ?case by (simp add: procs_ok_def upd_cpu_def)
next
  case (k_look s c i t)
  then show ?case using acquire_same [OF k_look(3)] by - (rule procs_ok_move [of s _ c "TLook i"], auto simp: same_procs_def)
next
  case (k_skip s c i t)
  then show ?case using release_same [OF k_skip(3)] by - (rule procs_ok_move [of s _ c "TSched"], auto simp: same_procs_def)
next
  case (k_pick s c i)
  then show ?case by - (rule procs_ok_pick [of s g wl c i], auto)
next
  case (k_resume_yield s c i t)
  then show ?case using release_same [OF k_resume_yield(3)] by - (rule procs_ok_move [of s _ c "TRun (Some i) []"], auto simp: same_procs_def)
next
  case (k_resume_sleep s c i l t)
  then show ?case using release_same [OF k_resume_sleep(3)] by - (rule procs_ok_move [of s _ c "TRelock i l"], auto simp: same_procs_def)
next
  case (k_relock s c i l t)
  then show ?case using acquire_same [OF k_relock(2)] by - (rule procs_ok_move [of s _ c "TRun (Some i) [l]"], auto simp: same_procs_def)
next
  case (k_relock_trap s c i l)
  then show ?case by - (rule procs_ok_move [of s _ c "TRun (Some i) []"], auto simp: same_procs_def)
next
  case (k_relock_ret s c i l)
  then show ?case by - (rule procs_ok_move [of s _ c "TRelock i l"], auto simp: same_procs_def)
next
  case (k_forkret s c i t)
  then show ?case using release_same [OF k_forkret(3)] by - (rule procs_ok_move [of s _ c "TRun (Some i) []"], auto simp: same_procs_def)
next
  case (k_lock s c p ls l t)
  then show ?case using acquire_same [OF k_lock(3)] by - (rule procs_ok_move [of s _ c "TRun p (l # ls)"], auto simp: same_procs_def)
next
  case (k_unlock s c p ls l t)
  then show ?case using release_same [OF k_unlock(3)] by - (rule procs_ok_move [of s _ c "TRun p (remove1 l ls)"], auto simp: same_procs_def)
next
  case (k_trap s c)
  then show ?case by - (rule procs_ok_move [of s _ c "TRun None []"], auto simp: same_procs_def)
next
  case (k_trap_ret s c)
  then show ?case by - (rule procs_ok_move [of s _ c "TSched"], auto simp: same_procs_def)
next
  case (k_yield s c i t)
  then show ?case using acquire_same [OF k_yield(2)] by - (rule procs_ok_move [of s _ c "TYield i"], auto simp: same_procs_def)
next
  case (k_yielded s c i)
  then show ?case by - (rule procs_ok_leave [of s c i _ RUNNABLE], auto)
next
  case (k_sleep s c i ch t)
  then show ?case using acquire_same [OF k_sleep(2)] by - (rule procs_ok_move [of s _ c "TSleep1 i ch"], auto simp: same_procs_def)
next
  case (k_sleep_release s c i ch t)
  then show ?case using release_same [OF k_sleep_release(2)] by - (rule procs_ok_move [of s _ c "TSleep2 i ch"], auto simp: same_procs_def)
next
  case (k_asleep s c i ch)
  then show ?case by - (rule procs_ok_leave [of s c i _ SLEEPING], auto)
next
  case (k_switch s c i t)
  note t = sched_out_same [OF k_switch(2)]
  have "running (tpc (at c (TBack i) t) d) = Some k \<Longrightarrow> running (tpc s d) = Some k" "tpc (at c (TBack i) t) d = TSwitch k \<Longrightarrow> tpc s d = TSwitch k"
    "on_stack (tpc (at c (TBack i) t) d) = Some k \<Longrightarrow> on_stack (tpc s d) = Some k" for d k using t by (auto split: if_splits)
  then show ?case using k_switch(4) t unfolding procs_ok_def by (metis at_simps(3))
next
  case (k_back s c i t)
  then show ?case using release_same [OF k_back(2)] by - (rule procs_ok_move [of s _ c TSched], auto simp: same_procs_def)
next
  case (k_exit s c i t)
  then show ?case using acquire_same [OF k_exit(2)] by - (rule procs_ok_move [of s _ c "TExit i"], auto simp: same_procs_def)
next
  case (k_exited s c i t)
  then show ?case using release_same [OF k_exited(2)] by - (rule procs_ok_leave [of s c i _ ZOMBIE], auto simp: same_procs_def)
next
  case (k_wakeup s c p ls ch)
  then show ?case by - (rule procs_ok_move [of s _ c "TWake p ls ch 0"], auto simp: same_procs_def)
next
  case (k_wake_self s c p ls ch j)
  then show ?case by - (rule procs_ok_move [of s _ c "TWake p ls ch (Suc j)"], auto simp: same_procs_def)
next
  case (k_wake_lock s c p ls ch j t)
  then show ?case using acquire_same [OF k_wake_lock(4)] by - (rule procs_ok_move [of s _ c "TWakeL p ls ch j"], auto simp: same_procs_def)
next
  case (k_wake_one s c p ls ch j t)
  show ?case
  proof (cases "pstate s j = SLEEPING \<and> pchan s j = ch")
    case True
    then show ?thesis using k_wake_one release_same [OF k_wake_one(2)] by - (rule procs_ok_other [of s _ j RUNNABLE c "TWake p ls ch (Suc j)"], auto simp: same_procs_def)
  next
    case False
    then show ?thesis using k_wake_one release_same [OF k_wake_one(2)] by - (rule procs_ok_move [of s _ c "TWake p ls ch (Suc j)"], auto simp: same_procs_def)
  qed
next
  case (k_wake_done s c p ls ch)
  then show ?case by - (rule procs_ok_move [of s _ c "TRun p ls"], auto simp: same_procs_def)
next
  case (k_slot s c p ls j t)
  then show ?case using acquire_same [OF k_slot(3)] by - (rule procs_ok_move [of s _ c "TSlot p ls j"], auto simp: same_procs_def)
next
  case (k_kill s c p ls j t)
  show ?case
  proof (cases "pstate s j = SLEEPING")
    case True
    then show ?thesis using k_kill release_same [OF k_kill(2)] by - (rule procs_ok_other [of s _ j RUNNABLE c "TRun p ls"], auto simp: same_procs_def)
  next
    case False
    then show ?thesis using k_kill release_same [OF k_kill(2)] by - (rule procs_ok_move [of s _ c "TRun p ls"], auto simp: same_procs_def)
  qed
next
  case (k_alloc s c p ls j t)
  then show ?case using release_same [OF k_alloc(3)] by - (rule procs_ok_other [of s _ j USED c "TRun p ls"], auto simp: same_procs_def)
next
  case (k_forked s c p ls j t)
  then show ?case using release_same [OF k_forked(3)] by - (rule procs_ok_other [of s _ j RUNNABLE c "TRun p ls"], auto simp: same_procs_def)
next
  case (k_freed s c p ls j t)
  then show ?case using release_same [OF k_freed(3)] by - (rule procs_ok_other [of s _ j UNUSED c "TRun p ls"], auto simp: same_procs_def)
qed

section \<open>Wakeups\<close>

text \<open>Process \<open>q\<close> sleeps on \<open>ch\<close> or, having released the lock of the condition, is about to.\<close>

definition asleep :: "sched \<Rightarrow> nat \<Rightarrow> chan \<Rightarrow> bool" where
  "asleep s q ch \<longleftrightarrow> pstate s q = SLEEPING \<and> pchan s q = ch \<or> (\<exists>c. tpc s c = TSleep2 q ch)"

text \<open>A \<^verbatim>\<open>wakeup\<close> on \<open>ch\<close> by a thread that holds the lock of the condition has passed \<open>q\<close>.\<close>

fun passed :: "(chan \<Rightarrow> nat) \<Rightarrow> tpc \<Rightarrow> nat \<Rightarrow> chan \<Rightarrow> bool" where
  "passed g (TWake p ls ch' j) q ch = (ch' = ch \<and> g ch \<in> set ls \<and> q < j \<and> p \<noteq> Some q)"
| "passed g (TWakeL p ls ch' j) q ch = (ch' = ch \<and> g ch \<in> set ls \<and> q < j \<and> p \<noteq> Some q)"
| "passed g _ q ch = False"

definition wake_ok :: "(chan \<Rightarrow> nat) \<Rightarrow> sched \<Rightarrow> bool" where
  "wake_ok g s \<longleftrightarrow> (\<forall>c q ch. passed g (tpc s c) q ch \<longrightarrow> \<not> asleep s q ch)"

lemma wake_okI:
  assumes "wake_ok g s" "tpc t = (tpc s)(c := p)" "\<And>q ch. passed g p q ch \<Longrightarrow> passed g (tpc s c) q ch"
    "\<And>q. pstate t q = SLEEPING \<Longrightarrow> pstate s q = SLEEPING \<and> pchan t q = pchan s q" "\<And>q ch. p \<noteq> TSleep2 q ch"
  shows "wake_ok g t"
  unfolding wake_ok_def
proof (intro allI impI)
  fix d q ch
  assume "passed g (tpc t d) q ch"
  then have "passed g (tpc s d) q ch" using assms(2,3) by (auto split: if_splits)
  then have "\<not> asleep s q ch" using assms(1) by (simp add: wake_ok_def)
  moreover have "asleep t q ch \<Longrightarrow> asleep s q ch" using assms(2,4,5) by (auto simp: asleep_def split: if_splits)
  ultimately show "\<not> asleep t q ch" by blast
qed

lemma passed_holds: "passed g p q ch \<Longrightarrow> Lk (g ch) \<in> held g wl p"
  by (cases p) (auto simp: held_def)

lemma step_wake: "step g wl s t \<Longrightarrow> locks_ok g wl s \<Longrightarrow> procs_ok s \<Longrightarrow> wake_ok g s \<Longrightarrow> wake_ok g t"
proof (induction rule: step.induct)
  case (k_intr_on s c)
  then show ?case by (simp add: wake_ok_def asleep_def upd_cpu_def)
next
  case (k_look s c i t)
  then show ?case using acquire_same [OF k_look(3)] by - (rule wake_okI [of g s _ c "TLook i"], auto simp: same_procs_def split: if_splits)
next
  case (k_skip s c i t)
  then show ?case using release_same [OF k_skip(3)] by - (rule wake_okI [of g s _ c "TSched"], auto simp: same_procs_def split: if_splits)
next
  case (k_pick s c i)
  then show ?case by - (rule wake_okI [of g s _ c "TResume i"], auto simp: same_procs_def split: if_splits)
next
  case (k_resume_yield s c i t)
  then show ?case using release_same [OF k_resume_yield(3)] by - (rule wake_okI [of g s _ c "TRun (Some i) []"], auto simp: same_procs_def split: if_splits)
next
  case (k_resume_sleep s c i l t)
  have "pstate s i = RUNNING" using procs_okD(1) [OF k_resume_sleep(5), of c i] k_resume_sleep(1) by simp
  then show ?case using k_resume_sleep release_same [OF k_resume_sleep(3)]
    by - (rule wake_okI [of g s _ c "TRelock i l"], auto simp: same_procs_def)
next
  case (k_relock s c i l t)
  then show ?case using acquire_same [OF k_relock(2)] by - (rule wake_okI [of g s _ c "TRun (Some i) [l]"], auto simp: same_procs_def split: if_splits)
next
  case (k_relock_trap s c i l)
  then show ?case by - (rule wake_okI [of g s _ c "TRun (Some i) []"], auto simp: same_procs_def split: if_splits)
next
  case (k_relock_ret s c i l)
  then show ?case by - (rule wake_okI [of g s _ c "TRelock i l"], auto simp: same_procs_def split: if_splits)
next
  case (k_forkret s c i t)
  then show ?case using release_same [OF k_forkret(3)] by - (rule wake_okI [of g s _ c "TRun (Some i) []"], auto simp: same_procs_def split: if_splits)
next
  case (k_lock s c p ls l t)
  then show ?case using acquire_same [OF k_lock(3)] by - (rule wake_okI [of g s _ c "TRun p (l # ls)"], auto simp: same_procs_def split: if_splits)
next
  case (k_unlock s c p ls l t)
  then show ?case using release_same [OF k_unlock(3)] by - (rule wake_okI [of g s _ c "TRun p (remove1 l ls)"], auto simp: same_procs_def split: if_splits)
next
  case (k_trap s c)
  then show ?case by - (rule wake_okI [of g s _ c "TRun None []"], auto simp: same_procs_def split: if_splits)
next
  case (k_trap_ret s c)
  then show ?case by - (rule wake_okI [of g s _ c "TSched"], auto simp: same_procs_def split: if_splits)
next
  case (k_yield s c i t)
  then show ?case using acquire_same [OF k_yield(2)] by - (rule wake_okI [of g s _ c "TYield i"], auto simp: same_procs_def split: if_splits)
next
  case (k_yielded s c i)
  then show ?case by - (rule wake_okI [of g s _ c "TSwitch i"], auto simp: same_procs_def split: if_splits)
next
  case (k_sleep s c i ch t)
  then show ?case using acquire_same [OF k_sleep(2)] by - (rule wake_okI [of g s _ c "TSleep1 i ch"], auto simp: same_procs_def split: if_splits)
next
  case (k_sleep_release s c i ch t)
  note t = release_same [OF k_sleep_release(2)]
  have none: "\<not> passed g (tpc s d) q ch" for d q
  proof
    assume p: "passed g (tpc s d) q ch"
    then have "Lk (g ch) \<in> held g wl (tpc s d)" by (rule passed_holds)
    moreover have "Lk (g ch) \<in> held g wl (tpc s c)" using k_sleep_release(1) by (simp add: held_def)
    ultimately have "d = c" by (rule held_unique [OF k_sleep_release(3)])
    then show False using p k_sleep_release(1) by simp
  qed
  show ?case unfolding wake_ok_def
  proof (intro allI impI)
    fix d q ch'
    assume p: "passed g (tpc (at c (TSleep2 i ch) t) d) q ch'"
    then have p': "passed g (tpc s d) q ch'" using t by (auto simp: same_procs_def split: if_splits)
    then have "ch' \<noteq> ch" using none by blast
    moreover have "\<not> asleep s q ch'" using k_sleep_release(5) p' by (simp add: wake_ok_def)
    ultimately show "\<not> asleep (at c (TSleep2 i ch) t) q ch'" using t by (auto simp: asleep_def same_procs_def split: if_splits)
  qed
next
  case (k_asleep s c i ch)
  let ?t = "at c (TSwitch i) ((set_pstate i SLEEPING s)\<lparr>pchan := (pchan s)(i := ch), cont := (cont s)(i := CSleep (g ch))\<rparr>)"
  show ?case unfolding wake_ok_def
  proof (intro allI impI)
    fix d q ch'
    assume "passed g (tpc ?t d) q ch'"
    then have "passed g (tpc s d) q ch'" by (auto split: if_splits)
    then have "\<not> asleep s q ch'" using k_asleep(4) by (simp add: wake_ok_def)
    moreover have "asleep s i ch" using k_asleep(1) by (auto simp: asleep_def)
    ultimately show "\<not> asleep ?t q ch'" by (auto simp: asleep_def split: if_splits)
  qed
next
  case (k_switch s c i t)
  then show ?case using sched_out_same [OF k_switch(2)] by - (rule wake_okI [of g s _ c "TBack i"], auto)
next
  case (k_back s c i t)
  then show ?case using release_same [OF k_back(2)] by - (rule wake_okI [of g s _ c "TSched"], auto simp: same_procs_def split: if_splits)
next
  case (k_exit s c i t)
  then show ?case using acquire_same [OF k_exit(2)] by - (rule wake_okI [of g s _ c "TExit i"], auto simp: same_procs_def split: if_splits)
next
  case (k_exited s c i t)
  then show ?case using release_same [OF k_exited(2)] by - (rule wake_okI [of g s _ c "TSwitch i"], auto simp: same_procs_def split: if_splits)
next
  case (k_wakeup s c p ls ch)
  then show ?case by - (rule wake_okI [of g s _ c "TWake p ls ch 0"], auto simp: same_procs_def split: if_splits)
next
  case (k_wake_self s c p ls ch j)
  then show ?case by - (rule wake_okI [of g s _ c "TWake p ls ch (Suc j)"], auto simp: less_Suc_eq)
next
  case (k_wake_lock s c p ls ch j t)
  then show ?case using acquire_same [OF k_wake_lock(4)] by - (rule wake_okI [of g s _ c "TWakeL p ls ch j"], auto simp: same_procs_def split: if_splits)
next
  case (k_wake_one s c p ls ch j t)
  note t = release_same [OF k_wake_one(2)]
  let ?t = "at c (TWake p ls ch (Suc j)) t"
  have no: "tpc s d \<noteq> TSleep2 j ch'" for d ch'
  proof
    assume d: "tpc s d = TSleep2 j ch'"
    then have "d = c" using held_unique [OF k_wake_one(3), of "PLock j" d c] k_wake_one(1) by (simp add: held_def)
    then show False using d k_wake_one(1) by simp
  qed
  have sl: "pstate t q = SLEEPING \<Longrightarrow> pstate s q = SLEEPING \<and> pchan t q = pchan s q \<and> (q = j \<longrightarrow> pchan s q \<noteq> ch)" for q
    using t by (auto simp: same_procs_def split: if_splits)
  have tt: "tpc t = tpc s" using t by (simp add: same_procs_def split: if_splits)
  show ?case unfolding wake_ok_def
  proof (intro allI impI)
    fix d q ch'
    assume p: "passed g (tpc ?t d) q ch'"
    show "\<not> asleep ?t q ch'"
    proof (cases "d = c \<and> q = j")
      case True
      then have "ch' = ch" using p by simp
      have "tpc ?t e \<noteq> TSleep2 j ch" for e using no [of e ch] by (cases "e = c") (simp_all add: tt)
      moreover have "\<not> (pstate ?t j = SLEEPING \<and> pchan ?t j = ch)" using sl [of j] by auto
      ultimately show ?thesis unfolding asleep_def using True \<open>ch' = ch\<close> by blast
    next
      case False
      then have "passed g (tpc s d) q ch'" using p k_wake_one(1) by (auto simp: tt less_Suc_eq split: if_splits)
      then have "\<not> asleep s q ch'" using k_wake_one(5) by (simp add: wake_ok_def)
      then show ?thesis using sl [of q] by (auto simp: asleep_def tt split: if_splits)
    qed
  qed
next
  case (k_wake_done s c p ls ch)
  then show ?case by - (rule wake_okI [of g s _ c "TRun p ls"], auto simp: same_procs_def split: if_splits)
next
  case (k_slot s c p ls j t)
  then show ?case using acquire_same [OF k_slot(3)] by - (rule wake_okI [of g s _ c "TSlot p ls j"], auto simp: same_procs_def split: if_splits)
next
  case (k_kill s c p ls j t)
  then show ?case using release_same [OF k_kill(2)] by - (rule wake_okI [of g s _ c "TRun p ls"], auto simp: same_procs_def split: if_splits)
next
  case (k_alloc s c p ls j t)
  then show ?case using release_same [OF k_alloc(3)] by - (rule wake_okI [of g s _ c "TRun p ls"], auto simp: same_procs_def split: if_splits)
next
  case (k_forked s c p ls j t)
  then show ?case using release_same [OF k_forked(3)] by - (rule wake_okI [of g s _ c "TRun p ls"], auto simp: same_procs_def split: if_splits)
next
  case (k_freed s c p ls j t)
  then show ?case using release_same [OF k_freed(3)] by - (rule wake_okI [of g s _ c "TRun p ls"], auto simp: same_procs_def split: if_splits)
qed

section \<open>Reachable states\<close>

lemma booted_ok: "booted s \<Longrightarrow> locks_ok g wl s \<and> procs_ok s \<and> wake_ok g s"
  by (auto simp: booted_def locks_ok_def procs_ok_def wake_ok_def held_def nested_def)

lemma reachable_ok:
  assumes "booted s" "(step g wl)\<^sup>*\<^sup>* s t"
  shows "locks_ok g wl t \<and> procs_ok t \<and> wake_ok g t"
  using assms(2) by (induction rule: rtranclp_induct) (use booted_ok [OF assms(1)] in \<open>auto intro: step_locks step_procs step_wake\<close>)

text \<open>A \<^verbatim>\<open>wakeup\<close> runs to its end if the locks of the processes are free.\<close>

lemma release_ok: "nested c (Suc d) e s \<Longrightarrow> holding c l s \<Longrightarrow> \<exists>t. release c l s = Ok t \<and> nested c d e t \<and>
    locks t = (locks s)(l := \<lparr>lk_locked = False, lk_cpu = None\<rparr>)"
  using nested_pop [of c d e "upd_lock l (\<lambda>_. \<lparr>lk_locked = False, lk_cpu = None\<rparr>) s"] by (auto simp: release_def)

lemma acquire_ok:
  assumes "nested c d e s" "Suc d < 2 ^ 31" "\<not> lk_locked (locks s l)"
  shows "\<exists>t. acquire c l s = Ok t \<and> nested c (Suc d) e t \<and> locks t = (locks s)(l := \<lparr>lk_locked = True, lk_cpu = Some c\<rparr>)"
proof -
  obtain s1 where s1: "push_off c s = Ok s1" using nested_push_ok [OF assms(1,2)] by blast
  then show ?thesis using nested_push [OF assms(1) s1] push_off_locks [OF s1] assms(3) by (auto simp: acquire_def holding_def)
qed

lemma wakeup_runs:
  assumes "tpc s c = TWake p ls ch j" "j \<le> NPROC" "nested c d e s" "\<forall>i<NPROC. locks s (PLock i) = \<lparr>lk_locked = False, lk_cpu = None\<rparr>"
    "Suc d < 2 ^ 31"
  shows "\<exists>t. (step g wl)\<^sup>*\<^sup>* s t \<and> tpc t c = TWake p ls ch NPROC"
  using assms
proof (induction "NPROC - j" arbitrary: j s)
  case 0
  then show ?case by (auto intro: exI [of _ s])
next
  case (Suc k)
  then have j: "j < NPROC" "k = NPROC - Suc j" by auto
  show ?case
  proof (cases "p = Some j")
    case True
    let ?t = "at c (TWake p ls ch (Suc j)) s"
    have st: "step g wl s ?t" using Suc.prems(1) True by (rule k_wake_self)
    have "\<exists>t. (step g wl)\<^sup>*\<^sup>* ?t t \<and> tpc t c = TWake p ls ch NPROC" by (rule Suc.hyps(1) [OF j(2)]) (use Suc.prems j in auto)
    then show ?thesis using st by (meson converse_rtranclp_into_rtranclp)
  next
    case False
    have fj: "locks s (PLock j) = \<lparr>lk_locked = False, lk_cpu = None\<rparr>" using Suc.prems(4) j(1) by blast
    then obtain t1 where t1: "acquire c (PLock j) s = Ok t1" "nested c (Suc d) e t1"
      "locks t1 = (locks s)(PLock j := \<lparr>lk_locked = True, lk_cpu = Some c\<rparr>)" using acquire_ok [OF Suc.prems(3,5), of "PLock j"] by auto
    let ?s1 = "at c (TWakeL p ls ch j) t1"
    have st1: "step g wl s ?s1" using Suc.prems(1) j(1) False t1(1) by (rule k_wake_lock)
    have tp: "tpc ?s1 c = TWakeL p ls ch j" by simp
    let ?s2 = "wake_slot ch j ?s1"
    have n2: "nested c (Suc d) e ?s2" using t1(2) nested_cong [of "set_pstate j RUNNABLE ?s1" ?s1] by simp
    have l2: "locks ?s2 = locks t1" by simp
    obtain t2 where t2: "release c (PLock j) ?s2 = Ok t2" "nested c d e t2"
      "locks t2 = (locks t1)(PLock j := \<lparr>lk_locked = False, lk_cpu = None\<rparr>)"
      using release_ok [OF n2, of "PLock j"] l2 t1(3) by (auto simp: holding_def)
    let ?s3 = "at c (TWake p ls ch (Suc j)) t2"
    have st2: "step g wl ?s1 ?s3" using tp t2(1) by (rule k_wake_one)
    have "\<exists>t. (step g wl)\<^sup>*\<^sup>* ?s3 t \<and> tpc t c = TWake p ls ch NPROC"
      by (rule Suc.hyps(1) [OF j(2)]) (use Suc.prems(4,5) j t1(3) t2 in auto)
    then show ?thesis using st1 st2 by (meson converse_rtranclp_into_rtranclp)
  qed
qed

section \<open>A machine\<close>

definition demo_sched :: sched where
  "demo_sched = \<lparr>cpus = (\<lambda>_. \<lparr>noff = 0, intena = False, intr = True\<rparr>), locks = (\<lambda>_. \<lparr>lk_locked = False, lk_cpu = None\<rparr>),
     pstate = (\<lambda>i. if i = 0 then RUNNABLE else UNUSED), pchan = (\<lambda>_. ChanNone), cproc = (\<lambda>_. None), saved = (\<lambda>_. False),
     cont = (\<lambda>_. CFork), relock = (\<lambda>_. None), tpc = (\<lambda>_. TSched)\<rparr>"

lemma demo_sched_booted: "booted demo_sched"
  by (simp add: booted_def demo_sched_def)

text \<open>The first process is scheduled and runs.\<close>

lemma demo_sched_runs:
  "\<exists>s. (step g wl)\<^sup>*\<^sup>* demo_sched s \<and> tpc s 0 = TRun (Some 0) [] \<and> nested 0 0 True s \<and>
     (\<forall>l. locks s l = \<lparr>lk_locked = False, lk_cpu = None\<rparr>)"
proof -
  let ?z = "\<lparr>lk_locked = False, lk_cpu = None\<rparr>"
  have d: "nested 0 0 True demo_sched" "tpc demo_sched 0 = TSched" "locks demo_sched = (\<lambda>_. ?z)" "pstate demo_sched 0 = RUNNABLE"
    "cont demo_sched 0 = CFork" by (simp_all add: nested_def demo_sched_def)
  obtain t1 where t1: "acquire 0 (PLock 0) demo_sched = Ok t1" "nested 0 1 True t1"
    "locks t1 = (\<lambda>_. ?z)(PLock 0 := \<lparr>lk_locked = True, lk_cpu = Some 0\<rparr>)" using acquire_ok [OF d(1), of "PLock 0"] d(3) by auto
  let ?s1 = "at 0 (TLook 0) t1"
  have k1: "step g wl demo_sched ?s1" by (rule k_look [OF d(2) _ t1(1)]) simp
  note f1 = acquire_same [OF t1(1)]
  let ?s2 = "at 0 (TResume 0) ((set_pstate 0 RUNNING ?s1)\<lparr>cproc := (cproc ?s1)(0 := Some 0)\<rparr>)"
  have k2: "step g wl ?s1 ?s2" by (rule k_pick) (use f1 d(4) in \<open>simp_all add: same_procs_def\<close>)
  have n2: "nested 0 (Suc 0) True ?s2" using t1(2) nested_cong [of "(set_pstate 0 RUNNING ?s1)\<lparr>cproc := (cproc ?s1)(0 := Some 0)\<rparr>" t1] by simp
  have h2: "holding 0 (PLock 0) ?s2" using t1(3) by (simp add: holding_def)
  obtain t3 where t3: "release 0 (PLock 0) ?s2 = Ok t3" "nested 0 0 True t3" "locks t3 = (locks ?s2)(PLock 0 := ?z)"
    using release_ok [OF n2 h2] by blast
  have "cont t1 = cont demo_sched"
    using t1(1) by (auto simp: acquire_def push_off_def upd_cpu_def upd_lock_def Let_def bind_ok_eq_Ok split: if_splits)
  then have "cont ?s2 0 = CFork" using d(5) by (simp add: at_def set_pstate_def)
  then have k3: "step g wl ?s2 (at 0 (TRun (Some 0) []) t3)" by (intro k_forkret [OF _ _ t3(1)]) simp_all
  have "(step g wl)\<^sup>*\<^sup>* demo_sched (at 0 (TRun (Some 0) []) t3)" using k1 k2 k3 by (meson converse_rtranclp_into_rtranclp rtranclp.rtrancl_refl)
  then show ?thesis using t3 t1(3) by (intro exI [of _ "at 0 (TRun (Some 0) []) t3"]) auto
qed

section \<open>Properties\<close>

text \<open>
  C21: no process ever runs on two CPUs. In every state that the CPUs can reach, a process that a CPU
  runs is \<^verbatim>\<open>RUNNING\<close>, no two CPUs are on the stack of the same process, also while one is leaving it,
  and \<^verbatim>\<open>sched\<close> finds all that it checks: the lock of the process held and no other, the state
  changed, interrupts off.
\<close>

theorem one_cpu_per_process:
  assumes "booted s" "(step guard wl)\<^sup>*\<^sup>* s t"
  shows "(\<forall>c c' i. on_stack (tpc t c) = Some i \<and> on_stack (tpc t c') = Some i \<longrightarrow> c = c') \<and>
    (\<forall>c i. running (tpc t c) = Some i \<longrightarrow> pstate t i = RUNNING) \<and>
    (\<forall>c i. tpc t c = TSwitch i \<longrightarrow> (\<exists>u. sched_out c i t = Ok u))"
proof -
  have ok: "locks_ok guard wl t" "procs_ok t" using reachable_ok [OF assms] by auto
  have "\<exists>u. sched_out c i t = Ok u" if "tpc t c = TSwitch i" for c i
  proof -
    have h: "held guard wl (tpc t c) = {PLock i}" using that by (simp add: held_def)
    then have "lk_cpu (locks t (PLock i)) = Some c" using locks_okD(2) [OF ok(1)] by simp
    then have "holding c (PLock i) t" using locks_okD(1) [OF ok(1), of "PLock i"] by (simp add: holding_def)
    moreover have "noff (cpus t c) = 1 \<and> \<not> intr (cpus t c)" using locks_okD(4) [OF ok(1), of c] h by (auto simp: nested_def)
    ultimately show ?thesis using procs_okD(2) [OF ok(2) that] by (simp add: sched_out_def)
  qed
  then show ?thesis using procs_okD [OF ok(2)] by blast
qed

theorem one_cpu_per_process_witness:
  "\<exists>t. (step (\<lambda>_. 0) 1)\<^sup>*\<^sup>* demo_sched t \<and> tpc t 0 = TRun (Some 0) [] \<and> pstate t 0 = RUNNING"
proof -
  obtain t where t: "(step (\<lambda>_. 0) 1)\<^sup>*\<^sup>* demo_sched t" "tpc t 0 = TRun (Some 0) []" using demo_sched_runs by blast
  from one_cpu_per_process [OF demo_sched_booted t(1)] t show ?thesis by (metis running.simps(3))
qed

text \<open>
  C22: no wakeup is lost. When \<^verbatim>\<open>wakeup\<close>, called with the lock of the channel's condition held, has
  gone through the process table, no other process sleeps on the channel, and none is on its way to
  sleep there after having seen the old condition: \<^verbatim>\<open>sleep\<close> takes the lock of the process before it
  gives up the lock of the condition.
\<close>

theorem no_lost_wakeup:
  assumes "booted s" "(step guard wl)\<^sup>*\<^sup>* s t" and w: "tpc t c = TWake p ls ch NPROC" "guard ch \<in> set ls" and q: "q < NPROC" "p \<noteq> Some q"
  shows "\<not> (pstate t q = SLEEPING \<and> pchan t q = ch) \<and> (\<forall>c'. tpc t c' \<noteq> TSleep1 q ch \<and> tpc t c' \<noteq> TSleep2 q ch)"
proof -
  have ok: "locks_ok guard wl t" "wake_ok guard t" using reachable_ok [OF assms(1,2)] by auto
  have p: "passed guard (tpc t c) q ch" using w q by simp
  then have "\<not> asleep t q ch" using ok(2) by (simp add: wake_ok_def)
  moreover have "tpc t c' \<noteq> TSleep1 q ch" for c'
  proof
    assume c': "tpc t c' = TSleep1 q ch"
    have "c' = c" using held_unique [OF ok(1) _ passed_holds [OF p], of c'] c' by (simp add: held_def)
    then show False using c' w(1) by simp
  qed
  ultimately show ?thesis by (auto simp: asleep_def)
qed

theorem no_lost_wakeup_witness:
  "\<exists>t. (step (\<lambda>_. 5) 1)\<^sup>*\<^sup>* demo_sched t \<and> tpc t 0 = TWake (Some 0) [5] ChanTicks NPROC \<and>
     \<not> (pstate t 3 = SLEEPING \<and> pchan t 3 = ChanTicks)"
proof -
  let ?st = "step (\<lambda>_. 5) 1"
  obtain s where s: "?st\<^sup>*\<^sup>* demo_sched s" "tpc s 0 = TRun (Some 0) []" "nested 0 0 True s"
    "\<forall>l. locks s l = \<lparr>lk_locked = False, lk_cpu = None\<rparr>" using demo_sched_runs by blast
  obtain t1 where t1: "acquire 0 (Lk 5) s = Ok t1" "nested 0 1 True t1"
    "locks t1 = (locks s)(Lk 5 := \<lparr>lk_locked = True, lk_cpu = Some 0\<rparr>)" using acquire_ok [OF s(3), of "Lk 5"] s(4) by auto
  have k1: "?st s (at 0 (TRun (Some 0) [5]) t1)" by (rule k_lock [OF s(2) _ t1(1)]) simp
  let ?s1 = "at 0 (TRun (Some 0) [5]) t1"
  have k2: "?st ?s1 (at 0 (TWake (Some 0) [5] ChanTicks 0) ?s1)" by (rule k_wakeup) simp
  obtain t where t: "?st\<^sup>*\<^sup>* (at 0 (TWake (Some 0) [5] ChanTicks 0) ?s1) t" "tpc t 0 = TWake (Some 0) [5] ChanTicks NPROC"
    using wakeup_runs [of "at 0 (TWake (Some 0) [5] ChanTicks 0) ?s1" 0 "Some 0" "[5]" ChanTicks 0 1 True "\<lambda>_. 5" 1] t1 s(4) by auto
  have r: "?st\<^sup>*\<^sup>* demo_sched t" using s(1) k1 k2 t(1) by (meson rtranclp_trans converse_rtranclp_into_rtranclp)
  show ?thesis using no_lost_wakeup [OF demo_sched_booted r t(2), of 3] r t(2) by auto
qed

end
