(* ===== verification/Grep.thy ===== *)
theory Grep
  imports Xv6_Prelude
begin

text \<open>
  \<^verbatim>\<open>user/grep.c\<close>, and the same matcher in \<^verbatim>\<open>user/find.c\<close>: the matcher of Kernighan and Pike against a
  declarative meaning of patterns, and the loop of \<^verbatim>\<open>grep\<close> over the input in pieces. A string is the
  list of its characters before the NUL.
\<close>

section \<open>The matcher\<close>

abbreviation chr :: "char \<Rightarrow> u8" where "chr c \<equiv> of_char c"

function matchhere :: "u8 list \<Rightarrow> u8 list \<Rightarrow> bool"
  and matchstar :: "u8 \<Rightarrow> u8 list \<Rightarrow> u8 list \<Rightarrow> bool" where
  "matchhere re text =
     (if re = [] then True
      else if tl re \<noteq> [] \<and> hd (tl re) = chr CHR ''*'' then matchstar (hd re) (tl (tl re)) text
      else if hd re = chr CHR ''$'' \<and> tl re = [] then text = []
      else if text \<noteq> [] \<and> (hd re = chr CHR ''.'' \<or> hd re = hd text) then matchhere (tl re) (tl text)
      else False)"
| "matchstar c re text =
     (if matchhere re text then True
      else if text \<noteq> [] \<and> (hd text = c \<or> c = chr CHR ''.'') then matchstar c re (tl text)
      else False)"
  by pat_completeness auto
termination
proof (relation "measure (\<lambda>x. case x of Inl (re, text) \<Rightarrow> 2 * (length re + length text) | Inr (c, re, text) \<Rightarrow> 2 * (length re + length text) + 1)",
    goal_cases)
  case (2 re t)
  then show ?case by (cases re; cases "tl re") auto
qed (auto simp: neq_Nil_conv)

declare matchhere.simps [simp del] matchstar.simps [simp del]

text \<open>The loop of \<^verbatim>\<open>match\<close> over the places of the text.\<close>

fun match_from :: "u8 list \<Rightarrow> u8 list \<Rightarrow> bool" where
  "match_from re text = (matchhere re text \<or> (case text of [] \<Rightarrow> False | _ # text \<Rightarrow> match_from re text))"

declare match_from.simps [simp del]

definition match :: "u8 list \<Rightarrow> u8 list \<Rightarrow> bool" where
  "match re text = (if re \<noteq> [] \<and> hd re = chr CHR ''^'' then matchhere (tl re) text else match_from re text)"

section \<open>The loop over the input\<close>

definition GREP_BUF :: nat where "GREP_BUF = 1024"

text \<open>\<^verbatim>\<open>strchr(p, '\<newline>')\<close>: the offset of the first newline before any NUL.\<close>

definition newline :: "u8 list \<Rightarrow> nat option" where
  "newline p = find (\<lambda>i. p ! i = 10) [0..<length (takeWhile (\<lambda>c. c \<noteq> 0) p)]"

text \<open>The inner loop: what is written for the lines of the buffer, and the rest that is kept.\<close>

function grep_lines :: "u8 list \<Rightarrow> u8 list \<Rightarrow> u8 list \<times> u8 list" where
  "grep_lines pattern p =
     (case newline p of
        None \<Rightarrow> ([], p)
      | Some q \<Rightarrow>
          (case grep_lines pattern (drop (Suc q) p) of (out, rest) \<Rightarrow>
             ((if match pattern (take q p) then take (Suc q) p else []) @ out, rest)))"
  by pat_completeness auto
termination
proof (relation "measure (\<lambda>(pattern, p). length p)", goal_cases)
  case (2 pattern p q)
  then have "q < length (takeWhile (\<lambda>c. c \<noteq> 0) p)" by (simp add: newline_def find_upt_Some)
  then have "p \<noteq> []" by auto
  then show ?case by simp
qed simp

declare grep_lines.simps [simp del]

text \<open>
  The outer loop. A read delivers at most as many bytes as it is asked for; \<open>ks\<close> gives the numbers
  of bytes that successive reads are able to deliver of the input \<open>inp\<close>, and \<open>left\<close> is what is in
  the buffer.
\<close>

primrec grep :: "u8 list \<Rightarrow> nat list \<Rightarrow> u8 list \<Rightarrow> u8 list \<Rightarrow> u8 list" where
  "grep pattern [] left inp = []"
| "grep pattern (k # ks) left inp =
     (let c = take (min k (GREP_BUF - length left - 1)) inp
      in if c = [] then []
         else case grep_lines pattern (left @ c) of (out, rest) \<Rightarrow> out @ grep pattern ks rest (drop (length c) inp))"

section \<open>The meaning of patterns\<close>

text \<open>A pattern is a sequence of single characters, repeated characters and the end of the line.\<close>

datatype item = One u8 | Many u8 | Eol

fun items :: "u8 list \<Rightarrow> item list" where
  "items [] = []"
| "items [c] = (if c = chr CHR ''$'' then [Eol] else [One c])"
| "items (c # d # re) = (if d = chr CHR ''*'' then Many c # items re else One c # items (d # re))"

definition fits :: "u8 \<Rightarrow> u8 \<Rightarrow> bool" where
  "fits c x \<longleftrightarrow> c = chr CHR ''.'' \<or> x = c"

text \<open>\<open>denotes is pre suf\<close>: the items match \<open>pre\<close> in front of \<open>suf\<close>.\<close>

inductive denotes :: "item list \<Rightarrow> u8 list \<Rightarrow> u8 list \<Rightarrow> bool" where
  "denotes [] [] suf"
| "fits c x \<Longrightarrow> denotes is pre suf \<Longrightarrow> denotes (One c # is) (x # pre) suf"
| "\<forall>x\<in>set xs. fits c x \<Longrightarrow> denotes is pre suf \<Longrightarrow> denotes (Many c # is) (xs @ pre) suf"
| "denotes [Eol] [] []"

inductive_simps denotes_simps [simp]:
  "denotes [] pre suf" "denotes (One c # is) pre suf" "denotes (Many c # is) pre suf" "denotes (Eol # is) pre suf"

definition matches :: "item list \<Rightarrow> u8 list \<Rightarrow> bool" where
  "matches is text \<longleftrightarrow> (\<exists>pre suf. text = pre @ suf \<and> denotes is pre suf)"

lemma matches_Nil [simp]: "matches [] text"
  by (simp add: matches_def)

lemma matches_Eol [simp]: "matches [Eol] text \<longleftrightarrow> text = []"
  by (auto simp: matches_def)

lemma matches_One [simp]: "matches (One c # is) text \<longleftrightarrow> (\<exists>x xs. text = x # xs \<and> fits c x \<and> matches is xs)"
proof
  assume "matches (One c # is) text"
  then obtain x pre suf where "text = x # pre @ suf" "fits c x" "denotes is pre suf" by (auto simp: matches_def)
  then show "\<exists>x xs. text = x # xs \<and> fits c x \<and> matches is xs" unfolding matches_def by blast
next
  assume "\<exists>x xs. text = x # xs \<and> fits c x \<and> matches is xs"
  then obtain x pre suf where "text = (x # pre) @ suf" "fits c x" "denotes is pre suf" by (auto simp: matches_def)
  then show "matches (One c # is) text" unfolding matches_def by (intro exI [of _ "x # pre"] exI [of _ suf]) simp
qed

lemma matches_Many:
  "matches (Many c # is) text \<longleftrightarrow> matches is text \<or> (\<exists>x xs. text = x # xs \<and> fits c x \<and> matches (Many c # is) xs)"
  (is "?l = ?r")
proof
  assume ?l
  then obtain xs pre suf where t: "text = xs @ pre @ suf" "\<forall>x\<in>set xs. fits c x" "denotes is pre suf" by (auto simp: matches_def)
  show ?r
  proof (cases xs)
    case Nil
    then show ?thesis using t by (auto simp: matches_def)
  next
    case (Cons y ys)
    then have "matches (Many c # is) (ys @ pre @ suf)" using t unfolding matches_def
      by (intro exI [of _ "ys @ pre"] exI [of _ suf]) auto
    then show ?thesis using t Cons by auto
  qed
next
  assume ?r
  then show ?l
  proof
    assume "matches is text"
    then obtain pre suf where "text = pre @ suf" "denotes is pre suf" by (auto simp: matches_def)
    moreover from this have "denotes (Many c # is) ([] @ pre) suf" by (intro denotes.intros(3)) auto
    ultimately show ?l unfolding matches_def by (intro exI [of _ pre] exI [of _ suf]) simp
  next
    assume "\<exists>x xs. text = x # xs \<and> fits c x \<and> matches (Many c # is) xs"
    then obtain x xs pre suf where "text = x # xs @ pre @ suf" "fits c x" "\<forall>y\<in>set xs. fits c y" "denotes is pre suf"
      by (auto simp: matches_def)
    moreover from this have "denotes (Many c # is) ((x # xs) @ pre) suf" by (intro denotes.intros(3)) auto
    ultimately show ?l unfolding matches_def by (intro exI [of _ "(x # xs) @ pre"] exI [of _ suf]) simp
  qed
qed

lemma matchhere_matches:
  "matchhere re text \<longleftrightarrow> matches (items re) text"
  "matchstar c re text \<longleftrightarrow> matches (Many c # items re) text"
proof (induction re "text" and c re "text" rule: matchhere_matchstar.induct)
  case (1 re t)
  show ?case
  proof (cases re rule: items.cases)
    case 1
    then show ?thesis by (simp add: matchhere.simps)
  next
    case (2 c)
    then show ?thesis using "1.IH"(2) by (cases t) (auto simp: matchhere.simps [of "[c]"] fits_def)
  next
    case (3 c d re')
    then show ?thesis using "1.IH" by (cases t) (auto simp: matchhere.simps [of "c # d # re'"] fits_def)
  qed
next
  case (2 c re t)
  have "matchstar c re t \<longleftrightarrow> matchhere re t \<or> t \<noteq> [] \<and> (hd t = c \<or> c = chr CHR ''.'') \<and> matchstar c re (tl t)"
    by (simp add: matchstar.simps [of c re t])
  also have "\<dots> \<longleftrightarrow> matches (items re) t \<or> t \<noteq> [] \<and> (hd t = c \<or> c = chr CHR ''.'') \<and> matches (Many c # items re) (tl t)"
    using 2 by blast
  also have "\<dots> \<longleftrightarrow> matches (Many c # items re) t"
    by (subst matches_Many [of c "items re" t]) (cases t; auto simp: fits_def)
  finally show ?case .
qed

lemma match_from_matches: "match_from re text \<longleftrightarrow> (\<exists>u v. text = u @ v \<and> matchhere re v)"
proof (induction "text")
  case Nil
  then show ?case by (simp add: match_from.simps)
next
  case (Cons x xs)
  have "match_from re (x # xs) \<longleftrightarrow> matchhere re (x # xs) \<or> match_from re xs" by (simp add: match_from.simps [of re "x # xs"])
  also have "\<dots> \<longleftrightarrow> (\<exists>u v. x # xs = u @ v \<and> matchhere re v)"
    unfolding Cons by (metis Cons_eq_append_conv append_Cons append_Nil)
  finally show ?case .
qed

section \<open>Lines\<close>

definition unlines :: "u8 list list \<Rightarrow> u8 list" where
  "unlines ls = concat (map (\<lambda>l. l @ [10]) ls)"

lemma unlines_simps [simp]: "unlines [] = []" "unlines (l # ls) = l @ 10 # unlines ls" "unlines (ls @ ls') = unlines ls @ unlines ls'"
  by (simp_all add: unlines_def)

definition clean :: "u8 list \<Rightarrow> bool" where
  "clean l \<longleftrightarrow> 10 \<notin> set l \<and> 0 \<notin> set l"

lemma newline_line: "clean l \<Longrightarrow> newline (l @ 10 # x) = Some (length l)"
proof -
  assume c: "clean l"
  have t: "takeWhile (\<lambda>c. c \<noteq> 0) (l @ 10 # x) = l @ 10 # takeWhile (\<lambda>c. c \<noteq> 0) x" using c by (auto simp: clean_def takeWhile_append)
  have "(l @ 10 # x) ! j \<noteq> 10" if "j < length l" for j using c that by (auto simp: clean_def nth_append in_set_conv_nth)
  then show ?thesis unfolding newline_def t find_upt_Some by simp
qed

lemma newline_none: "10 \<notin> set x \<Longrightarrow> newline x = None"
proof -
  assume x: "10 \<notin> set x"
  have "x ! i \<noteq> 10" if "i < length (takeWhile (\<lambda>c. c \<noteq> 0) x)" for i
  proof -
    have "i < length x" using that length_takeWhile_le [of "\<lambda>c. c \<noteq> 0" x] by simp
    then show ?thesis using x by (auto simp: in_set_conv_nth)
  qed
  then show ?thesis by (simp add: newline_def find_upt_None)
qed

lemma grep_lines_spec:
  "\<forall>l\<in>set ls. clean l \<Longrightarrow> 10 \<notin> set rest \<Longrightarrow> grep_lines pattern (unlines ls @ rest) = (unlines (filter (match pattern) ls), rest)"
proof (induction ls)
  case Nil
  then show ?case by (simp add: grep_lines.simps [of pattern rest] newline_none)
next
  case (Cons l ls)
  then show ?case using newline_line [of l "unlines ls @ rest"]
    by (simp add: grep_lines.simps [of pattern "l @ 10 # unlines ls @ rest"])
qed

lemma lines_prefix:
  assumes "x @ y = unlines ls @ tail" "\<forall>l\<in>set ls. clean l" "10 \<notin> set tail"
  shows "\<exists>ls1 ls2 rest. ls = ls1 @ ls2 \<and> x = unlines ls1 @ rest \<and> 10 \<notin> set rest \<and> rest @ y = unlines ls2 @ tail"
  using assms
proof (induction ls arbitrary: x)
  case Nil
  then have "x @ y = tail" by simp
  then have "10 \<notin> set x" using Nil.prems(3) by auto
  then show ?case using \<open>x @ y = tail\<close> by (intro exI [of _ "[]"] exI [of _ x]) auto
next
  case (Cons l ls)
  have l: "10 \<notin> set l" using Cons.prems(2) by (simp add: clean_def)
  show ?case
  proof (cases "10 \<in> set x")
    case False
    then show ?thesis using Cons.prems by (intro exI [of _ "[]"] exI [of _ "l # ls"] exI [of _ x]) auto
  next
    case True
    have "x @ y = l @ 10 # unlines ls @ tail" using Cons.prems(1) by simp
    then obtain us where us: "x = l @ us" "us @ y = 10 # unlines ls @ tail"
      using True l by (auto simp: append_eq_append_conv2)
    then obtain us' where us': "us = 10 # us'" "us' @ y = unlines ls @ tail" using True l by (cases us) auto
    from Cons.IH [OF us'(2)] Cons.prems obtain ls1 ls2 rest where
      "ls = ls1 @ ls2" "us' = unlines ls1 @ rest" "10 \<notin> set rest" "rest @ y = unlines ls2 @ tail" by auto
    then show ?thesis using us us' by (intro exI [of _ "l # ls1"] exI [of _ ls2] exI [of _ rest]) simp
  qed
qed

lemma grep_spec:
  assumes "left @ inp = unlines ls @ tail" "\<forall>l\<in>set ls. clean l \<and> length l < GREP_BUF - 1" "10 \<notin> set tail" "10 \<notin> set left"
    "length inp < length ks" "\<forall>k\<in>set ks. 0 < k"
  shows "grep pattern ks left inp = unlines (filter (match pattern) ls)"
  using assms
proof (induction ks arbitrary: left inp ls)
  case (Cons k ks)
  let ?c = "take (min k (GREP_BUF - length left - 1)) inp"
  show ?case
  proof (cases "?c = []")
    case True
    then consider "inp = []" | "GREP_BUF - 1 \<le> length left" using Cons.prems(6) by (auto simp: min_def split: if_splits)
    then have "ls = []"
    proof cases
      case 1
      then show ?thesis using Cons.prems(1,4) by (cases ls) auto
    next
      case 2
      show ?thesis
      proof (rule ccontr)
        assume "ls \<noteq> []"
        then obtain l ls' where ls: "ls = l # ls'" by (cases ls) auto
        then have "left @ inp = l @ 10 # unlines ls' @ tail" using Cons.prems(1) by simp
        then have "length left \<le> length l" using Cons.prems(4) by (auto simp: append_eq_append_conv2 append_eq_Cons_conv)
        moreover have "length l < GREP_BUF - 1" using Cons.prems(2) ls by simp
        ultimately show False using 2 by simp
      qed
    qed
    then show ?thesis using True by simp
  next
    case False
    have "(left @ ?c) @ drop (length ?c) inp = unlines ls @ tail"
      using Cons.prems(1) by (simp add: min_def drop_all)
    then obtain ls1 ls2 rest where d: "ls = ls1 @ ls2" "left @ ?c = unlines ls1 @ rest" "10 \<notin> set rest"
      "rest @ drop (length ?c) inp = unlines ls2 @ tail" using lines_prefix Cons.prems(2,3) by metis
    have g: "grep_lines pattern (left @ ?c) = (unlines (filter (match pattern) ls1), rest)"
      unfolding d(2) using grep_lines_spec Cons.prems(2) d(1,3) by auto
    have "length (drop (length ?c) inp) < length ks" using False Cons.prems(5) by (cases inp) auto
    then have "grep pattern ks rest (drop (length ?c) inp) = unlines (filter (match pattern) ls2)"
      using Cons.IH [OF d(4) _ Cons.prems(3) d(3)] Cons.prems(2,6) d(1) by simp
    then show ?thesis unfolding grep.simps Let_def g using False d(1) by (simp only: if_False prod.case unlines_simps filter_append)
  qed
qed simp

section \<open>Properties\<close>

text \<open>
  C29: the matcher decides the meaning of patterns. \<^verbatim>\<open>match\<close> is true exactly if the items of the
  pattern, where \<^verbatim>\<open>.\<close> stands for any character, \<^verbatim>\<open>c*\<close> for any number of \<^verbatim>\<open>c\<close> and a final \<^verbatim>\<open>$\<close> for the
  end, match a part of the text: a prefix after \<^verbatim>\<open>^\<close>, any part otherwise.
\<close>

theorem match_iff:
  "match re text \<longleftrightarrow>
     (if re \<noteq> [] \<and> hd re = chr CHR ''^'' then \<exists>pre suf. text = pre @ suf \<and> denotes (items (tl re)) pre suf
      else \<exists>u pre suf. text = u @ pre @ suf \<and> denotes (items re) pre suf)"
  unfolding match_def match_from_matches matchhere_matches matches_def by auto

text \<open>
  C30: \<^verbatim>\<open>grep\<close> prints the matching lines, however the reads cut the input into pieces: for lines
  without NUL that fit the buffer, the output is the sequence of the lines that match, each once and
  complete. An unterminated rest at the end of the input is ignored, also if it matches.
\<close>

theorem grep_matching_lines:
  assumes "\<forall>l\<in>set ls. clean l \<and> length l < GREP_BUF - 1" "10 \<notin> set tail" "\<forall>k\<in>set ks. 0 < k"
    "length (unlines ls @ tail) < length ks"
  shows "grep pattern ks [] (unlines ls @ tail) = unlines (filter (match pattern) ls)"
  by (rule grep_spec) (use assms in auto)

theorem grep_matching_lines_witness:
  "grep [97] (replicate 9 2) [] (unlines [[98, 97], [99]] @ [97]) = unlines [[98, 97]]"
proof -
  have m: "match [97] [98, 97]" "\<not> match [97] [99]" by (simp_all add: match_def match_from.simps matchhere.simps)
  have "grep [97] (replicate 9 2) [] (unlines [[98, 97], [99]] @ [97]) = unlines (filter (match [97]) [[98, 97], [99]])"
    by (rule grep_matching_lines) (simp_all add: clean_def GREP_BUF_def)
  then show ?thesis using m by simp
qed

end
