(* ===== verification/Proc_Mem.thy ===== *)
theory Proc_Mem
  imports Proc User_Mem
begin

text \<open>
  The memory of a process (\<^verbatim>\<open>kernel/proc.c\<close>): \<^verbatim>\<open>proc_pagetable\<close> makes an empty address space with the
  trampoline and trap frame pages at its top, \<^verbatim>\<open>proc_freepagetable\<close> gives all of an address space
  back, \<^verbatim>\<open>allocproc\<close> and \<^verbatim>\<open>freeproc\<close> do so together with the trap frame and the slot of the process
  table.
\<close>

section \<open>The pages at the top\<close>

definition top_pages :: "nat set" where
  "top_pages = {UPAGES, Suc UPAGES}"

lemma top_va: "TRAPFRAME = va_of UPAGES" "TRAMPOLINE = va_of (Suc UPAGES)"
  by (simp_all add: TRAPFRAME_def TRAMPOLINE_def va_of_def MAXVA_eq)

text \<open>\<open>mem_frame A s s'\<close>: only the memory of the pages \<open>A\<close> and the free list changed.\<close>

definition mem_frame :: "u64 set \<Rightarrow> 'a kmem_scheme \<Rightarrow> 'a kmem_scheme \<Rightarrow> bool" where
  "mem_frame A s s' \<longleftrightarrow> kend s' = kend s \<and> kmem.more s' = kmem.more s \<and>
     (\<forall>x. PGROUNDDOWN x \<notin> A \<longrightarrow> phys s' x = phys s x)"

lemma mem_frame_refl: "mem_frame A s s"
  by (simp add: mem_frame_def)

lemma mem_frame_trans: "mem_frame A s t \<Longrightarrow> mem_frame A t u \<Longrightarrow> mem_frame A s u"
  by (simp add: mem_frame_def)

lemma mem_frame_mono: "mem_frame A s t \<Longrightarrow> A \<subseteq> B \<Longrightarrow> mem_frame B s t"
  by (auto simp: mem_frame_def)

lemma map_top:
  assumes u: "uvm s pt xs M T" and i: "i \<in> {UPAGES..<VPNS}" "i \<notin> T"
    and perm: "PTE_FLAGS (PA2PTE pa OR perm OR PTE_V) \<noteq> PTE_V"
  shows "\<exists>r s' ys. mappages pt (va_of i) PGSIZE pa perm s = Ok (r, s') \<and> length xs \<le> length ys + 2 \<and>
    mem_frame (pool s pt xs M) s s' \<and> pool s' pt ys M = pool s pt xs M \<and>
    (\<forall>a. a div 4096 \<in> M \<longrightarrow> ubyte s' pt a = ubyte s pt a) \<and>
    (r = 0 \<and> uvm s' pt ys M (insert i T) \<and>
       (\<forall>j<2 * VPNS. leaf (phys s') pt j = (if j = i then PA2PTE pa OR perm OR PTE_V else leaf (phys s) pt j)) \<or>
     r = -1 \<and> ys = [] \<and> uvm s' pt ys M T \<and> (\<forall>j. leaf (phys s') pt j = leaf (phys s) pt j))"
proof -
  have iV: "i < VPNS" and iM: "i \<notin> M" using i uvm_user [OF u] by auto
  have "leaf (phys s) pt i AND PTE_V = 0" using u i iM by (simp add: uvm_def)
  from mappages_page [OF uvm_table [OF u] iV this, of pa perm] obtain r s' ys where
    m: "mappages pt (va_of i) PGSIZE pa perm s = Ok (r, s')" and ti: "table_inv s' 2 pt ys"
    and k: "kend s' = kend s" "kmem.more s' = kmem.more s" and ys: "set ys \<subseteq> set xs" "length xs \<le> length ys + 2"
    and ts: "tset (phys s') 2 pt = tset (phys s) 2 pt \<union> (set xs - set ys)"
    and mem: "\<forall>x. PGROUNDDOWN x \<notin> tset (phys s') 2 pt \<longrightarrow> phys s' x = phys s x"
    and res: "r = 0 \<and> (\<forall>j<2 * VPNS. leaf (phys s') pt j = (if j = i then PA2PTE pa OR perm OR PTE_V else leaf (phys s) pt j)) \<or>
      r = -1 \<and> ys = [] \<and> (\<forall>j. leaf (phys s') pt j = leaf (phys s) pt j)" by blast
  have union: "tset (phys s') 2 pt \<union> set ys = tset (phys s) 2 pt \<union> set xs" using ys(1) ts by blast
  have lM: "leaf (phys s') pt j = leaf (phys s) pt j" if "j \<in> M \<union> T" for j
  proof -
    have "j < 2 * VPNS" "j \<noteq> i" using that i u iM by (auto simp: uvm_def)
    then show ?thesis using res by auto
  qed
  have im: "upage s' pt ` M = upage s pt ` M" using lM by (intro image_cong) auto
  have pool: "pool s' pt ys M = pool s pt xs M" using union im unfolding pool_def by blast
  have "tset (phys s') 2 pt \<subseteq> pool s pt xs M" using ts by (auto simp: pool_def)
  then have fr: "mem_frame (pool s pt xs M) s s'" using k mem by (auto simp: mem_frame_def)
  have ap: "upage s pt ` M \<inter> (tset (phys s') 2 pt \<union> set ys) = {}" using uvm_apart [OF u] unfolding union .
  have ub: "ubyte s' pt a = ubyte s pt a" if "a div 4096 \<in> M" for a
  proof -
    have "aligned (upage s pt (a div 4096))" using uvm_leaf [OF u that] by (auto simp: leaf_ok_def page_ok_def)
    then have "PGROUNDDOWN (upage s pt (a div 4096) + of_nat (a mod 4096)) = upage s pt (a div 4096)"
      by (rule PGROUNDDOWN_in_page) simp
    moreover have "upage s pt (a div 4096) \<notin> tset (phys s') 2 pt" using ap that by blast
    ultimately show ?thesis using mem lM [of "a div 4096"] that by (simp add: ubyte_def)
  qed
  from res show ?thesis
  proof
    assume r: "r = -1 \<and> ys = [] \<and> (\<forall>j. leaf (phys s') pt j = leaf (phys s) pt j)"
    then have "uvm s' pt ys M T" using uvm_keep(1) [OF u ti k(1) _ ap] by blast
    then show ?thesis using m ys fr pool r ub by blast
  next
    assume r: "r = 0 \<and> (\<forall>j<2 * VPNS. leaf (phys s') pt j = (if j = i then PA2PTE pa OR perm OR PTE_V else leaf (phys s) pt j))"
    have bit: "bit (PA2PTE pa OR perm OR PTE_V) 0" by (simp add: PTE_V_def bit_or_iff bit_1_iff)
    have "(PA2PTE pa OR perm OR PTE_V) AND PTE_V \<noteq> 0"
    proof
      assume "(PA2PTE pa OR perm OR PTE_V) AND PTE_V = 0"
      then have "\<not> bit ((PA2PTE pa OR perm OR PTE_V) AND PTE_V) 0" by simp
      then show False using bit by (simp add: PTE_V_def bit_and_iff bit_1_iff)
    qed
    moreover have "leaf (phys s') pt i = PA2PTE pa OR perm OR PTE_V" using r iV by simp
    ultimately have li: "leaf (phys s') pt i AND PTE_V \<noteq> 0 \<and> PTE_FLAGS (leaf (phys s') pt i) \<noteq> PTE_V" using perm by simp
    have "inj_on (upage s' pt) M" using u lM by (simp add: uvm_def inj_on_def)
    moreover have "leaf_ok (kend s') (leaf (phys s') pt j)" if "j \<in> M" for j using that lM [of j] u k by (simp add: uvm_def)
    moreover have "leaf (phys s') pt j AND PTE_V \<noteq> 0 \<and> PTE_FLAGS (leaf (phys s') pt j) \<noteq> PTE_V" if "j \<in> insert i T" for j
      using that lM [of j] u li by (auto simp: uvm_def)
    moreover have "leaf (phys s') pt j AND PTE_V = 0" if "j < 2 * VPNS" "j \<notin> M \<union> insert i T" for j
      using that r u by (simp add: uvm_def)
    moreover have "M \<subseteq> {..<UPAGES}" "insert i T \<subseteq> {UPAGES..<VPNS}" using u i by (auto simp: uvm_def)
    ultimately have "uvm s' pt ys M (insert i T)" using ti ap unfolding im [symmetric] uvm_def by blast
    then show ?thesis using m ys fr pool r ub by blast
  qed
qed

lemma unmap_top:
  assumes u: "uvm s pt xs M T" and i: "i \<in> T"
  shows "\<exists>s'. uvmunmap pt (va_of i) 1 False s = Ok s' \<and> uvm s' pt xs M (T - {i}) \<and> mem_frame (tset (phys s) 2 pt) s s' \<and>
    tset (phys s') 2 pt = tset (phys s) 2 pt \<and> pool s' pt xs M = pool s pt xs M \<and>
    (\<forall>j<2 * VPNS. leaf (phys s') pt j = (if j = i then 0 else leaf (phys s) pt j))"
proof -
  have "T \<subseteq> {UPAGES..<VPNS}" using u by (simp add: uvm_def)
  then have iT: "i \<in> {UPAGES..<VPNS}" using i by blast
  then have iV: "i < VPNS" "i \<notin> M" using uvm_user [OF u] by auto
  have v: "leaf (phys s) pt i AND PTE_V \<noteq> 0" "PTE_FLAGS (leaf (phys s) pt i) \<noteq> PTE_V" using u i by (auto simp: uvm_def)
  from uvm_table [OF u] iV(1) v(1) obtain q where q: "walk pt (va_of i) False s = Ok (q, s)" "q \<noteq> 0"
    "load64 (phys s) q = leaf (phys s) pt i" "slot (phys s) 2 pt (va_of i) = Some q" by (rule walk_valid)
  define s' where "s' = s\<lparr>phys := store64 (phys s) q 0\<rparr>"
  note w = leaf_update [OF uvm_table [OF u] iV(1) q(4) s'_def]
  have u': "uvm s' pt xs (M - {i}) (T - {i})" by (rule uvm_remove [OF u UnI2 [OF i] w(1) _ w(2) _ w(3)]) (auto simp: s'_def)
  have Mi: "M - {i} = M" using iV by auto
  have al: "va_of i mod PGSIZE = 0" using va_of_aligned [of i] iV by (simp add: aligned_def)
  have nxt: "va_of i + 1 * PGSIZE = va_of (Suc i)" using va_of_Suc [of i] by simp
  have lt: "va_of i < va_of (Suc i)" using iV by (simp add: word_less_nat_alt unat_va_of)
  have "uvmunmap pt (va_of i) 1 False s = Ok s'"
    unfolding uvmunmap_def nxt uvmunmap_from.simps [of pt "va_of i"] using al lt q v va_of_Suc [of i]
    by (simp add: s'_def uvmunmap_from.simps [of pt "va_of (Suc i)"])
  moreover have "upage s' pt ` M = upage s pt ` M" using w(3) iV uvm_user [OF u] by (intro image_cong) auto
  then have "pool s' pt xs M = pool s pt xs M" using w(2) by (simp add: pool_def)
  moreover have "mem_frame (tset (phys s) 2 pt) s s'" using w(4) by (simp add: mem_frame_def s'_def)
  ultimately show ?thesis using u' Mi w(2,3) by auto
qed

section \<open>Page tables of processes\<close>

lemma mem_frame_eq: "mem_frame A s s' \<Longrightarrow> s' = s\<lparr>phys := phys s', freelist := freelist s'\<rparr>"
  by (rule kmem.equality) (simp_all add: mem_frame_def)

lemma PTE_U_flags: "pte AND PTE_U = PTE_FLAGS pte AND PTE_U"
  by (simp add: PTE_FLAGS_def PTE_U_def and.assoc)

lemma top_flags:
  "PTE_FLAGS (PA2PTE pa OR (PTE_R OR PTE_X) OR PTE_V) \<noteq> PTE_V" "(PA2PTE pa OR (PTE_R OR PTE_X) OR PTE_V) AND PTE_U = 0"
  "PTE_FLAGS (PA2PTE pa OR (PTE_R OR PTE_W) OR PTE_V) \<noteq> PTE_V" "(PA2PTE pa OR (PTE_R OR PTE_W) OR PTE_V) AND PTE_U = 0"
proof -
  have f: "PTE_FLAGS (PA2PTE pa OR (PTE_R OR PTE_X) OR PTE_V) = 11" "PTE_FLAGS (PA2PTE pa OR (PTE_R OR PTE_W) OR PTE_V) = 7"
    unfolding or.assoc [of "PA2PTE pa"]
    by (subst PTE_FLAGS_PA2PTE; simp add: PTE_FLAGS_def PTE_R_def PTE_X_def PTE_W_def PTE_V_def)+
  then show "PTE_FLAGS (PA2PTE pa OR (PTE_R OR PTE_X) OR PTE_V) \<noteq> PTE_V" "PTE_FLAGS (PA2PTE pa OR (PTE_R OR PTE_W) OR PTE_V) \<noteq> PTE_V"
    by (simp_all add: PTE_V_def)
  show "(PA2PTE pa OR (PTE_R OR PTE_X) OR PTE_V) AND PTE_U = 0" "(PA2PTE pa OR (PTE_R OR PTE_W) OR PTE_V) AND PTE_U = 0"
    by (subst PTE_U_flags, simp add: f PTE_U_def)+
qed

text \<open>An empty address space with its two top pages.\<close>

definition bare :: "'a kmem_scheme \<Rightarrow> u64 \<Rightarrow> u64 list \<Rightarrow> u64 \<Rightarrow> u64 \<Rightarrow> bool" where
  "bare s pt ys tf tramp \<longleftrightarrow> pt \<noteq> 0 \<and> uvm s pt ys {} top_pages \<and> top_private s pt \<and>
     leaf (phys s) pt UPAGES = PA2PTE tf OR (PTE_R OR PTE_W) OR PTE_V \<and>
     leaf (phys s) pt (Suc UPAGES) = PA2PTE tramp OR (PTE_R OR PTE_X) OR PTE_V"

lemma free_bare:
  assumes u: "uvm s pt ys {} {}" and fr: "mem_frame (pool s pt ys {}) s0 s"
  obtains s' zs where "uvmfree pt 0 s = Ok s'" "kmem_inv s' zs" "set zs = pool s pt ys {}" "mem_frame (pool s pt ys {}) s0 s'"
proof -
  have e: "{..<npages 0} = {}" by (simp add: npages_def)
  have "uvm s pt ys {..<npages 0} {}" using u e by simp
  from uvmfree_ok [OF this] e obtain s' zs where s': "uvmfree pt 0 s = Ok s'" "freed (pool s pt ys {}) s [] s' zs"
    "\<forall>x. PGROUNDDOWN x \<notin> pool s pt ys {} \<longrightarrow> phys s' x = phys s x" by auto
  then have "mem_frame (pool s pt ys {}) s s'" by (simp add: mem_frame_def freed_def)
  with s' mem_frame_trans [OF fr this] show thesis using that [of s' zs] by (simp add: freed_def)
qed

lemma proc_pagetable_ok:
  assumes "kmem_inv s xs"
  shows "\<exists>pt s' ys. proc_pagetable tf s = Ok (pt, s') \<and> mem_frame (set xs) s s' \<and>
    (bare s' pt ys tf (trampoline_pa s) \<and> pool s' pt ys {} = set xs \<and> length xs \<le> length ys + 5 \<or>
     pt = 0 \<and> length xs \<le> 5 \<and> kmem_inv s' ys \<and> set ys = set xs)"
proof (cases xs)
  case Nil
  then have "uvmcreate s = (0, s)" using assms by (simp add: uvmcreate_def kalloc_Nil)
  then show ?thesis using assms Nil mem_frame_refl by (auto simp: proc_pagetable_def)
next
  case (Cons c zs)
  from assms [unfolded Cons] obtain s1 where s1: "uvmcreate s = (c, s1)" "uvm s1 c zs {} {}" "pool s1 c zs {} = set (c # zs)"
    "kend s1 = kend s" "kmem.more s1 = kmem.more s" "\<And>x. PGROUNDDOWN x \<noteq> c \<Longrightarrow> phys s1 x = phys s x"
    by (rule uvmcreate_Cons) auto
  have c: "c \<noteq> 0" using assms Cons by (simp add: kmem_inv_def)
  have P: "pool s1 c zs {} = set xs" using s1(3) Cons by simp
  have f1: "mem_frame (set xs) s s1" using s1(4-6) Cons by (auto simp: mem_frame_def)
  have tr: "trampoline_pa s1 = trampoline_pa s" by (subst mem_frame_eq [OF f1]) simp
  have i: "Suc UPAGES \<in> {UPAGES..<VPNS}" "Suc UPAGES \<notin> {}" by simp_all
  from map_top [OF s1(2) i top_flags(1) [of "trampoline_pa s"], folded top_va] obtain r s2 ys where
    r: "mappages c TRAMPOLINE PGSIZE (trampoline_pa s) (PTE_R OR PTE_X) s1 = Ok (r, s2)" "length zs \<le> length ys + 2"
    "mem_frame (set xs) s1 s2" "pool s2 c ys {} = set xs"
    and rr: "r = 0 \<and> uvm s2 c ys {} {Suc UPAGES} \<and> (\<forall>j<2 * VPNS. leaf (phys s2) c j =
        (if j = Suc UPAGES then PA2PTE (trampoline_pa s) OR (PTE_R OR PTE_X) OR PTE_V else leaf (phys s1) c j)) \<or>
      r = -1 \<and> ys = [] \<and> uvm s2 c ys {} {}"
    unfolding P by auto
  have f2: "mem_frame (set xs) s s2" using f1 r(3) by (rule mem_frame_trans)
  show ?thesis
  proof (cases "r = 0")
    case False
    then have r1: "r = -1" "ys = []" "uvm s2 c [] {} {}" using rr by auto
    have "mem_frame (pool s2 c [] {}) s s2" "pool s2 c [] {} = set xs" using f2 r(4) r1 by simp_all
    from free_bare [OF r1(3) this(1)] this(2) obtain s' ws where
      "uvmfree c 0 s2 = Ok s'" "kmem_inv s' ws" "set ws = set xs" "mem_frame (set xs) s s'" by metis
    then show ?thesis using s1(1) c r(1,2) r1 Cons tr by (auto simp: proc_pagetable_def)
  next
    case True
    then have u2: "uvm s2 c ys {} {Suc UPAGES}" and l2: "leaf (phys s2) c (Suc UPAGES) = PA2PTE (trampoline_pa s) OR (PTE_R OR PTE_X) OR PTE_V"
      using rr by simp_all
    have i: "UPAGES \<in> {UPAGES..<VPNS}" "UPAGES \<notin> {Suc UPAGES}" by simp_all
    from map_top [OF u2 i top_flags(3) [of tf], folded top_va] obtain r' s3 ws where
      r': "mappages c TRAPFRAME PGSIZE tf (PTE_R OR PTE_W) s2 = Ok (r', s3)" "length ys \<le> length ws + 2"
      "mem_frame (set xs) s2 s3" "pool s3 c ws {} = set xs"
      and rr': "r' = 0 \<and> uvm s3 c ws {} top_pages \<and> (\<forall>j<2 * VPNS. leaf (phys s3) c j =
          (if j = UPAGES then PA2PTE tf OR (PTE_R OR PTE_W) OR PTE_V else leaf (phys s2) c j)) \<or>
        r' = -1 \<and> ws = [] \<and> uvm s3 c ws {} {Suc UPAGES}"
      unfolding r(4) top_pages_def by auto
    have f3: "mem_frame (set xs) s s3" using f2 r'(3) by (rule mem_frame_trans)
    show ?thesis
    proof (cases "r' = 0")
      case True
      then have u3: "uvm s3 c ws {} top_pages" and l3: "leaf (phys s3) c UPAGES = PA2PTE tf OR (PTE_R OR PTE_W) OR PTE_V"
        "leaf (phys s3) c (Suc UPAGES) = PA2PTE (trampoline_pa s) OR (PTE_R OR PTE_X) OR PTE_V"
        using rr' l2 by simp_all
      have "{UPAGES..<VPNS} = {UPAGES, Suc UPAGES}" by auto
      then have "top_private s3 c" using top_flags l3 unfolding top_private_def by simp
      then have "bare s3 c ws tf (trampoline_pa s)" using u3 l3 c by (simp add: bare_def)
      moreover have "length xs \<le> length ws + 5" using r(2) r'(2) Cons by simp
      ultimately show ?thesis using s1(1) c r(1) r'(1,4) f3 True \<open>r = 0\<close> tr by (auto simp: proc_pagetable_def)
    next
      case False
      then have r1: "r' = -1" "ws = []" "uvm s3 c [] {} {Suc UPAGES}" using rr' by auto
      from unmap_top [OF r1(3), of "Suc UPAGES", folded top_va] obtain s4 where
        s4: "uvmunmap c TRAMPOLINE 1 False s3 = Ok s4" "uvm s4 c [] {} {}" "mem_frame (tset (phys s3) 2 c) s3 s4"
        "pool s4 c [] {} = set xs" using r'(4) r1 by auto
      have "tset (phys s3) 2 c \<subseteq> set xs" using r'(4) by (auto simp: pool_def)
      then have "mem_frame (pool s4 c [] {}) s s4" using mem_frame_trans [OF f3] mem_frame_mono [OF s4(3)] s4(4) by metis
      from free_bare [OF s4(2) this] s4(4) obtain s' vs where
        "uvmfree c 0 s4 = Ok s'" "kmem_inv s' vs" "set vs = set xs" "mem_frame (set xs) s s'" by metis
      then show ?thesis using s1(1) c r(1,2) r'(1,2) r1 s4(1) \<open>r = 0\<close> Cons tr by (auto simp: proc_pagetable_def)
    qed
  qed
qed

text \<open>Giving back all of an address space.\<close>

lemma proc_freepagetable_ok:
  assumes u: "uvm s pt xs {..<npages sz} top_pages" and sz: "sz \<le> TRAPFRAME"
  shows "\<exists>s' ys. proc_freepagetable pt sz s = Ok s' \<and> kmem_inv s' ys \<and> set ys = pool s pt xs {..<npages sz} \<and>
    mem_frame (pool s pt xs {..<npages sz}) s s'"
proof -
  let ?M = "{..<npages sz}"
  let ?P = "pool s pt xs ?M"
  have "Suc UPAGES \<in> top_pages" by (simp add: top_pages_def)
  from unmap_top [OF u this, folded top_va] obtain s1 where s1: "uvmunmap pt TRAMPOLINE 1 False s = Ok s1"
    "uvm s1 pt xs ?M {UPAGES}" "mem_frame (tset (phys s) 2 pt) s s1" "tset (phys s1) 2 pt = tset (phys s) 2 pt"
    "pool s1 pt xs ?M = ?P" by (auto simp: top_pages_def insert_Diff_if)
  have "UPAGES \<in> {UPAGES}" by simp
  from unmap_top [OF s1(2) this, folded top_va] obtain s2 where s2: "uvmunmap pt TRAPFRAME 1 False s1 = Ok s2"
    "uvm s2 pt xs ?M {}" "mem_frame (tset (phys s) 2 pt) s1 s2" "pool s2 pt xs ?M = ?P"
    unfolding s1(4,5) by auto
  from uvmfree_ok [OF s2(2) sz] obtain s3 ys where s3: "uvmfree pt sz s2 = Ok s3" "freed ?P s2 [] s3 ys"
    "\<forall>x. PGROUNDDOWN x \<notin> ?P \<longrightarrow> phys s3 x = phys s2 x" unfolding s2(4) by blast
  have "tset (phys s) 2 pt \<subseteq> ?P" by (auto simp: pool_def)
  then have "mem_frame ?P s s2" using mem_frame_mono [OF s1(3)] mem_frame_mono [OF s2(3)] mem_frame_trans by metis
  moreover have "mem_frame ?P s2 s3" using s3(2,3) by (simp add: mem_frame_def freed_def)
  ultimately have "mem_frame ?P s s3" by (rule mem_frame_trans)
  then show ?thesis using s1(1) s2(1) s3 by (auto simp: proc_freepagetable_def freed_def)
qed

section \<open>Slots of the process table\<close>

text \<open>
  \<open>proc_step A P n s s'\<close>: the process table became \<open>P\<close> and \<^verbatim>\<open>nextpid\<close> became \<open>n\<close>, and apart from that
  only the memory of the pages \<open>A\<close> and the free list changed.
\<close>

definition pset :: "(nat \<Rightarrow> proc) \<Rightarrow> int \<Rightarrow> memory \<Rightarrow> u64 \<Rightarrow> 'a procst_scheme \<Rightarrow> 'a procst_scheme" where
  "pset P n m fl s = s\<lparr>procs := P, nextpid := n, phys := m, freelist := fl\<rparr>"

definition proc_step :: "u64 set \<Rightarrow> (nat \<Rightarrow> proc) \<Rightarrow> int \<Rightarrow> 'a procst_scheme \<Rightarrow> 'a procst_scheme \<Rightarrow> bool" where
  "proc_step A P n s s' \<longleftrightarrow> (\<exists>m fl. s' = pset P n m fl s \<and> (\<forall>x. PGROUNDDOWN x \<notin> A \<longrightarrow> m x = phys s x))"

lemma pset_fields [simp]:
  "phys (pset P n m fl s) = m" "freelist (pset P n m fl s) = fl" "kend (pset P n m fl s) = kend s"
  "procs (pset P n m fl s) = P" "nextpid (pset P n m fl s) = n" "cur (pset P n m fl s) = cur s"
  "trampoline_pa (pset P n m fl s) = trampoline_pa s" "forkret_pc (pset P n m fl s) = forkret_pc s"
  "itable (pset P n m fl s) = itable s" "procst.more (pset P n m fl s) = procst.more s"
  by (simp_all add: pset_def)

lemma pset_pset [simp]: "pset P n m fl (pset P' n' m' fl' s) = pset P n m fl s"
  by (simp add: pset_def)

lemma pset_id [simp]: "pset (procs s) (nextpid s) (phys s) (freelist s) s = s"
  by (simp add: pset_def)

lemma upd_proc_pset: "upd_proc i f (pset P n m fl s) = pset (P(i := f (P i))) n m fl s"
  by (cases s) (simp add: pset_def upd_proc_def)

lemma upd_proc_self: "upd_proc i f s = pset ((procs s)(i := f (procs s i))) (nextpid s) (phys s) (freelist s) s"
  using upd_proc_pset [of i f "procs s" "nextpid s" "phys s" "freelist s" s] by simp

lemma mem_frame_step: "mem_frame A s s' \<Longrightarrow> proc_step A (procs s) (nextpid s) s s'"
proof -
  assume f: "mem_frame A s s'"
  have "s' = s\<lparr>phys := phys s', freelist := freelist s'\<rparr>" by (rule mem_frame_eq [OF f])
  also have "\<dots> = pset (procs s) (nextpid s) (phys s') (freelist s') s"
    by (simp add: pset_def)
  finally show ?thesis using f unfolding proc_step_def mem_frame_def by blast
qed

lemma proc_step_refl: "proc_step A (procs s) (nextpid s) s s"
  by (rule mem_frame_step) (rule mem_frame_refl)

lemma proc_step_trans: "proc_step A P n s t \<Longrightarrow> proc_step A P' n' t u \<Longrightarrow> proc_step A P' n' s u"
  by (auto simp: proc_step_def) blast

lemma proc_step_mono: "proc_step A P n s t \<Longrightarrow> A \<subseteq> B \<Longrightarrow> proc_step B P n s t"
  unfolding proc_step_def by blast

lemma proc_step_upd: "proc_step A P n s t \<Longrightarrow> proc_step A (P(i := f (P i))) n s (upd_proc i f t)"
  by (auto simp: proc_step_def upd_proc_pset) blast

lemma proc_stepD:
  assumes "proc_step A P n s t"
  shows "procs t = P" "nextpid t = n" "kend t = kend s" "cur t = cur s" "trampoline_pa t = trampoline_pa s"
    "forkret_pc t = forkret_pc s" "itable t = itable s" "procst.more t = procst.more s"
    "\<forall>x. PGROUNDDOWN x \<notin> A \<longrightarrow> phys t x = phys s x"
  using assms by (auto simp: proc_step_def)

definition freed_proc :: "proc \<Rightarrow> proc" where
  "freed_proc p = p\<lparr>p_trapframe := 0, p_pagetable := 0, p_sz := 0, p_pid := 0, p_parent := None,
     p_name := (p_name p)[0 := 0], p_chan := ChanNone, p_killed := False, p_xstate := 0, p_state := UNUSED\<rparr>"

lemma same_mem_upd: "same_mem s (upd_proc i f s)"
  by (simp add: upd_proc_def)

lemma kmem_inv_same: "same_mem s s' \<Longrightarrow> kmem_inv s' xs \<longleftrightarrow> kmem_inv s xs"
  by (simp only: kmem_inv_def)

lemma freeproc_nothing:
  assumes "p_trapframe (procs s i) = 0" "p_pagetable (procs s i) = 0"
  shows "freeproc i s = Ok (upd_proc i freed_proc s)"
  using assms by (simp add: freeproc_def Let_def upd_proc_def freed_proc_def)

lemma freeproc_trapframe:
  assumes k: "kmem_inv s xs" and tf: "page_ok (kend s) (p_trapframe (procs s i))" "p_trapframe (procs s i) \<notin> set xs"
    and pt: "p_pagetable (procs s i) = 0"
  shows "\<exists>s'. freeproc i s = Ok s' \<and> kmem_inv s' (p_trapframe (procs s i) # xs) \<and>
    proc_step {p_trapframe (procs s i)} ((procs s)(i := freed_proc (procs s i))) (nextpid s) s s'"
proof -
  let ?tf = "p_trapframe (procs s i)"
  have nz: "?tf \<noteq> 0" using k tf(1) page_ok_nonzero by (auto simp: kmem_inv_def)
  from k tf obtain s1 where s1: "kfree ?tf s = Ok s1" "kmem_inv s1 (?tf # xs)" "kend s1 = kend s" "kmem.more s1 = kmem.more s"
    "\<And>y. PGROUNDDOWN y \<noteq> ?tf \<Longrightarrow> phys s1 y = phys s y" by (rule kfree_ok) auto
  then have st: "proc_step {?tf} (procs s) (nextpid s) s s1" by (intro mem_frame_step) (simp add: mem_frame_def)
  then have P: "procs s1 = procs s" by (rule proc_stepD)
  have "freeproc i s = Ok (upd_proc i freed_proc s1)"
    using nz s1(1) pt P by (simp add: freeproc_def Let_def upd_proc_def freed_proc_def)
  moreover have "proc_step {?tf} ((procs s)(i := freed_proc (procs s i))) (nextpid s) s (upd_proc i freed_proc s1)"
    using st by (rule proc_step_upd)
  moreover have "kmem_inv (upd_proc i freed_proc s1) (?tf # xs)"
    using s1(2) kmem_inv_same [OF same_mem_upd] by blast
  ultimately show ?thesis by blast
qed

lemma freeproc_all:
  assumes u: "uvm s pt xs {..<npages sz} top_pages" and sz: "sz \<le> TRAPFRAME"
    and p: "p_pagetable (procs s i) = pt" "p_sz (procs s i) = sz" "p_trapframe (procs s i) = tf" "pt \<noteq> 0"
    and tf: "page_ok (kend s) tf" "tf \<notin> pool s pt xs {..<npages sz}"
  shows "\<exists>s' ys. freeproc i s = Ok s' \<and> kmem_inv s' ys \<and> set ys = insert tf (pool s pt xs {..<npages sz}) \<and>
    proc_step (set ys) ((procs s)(i := freed_proc (procs s i))) (nextpid s) s s'"
proof -
  let ?M = "{..<npages sz}"
  let ?P = "pool s pt xs ?M"
  have nz: "tf \<noteq> 0" using uvm_free [OF u] tf(1) page_ok_nonzero by (auto simp: kmem_inv_def)
  from u tf obtain s1 where s1: "kfree tf s = Ok s1" "uvm s1 pt (tf # xs) ?M top_pages" "kend s1 = kend s"
    "kmem.more s1 = kmem.more s" "pool s1 pt (tf # xs) ?M = insert tf ?P" "\<forall>x. PGROUNDDOWN x \<noteq> tf \<longrightarrow> phys s1 x = phys s x"
    by (rule kfree_unmapped) auto
  let ?t = "upd_proc i (\<lambda>p. p\<lparr>p_trapframe := 0\<rparr>) s1"
  have m: "same_mem s1 ?t" by (rule same_mem_upd)
  have st1: "proc_step (insert tf ?P) (procs s) (nextpid s) s s1"
    by (intro mem_frame_step) (use s1 in \<open>auto simp: mem_frame_def\<close>)
  note st = proc_step_upd [OF st1, of i "\<lambda>p. p\<lparr>p_trapframe := 0\<rparr>"]
  have u1: "uvm ?t pt (tf # xs) ?M top_pages" using s1(2) uvm_cong [OF m] by blast
  have P1: "pool ?t pt (tf # xs) ?M = insert tf ?P" using s1(5) m by (simp add: pool_def)
  from proc_freepagetable_ok [OF u1 sz] obtain s2 ys where s2: "proc_freepagetable pt sz ?t = Ok s2" "kmem_inv s2 ys"
    "set ys = insert tf ?P" "mem_frame (insert tf ?P) ?t s2" unfolding P1 by blast
  have P: "procs s1 = procs s" by (rule proc_stepD [OF st1])
  have P2: "procs ?t = (procs s)(i := (procs s i)\<lparr>p_trapframe := 0\<rparr>)" by (rule proc_stepD [OF st])
  note st2 = proc_step_trans [OF st mem_frame_step [OF s2(4)]]
  have n2: "nextpid ?t = nextpid s" by (rule proc_stepD [OF st])
  let ?f = "\<lambda>p. p\<lparr>p_pagetable := 0, p_sz := 0, p_pid := 0, p_parent := None,
     p_name := (p_name p)[0 := 0], p_chan := ChanNone, p_killed := False, p_xstate := 0, p_state := UNUSED\<rparr>"
  note st3 = proc_step_upd [OF st2, of i ?f]
  have eq: "(procs ?t)(i := ?f (procs ?t i)) = (procs s)(i := freed_proc (procs s i))"
    by (simp add: P2 freed_proc_def)
  have "freeproc i s = Ok (upd_proc i ?f s2)"
    using nz s1(1) p s2(1) P2 P by (simp add: freeproc_def Let_def)
  moreover have "proc_step (set ys) ((procs s)(i := freed_proc (procs s i))) (nextpid s) s (upd_proc i ?f s2)"
    using st3 unfolding eq n2 s2(3) .
  moreover have "kmem_inv (upd_proc i ?f s2) ys" using s2(2) kmem_inv_same [OF same_mem_upd] by blast
  ultimately show ?thesis using s2(3) by blast
qed

section \<open>Allocation of a process\<close>

definition born_proc :: "int \<Rightarrow> u64 \<Rightarrow> u64 \<Rightarrow> u64 \<Rightarrow> proc \<Rightarrow> proc" where
  "born_proc pid tf pt ret p = p\<lparr>p_pid := pid, p_state := USED, p_trapframe := tf, p_pagetable := pt,
     p_context := \<lparr>ctx_ra = ret, ctx_sp = p_kstack p + PGSIZE, ctx_s = replicate 12 0\<rparr>\<rparr>"

text \<open>A slot that is not in use has no memory.\<close>

definition no_mem :: "proc \<Rightarrow> bool" where
  "no_mem p \<longleftrightarrow> p_pagetable p = 0 \<and> p_trapframe p = 0 \<and> p_sz p = 0"

lemma allocproc_none: "find (\<lambda>i. p_state (procs s i) = UNUSED) [0..<NPROC] = None \<Longrightarrow> allocproc s = Ok (None, s)"
  by (simp add: allocproc_def)

lemma allocproc_ok:
  assumes k: "kmem_inv s xs" and i: "find (\<lambda>i. p_state (procs s i) = UNUSED) [0..<NPROC] = Some i" and m: "no_mem (procs s i)"
  shows "\<exists>r s' ys. allocproc s = Ok (r, s') \<and>
    (r = None \<and> length xs \<le> 6 \<and> kmem_inv s' ys \<and> set ys = set xs \<and>
       proc_step (set xs) ((procs s)(i := freed_proc (procs s i))) (nextpid s + 1) s s' \<or>
     (\<exists>tf pt. r = Some i \<and> page_ok (kend s) tf \<and> tf \<notin> pool s' pt ys {} \<and> insert tf (pool s' pt ys {}) = set xs \<and>
       length xs \<le> length ys + 6 \<and> bare s' pt ys tf (trampoline_pa s) \<and>
       proc_step (set xs) ((procs s)(i := born_proc (nextpid s) tf pt (forkret_pc s) (procs s i))) (nextpid s + 1) s s'))"
proof -
  define t where "t = upd_proc i (\<lambda>p. p\<lparr>p_pid := nextpid s, p_state := USED\<rparr>) (snd (allocpid s))"
  let ?p = "(procs s i)\<lparr>p_pid := nextpid s, p_state := USED\<rparr>"
  have t: "t = pset ((procs s)(i := ?p)) (nextpid s + 1) (phys s) (freelist s) s"
    using upd_proc_pset [of i _ "procs s" "nextpid s + 1" "phys s" "freelist s" s]
    by (simp add: t_def allocpid_def upd_proc_def pset_def)
  then have st: "proc_step (set xs) ((procs s)(i := ?p)) (nextpid s + 1) s t" unfolding proc_step_def by blast
  have kt: "kmem_inv t xs" by (rule kmem_inv_same [THEN iffD2, OF _ k]) (simp add: t)
  show ?thesis
  proof (cases xs)
    case Nil
    let ?t = "upd_proc i (\<lambda>p. p\<lparr>p_trapframe := 0\<rparr>) t"
    have ka: "kalloc t = (0, t)" using kt Nil by (simp add: kalloc_Nil)
    have st1: "proc_step (set xs) ((procs s)(i := ?p\<lparr>p_trapframe := 0\<rparr>)) (nextpid s + 1) s ?t"
      using proc_step_upd [OF st, of i "\<lambda>p. p\<lparr>p_trapframe := 0\<rparr>"] by simp
    have "freeproc i ?t = Ok (upd_proc i freed_proc ?t)"
      by (rule freeproc_nothing) (use proc_stepD(1) [OF st1] m in \<open>simp_all add: no_mem_def\<close>)
    then have "allocproc s = Ok (None, upd_proc i freed_proc ?t)"
      using i ka unfolding allocproc_def by (simp add: t_def allocpid_def)
    moreover have "proc_step (set xs) ((procs s)(i := freed_proc (procs s i))) (nextpid s + 1) s (upd_proc i freed_proc ?t)"
      using proc_step_upd [OF st1, of i freed_proc] by (simp add: freed_proc_def)
    moreover have "kmem_inv (upd_proc i freed_proc ?t) xs" using kt kmem_inv_same [OF same_mem_upd] by blast
    ultimately show ?thesis using Nil by auto
  next
    case (Cons tf zs)
    from kt [unfolded Cons] obtain s1 where s1: "kalloc t = (tf, s1)" "kmem_inv s1 zs" "kend s1 = kend t"
      "kmem.more s1 = kmem.more t" "\<And>y. PGROUNDDOWN y \<noteq> tf \<Longrightarrow> phys s1 y = phys t y" by (rule kalloc_Cons) auto
    have tf: "tf \<noteq> 0" "page_ok (kend s) tf" "tf \<notin> set zs" using k Cons by (auto simp: kmem_inv_def)
    have "mem_frame (set xs) t s1" using s1(3-5) Cons by (auto simp: mem_frame_def)
    from proc_step_trans [OF st mem_frame_step [OF this]] proc_stepD(1,2) [OF st]
    have st1: "proc_step (set xs) ((procs s)(i := ?p)) (nextpid s + 1) s s1" by simp
    define s2 where "s2 = upd_proc i (\<lambda>p. p\<lparr>p_trapframe := tf\<rparr>) s1"
    let ?p2 = "?p\<lparr>p_trapframe := tf\<rparr>"
    have st2: "proc_step (set xs) ((procs s)(i := ?p2)) (nextpid s + 1) s s2"
      using proc_step_upd [OF st1, of i "\<lambda>p. p\<lparr>p_trapframe := tf\<rparr>"] by (simp add: s2_def)
    have k2: "kmem_inv s2 zs" using s1(2) kmem_inv_same [OF same_mem_upd] unfolding s2_def by blast
    from proc_pagetable_ok [OF k2, of tf] obtain pt s3 ys where s3: "proc_pagetable tf s2 = Ok (pt, s3)" "mem_frame (set zs) s2 s3"
      "bare s3 pt ys tf (trampoline_pa s) \<and> pool s3 pt ys {} = set zs \<and> length zs \<le> length ys + 5 \<or>
        pt = 0 \<and> length zs \<le> 5 \<and> kmem_inv s3 ys \<and> set ys = set zs" using proc_stepD(5) [OF st2] by auto
    have "mem_frame (set xs) s2 s3" using s3(2) Cons by (intro mem_frame_mono [OF s3(2)]) auto
    from proc_step_trans [OF st2 mem_frame_step [OF this]] proc_stepD(1,2) [OF st2]
    have st3: "proc_step (set xs) ((procs s)(i := ?p2)) (nextpid s + 1) s s3" by simp
    define s4 where "s4 = upd_proc i (\<lambda>p. p\<lparr>p_pagetable := pt\<rparr>) s3"
    let ?p4 = "?p2\<lparr>p_pagetable := pt\<rparr>"
    have st4: "proc_step (set xs) ((procs s)(i := ?p4)) (nextpid s + 1) s s4"
      using proc_step_upd [OF st3, of i "\<lambda>p. p\<lparr>p_pagetable := pt\<rparr>"] by (simp add: s4_def)
    have m4: "same_mem s3 s4" unfolding s4_def by (rule same_mem_upd)
    let ?ctx = "\<lambda>p. p\<lparr>p_context := \<lparr>ctx_ra = forkret_pc s, ctx_sp = p_kstack p + PGSIZE, ctx_s = replicate 12 0\<rparr>\<rparr>"
    have al: "allocproc s = (if pt = 0 then bind_ok (freeproc i s4) (\<lambda>s. Ok (None, s)) else Ok (Some i, upd_proc i ?ctx s4))"
      using i s1(1) tf(1) s3(1) proc_stepD(6) [OF st4] unfolding allocproc_def
      by (simp add: t_def allocpid_def s2_def [symmetric] s4_def [symmetric])
    from s3(3) show ?thesis
    proof
      assume b: "bare s3 pt ys tf (trampoline_pa s) \<and> pool s3 pt ys {} = set zs \<and> length zs \<le> length ys + 5"
      let ?s = "upd_proc i ?ctx s4"
      have sm: "same_mem s3 ?s" using m4 same_mem_upd [where s = s4 and i = i and f = ?ctx] by simp
      have "bare ?s pt ys tf (trampoline_pa s)" "pool ?s pt ys {} = set zs"
        using b uvm_cong [OF sm] sm by (simp_all add: bare_def top_private_def pool_def)
      moreover have "proc_step (set xs) ((procs s)(i := born_proc (nextpid s) tf pt (forkret_pc s) (procs s i))) (nextpid s + 1) s ?s"
        using proc_step_upd [OF st4, of i ?ctx] by (simp add: born_proc_def)
      moreover have "pt \<noteq> 0" using b by (simp add: bare_def)
      moreover have "tf \<notin> set zs" "insert tf (set zs) = set xs" "length xs \<le> length ys + 6" using b tf Cons by auto
      ultimately show ?thesis using al tf(2) by (intro exI [of _ "Some i"] exI [of _ ?s] exI [of _ ys]) auto
    next
      assume b: "pt = 0 \<and> length zs \<le> 5 \<and> kmem_inv s3 ys \<and> set ys = set zs"
      have P4: "procs s4 i = ?p4" "kend s4 = kend s" using proc_stepD(1,3) [OF st4] by simp_all
      have k4: "kmem_inv s4 ys" using b kmem_inv_same [OF m4] by blast
      from freeproc_trapframe [OF k4, of i] P4 b tf obtain s5 where s5: "freeproc i s4 = Ok s5" "kmem_inv s5 (tf # ys)"
        "proc_step {tf} ((procs s4)(i := freed_proc ?p4)) (nextpid s4) s4 s5" by auto
      have "proc_step (set xs) ((procs s4)(i := freed_proc ?p4)) (nextpid s4) s4 s5"
        by (rule proc_step_mono [OF s5(3)]) (simp add: Cons)
      from proc_step_trans [OF st4 this] proc_stepD(1,2) [OF st4]
      have "proc_step (set xs) ((procs s)(i := freed_proc (procs s i))) (nextpid s + 1) s s5" by (simp add: freed_proc_def)
      then show ?thesis using al s5(1,2) b Cons by auto
    qed
  qed
qed

end
