(* ===== verification/Fork_Props.thy ===== *)
theory Fork_Props
  imports Proc_Mem Proc_Life
begin

text \<open>
  \<^verbatim>\<open>fork\<close> (\<^verbatim>\<open>kernel/proc.c\<close>) as a whole: the child gets a copy of the memory and of the registers, the
  files and the directory of the parent, and if memory or slots run out everything is as before.
\<close>

section \<open>The memory of the child\<close>

text \<open>The running process and the free slots are in order.\<close>

definition parent_ok :: "'a procst_scheme \<Rightarrow> u64 list \<Rightarrow> bool" where
  "parent_ok s xs \<longleftrightarrow> cur s < NPROC \<and> p_state (myproc s) \<noteq> UNUSED \<and> p_sz (myproc s) \<le> TRAPFRAME \<and>
     uvm s (p_pagetable (myproc s)) xs {..<npages (p_sz (myproc s))} top_pages \<and>
     page_ok (kend s) (p_trapframe (myproc s)) \<and>
     p_trapframe (myproc s) \<notin> pool s (p_pagetable (myproc s)) xs {..<npages (p_sz (myproc s))} \<and>
     (\<forall>i<NPROC. p_state (procs s i) = UNUSED \<longrightarrow> no_mem (procs s i))"

text \<open>The first part of \<^verbatim>\<open>fork\<close>, up to the copy of user memory, and the rest.\<close>

definition fork_mem :: "'a filest_scheme \<Rightarrow> (nat option \<times> 'a filest_scheme) outcome" where
  "fork_mem s = bind_ok (allocproc s) (\<lambda>(r, s). case r of None \<Rightarrow> Ok (None, s)
     | Some np \<Rightarrow> bind_ok (uvmcopy (p_pagetable (myproc s)) (p_pagetable (procs s np)) (p_sz (myproc s)) s) (\<lambda>(r, s).
         if r < 0 then bind_ok (freeproc np s) (\<lambda>s. Ok (None, s)) else Ok (Some np, s)))"

definition fork_rest :: "nat \<Rightarrow> 'a filest_scheme \<Rightarrow> (int \<times> 'a filest_scheme) outcome" where
  "fork_rest np s =
     (let s = upd_proc np (\<lambda>p. p\<lparr>p_sz := p_sz (myproc s), p_mask := p_mask (myproc s)\<rparr>) s;
          tf = p_trapframe (procs s np);
          s = s\<lparr>phys := write_bytes (phys s) tf (read_bytes (phys s) (p_trapframe (myproc s)) TF_SIZE)\<rparr>;
          s = tf_set tf (TF_A 0) 0 s
      in bind_ok (for_ok (fork_file np) [0..<NOFILE] s) (\<lambda>s.
         case p_cwd (myproc s) of
           None \<Rightarrow> Undef
         | Some cwd \<Rightarrow>
             (case idup cwd s of (cwd, s) \<Rightarrow>
               let s = upd_proc np (\<lambda>p. p\<lparr>p_cwd := Some cwd, p_name := set_name (p_name p) (p_name (myproc s))\<rparr>) s;
                   pid = p_pid (procs s np)
               in Ok (pid, upd_proc np (\<lambda>p. p\<lparr>p_parent := Some (cur s), p_state := RUNNABLE\<rparr>) s))))"

lemma fork_split: "fork s = bind_ok (fork_mem s) (\<lambda>(r, s). case r of None \<Rightarrow> Ok (-1, s) | Some np \<Rightarrow> fork_rest np s)"
proof (cases "allocproc s")
  case (Ok x)
  obtain r t where x: "x = (r, t)" by (cases x)
  show ?thesis
  proof (cases r)
    case None
    then show ?thesis using Ok x by (simp add: fork_def fork_mem_def)
  next
    case (Some np)
    show ?thesis
    proof (cases "uvmcopy (p_pagetable (myproc t)) (p_pagetable (procs t np)) (p_sz (myproc t)) t")
      case (Ok y)
      obtain q u where "y = (q, u)" by (cases y)
      then show ?thesis using \<open>allocproc s = Ok x\<close> x Some Ok
        by (cases "freeproc np u") (simp_all add: fork_def fork_mem_def fork_rest_def)
    qed (use Ok x Some in \<open>simp_all add: fork_def fork_mem_def\<close>)
  qed
qed (simp_all add: fork_def fork_mem_def)

text \<open>The parent is not affected by what happens in pages that were free.\<close>

lemma other_frame:
  assumes u: "uvm s old xs M T" and t: "proc_step (set xs) P n s t" "kmem_inv t zs" "set zs \<subseteq> set xs"
  shows "uvm t old zs M T" "\<And>j. leaf (phys t) old j = leaf (phys s) old j" "owned t old M = owned s old M"
    "\<And>a. a div 4096 \<in> M \<Longrightarrow> ubyte t old a = ubyte s old a" "owned t old M \<inter> set xs = {}"
proof -
  have ow: "owned s old M \<inter> set xs = {}"
    using uvm_apart [OF u] uvm_table [OF u] by (auto simp: owned_def table_inv_def)
  then have o2: "owned s old M \<inter> set zs = {}" using t(3) by blast
  have m: "\<forall>x. PGROUNDDOWN x \<in> owned s old M \<longrightarrow> phys t x = phys s x" using proc_stepD(9) [OF t(1)] ow by blast
  note k = other_kept [OF u t(2) proc_stepD(3) [OF t(1)] o2 m]
  show "uvm t old zs M T" "owned t old M = owned s old M" by (rule k)+
  show "owned t old M \<inter> set xs = {}" using ow k(3) by simp
  show "leaf (phys t) old j = leaf (phys s) old j" for j by (rule k(2))
  show "ubyte t old a = ubyte s old a" if "a div 4096 \<in> M" for a using that by (rule k(4))
qed

text \<open>A child with a copy of the memory of its parent.\<close>

definition child_mem :: "'a procst_scheme \<Rightarrow> nat \<Rightarrow> 'a procst_scheme \<Rightarrow> bool" where
  "child_mem s np s' \<longleftrightarrow> (\<exists>ys. let old = p_pagetable (myproc s); new = p_pagetable (procs s' np); n = npages (p_sz (myproc s))
     in twin s' old new ys {..<n} top_pages {..<n} top_pages \<and> top_private s' new \<and>
        (\<forall>j<n. copied s old s' new j) \<and> PTE2PA (leaf (phys s') new UPAGES) = p_trapframe (procs s' np) \<and>
        page_ok (kend s) (p_trapframe (procs s' np)) \<and> p_trapframe (procs s' np) \<notin> pool s' new ys {..<n} \<and>
        p_trapframe (procs s' np) \<notin> owned s' old {..<n} \<and> p_trapframe (procs s' np) \<noteq> p_trapframe (myproc s))"

definition parent_kept :: "'a procst_scheme \<Rightarrow> 'a procst_scheme \<Rightarrow> bool" where
  "parent_kept s s' \<longleftrightarrow> (\<forall>j. leaf (phys s') (p_pagetable (myproc s)) j = leaf (phys s) (p_pagetable (myproc s)) j) \<and>
     (\<forall>a. a div 4096 < npages (p_sz (myproc s)) \<longrightarrow>
       ubyte s' (p_pagetable (myproc s)) a = ubyte s (p_pagetable (myproc s)) a) \<and>
     (\<forall>x. PGROUNDDOWN x = p_trapframe (myproc s) \<longrightarrow> phys s' x = phys s x)"

lemma parent_kept_refl: "parent_kept s s"
  by (simp add: parent_kept_def)

lemma parent_kept_trans:
  "parent_kept s t \<Longrightarrow> parent_kept t u \<Longrightarrow> procs t (cur t) = procs s (cur s) \<Longrightarrow> parent_kept s u"
  by (simp add: parent_kept_def)

text \<open>A slot that is free again.\<close>

definition slots_kept :: "'a procst_scheme \<Rightarrow> (nat \<Rightarrow> proc) \<Rightarrow> bool" where
  "slots_kept s P \<longleftrightarrow> (\<forall>i. P i = procs s i \<or>
     i < NPROC \<and> p_state (procs s i) = UNUSED \<and> (\<exists>c. P i = freed_proc ((procs s i)\<lparr>p_context := c\<rparr>)))"

lemma parent_frame:
  assumes p: "parent_ok s xs" and t: "proc_step (set xs) P n s t" "kmem_inv t zs" "set zs \<subseteq> set xs"
  shows "parent_kept s t"
proof -
  have u: "uvm s (p_pagetable (myproc s)) xs {..<npages (p_sz (myproc s))} top_pages"
    "p_trapframe (myproc s) \<notin> set xs" using p by (auto simp: parent_ok_def pool_def)
  note o = other_frame [OF u(1) t]
  have "phys t x = phys s x" if "PGROUNDDOWN x = p_trapframe (myproc s)" for x
    using proc_stepD(9) [OF t(1)] that u(2) by simp
  then show ?thesis using o(2,4) unfolding parent_kept_def by blast
qed

text \<open>The state after \<^verbatim>\<open>allocproc\<close> found slot \<open>i\<close>.\<close>

definition newborn :: "'a procst_scheme \<Rightarrow> u64 list \<Rightarrow> nat \<Rightarrow> u64 \<Rightarrow> u64 \<Rightarrow> u64 list \<Rightarrow> 'a procst_scheme \<Rightarrow> bool" where
  "newborn s xs i tf pt ys t \<longleftrightarrow> page_ok (kend s) tf \<and> tf \<notin> pool t pt ys {} \<and> insert tf (pool t pt ys {}) = set xs \<and>
     length xs \<le> length ys + 6 \<and> bare t pt ys tf (trampoline_pa s) \<and>
     proc_step (set xs) ((procs s)(i := born_proc (nextpid s) tf pt (forkret_pc s) (procs s i))) (nextpid s + 1) s t"

lemma newborn_step:
  assumes nb: "newborn s xs i tf pt ys t" and st: "uvm_step pt t ys {} t' zs M"
  shows "proc_step (set xs) ((procs s)(i := born_proc (nextpid s) tf pt (forkret_pc s) (procs s i))) (nextpid s + 1) s t'"
    "set zs \<subseteq> set xs" "tf \<in> set xs" "tf \<notin> pool t' pt zs M" "insert tf (pool t' pt zs M) = set xs"
proof -
  have b: "proc_step (set xs) ((procs s)(i := born_proc (nextpid s) tf pt (forkret_pc s) (procs s i))) (nextpid s + 1) s t"
    and P: "insert tf (pool t pt ys {}) = set xs" "tf \<notin> pool t pt ys {}" using nb by (simp_all add: newborn_def)
  have "mem_frame (pool t pt ys {}) t t'" using st by (auto simp: uvm_step_def mem_frame_def)
  then have "mem_frame (set xs) t t'" by (rule mem_frame_mono) (use P in auto)
  from proc_step_trans [OF b mem_frame_step [OF this]] proc_stepD(1,2) [OF b]
  show "proc_step (set xs) ((procs s)(i := born_proc (nextpid s) tf pt (forkret_pc s) (procs s i))) (nextpid s + 1) s t'" by simp
  have pe: "pool t' pt zs M = pool t pt ys {}" using st by (simp add: uvm_step_def)
  then show "set zs \<subseteq> set xs" "tf \<in> set xs" "tf \<notin> pool t' pt zs M" "insert tf (pool t' pt zs M) = set xs"
    using P by (auto simp: pool_def)
qed

lemma newborn_twin:
  assumes p: "parent_ok s xs" and nb: "newborn s xs i tf pt ys t"
  shows "twin t (p_pagetable (myproc s)) pt ys {..<npages (p_sz (myproc s))} top_pages {} top_pages"
proof -
  have u: "uvm s (p_pagetable (myproc s)) xs {..<npages (p_sz (myproc s))} top_pages" using p by (simp add: parent_ok_def)
  have un: "uvm t pt ys {} top_pages" using nb by (simp add: newborn_def bare_def)
  have st: "proc_step (set xs) ((procs s)(i := born_proc (nextpid s) tf pt (forkret_pc s) (procs s i))) (nextpid s + 1) s t"
    "insert tf (pool t pt ys {}) = set xs" using nb by (simp_all add: newborn_def)
  have "set ys \<subseteq> set xs" using st(2) by (auto simp: pool_def)
  note o1 = other_frame [OF u st(1) uvm_free [OF un] this]
  show ?thesis using o1(1,5) un st(2) unfolding twin_def by auto
qed

text \<open>The copy succeeds.\<close>

lemma newborn_copied:
  assumes p: "parent_ok s xs" and nb: "newborn s xs i tf pt ys t"
    and tw: "twin t' (p_pagetable (myproc s)) pt zs {..<npages (p_sz (myproc s))} top_pages {..<npages (p_sz (myproc s))} top_pages"
    and st: "uvm_step pt t ys {} t' zs {..<npages (p_sz (myproc s))}"
    and c: "\<forall>j\<in>{0..<npages (p_sz (myproc s))}. copied t (p_pagetable (myproc s)) t' pt j"
  shows "child_mem s i t'"
proof -
  let ?old = "p_pagetable (myproc s)"
  let ?M = "{..<npages (p_sz (myproc s))}"
  note b = newborn_step [OF nb st]
  have u: "uvm s ?old xs ?M top_pages" using p by (simp add: parent_ok_def)
  have un: "uvm t pt ys {} top_pages" using nb by (simp add: newborn_def bare_def)
  have b1: "proc_step (set xs) ((procs s)(i := born_proc (nextpid s) tf pt (forkret_pc s) (procs s i))) (nextpid s + 1) s t"
    "set ys \<subseteq> set xs" using nb by (auto simp: newborn_def pool_def)
  note o1 = other_frame [OF u b1(1) uvm_free [OF un] b1(2)]
  have k2: "kmem_inv t' zs" using tw uvm_free by (auto simp: twin_def)
  note o2 = other_frame [OF u b(1) k2 b(2)]
  have cp: "copied s ?old t' pt j" if "j < npages (p_sz (myproc s))" for j
    by (rule copied_same_old [OF _ o1(2) _ o1(4)]) (use c that in auto)
  have top: "leaf (phys t') pt j = leaf (phys t) pt j" if "j \<in> {UPAGES..<VPNS}" for j
    using st that by (simp add: uvm_step_def)
  have tp: "top_private t' pt" using nb top by (simp add: newborn_def bare_def top_private_def)
  have tf: "page_ok (kend s) tf" "leaf (phys t) pt UPAGES = PA2PTE tf OR (PTE_R OR PTE_W) OR PTE_V"
    using nb by (simp_all add: newborn_def bare_def)
  have "PTE_FLAGS (PTE_R OR PTE_W) = PTE_R OR PTE_W" by (simp add: PTE_FLAGS_def PTE_R_def PTE_W_def)
  then have tl: "PTE2PA (leaf (phys t') pt UPAGES) = tf" using fresh_pte(1) [OF tf(1)] tf(2) top [of UPAGES] by simp
  have P: "p_pagetable (procs t' i) = pt" "p_trapframe (procs t' i) = tf" using proc_stepD(1) [OF b(1)] by (simp_all add: born_proc_def)
  have no: "tf \<notin> owned t' ?old ?M" using o2(5) b(3) by blast
  have ne: "tf \<noteq> p_trapframe (myproc s)" using p b(3) by (auto simp: parent_ok_def pool_def)
  show ?thesis unfolding child_mem_def Let_def P
    using tw tp cp tl tf(1) b(4) no ne by blast
qed

text \<open>The copy fails, and the new slot is given back.\<close>

lemma newborn_freed:
  assumes nb: "newborn s xs i tf pt ys t" and nm: "no_mem (procs s i)"
    and tw: "uvm t' pt zs {} top_pages" and st: "uvm_step pt t ys {} t' zs {}"
  shows "\<exists>s' vs. freeproc i t' = Ok s' \<and> kmem_inv s' vs \<and> set vs = set xs \<and>
    proc_step (set xs) ((procs s)(i := freed_proc (born_proc (nextpid s) tf pt (forkret_pc s) (procs s i)))) (nextpid s + 1) s s'"
proof -
  note b = newborn_step [OF nb st]
  have z: "{..<npages 0} = {}" by (simp add: npages_def)
  have P: "procs t' i = born_proc (nextpid s) tf pt (forkret_pc s) (procs s i)" "kend t' = kend s" "nextpid t' = nextpid s + 1"
    using proc_stepD(1,2,3) [OF b(1)] by simp_all
  then have f: "p_pagetable (procs t' i) = pt" "p_sz (procs t' i) = 0" "p_trapframe (procs t' i) = tf"
    using nm by (simp_all add: born_proc_def no_mem_def)
  have tf: "page_ok (kend t') tf" "pt \<noteq> 0" using nb P(2) by (simp_all add: newborn_def bare_def)
  have u: "uvm t' pt zs {..<npages 0} top_pages" and nt: "tf \<notin> pool t' pt zs {..<npages 0}" using tw b(4) z by simp_all
  from freeproc_all [OF u _ f tf(2,1) nt] obtain s' vs where s': "freeproc i t' = Ok s'" "kmem_inv s' vs"
    "set vs = insert tf (pool t' pt zs {..<npages 0})"
    "proc_step (set vs) ((procs t')(i := freed_proc (procs t' i))) (nextpid t') t' s'" by auto
  have v: "set vs = set xs" using s'(3) b(5) z by simp
  from proc_step_trans [OF b(1) s'(4) [unfolded v]] show ?thesis
    using s'(1,2) v P proc_stepD(1) [OF b(1)] by auto
qed

lemma fork_mem_ok:
  assumes p: "parent_ok s xs"
  shows "\<exists>r s'. fork_mem s = Ok (r, s') \<and> parent_kept s s' \<and>
    (r = None \<and> (length xs \<le> 6 + 3 * npages (p_sz (myproc s)) \<or> (\<forall>i<NPROC. p_state (procs s i) \<noteq> UNUSED)) \<and>
       (\<exists>ys P n. kmem_inv s' ys \<and> set ys = set xs \<and> proc_step (set xs) P n s s' \<and> slots_kept s P) \<or>
     (\<exists>np tf pt. r = Some np \<and> np < NPROC \<and> p_state (procs s np) = UNUSED \<and> child_mem s np s' \<and>
       proc_step (set xs) ((procs s)(np := born_proc (nextpid s) tf pt (forkret_pc s) (procs s np))) (nextpid s + 1) s s'))"
proof (cases "find (\<lambda>i. p_state (procs s i) = UNUSED) [0..<NPROC]")
  case None
  have "kmem_inv s xs" using p uvm_free by (auto simp: parent_ok_def)
  moreover have "fork_mem s = Ok (None, s)" using allocproc_none [OF None] by (simp add: fork_mem_def)
  moreover have "slots_kept s (procs s)" by (simp add: slots_kept_def)
  moreover have "\<forall>i<NPROC. p_state (procs s i) \<noteq> UNUSED" using None unfolding find_upt_None .
  ultimately show ?thesis using proc_step_refl parent_kept_refl by blast
next
  case (Some i)
  let ?old = "p_pagetable (myproc s)" and ?sz = "p_sz (myproc s)"
  let ?n = "npages ?sz"
  have sz: "?sz \<le> TRAPFRAME" and k: "kmem_inv s xs" using p uvm_free by (auto simp: parent_ok_def)
  have i: "i < NPROC" "p_state (procs s i) = UNUSED" using Some unfolding find_upt_Some by simp_all
  then have nm: "no_mem (procs s i)" and ic: "i \<noteq> cur s" using p by (auto simp: parent_ok_def)
  have free: "slots_kept s ((procs s)(i := freed_proc ((procs s i)\<lparr>p_context := c\<rparr>)))" for c
    using i unfolding slots_kept_def by (metis fun_upd_apply)
  from allocproc_ok [OF k Some nm] consider
      t ys where "allocproc s = Ok (None, t)" "kmem_inv t ys" "set ys = set xs" "length xs \<le> 6"
        "proc_step (set xs) ((procs s)(i := freed_proc (procs s i))) (nextpid s + 1) s t"
    | t ys tf pt where "allocproc s = Ok (Some i, t)" "newborn s xs i tf pt ys t"
    unfolding newborn_def by blast
  then show ?thesis
  proof cases
    case 1
    have "slots_kept s ((procs s)(i := freed_proc (procs s i)))" using free [of "p_context (procs s i)"] by simp
    moreover have "parent_kept s t" by (rule parent_frame [OF p 1(5,2)]) (use 1(3) in simp)
    moreover have "fork_mem s = Ok (None, t)" using 1(1) by (simp add: fork_mem_def)
    moreover have "length xs \<le> 6 + 3 * ?n" using 1(4) by simp
    ultimately show ?thesis using 1 by blast
  next
    case 2
    have st1: "proc_step (set xs) ((procs s)(i := born_proc (nextpid s) tf pt (forkret_pc s) (procs s i))) (nextpid s + 1) s t"
      using 2(2) by (simp add: newborn_def)
    have P1: "myproc t = myproc s" "p_pagetable (procs t i) = pt"
      using proc_stepD(1,4) [OF st1] ic by (simp_all add: born_proc_def)
    have tw: "twin t ?old pt ys {..<?n} top_pages {..<0} top_pages" using newborn_twin [OF p 2(2)] by simp
    have "?n = npages ?sz" by simp
    from uvmcopy_from_spec [OF tw le0 this sz] obtain q t' zs where c: "uvmcopy ?old pt ?sz t = Ok (q, t')"
      and q: "q = 0 \<and> twin t' ?old pt zs {..<?n} top_pages {..<?n} top_pages \<and> uvm_step pt t ys {} t' zs {..<?n} \<and>
         (\<forall>j\<in>{0..<?n}. copied t ?old t' pt j) \<or>
       q = -1 \<and> length ys \<le> 3 * ?n \<and> twin t' ?old pt zs {..<?n} top_pages {} top_pages \<and> uvm_step pt t ys {} t' zs {}"
      by (auto simp: uvmcopy_def)
    have fm: "fork_mem s = (if q < 0 then bind_ok (freeproc i t') (\<lambda>s. Ok (None, s)) else Ok (Some i, t'))"
      using 2(1) c P1 by (simp add: fork_mem_def)
    from q show ?thesis
    proof
      assume q: "q = 0 \<and> twin t' ?old pt zs {..<?n} top_pages {..<?n} top_pages \<and> uvm_step pt t ys {} t' zs {..<?n} \<and>
         (\<forall>j\<in>{0..<?n}. copied t ?old t' pt j)"
      then have "child_mem s i t'" using newborn_copied [OF p 2(2)] by blast
      moreover have st: "uvm_step pt t ys {} t' zs {..<?n}" using q by blast
      have "kmem_inv t' zs" using q uvm_free by (auto simp: twin_def)
      then have "parent_kept s t'" using newborn_step(1,2) [OF 2(2) st] by (intro parent_frame [OF p]) auto
      ultimately show ?thesis using fm q i newborn_step(1) [OF 2(2) st] by auto
    next
      assume q: "q = -1 \<and> length ys \<le> 3 * ?n \<and> twin t' ?old pt zs {..<?n} top_pages {} top_pages \<and> uvm_step pt t ys {} t' zs {}"
      then have "uvm t' pt zs {} top_pages" by (simp add: twin_def)
      with newborn_freed [OF 2(2) nm] q obtain s' vs where s': "freeproc i t' = Ok s'" "kmem_inv s' vs" "set vs = set xs"
        "proc_step (set xs) ((procs s)(i := freed_proc (born_proc (nextpid s) tf pt (forkret_pc s) (procs s i)))) (nextpid s + 1) s s'" by blast
      have "freed_proc (born_proc (nextpid s) tf pt (forkret_pc s) (procs s i)) =
        freed_proc ((procs s i)\<lparr>p_context := p_context (born_proc (nextpid s) tf pt (forkret_pc s) (procs s i))\<rparr>)"
        by (simp add: freed_proc_def born_proc_def)
      then have "slots_kept s ((procs s)(i := freed_proc (born_proc (nextpid s) tf pt (forkret_pc s) (procs s i))))" using free by simp
      moreover have "parent_kept s s'" by (rule parent_frame [OF p s'(4,2)]) (use s'(3) in simp)
      moreover have "length xs \<le> 6 + 3 * ?n" using q 2(2) by (simp add: newborn_def)
      ultimately show ?thesis using fm q s' by auto
    qed
  qed
qed

section \<open>Registers, files and directory of the child\<close>

text \<open>Every open file has as many references more as there are descriptors for it.\<close>

definition dup_files :: "nat option list \<Rightarrow> (nat \<Rightarrow> kfile) \<Rightarrow> nat \<Rightarrow> kfile" where
  "dup_files ofs F f = (F f)\<lparr>f_ref := f_ref (F f) + int (count_list ofs (Some f))\<rparr>"

lemma dup_files_Nil [simp]: "dup_files [] F = F"
  by (rule ext) (simp add: dup_files_def)

lemma dup_files_snoc_None: "dup_files (ofs @ [None]) F = dup_files ofs F"
  by (rule ext) (simp add: dup_files_def)

lemma dup_files_snoc_Some:
  "dup_files (ofs @ [Some f]) F = (dup_files ofs F)(f := (dup_files ofs F f)\<lparr>f_ref := f_ref (dup_files ofs F f) + 1\<rparr>)"
  by (rule ext) (simp add: dup_files_def)

definition with_files :: "nat \<Rightarrow> nat option list \<Rightarrow> (nat \<Rightarrow> kfile) \<Rightarrow> 'a filest_scheme \<Rightarrow> 'a filest_scheme" where
  "with_files np l F s = s\<lparr>ftable := F, procs := (procs s)(np := (procs s np)\<lparr>p_ofile := l\<rparr>)\<rparr>"

lemma with_files_id: "with_files np (p_ofile (procs s np)) (ftable s) s = s"
  by (simp add: with_files_def)

lemma with_files_step:
  "upd_proc np (\<lambda>p. p\<lparr>p_ofile := (p_ofile p)[k := x]\<rparr>) (upd_file f g (with_files np l F s)) =
     with_files np (l[k := x]) (F(f := g (F f))) s"
  by (cases s) (simp add: with_files_def upd_proc_def upd_file_def)

lemma merge_step:
  assumes "k < length a" "length b = length a"
  shows "(take k a @ drop k b)[k := a ! k] = take (Suc k) a @ drop (Suc k) b"
    "b ! k = a ! k \<Longrightarrow> take k a @ drop k b = take (Suc k) a @ drop (Suc k) b"
proof -
  have d: "drop k b = b ! k # drop (Suc k) b" using assms by (simp add: Cons_nth_drop_Suc)
  show "(take k a @ drop k b)[k := a ! k] = take (Suc k) a @ drop (Suc k) b"
    unfolding d using assms by (simp add: list_update_append take_Suc_conv_app_nth)
  show "take k a @ drop k b = take (Suc k) a @ drop (Suc k) b" if "b ! k = a ! k"
    unfolding d using assms that by (simp add: take_Suc_conv_app_nth)
qed

lemma fork_files:
  assumes np: "np \<noteq> cur s" and l: "length (p_ofile (procs s np)) = length (p_ofile (myproc s))" "set (p_ofile (procs s np)) \<subseteq> {None}"
    and r: "\<forall>f. Some f \<in> set (p_ofile (myproc s)) \<longrightarrow> f_ref (ftable s f) \<ge> 1" and k: "k \<le> length (p_ofile (myproc s))"
  shows "for_ok (fork_file np) [0..<k] s =
    Ok (with_files np (take k (p_ofile (myproc s)) @ drop k (p_ofile (procs s np))) (dup_files (take k (p_ofile (myproc s))) (ftable s)) s)"
  using k
proof (induction k)
  case 0
  then show ?case by (simp add: with_files_id)
next
  case (Suc k)
  let ?ofs = "p_ofile (myproc s)"
  define S where "S = with_files np (take k ?ofs @ drop k (p_ofile (procs s np))) (dup_files (take k ?ofs) (ftable s)) s"
  have k: "k < length ?ofs" using Suc by simp
  have "p_ofile (procs s np) ! k \<in> set (p_ofile (procs s np))" using l(1) k by simp
  then have c: "p_ofile (procs s np) ! k = None" using l(2) by blast
  have S: "procs S (cur S) = procs s (cur s)" "ftable S = dup_files (take k ?ofs) (ftable s)" using np by (simp_all add: S_def with_files_def)
  have t: "take (Suc k) ?ofs = take k ?ofs @ [?ofs ! k]" using k by (simp add: take_Suc_conv_app_nth)
  have "fork_file np k S = Ok (with_files np (take (Suc k) ?ofs @ drop (Suc k) (p_ofile (procs s np)))
     (dup_files (take (Suc k) ?ofs) (ftable s)) s)"
  proof (cases "?ofs ! k")
    case None
    have "take k ?ofs @ drop k (p_ofile (procs s np)) = take (Suc k) ?ofs @ drop (Suc k) (p_ofile (procs s np))"
      by (rule merge_step(2)) (use k l c None in auto)
    moreover have "dup_files (take (Suc k) ?ofs) (ftable s) = dup_files (take k ?ofs) (ftable s)"
      unfolding t None by (rule dup_files_snoc_None)
    ultimately have "S = with_files np (take (Suc k) ?ofs @ drop (Suc k) (p_ofile (procs s np))) (dup_files (take (Suc k) ?ofs) (ftable s)) s"
      unfolding S_def by simp
    moreover have "fork_file np k S = Ok S" using None S by (simp add: fork_file_def)
    ultimately show ?thesis by simp
  next
    case (Some f)
    have "Some f \<in> set ?ofs" using Some k nth_mem by metis
    then have "f_ref (ftable s f) \<ge> 1" using r by blast
    then have "\<not> f_ref (ftable S f) < 1" unfolding S(2) by (simp add: dup_files_def)
    then have "fork_file np k S = Ok (upd_proc np (\<lambda>p. p\<lparr>p_ofile := (p_ofile p)[k := Some f]\<rparr>) (upd_file f (\<lambda>x. x\<lparr>f_ref := f_ref x + 1\<rparr>) S))"
      using Some S by (simp add: fork_file_def filedup_def)
    moreover have "(take k ?ofs @ drop k (p_ofile (procs s np)))[k := Some f] = take (Suc k) ?ofs @ drop (Suc k) (p_ofile (procs s np))"
      using merge_step(1) [OF k, of "p_ofile (procs s np)"] l Some by simp
    moreover have "dup_files (take (Suc k) ?ofs) (ftable s) =
        (dup_files (take k ?ofs) (ftable s))(f := (dup_files (take k ?ofs) (ftable s) f)\<lparr>f_ref := f_ref (dup_files (take k ?ofs) (ftable s) f) + 1\<rparr>)"
      unfolding t Some by (rule dup_files_snoc_Some)
    ultimately show ?thesis unfolding S_def by (simp add: with_files_step)
  qed
  then show ?case using Suc by (simp add: for_ok_append S_def)
qed

definition fork_tf :: "u64 \<Rightarrow> u64 \<Rightarrow> memory \<Rightarrow> memory" where
  "fork_tf new old m = store64 (write_bytes m new (read_bytes m old TF_SIZE)) (new + TF_A 0) 0"

lemma fork_rest_ok:
  assumes np: "np \<noteq> cur s" and l: "length (p_ofile (procs s np)) = NOFILE" "set (p_ofile (procs s np)) \<subseteq> {None}"
    "length (p_ofile (myproc s)) = NOFILE"
    and r: "\<forall>f. Some f \<in> set (p_ofile (myproc s)) \<longrightarrow> f_ref (ftable s f) \<ge> 1" and cwd: "p_cwd (myproc s) = Some c"
  shows "\<exists>s'. fork_rest np s = Ok (p_pid (procs s np), s') \<and>
    phys s' = fork_tf (p_trapframe (procs s np)) (p_trapframe (myproc s)) (phys s) \<and> freelist s' = freelist s \<and> kend s' = kend s \<and>
    cur s' = cur s \<and> nextpid s' = nextpid s \<and> ftable s' = dup_files (p_ofile (myproc s)) (ftable s) \<and>
    itable s' = (itable s)(c := (itable s c)\<lparr>i_ref := i_ref (itable s c) + 1\<rparr>) \<and>
    procs s' = (procs s)(np := (procs s np)\<lparr>p_sz := p_sz (myproc s), p_mask := p_mask (myproc s), p_ofile := p_ofile (myproc s),
      p_cwd := Some c, p_name := set_name (p_name (procs s np)) (p_name (myproc s)), p_parent := Some (cur s), p_state := RUNNABLE\<rparr>)"
proof -
  define t where "t = (upd_proc np (\<lambda>p. p\<lparr>p_sz := p_sz (myproc s), p_mask := p_mask (myproc s)\<rparr>) s)
    \<lparr>phys := fork_tf (p_trapframe (procs s np)) (p_trapframe (myproc s)) (phys s)\<rparr>"
  have t: "myproc t = myproc s" "cur t = cur s" "ftable t = ftable s" "itable t = itable s" "nextpid t = nextpid s"
    "phys t = fork_tf (p_trapframe (procs s np)) (p_trapframe (myproc s)) (phys s)" "freelist t = freelist s" "kend t = kend s"
    "procs t = (procs s)(np := (procs s np)\<lparr>p_sz := p_sz (myproc s), p_mask := p_mask (myproc s)\<rparr>)"
    using np by (simp_all add: t_def upd_proc_def)
  have fs: "for_ok (fork_file np) [0..<NOFILE] t = Ok (with_files np (p_ofile (myproc s)) (dup_files (p_ofile (myproc s)) (ftable s)) t)"
    using fork_files [of np t NOFILE] np l r t by simp
  have "fork_rest np s = bind_ok (for_ok (fork_file np) [0..<NOFILE] t) (\<lambda>s.
         case p_cwd (myproc s) of None \<Rightarrow> Undef
         | Some cwd \<Rightarrow>
             (case idup cwd s of (cwd, s) \<Rightarrow>
               let s = upd_proc np (\<lambda>p. p\<lparr>p_cwd := Some cwd, p_name := set_name (p_name p) (p_name (myproc s))\<rparr>) s;
                   pid = p_pid (procs s np)
               in Ok (pid, upd_proc np (\<lambda>p. p\<lparr>p_parent := Some (cur s), p_state := RUNNABLE\<rparr>) s)))"
    using np by (simp add: fork_rest_def t_def fork_tf_def tf_set_def upd_proc_def Let_def)
  then show ?thesis unfolding fs using np cwd t
    by (simp add: with_files_def idup_def upd_inode_def upd_proc_def)
qed

lemma fork_tf_byte:
  assumes "aligned new" "k < 4096"
  shows "fork_tf new old m (new + of_nat k) =
    (if 112 \<le> k \<and> k < 120 then 0 else if k < TF_SIZE then m (old + of_nat k) else m (new + of_nat k))"
proof -
  have d: "unat (new + of_nat k - (new + TF_A 0)) = (if 112 \<le> k then k - 112 else 2 ^ 64 + k - 112)"
  proof (cases "112 \<le> k")
    case True
    then have e: "new + of_nat k - (new + TF_A 0) = of_nat (k - 112)" by (simp add: TF_A_def of_nat_diff)
    have "unat (of_nat (k - 112) :: u64) = k - 112" using assms(2) by (intro unat_of_nat_u64) simp
    then show ?thesis using True by (simp only: e if_True)
  next
    case False
    then have e: "new + of_nat k - (new + TF_A 0) = of_nat (2 ^ 64 + k - 112)"
      by (simp add: TF_A_def of_nat_diff)
    have "unat (of_nat (2 ^ 64 + k - 112) :: u64) = 2 ^ 64 + k - 112" using False by (intro unat_of_nat_u64) simp
    then show ?thesis using False by (simp only: e if_False)
  qed
  have w: "write_bytes m new (read_bytes m old TF_SIZE) (new + of_nat k) = (if k < TF_SIZE then m (old + of_nat k) else m (new + of_nat k))"
    using assms(2) by (simp add: write_bytes_def read_bytes_def unat_of_nat_u64 TF_SIZE_def)
  have z: "store64 m' a 0 x = (if unat (x - a) < 8 then 0 else m' x)" for m' a x by (simp add: store64_def)
  show ?thesis unfolding fork_tf_def z d w using assms(2) by auto
qed

lemma load64_move: "(\<And>i. i < 8 \<Longrightarrow> m (a + of_nat i) = m' (a' + of_nat i)) \<Longrightarrow> load64 m a = load64 m' a'"
  unfolding load64_def by (rule foldr_cong) auto

lemma fork_tf_frame:
  assumes "aligned new" "PGROUNDDOWN x \<noteq> new"
  shows "fork_tf new old m x = m x"
proof -
  have n: "new + TF_A 0 = new + of_nat 112" by (simp add: TF_A_def)
  have "store64 m' (new + of_nat 112) 0 x = m' x" for m' using assms by (intro store64_page_frame) auto
  moreover have "write_bytes m (new + of_nat 0) (read_bytes m old TF_SIZE) x = m x"
    using assms by (subst write_bytes_page) (simp_all add: read_bytes_def TF_SIZE_def)
  ultimately show ?thesis unfolding fork_tf_def n by simp
qed

text \<open>The child has the registers of the parent, but \<^verbatim>\<open>a0\<close>, the result of \<^verbatim>\<open>fork\<close>, is 0.\<close>

lemma fork_tf_get:
  assumes "aligned new" "k < 36"
  shows "load64 (fork_tf new old m) (new + 8 * of_nat k) = (if k = 14 then 0 else load64 m (old + 8 * of_nat k))"
proof -
  have b: "fork_tf new old m (new + 8 * of_nat k + of_nat i) = (if k = 14 then 0 else m (old + 8 * of_nat k + of_nat i))" if "i < 8" for i
  proof -
    have e: "8 * of_nat k + of_nat i = (of_nat (8 * k + i) :: u64)" by simp
    have "fork_tf new old m (new + of_nat (8 * k + i)) = (if k = 14 then 0 else m (old + of_nat (8 * k + i)))"
      using fork_tf_byte [OF assms(1), of "8 * k + i" old m] assms(2) that by (auto simp: TF_SIZE_def)
    then show ?thesis by (simp only: add.assoc e)
  qed
  show ?thesis
  proof (cases "k = 14")
    case True
    then show ?thesis using b by (simp add: load64_0)
  next
    case False
    have "load64 (fork_tf new old m) (new + 8 * of_nat k) = load64 m (old + 8 * of_nat k)"
      by (rule load64_move) (use b False in simp)
    then show ?thesis using False by simp
  qed
qed

text \<open>Writing the trap frame of the child leaves both address spaces as they are.\<close>

lemma uvm_tf:
  assumes u: "uvm t pt ys M T" and t': "freelist t' = freelist t" "kend t' = kend t"
    and m: "\<forall>x. PGROUNDDOWN x \<noteq> tf \<longrightarrow> phys t' x = phys t x" and tf: "tf \<notin> pool t pt ys M"
  shows "uvm t' pt ys M T" "\<And>j. leaf (phys t') pt j = leaf (phys t) pt j" "owned t' pt M = owned t pt M"
    "\<And>a. a div 4096 \<in> M \<Longrightarrow> ubyte t' pt a = ubyte t pt a" "pool t' pt ys M = pool t pt ys M"
proof -
  have k: "kmem_inv t' ys" by (rule kmem_inv_cong [OF uvm_free [OF u] t']) (use m tf in \<open>auto simp: pool_def\<close>)
  have d: "owned t pt M \<inter> set ys = {}" using uvm_apart [OF u] uvm_table [OF u] by (auto simp: owned_def table_inv_def)
  have "\<forall>x. PGROUNDDOWN x \<in> owned t pt M \<longrightarrow> phys t' x = phys t x" using m tf by (auto simp: owned_def pool_def)
  note o = other_kept [OF u k t'(2) d this]
  show "uvm t' pt ys M T" "owned t' pt M = owned t pt M" by (rule o)+
  show "leaf (phys t') pt j = leaf (phys t) pt j" for j by (rule o(2))
  show "ubyte t' pt a = ubyte t pt a" if "a div 4096 \<in> M" for a using that by (rule o(4))
  show "pool t' pt ys M = pool t pt ys M" using o(3) by (simp add: pool_def owned_def Un_assoc)
qed

lemma child_mem_tf:
  assumes c: "child_mem s np t" and t': "freelist t' = freelist t" "kend t' = kend t"
    and m: "\<forall>x. PGROUNDDOWN x \<noteq> p_trapframe (procs t np) \<longrightarrow> phys t' x = phys t x"
    and p: "p_pagetable (procs t' np) = p_pagetable (procs t np)" "p_trapframe (procs t' np) = p_trapframe (procs t np)"
  shows "child_mem s np t'" "parent_kept s t \<Longrightarrow> parent_kept s t'"
proof -
  let ?old = "p_pagetable (myproc s)" and ?new = "p_pagetable (procs t np)" and ?tf = "p_trapframe (procs t np)"
  let ?M = "{..<npages (p_sz (myproc s))}"
  from c obtain ys where tw: "twin t ?old ?new ys ?M top_pages ?M top_pages" and tp: "top_private t ?new"
    and cp: "\<forall>j<npages (p_sz (myproc s)). copied s ?old t ?new j" and l: "PTE2PA (leaf (phys t) ?new UPAGES) = ?tf"
    and tf: "page_ok (kend s) ?tf" "?tf \<notin> pool t ?new ys ?M" "?tf \<notin> owned t ?old ?M"
    "?tf \<noteq> p_trapframe (myproc s)" unfolding child_mem_def Let_def by blast
  have un: "uvm t ?new ys ?M top_pages" and uo: "uvm t ?old ys ?M top_pages" using tw by (simp_all add: twin_def)
  have "?tf \<notin> pool t ?old ys ?M" using tf(2,3) by (auto simp: pool_def owned_def)
  note o = uvm_tf [OF uo t' m this] and n = uvm_tf [OF un t' m tf(2)]
  have tw': "twin t' ?old ?new ys ?M top_pages ?M top_pages" using tw o n by (simp add: twin_def)
  have "copied s ?old t' ?new j" if j: "j < npages (p_sz (myproc s))" for j
  proof -
    have al: "aligned (upage t ?new j)" using uvm_leaf [OF un, of j] j by (auto simp: leaf_ok_def page_ok_def)
    have "upage t ?new j \<in> pool t ?new ys ?M" using j unfolding pool_def by blast
    then have "upage t ?new j \<noteq> ?tf" using tf(2) by metis
    then have "phys t' (upage t ?new j + of_nat k) = phys t (upage t ?new j + of_nat k)" if "k < 4096" for k
      using m PGROUNDDOWN_in_page [OF al that] by simp
    then show ?thesis using cp j n(2) by (simp add: copied_def)
  qed
  moreover have "top_private t' ?new" using tp n(2) by (simp add: top_private_def)
  ultimately show "child_mem s np t'" unfolding child_mem_def Let_def p using tw' l tf n o by auto
  have "phys t' x = phys t x" if "PGROUNDDOWN x = p_trapframe (myproc s)" for x using m that tf(4) by simp
  then show "parent_kept s t'" if "parent_kept s t" using that o(2,4) by (simp add: parent_kept_def)
qed

section \<open>The whole system call\<close>

text \<open>The open files of the parent have references, and free slots have no open files.\<close>

definition files_ready :: "'a filest_scheme \<Rightarrow> bool" where
  "files_ready s \<longleftrightarrow> length (p_ofile (myproc s)) = NOFILE \<and> p_cwd (myproc s) \<noteq> None \<and>
     (\<forall>f. Some f \<in> set (p_ofile (myproc s)) \<longrightarrow> f_ref (ftable s f) \<ge> 1) \<and>
     (\<forall>i<NPROC. p_state (procs s i) = UNUSED \<longrightarrow> p_ofile (procs s i) = replicate NOFILE None)"

definition child_regs :: "'a procst_scheme \<Rightarrow> nat \<Rightarrow> 'a procst_scheme \<Rightarrow> bool" where
  "child_regs s np s' \<longleftrightarrow> (\<forall>k<36. tf_get (p_trapframe (procs s' np)) s' (8 * of_nat k) =
     (if k = 14 then 0 else tf_get (p_trapframe (myproc s)) s (8 * of_nat k)))"

definition child_of :: "'a filest_scheme \<Rightarrow> nat \<Rightarrow> 'a filest_scheme \<Rightarrow> bool" where
  "child_of s np s' \<longleftrightarrow> (let p = myproc s; q = procs s' np in
     p_state q = RUNNABLE \<and> p_pid q = nextpid s \<and> p_parent q = Some (cur s) \<and> p_sz q = p_sz p \<and> p_mask q = p_mask p \<and>
     p_ofile q = p_ofile p \<and> p_cwd q = p_cwd p \<and> (\<forall>i. i \<noteq> np \<longrightarrow> procs s' i = procs s i) \<and>
     ftable s' = dup_files (p_ofile p) (ftable s) \<and>
     itable s' = (let c = the (p_cwd p) in (itable s)(c := (itable s c)\<lparr>i_ref := i_ref (itable s c) + 1\<rparr>)))"

lemma proc_step_ftable: "proc_step A P n s t \<Longrightarrow> ftable t = ftable s"
  by (auto simp: proc_step_def pset_def)

lemma fork_ok:
  assumes p: "parent_ok s xs" and f: "files_ready s"
  shows "\<exists>r s'. fork s = Ok (r, s') \<and> parent_kept s s' \<and>
    (r = -1 \<and> (length xs \<le> 6 + 3 * npages (p_sz (myproc s)) \<or> (\<forall>i<NPROC. p_state (procs s i) \<noteq> UNUSED)) \<and>
       (\<exists>ys. kmem_inv s' ys \<and> set ys = set xs) \<and> slots_kept s (procs s') \<and> ftable s' = ftable s \<and> itable s' = itable s \<or>
     r = nextpid s \<and> (\<exists>np<NPROC. p_state (procs s np) = UNUSED \<and> child_of s np s' \<and> child_mem s np s' \<and> child_regs s np s'))"
proof -
  obtain c where c: "p_cwd (myproc s) = Some c" using f by (auto simp: files_ready_def)
  from fork_mem_ok [OF p] consider
      t ys P n where "fork_mem s = Ok (None, t)" "parent_kept s t" "kmem_inv t ys" "set ys = set xs" "proc_step (set xs) P n s t" "slots_kept s P"
        "length xs \<le> 6 + 3 * npages (p_sz (myproc s)) \<or> (\<forall>i<NPROC. p_state (procs s i) \<noteq> UNUSED)"
    | t np tf pt where "fork_mem s = Ok (Some np, t)" "parent_kept s t" "np < NPROC" "p_state (procs s np) = UNUSED" "child_mem s np t"
        "proc_step (set xs) ((procs s)(np := born_proc (nextpid s) tf pt (forkret_pc s) (procs s np))) (nextpid s + 1) s t" by blast
  then show ?thesis
  proof cases
    case 1
    then have "fork s = Ok (-1, t)" by (simp add: fork_split)
    then show ?thesis using 1 proc_stepD(1,7) [OF 1(5)] proc_step_ftable [OF 1(5)] by auto
  next
    case 2
    note st = proc_stepD [OF 2(6)]
    have np: "np \<noteq> cur t" using 2(4) p st(4) by (auto simp: parent_ok_def)
    have t: "myproc t = myproc s" "procs t np = born_proc (nextpid s) tf pt (forkret_pc s) (procs s np)" "ftable t = ftable s"
      using np st(1,4) proc_step_ftable [OF 2(6)] by simp_all
    have l: "length (p_ofile (procs t np)) = NOFILE" "set (p_ofile (procs t np)) \<subseteq> {None}" "length (p_ofile (myproc t)) = NOFILE"
      "\<forall>f. Some f \<in> set (p_ofile (myproc t)) \<longrightarrow> f_ref (ftable t f) \<ge> 1" "p_cwd (myproc t) = Some c"
      using f 2(3,4) t c by (auto simp: files_ready_def born_proc_def)
    from fork_rest_ok [OF np l] obtain s' where fr: "fork_rest np t = Ok (nextpid s, s')"
      and s': "phys s' = fork_tf (p_trapframe (procs t np)) (p_trapframe (myproc s)) (phys t)" "freelist s' = freelist t" "kend s' = kend t"
        "ftable s' = dup_files (p_ofile (myproc s)) (ftable s)"
        "itable s' = (itable s)(c := (itable s c)\<lparr>i_ref := i_ref (itable s c) + 1\<rparr>)"
      and pr: "procs s' = (procs t)(np := (procs t np)\<lparr>p_sz := p_sz (myproc s), p_mask := p_mask (myproc s), p_ofile := p_ofile (myproc s),
        p_cwd := Some c, p_name := set_name (p_name (procs t np)) (p_name (myproc s)), p_parent := Some (cur s), p_state := RUNNABLE\<rparr>)"
      using t st(4,7) by (auto simp: born_proc_def)
    have fk: "fork s = Ok (nextpid s, s')" using 2(1) fr by (simp add: fork_split)
    have tfc: "aligned (p_trapframe (procs t np))" using 2(5) unfolding child_mem_def Let_def by (auto simp: page_ok_def)
    have m: "phys s' x = phys t x" if "PGROUNDDOWN x \<noteq> p_trapframe (procs t np)" for x
      using fork_tf_frame [OF tfc that] s'(1) by simp
    have pp: "p_pagetable (procs s' np) = p_pagetable (procs t np)" "p_trapframe (procs s' np) = p_trapframe (procs t np)" using pr by simp_all
    have m': "\<forall>x. PGROUNDDOWN x \<noteq> p_trapframe (procs t np) \<longrightarrow> phys s' x = phys t x" using m by blast
    note cm = child_mem_tf [OF 2(5) s'(2,3) m' pp]
    have al: "aligned (p_trapframe (myproc s))" using p by (auto simp: parent_ok_def page_ok_def)
    have "load64 (phys t) (p_trapframe (myproc s) + 8 * of_nat k) = load64 (phys s) (p_trapframe (myproc s) + 8 * of_nat k)" if "k < 36" for k
      using load64_page_cong [OF al, of "8 * k" "phys t" "phys s"] 2(2) that by (simp add: parent_kept_def)
    then have regs: "child_regs s np s'" using fork_tf_get [OF tfc] pp(2) s'(1) by (simp add: child_regs_def tf_get_def)
    have co: "child_of s np s'" using pr t c s'(4,5) st(1) by (simp add: child_of_def Let_def born_proc_def)
    show ?thesis using fk 2(2,3,4) cm regs co by blast
  qed
qed

section \<open>A small kernel\<close>

text \<open>\<open>demo_kernel\<close> has 31 free pages and no process; \<open>demo_parent\<close> has one.\<close>

definition demo_pages :: kmem where
  "demo_pages = (let s = \<lparr>phys = (\<lambda>_. 0), freelist = 0, kend = 0x87FE0001\<rparr>
     in case kinit s of Ok s' \<Rightarrow> s' | _ \<Rightarrow> s)"

definition demo_kernel :: filest where
  "demo_kernel = (zero_data (filest.fields
     (\<lambda>_. \<lparr>f_type = FD_NONE, f_ref = 0, f_readable = False, f_writable = False, f_pipe = 0, f_ip = None, f_off = 0, f_major = 0\<rparr>)
     (\<lambda>_. \<lparr>pi_data = replicate PIPESIZE 0, pi_nread = 0, pi_nwrite = 0, pi_readopen = False, pi_writeopen = False\<rparr>)))
     \<lparr>phys := phys demo_pages, freelist := freelist demo_pages, kend := kend demo_pages\<rparr>"

definition demo_parent :: filest where
  "demo_parent = (case allocproc demo_kernel of
     Ok (_, s) \<Rightarrow> upd_proc 0 (\<lambda>p. p\<lparr>p_cwd := Some 0\<rparr>) s | _ \<Rightarrow> demo_kernel)"

lemma demo_pages_inv: "\<exists>xs. kmem_inv demo_pages xs \<and> length xs = 31"
proof -
  have p: "PGROUNDUP 0x87FE0001 = 0x87FE1000" by (simp add: PGROUNDUP_def)
  from kinit_ok [of "\<lparr>phys = (\<lambda>_. 0), freelist = 0, kend = 0x87FE0001\<rparr>"]
  obtain s' where "kinit \<lparr>phys = (\<lambda>_. 0), freelist = 0, kend = 0x87FE0001\<rparr> = Ok s'"
    "kmem_inv s' (rev (page_range 0x87FE1000 31))" by (auto simp: p)
  then show ?thesis by (auto simp: demo_pages_def page_range_def intro!: exI)
qed

lemma demo_kernel_fields:
  "procs demo_kernel = (\<lambda>_. zero_proc)" "cur demo_kernel = 0" "nextpid demo_kernel = 1"
  by (simp_all add: demo_kernel_def zero_data_def)

lemma demo_kernel_inv: "\<exists>xs. kmem_inv demo_kernel xs \<and> length xs = 31"
  using demo_pages_inv kmem_inv_same [of demo_pages demo_kernel] by (simp add: demo_kernel_def)

lemma demo_parent_ready: "\<exists>xs. parent_ok demo_parent xs \<and> files_ready demo_parent \<and> 25 \<le> length xs \<and> npages (p_sz (myproc demo_parent)) = 0 \<and>
  nextpid demo_parent = 2 \<and> p_sz (myproc demo_parent) = 0 \<and> p_mask (myproc demo_parent) = 0 \<and>
  top_private demo_parent (p_pagetable (myproc demo_parent)) \<and> (\<forall>i>0. p_state (procs demo_parent i) = UNUSED) \<and>
  cur demo_parent = 0"
proof -
  from demo_kernel_inv obtain xs where xs: "kmem_inv demo_kernel xs" "length xs = 31" by blast
  have i: "find (\<lambda>i. p_state (procs demo_kernel i) = UNUSED) [0..<NPROC] = Some 0"
    unfolding find_upt_Some by (simp add: demo_kernel_fields zero_proc_def)
  have nm: "no_mem (procs demo_kernel 0)" by (simp add: demo_kernel_fields zero_proc_def no_mem_def)
  from allocproc_ok [OF xs(1) i nm] xs(2) obtain s ys tf pt where s: "allocproc demo_kernel = Ok (Some 0, s)"
    "page_ok (kend demo_kernel) tf" "tf \<notin> pool s pt ys {}" "31 \<le> length ys + 6" "bare s pt ys tf (trampoline_pa demo_kernel)"
    "proc_step (set xs) ((procs demo_kernel)(0 := born_proc 1 tf pt (forkret_pc demo_kernel) zero_proc)) 2 demo_kernel s"
    by (auto simp: demo_kernel_fields)
  note st = proc_stepD [OF s(6)]
  have d: "demo_parent = upd_proc 0 (\<lambda>p. p\<lparr>p_cwd := Some 0\<rparr>) s" using s(1) by (simp add: demo_parent_def)
  have P: "procs demo_parent = (\<lambda>_. zero_proc)(0 := (born_proc 1 tf pt (forkret_pc demo_kernel) zero_proc)\<lparr>p_cwd := Some 0\<rparr>)"
    "cur demo_parent = 0" "nextpid demo_parent = 2" "kend demo_parent = kend demo_kernel"
    using st(1-4) by (simp_all add: d upd_proc_def demo_kernel_fields)
  have sm: "same_mem s demo_parent" by (simp add: d upd_proc_def)
  have u: "uvm demo_parent pt ys {} top_pages" "pool demo_parent pt ys {} = pool s pt ys {}"
    using s(5) uvm_cong [OF sm] sm by (simp_all add: bare_def pool_def)
  have "parent_ok demo_parent ys" unfolding parent_ok_def P(2)
    using u s(2,3) P by (auto simp: born_proc_def zero_proc_def no_mem_def)
  moreover have "files_ready demo_parent" unfolding files_ready_def P(2) by (auto simp: P(1) born_proc_def zero_proc_def)
  moreover have "npages (p_sz (myproc demo_parent)) = 0" by (simp add: P born_proc_def zero_proc_def)
  moreover have "p_sz (myproc demo_parent) = 0" "p_mask (myproc demo_parent) = 0" "\<forall>i>0. p_state (procs demo_parent i) = UNUSED"
    by (simp_all add: P born_proc_def zero_proc_def)
  moreover have "top_private demo_parent (p_pagetable (myproc demo_parent))"
    using s(5) sm P by (simp add: bare_def top_private_def born_proc_def)
  ultimately show ?thesis using s(4) P(2,3) by (intro exI [of _ ys]) auto
qed

section \<open>Properties\<close>

text \<open>
  C31: \<^verbatim>\<open>fork\<close> duplicates the running process. It returns a new pid, and the child in a slot that was
  free has a copy of every page of user memory with the same permissions in pages of its own, the registers of the
  parent with 0 as the result of the call, the same size, trace mask, open files (each with a
  reference more per descriptor) and directory, and is runnable. Or it returns -1, which needs a full
  table or too few free pages, and then all pages are free again and nothing else has changed. The
  memory and registers of the parent stay in both cases.
\<close>

theorem fork_spec:
  assumes "parent_ok s xs" "files_ready s"
  shows "\<exists>r s'. fork s = Ok (r, s') \<and> parent_kept s s' \<and>
    (r = -1 \<and> (length xs \<le> 6 + 3 * npages (p_sz (myproc s)) \<or> (\<forall>i<NPROC. p_state (procs s i) \<noteq> UNUSED)) \<and>
       (\<exists>ys. kmem_inv s' ys \<and> set ys = set xs) \<and> slots_kept s (procs s') \<and> ftable s' = ftable s \<and> itable s' = itable s \<or>
     r = nextpid s \<and> (\<exists>np<NPROC. p_state (procs s np) = UNUSED \<and> child_of s np s' \<and> child_mem s np s' \<and> child_regs s np s'))"
  using assms by (rule fork_ok)

theorem fork_spec_witness:
  "\<exists>s' np. fork demo_parent = Ok (2, s') \<and> np < NPROC \<and> child_of demo_parent np s' \<and> child_mem demo_parent np s' \<and>
     child_regs demo_parent np s'"
proof -
  from demo_parent_ready obtain xs where xs: "parent_ok demo_parent xs" "files_ready demo_parent" "25 \<le> length xs"
    "npages (p_sz (myproc demo_parent)) = 0" "nextpid demo_parent = 2" "\<forall>i>0. p_state (procs demo_parent i) = UNUSED" by blast
  have "\<not> (\<forall>i<NPROC. p_state (procs demo_parent i) \<noteq> UNUSED)" using xs(6) by (auto intro!: exI [of _ 1])
  then show ?thesis using fork_spec [OF xs(1,2)] xs(3-5) by auto
qed

end
