(* ===== verification/Syscall_Props.thy ===== *)
theory Syscall_Props
  imports Syscall Fork_Props
begin

text \<open>
  A system call from its registers to its results: \<^verbatim>\<open>sysinfo\<close> through the dispatch of \<^verbatim>\<open>syscall\<close>, with
  the count of free pages, the process table, the copy to user memory and the tracing.
\<close>

lemma unsetprocnum_card: "unsetprocnum s = of_nat (card {i. i < NPROC \<and> p_state (procs s i) \<noteq> UNUSED})"
proof -
  have "fold (\<lambda>i n. if P i then n + 1 else n) [0..<k] 0 = (of_nat (card {i. i < k \<and> P i}) :: u64)" for P k
  proof (induction k)
    case (Suc k)
    have "{i. i < Suc k \<and> P i} = (if P k then insert k {i. i < k \<and> P i} else {i. i < k \<and> P i})"
      by (auto simp: less_Suc_eq)
    then show ?case using Suc by simp
  qed simp
  from this [of "\<lambda>i. p_state (procs s i) \<noteq> UNUSED" NPROC] show ?thesis unfolding unsetprocnum_def .
qed

lemma availmemory_ok: "kmem_inv s xs \<Longrightarrow> availmemory s = Some (of_nat (4096 * length xs))"
  using availmemory_from_chain [of "phys s" "freelist s" xs 0] by (simp add: availmemory_def kmem_inv_def)

lemma length_bytes64 [simp]: "length (bytes64 v) = 8"
  by (simp add: bytes64_def bytes32_def)

definition sysinfo_bytes :: "'a procst_scheme \<Rightarrow> u64 list \<Rightarrow> u8 list" where
  "sysinfo_bytes s xs = bytes64 (of_nat (4096 * length xs)) @
     bytes64 (of_nat (card {i. i < NPROC \<and> p_state (procs s i) \<noteq> UNUSED}))"

lemma wrote_pool:
  assumes u: "uvm s pt xs M T" "uvm s' pt xs M T" and w: "wrote pt M s a src s'"
  shows "pool s' pt xs M = pool s pt xs M"
proof -
  have m: "phys s' x = phys s x" if "PGROUNDDOWN x \<in> tset (phys s) 2 pt" for x
  proof -
    have "PGROUNDDOWN x \<notin> upage s pt ` M" using uvm_apart [OF u(1)] that by blast
    then show ?thesis using w unfolding wrote_def by blast
  qed
  have "kend s' = kend s" using w by (auto simp: wrote_def)
  from table_inv_frame(2) [OF uvm_table [OF u(1)] uvm_free [OF u(2)] this _ m]
  have "tset (phys s') 2 pt = tset (phys s) 2 pt" using uvm_table [OF u(1)] by (simp add: table_inv_def)
  then show ?thesis using w by (simp add: pool_def wrote_def)
qed

lemma sys_sysinfo_ok:
  assumes p: "parent_ok s xs" "top_private s (p_pagetable (myproc s))"
  defines "pt \<equiv> p_pagetable (myproc s)" and "a \<equiv> unat (tf_get (p_trapframe (myproc s)) s (TF_A 0))"
    and "M \<equiv> {..<npages (p_sz (myproc s))}"
  shows "\<exists>r m. sys_sysinfo s = Ok (Done r, s\<lparr>phys := m\<rparr>) \<and> uvm (s\<lparr>phys := m\<rparr>) pt xs M top_pages \<and>
    pool (s\<lparr>phys := m\<rparr>) pt xs M = pool s pt xs M \<and>
    (r = 0 \<and> (\<forall>k<16. uacc s pt (a + k)) \<and> wrote pt M s a (sysinfo_bytes s xs) (s\<lparr>phys := m\<rparr>) \<or>
     r = -1 \<and> (\<exists>k<16. \<not> uacc s pt (a + k)))"
proof -
  let ?b = "sysinfo_bytes s xs"
  have u: "uvm s pt xs M top_pages" using p(1) by (simp add: parent_ok_def pt_def M_def)
  have t: "top_private s pt" using p(2) by (simp add: pt_def)
  have l: "length ?b = 16" by (simp add: sysinfo_bytes_def)
  from copyout_spec_from [OF u t, of "tf_get (p_trapframe (myproc s)) s (TF_A 0)" ?b] obtain k s' where
    k: "reach s pt a 16 k" "uvm s' pt xs M top_pages"
      "copyout pt (tf_get (p_trapframe (myproc s)) s (TF_A 0)) ?b s = Ok (if k = 16 then 0 else -1, s')"
      "wrote pt M s a (take k ?b) s'" unfolding l a_def by blast
  obtain m where m: "s' = s\<lparr>phys := m\<rparr>" using k(4) by (auto simp: wrote_def)
  have "sys_sysinfo s = Ok (Done (if k = 16 then 0 else -1), s')"
    using availmemory_ok [OF uvm_free [OF u]] k(3)
    by (simp add: sys_sysinfo_def argaddr_def argraw_def unsetprocnum_card sysinfo_bytes_def pt_def)
  moreover have "k = 16 \<and> (\<forall>k<16. uacc s pt (a + k)) \<or> k \<noteq> 16 \<and> (\<exists>k<16. \<not> uacc s pt (a + k))"
    using k(1) by (cases "k = 16") (auto simp: reach_def le_less)
  ultimately show ?thesis using k(2,4) l wrote_pool [OF u k(2,4)] unfolding m by auto
qed

section \<open>A process that calls sysinfo\<close>

text \<open>The process of \<open>demo_parent\<close> with a page of memory and the registers for \<^verbatim>\<open>sysinfo(0)\<close>.\<close>

definition demo_call :: filest where
  "demo_call = (case growproc 4096 demo_parent of
     Ok (_, s) \<Rightarrow> (let tf = p_trapframe (myproc s) in tf_set tf (TF_A 0) 0 (tf_set tf (TF_A 7) 23 s)) | _ \<Rightarrow> demo_parent)"

lemma parent_ok_grow:
  assumes p: "parent_ok s xs" and z: "p_sz (myproc s) = 0" "3 < length xs"
  obtains s' ys where "growproc 4096 s = Ok (0, s')" "parent_ok s' ys"
    "procs s' = (procs s)(cur s := (myproc s)\<lparr>p_sz := 4096\<rparr>)" "cur s' = cur s"
    "fresh_user_page s' (p_pagetable (myproc s')) (PTE_R OR PTE_U OR PTE_W) 0"
    "top_private s (p_pagetable (myproc s)) \<longrightarrow> top_private s' (p_pagetable (myproc s'))"
proof -
  let ?pt = "p_pagetable (myproc s)" and ?tf = "p_trapframe (myproc s)"
  have u: "uvm s ?pt xs {..<npages 0} top_pages" and tf: "page_ok (kend s) ?tf" "?tf \<notin> pool s ?pt xs {..<npages 0}"
    using p z by (simp_all add: parent_ok_def)
  have le: "(0 :: u64) \<le> 4096" "4096 \<le> TRAPFRAME" by (simp_all add: TRAPFRAME_eq)
  from uvmalloc_ok [OF u le PTE_W_flags] z(2) obtain t ys where t: "uvmalloc ?pt 0 4096 PTE_W s = Ok (4096, t)"
    "uvm t ?pt ys {..<npages 4096} top_pages" "uvm_step ?pt s xs {..<npages 0} t ys {..<npages 4096}"
    "fresh_user_page t ?pt (PTE_R OR PTE_U OR PTE_W) 0" by auto
  have fr: "kend t = kend s" "kmem.more t = kmem.more s" "pool t ?pt ys {..<npages 4096} = pool s ?pt xs {..<npages 0}"
    "\<forall>j<2 * VPNS. UPAGES \<le> j \<longrightarrow> leaf (phys t) ?pt j = leaf (phys s) ?pt j" using t(3) unfolding uvm_step_def by blast+
  define s' where "s' = upd_proc (cur t) (\<lambda>p. p\<lparr>p_sz := 4096\<rparr>) t"
  have "mem_frame UNIV s t" using fr by (simp add: mem_frame_def)
  then have "procs t = procs s" "cur t = cur s" using proc_stepD(1,4) [OF mem_frame_step] by blast+
  then have P: "procs s' = (procs s)(cur s := (myproc s)\<lparr>p_sz := 4096\<rparr>)" "cur s' = cur s" by (simp_all add: s'_def upd_proc_def)
  have sm: "same_mem t s'" by (simp add: s'_def upd_proc_def)
  have u': "uvm s' ?pt ys {..<npages 4096} top_pages" using t(2) uvm_cong [OF sm] by blast
  have pl: "pool s' ?pt ys {..<npages 4096} = pool s ?pt xs {..<npages 0}" using fr(3) sm by (simp add: pool_def)
  have ok: "parent_ok s' ys" unfolding parent_ok_def using p u' pl tf fr(1) sm P le by (auto simp: parent_ok_def no_mem_def)
  have "growproc 4096 s = Ok (0, s')" using t(1) z by (simp add: growproc_def s'_def)
  moreover have "fresh_user_page s' ?pt (PTE_R OR PTE_U OR PTE_W) 0" using t(4) sm by (simp add: fresh_user_page_def)
  moreover have "top_private s ?pt \<longrightarrow> top_private s' ?pt" using fr(4) sm by (simp add: top_private_def)
  ultimately show thesis using that [of s' ys] ok P by simp
qed

lemma parent_ok_tf_set:
  assumes p: "parent_ok s xs" and o: "off < 36" and t_def: "t = tf_set (p_trapframe (myproc s)) (8 * of_nat off) v s"
  shows "parent_ok t xs" "\<And>j. leaf (phys t) (p_pagetable (myproc s)) j = leaf (phys s) (p_pagetable (myproc s)) j"
    "\<And>a. a div 4096 \<in> {..<npages (p_sz (myproc s))} \<Longrightarrow> ubyte t (p_pagetable (myproc s)) a = ubyte s (p_pagetable (myproc s)) a"
proof -
  let ?pt = "p_pagetable (myproc s)" and ?tf = "p_trapframe (myproc s)"
  have u: "uvm s ?pt xs {..<npages (p_sz (myproc s))} top_pages" and tf: "?tf \<notin> pool s ?pt xs {..<npages (p_sz (myproc s))}"
    and al: "aligned ?tf" using p by (auto simp: parent_ok_def page_ok_def)
  have t: "freelist t = freelist s" "kend t = kend s" "procs t = procs s" "cur t = cur s" by (simp_all add: t_def tf_set_def)
  have "\<forall>x. PGROUNDDOWN x \<noteq> ?tf \<longrightarrow> phys t x = phys s x"
    using store64_page_frame [OF al, of "8 * off"] o by (simp add: t_def tf_set_def)
  note k = uvm_tf [OF u t(1,2) this tf]
  show "parent_ok t xs" using p k(1,5) t by (simp add: parent_ok_def)
  show "leaf (phys t) ?pt j = leaf (phys s) ?pt j" for j by (rule k(2))
  show "ubyte t ?pt a = ubyte s ?pt a" if "a div 4096 \<in> {..<npages (p_sz (myproc s))}" for a using that by (rule k(4))
qed

lemma demo_call_ready:
  "\<exists>xs. parent_ok demo_call xs \<and> top_private demo_call (p_pagetable (myproc demo_call)) \<and>
     tf_get (p_trapframe (myproc demo_call)) demo_call (TF_A 7) = 23 \<and> tf_get (p_trapframe (myproc demo_call)) demo_call (TF_A 0) = 0 \<and>
     (\<forall>a<4096. uacc demo_call (p_pagetable (myproc demo_call)) a) \<and> p_mask (myproc demo_call) = 0 \<and>
     npages (p_sz (myproc demo_call)) = 1 \<and> {i. i < NPROC \<and> p_state (procs demo_call i) \<noteq> UNUSED} = {0}"
proof -
  from demo_parent_ready obtain xs where xs: "parent_ok demo_parent xs" "25 \<le> length xs" "p_sz (myproc demo_parent) = 0"
    "top_private demo_parent (p_pagetable (myproc demo_parent))"
    "p_mask (myproc demo_parent) = 0" "\<forall>i>0. p_state (procs demo_parent i) = UNUSED" "cur demo_parent = 0" by blast
  from parent_ok_grow [OF xs(1,3)] xs(2,4) obtain s ys where s: "growproc 4096 demo_parent = Ok (0, s)" "parent_ok s ys"
    "procs s = (procs demo_parent)(cur demo_parent := (myproc demo_parent)\<lparr>p_sz := 4096\<rparr>)" "cur s = cur demo_parent" "fresh_user_page s (p_pagetable (myproc s)) (PTE_R OR PTE_U OR PTE_W) 0"
    "top_private s (p_pagetable (myproc s))" by auto
  let ?tf = "p_trapframe (myproc s)"
  define t where "t = tf_set ?tf (TF_A 7) 23 s"
  have d: "demo_call = tf_set ?tf (TF_A 0) 0 t" using s(1) by (simp add: demo_call_def t_def Let_def)
  have o: "TF_A 7 = 8 * of_nat 21" "TF_A 0 = 8 * of_nat 14" by (simp_all add: TF_A_def)
  have t: "procs t = procs s" "cur t = cur s" "procs demo_call = procs s" "cur demo_call = cur s" by (simp_all add: d t_def tf_set_def)
  have pt: "parent_ok t ys" "leaf (phys t) (p_pagetable (myproc s)) j = leaf (phys s) (p_pagetable (myproc s)) j" for j
    using parent_ok_tf_set(1,2) [OF s(2), of 21 t 23] unfolding t_def o by simp_all
  have pd: "parent_ok demo_call ys" "leaf (phys demo_call) (p_pagetable (myproc s)) j = leaf (phys s) (p_pagetable (myproc s)) j" for j
    using parent_ok_tf_set(1,2) [OF pt(1), of 14 demo_call 0] pt(2) t(1,2) unfolding d o by simp_all
  have "uacc s (p_pagetable (myproc s)) a" if "a < 4096" for a by (rule uacc_fresh [OF s(5)]) (use that in auto)
  then have ua: "uacc demo_call (p_pagetable (myproc s)) a" if "a < 4096" for a using that pd(2) by (simp add: uacc_def)
  have "tf_get ?tf demo_call (TF_A 0) = 0" by (simp add: d tf_get_def tf_set_def mem_simps)
  moreover have "tf_get ?tf demo_call (TF_A 7) = 23"
  proof -
    have "load64 (store64 m (?tf + TF_A 0) 0) (?tf + TF_A 7) = load64 m (?tf + TF_A 7)" for m
    proof (rule load64_cong, rule store64_outside)
      fix i :: nat assume "i < 8"
      then have "unat (of_nat (56 + i) :: u64) = 56 + i" by (intro unat_of_nat_u64) simp
      moreover have "?tf + TF_A 7 + of_nat i - (?tf + TF_A 0) = of_nat (56 + i)" by (simp add: TF_A_def)
      ultimately show "8 \<le> unat (?tf + TF_A 7 + of_nat i - (?tf + TF_A 0))" by (simp only: le_add1 trans_le_add1)
    qed
    then show ?thesis by (simp add: d t_def tf_get_def tf_set_def mem_simps)
  qed
  moreover have "top_private demo_call (p_pagetable (myproc s))" using s(6) pd(2) by (simp add: top_private_def)
  moreover have "p_mask (myproc demo_call) = 0" "npages (p_sz (myproc demo_call)) = 1" using t s(3,4) xs(5,7) by simp_all
  moreover have "{i. i < NPROC \<and> p_state (procs demo_call i) \<noteq> UNUSED} = {0}"
    using xs(1,6,7) t(3) s(3) by (auto simp: parent_ok_def)
  ultimately show ?thesis using pd(1) ua t(3,4) by auto
qed

section \<open>Property\<close>

text \<open>
  C32: the system call \<^verbatim>\<open>sysinfo\<close>, from the registers of the process on. If the 16 bytes at the given
  address are accessible, they become the number of free bytes and the number of processes, exactly,
  all other user memory stays, and the result register is 0; otherwise the result is -1. A message with the pid, the name
  of the call and the result is printed exactly if the process traces the call.
\<close>

theorem syscall_sysinfo:
  assumes "parent_ok s xs" "top_private s (p_pagetable (myproc s))"
    and "tf_get (p_trapframe (myproc s)) s (TF_A 7) = 23"
    and "a = unat (tf_get (p_trapframe (myproc s)) s (TF_A 0))"
  shows "\<exists>r s'. syscall devsw pad s =
      Ok (Done (if bit (p_mask (myproc s)) 23 then Some (Traced (p_pid (myproc s)) ''sysinfo'' r) else None), s') \<and>
    procs s' = procs s \<and> tf_get (p_trapframe (myproc s)) s' (TF_A 0) = word_of_int r \<and>
    (r = 0 \<and> (\<forall>k<16. uacc s (p_pagetable (myproc s)) (a + k)) \<and>
       (\<forall>b. b div 4096 < npages (p_sz (myproc s)) \<longrightarrow> ubyte s' (p_pagetable (myproc s)) b =
         (if a \<le> b \<and> b < a + 16 then sysinfo_bytes s xs ! (b - a) else ubyte s (p_pagetable (myproc s)) b)) \<or>
     r = -1 \<and> (\<exists>k<16. \<not> uacc s (p_pagetable (myproc s)) (a + k)))"
proof -
  let ?pt = "p_pagetable (myproc s)" and ?tf = "p_trapframe (myproc s)"
  let ?M = "{..<npages (p_sz (myproc s))}"
  from sys_sysinfo_ok [OF assms(1,2)] obtain r m where r: "sys_sysinfo s = Ok (Done r, s\<lparr>phys := m\<rparr>)"
    "uvm (s\<lparr>phys := m\<rparr>) ?pt xs ?M top_pages" "pool (s\<lparr>phys := m\<rparr>) ?pt xs ?M = pool s ?pt xs ?M"
    "r = 0 \<and> (\<forall>k<16. uacc s ?pt (a + k)) \<and> wrote ?pt ?M s a (sysinfo_bytes s xs) (s\<lparr>phys := m\<rparr>) \<or>
     r = -1 \<and> (\<exists>k<16. \<not> uacc s ?pt (a + k))" unfolding assms(4) by blast
  define s' where "s' = tf_set ?tf (TF_A 0) (word_of_int r) (s\<lparr>phys := m\<rparr>)"
  have mask: "push_bit 23 1 AND p_mask (myproc s) \<noteq> 0 \<longleftrightarrow> bit (p_mask (myproc s)) 23"
    by (simp add: bit_iff_and_push_bit_not_eq_0 and.commute)
  have s': "procs s' = procs s" "cur s' = cur s" "freelist s' = freelist s" "kend s' = kend s" by (simp_all add: s'_def tf_set_def)
  have a0: "tf_get ?tf s' (TF_A 0) = word_of_int r" by (simp add: s'_def tf_set_def tf_get_def mem_simps)
  have "(ucast (- 1 :: u64) :: u32) = - 1" by (rule bit_word_eqI) (simp add: bit_ucast_iff)
  then have si: "sint (ucast (word_of_int r :: u64) :: u32) = r" using r(4) by auto
  have sn: "syscallname ! 23 = ''sysinfo''" by (simp add: syscallname_def)
  have num: "sint (ucast (tf_get ?tf s (TF_A 7)) :: u32) = 23" using assms(3) by simp
  have sc: "syscalls devsw pad (nat 23) = Some sys_sysinfo" by (simp add: syscalls_def)
  have "syscall devsw pad s = Ok (Done (if bit (p_mask (myproc s)) 23 then Some (Traced (p_pid (myproc s)) ''sysinfo'' r) else None), s')"
    using r(1) num sc a0 si sn mask s'(1,2) unfolding syscall_def Let_def syscall_done_def num
    by (simp add: s'_def [symmetric])
  moreover have "ubyte s' ?pt b = ubyte (s\<lparr>phys := m\<rparr>) ?pt b" if "b \<in> {b. b div 4096 \<in> ?M}" for b
  proof -
    have al: "aligned ?tf" using assms(1) by (auto simp: parent_ok_def page_ok_def)
    have tf: "TF_A 0 = of_nat 112" by (simp add: TF_A_def)
    have "\<forall>x. PGROUNDDOWN x \<noteq> ?tf \<longrightarrow> phys s' x = phys (s\<lparr>phys := m\<rparr>) x"
      using store64_page_frame [OF al, of 112] by (simp add: s'_def tf_set_def tf)
    moreover have "?tf \<notin> pool (s\<lparr>phys := m\<rparr>) ?pt xs ?M" using assms(1) r(3) by (simp add: parent_ok_def)
    ultimately show ?thesis using uvm_tf(4) [OF r(2), of s'] s' that by simp
  qed
  ultimately show ?thesis using r(4) s'(1) a0 by (intro exI [of _ r] exI [of _ s']) (auto simp: wrote_def sysinfo_bytes_def)
qed

theorem syscall_sysinfo_witness:
  "\<exists>s'. syscall (\<lambda>_. (None, None)) [] demo_call = Ok (Done None, s') \<and> ubyte s' (p_pagetable (myproc demo_call)) 8 = 1"
proof -
  from demo_call_ready obtain xs where xs: "parent_ok demo_call xs" "top_private demo_call (p_pagetable (myproc demo_call))"
    "tf_get (p_trapframe (myproc demo_call)) demo_call (TF_A 7) = 23" "tf_get (p_trapframe (myproc demo_call)) demo_call (TF_A 0) = 0"
    "\<forall>a<4096. uacc demo_call (p_pagetable (myproc demo_call)) a" "p_mask (myproc demo_call) = 0"
    "npages (p_sz (myproc demo_call)) = 1" "{i. i < NPROC \<and> p_state (procs demo_call i) \<noteq> UNUSED} = {0}" by blast
  have a: "0 = unat (tf_get (p_trapframe (myproc demo_call)) demo_call (TF_A 0))" using xs(4) by simp
  have b: "sysinfo_bytes demo_call xs ! 8 = 1" unfolding sysinfo_bytes_def xs(8)
    by (simp add: nth_append bytes64_def bytes32_def)
  from syscall_sysinfo [OF xs(1-3) a, of "\<lambda>_. (None, None)" "[]"] obtain r s' where
    s': "syscall (\<lambda>_. (None, None)) [] demo_call = Ok (Done None, s')"
    "r = 0 \<and> (\<forall>b. b div 4096 < 1 \<longrightarrow> ubyte s' (p_pagetable (myproc demo_call)) b =
       (if 0 \<le> b \<and> b < 0 + 16 then sysinfo_bytes demo_call xs ! (b - 0) else ubyte demo_call (p_pagetable (myproc demo_call)) b)) \<or>
     (\<exists>k<16. \<not> uacc demo_call (p_pagetable (myproc demo_call)) (0 + k))"
    unfolding xs(6,7) by auto
  moreover have "\<not> (\<exists>k<16. \<not> uacc demo_call (p_pagetable (myproc demo_call)) (0 + k))" using xs(5) by simp
  ultimately have "\<forall>b. b div 4096 < 1 \<longrightarrow> ubyte s' (p_pagetable (myproc demo_call)) b =
       (if 0 \<le> b \<and> b < 0 + 16 then sysinfo_bytes demo_call xs ! (b - 0) else ubyte demo_call (p_pagetable (myproc demo_call)) b)" by blast
  from this [rule_format, of 8] have "ubyte s' (p_pagetable (myproc demo_call)) 8 = 1" using b by simp
  then show ?thesis using s'(1) by blast
qed

end
