(* ===== verification/Shell.thy ===== *)
theory Shell
  imports Sysfile
begin

text \<open>
  The parser of the shell, \<^verbatim>\<open>user/sh.c\<close>. A pointer into the line is a position in the list of its characters
  before the NUL, and \<^verbatim>\<open>es\<close> is the length of that list. \<^verbatim>\<open>panic\<close> prints its argument and exits, the outcome
  \<open>Panic\<close>. Memory for the nodes of the tree is assumed to be available. The functions that call each other take
  a number of calls they may still nest, and are \<open>Undef\<close> when it is used up; \<open>parsecmd\<close> starts with more than any
  line needs.
\<close>

section \<open>Tokens\<close>

definition char_at :: "string \<Rightarrow> nat \<Rightarrow> char" where
  "char_at b i = (if i < length b then b ! i else CHR 0x00)"

text \<open>\<^verbatim>\<open>strchr\<close> of \<^verbatim>\<open>user/ulib.c\<close> as a condition: the NUL of the string does not count.\<close>

definition strchr :: "string \<Rightarrow> char \<Rightarrow> bool" where
  "strchr s c \<longleftrightarrow> c \<in> set s"

definition whitespace :: string where "whitespace = [CHR '' '', CHR 0x09, CHR 0x0D, CHR 0x0A, CHR 0x0B]"
definition symbols :: string where "symbols = ''<|>&;()''"

function skip_white :: "string \<Rightarrow> nat \<Rightarrow> nat" where
  "skip_white b s = (if s < length b \<and> strchr whitespace (char_at b s) then skip_white b (s + 1) else s)"
  by pat_completeness auto
termination by (relation "measure (\<lambda>(b, s). length b - s)") auto

function skip_word :: "string \<Rightarrow> nat \<Rightarrow> nat" where
  "skip_word b s =
     (if s < length b \<and> \<not> strchr whitespace (char_at b s) \<and> \<not> strchr symbols (char_at b s)
      then skip_word b (s + 1) else s)"
  by pat_completeness auto
termination by (relation "measure (\<lambda>(b, s). length b - s)") auto

declare skip_white.simps [simp del] skip_word.simps [simp del]

text \<open>The token, its first position, the position after it, and the new value of \<^verbatim>\<open>*ps\<close>.\<close>

definition gettoken :: "string \<Rightarrow> nat \<Rightarrow> char \<times> nat \<times> nat \<times> nat" where
  "gettoken b ps =
     (let q = skip_white b ps;
          c = char_at b q;
          (rt, eq) =
            (if c = CHR 0x00 then (c, q)
             else if strchr ''|();&<'' c then (c, q + 1)
             else if c = CHR ''>'' then if char_at b (q + 1) = CHR ''>'' then (CHR ''+'', q + 2) else (c, q + 1)
             else (CHR ''a'', skip_word b q))
      in (rt, q, eq, skip_white b eq))"

definition peek :: "string \<Rightarrow> nat \<Rightarrow> string \<Rightarrow> nat \<times> bool" where
  "peek b ps toks =
     (let s = skip_white b ps in (s, char_at b s \<noteq> CHR 0x00 \<and> strchr toks (char_at b s)))"

lemma skip_white_ge: "s \<le> skip_white b s"
proof (induction b s rule: skip_white.induct)
  case (1 b s)
  then show ?case by (subst skip_white.simps) auto
qed

lemma skip_word_ge: "s \<le> skip_word b s"
proof (induction b s rule: skip_word.induct)
  case (1 b s)
  then show ?case by (subst skip_word.simps) auto
qed

lemma skip_white_stop: "skip_white b s < length b \<Longrightarrow> \<not> strchr whitespace (char_at b (skip_white b s))"
proof (induction b s rule: skip_white.induct)
  case (1 b s)
  then show ?case by (cases "s < length b \<and> strchr whitespace (char_at b s)") (simp_all add: skip_white.simps [of b s])
qed

lemma skip_white_id: "\<not> (s < length b \<and> strchr whitespace (char_at b s)) \<Longrightarrow> skip_white b s = s"
  by (subst skip_white.simps) auto

lemma skip_white_twice [simp]: "skip_white b (skip_white b s) = skip_white b s"
  by (rule skip_white_id) (use skip_white_stop in blast)

lemma char_at_nonzero: "char_at b s \<noteq> CHR 0x00 \<Longrightarrow> s < length b"
  by (auto simp: char_at_def split: if_splits)

lemma gettoken_advances:
  assumes "char_at b (skip_white b s) \<noteq> CHR 0x00" "gettoken b s = (tok, q, eq, s')"
  shows "skip_white b s < s'"
proof -
  let ?q = "skip_white b s"
  have q: "?q < length b" "\<not> strchr whitespace (char_at b ?q)" using char_at_nonzero [OF assms(1)] skip_white_stop by auto
  have "?q < skip_word b ?q" if "\<not> strchr ''|();&<'' (char_at b ?q)" "char_at b ?q \<noteq> CHR ''>''"
  proof -
    have "\<not> strchr symbols (char_at b ?q)" using that by (auto simp: strchr_def symbols_def)
    then have "skip_word b ?q = skip_word b (?q + 1)" using q by (simp add: skip_word.simps [of b ?q])
    then show ?thesis using skip_word_ge [of "?q + 1" b] by simp
  qed
  then show ?thesis using assms le_trans skip_white_ge unfolding gettoken_def Let_def
    by (auto split: if_splits prod.splits intro: less_le_trans [OF _ skip_white_ge])
qed

section \<open>Commands\<close>

text \<open>
  The node types \<^verbatim>\<open>EXEC\<close>, \<^verbatim>\<open>REDIR\<close>, \<^verbatim>\<open>PIPE\<close>, \<^verbatim>\<open>LIST\<close> and \<^verbatim>\<open>BACK\<close>. A string of the line is given by its first
  position and the position after it (\<^verbatim>\<open>argv\<close> and \<^verbatim>\<open>eargv\<close>, \<^verbatim>\<open>file\<close> and \<^verbatim>\<open>efile\<close>).
\<close>

datatype cmd =
  Execcmd "(nat \<times> nat) list"
| Redircmd cmd nat nat u32 int
| Pipecmd cmd cmd
| Listcmd cmd cmd
| Backcmd cmd

definition MAXARGS :: nat where "MAXARGS = 10"

text \<open>\<^verbatim>\<open>cmd->argv[argc] = q; cmd->eargv[argc] = eq\<close> for the node \<^verbatim>\<open>cmd\<close> below the redirections of \<^verbatim>\<open>ret\<close>.\<close>

fun add_arg :: "nat \<Rightarrow> nat \<Rightarrow> cmd \<Rightarrow> cmd" where
  "add_arg q eq (Execcmd argv) = Execcmd (argv @ [(q, eq)])"
| "add_arg q eq (Redircmd c f ef mode fd) = Redircmd (add_arg q eq c) f ef mode fd"
| "add_arg q eq c = c"

definition redir :: "char \<Rightarrow> cmd \<Rightarrow> nat \<Rightarrow> nat \<Rightarrow> cmd" where
  "redir tok c q eq =
     (if tok = CHR ''<'' then Redircmd c q eq O_RDONLY 0
      else if tok = CHR ''>'' then Redircmd c q eq (O_WRONLY OR O_CREATE OR O_TRUNC) 1
      else if tok = CHR ''+'' then Redircmd c q eq (O_WRONLY OR O_CREATE) 1
      else c)"

lemma gettoken_ge: "gettoken b s = (tok, q, eq, s') \<Longrightarrow> s \<le> s'"
proof -
  assume g: "gettoken b s = (tok, q, eq, s')"
  let ?q = "skip_white b s"
  have "?q \<le> eq" using g skip_word_ge [of ?q b] by (auto simp: gettoken_def Let_def split: if_splits prod.splits)
  moreover have "eq \<le> s'" using g skip_white_ge [of eq b] by (auto simp: gettoken_def Let_def split: if_splits prod.splits)
  ultimately show ?thesis using skip_white_ge [of s b] by simp
qed

lemma peek_gettoken:
  assumes "peek b s toks = (s1, True)" "gettoken b s1 = (tok, q, eq, s2)"
  shows "s \<le> s1" "s1 < s2" "s1 < length b"
proof -
  have 1: "s1 = skip_white b s" "char_at b s1 \<noteq> CHR 0x00" using assms(1) by (auto simp: peek_def Let_def)
  then show "s \<le> s1" "s1 < length b" using skip_white_ge char_at_nonzero by auto
  show "s1 < s2" using gettoken_advances [OF _ assms(2)] 1 by simp
qed

lemma redirs_dec:
  assumes "(s1, True) = peek b s toks" "(t, q, e, s2) = gettoken b s1" "(t', q', e', s3) = gettoken b s2"
  shows "s < s3" "s < length b"
  using peek_gettoken [OF assms(1,2) [symmetric]] gettoken_ge [OF assms(3) [symmetric]] by simp_all

lemma backs_dec:
  assumes "(s1, True) = peek b s toks" "(t, q, e, s2) = gettoken b s1"
  shows "s < s2" "s < length b"
  using peek_gettoken [OF assms [symmetric]] by simp_all

function parseredirs :: "string \<Rightarrow> cmd \<Rightarrow> nat \<Rightarrow> (cmd \<times> nat) outcome" where
  "parseredirs b c s =
     (case peek b s ''<>'' of (s, yes) \<Rightarrow>
        if yes
        then case gettoken b s of (tok, _, _, s) \<Rightarrow>
             case gettoken b s of (tok', q, eq, s) \<Rightarrow>
               if tok' \<noteq> CHR ''a'' then Panic ''missing file for redirection''
               else parseredirs b (redir tok c q eq) s
        else Ok (c, s))"
  by pat_completeness auto
termination
  by (relation "measure (\<lambda>(b, c, s). length b - s)")
    (auto dest: redirs_dec intro!: diff_less_mono2)

declare parseredirs.simps [simp del]

text \<open>The loop of \<^verbatim>\<open>parseexec\<close> over the arguments.\<close>

function parseargs :: "string \<Rightarrow> cmd \<Rightarrow> nat \<Rightarrow> nat \<Rightarrow> (cmd \<times> nat) outcome" where
  "parseargs b rt argc s =
     (case peek b s ''|)&;'' of (s, stop) \<Rightarrow>
        if stop then Ok (rt, s)
        else case gettoken b s of (tok, q, eq, s) \<Rightarrow>
          if tok = CHR 0x00 then Ok (rt, s)
          else if tok \<noteq> CHR ''a'' then Panic ''syntax''
          else if argc + 1 \<ge> MAXARGS then Panic ''too many args''
          else bind_ok (parseredirs b (add_arg q eq rt) s) (\<lambda>(rt, s). parseargs b rt (argc + 1) s))"
  by pat_completeness auto
termination by (relation "measure (\<lambda>(b, rt, argc, s). MAXARGS - argc)") auto

declare parseargs.simps [simp del]

text \<open>The loop of \<^verbatim>\<open>parseline\<close> over the ampersands.\<close>

function parsebacks :: "string \<Rightarrow> cmd \<Rightarrow> nat \<Rightarrow> cmd \<times> nat" where
  "parsebacks b c s =
     (case peek b s ''&'' of (s, yes) \<Rightarrow>
        if yes then case gettoken b s of (_, _, _, s) \<Rightarrow> parsebacks b (Backcmd c) s else (c, s))"
  by pat_completeness auto
termination
  by (relation "measure (\<lambda>(b, c, s). length b - s)") (auto dest: backs_dec intro!: diff_less_mono2)

declare parsebacks.simps [simp del]

fun parseline :: "nat \<Rightarrow> string \<Rightarrow> nat \<Rightarrow> (cmd \<times> nat) outcome"
  and parsepipe :: "nat \<Rightarrow> string \<Rightarrow> nat \<Rightarrow> (cmd \<times> nat) outcome"
  and parseblock :: "nat \<Rightarrow> string \<Rightarrow> nat \<Rightarrow> (cmd \<times> nat) outcome"
  and parseexec :: "nat \<Rightarrow> string \<Rightarrow> nat \<Rightarrow> (cmd \<times> nat) outcome" where
  "parseline 0 b s = Undef"
| "parseline (Suc n) b s =
     bind_ok (parsepipe n b s) (\<lambda>(c, s).
       case parsebacks b c s of (c, s) \<Rightarrow>
       case peek b s '';'' of (s, yes) \<Rightarrow>
         if yes
         then case gettoken b s of (_, _, _, s) \<Rightarrow> bind_ok (parseline n b s) (\<lambda>(c', s). Ok (Listcmd c c', s))
         else Ok (c, s))"
| "parsepipe 0 b s = Undef"
| "parsepipe (Suc n) b s =
     bind_ok (parseexec n b s) (\<lambda>(c, s).
       case peek b s ''|'' of (s, yes) \<Rightarrow>
         if yes
         then case gettoken b s of (_, _, _, s) \<Rightarrow> bind_ok (parsepipe n b s) (\<lambda>(c', s). Ok (Pipecmd c c', s))
         else Ok (c, s))"
| "parseblock 0 b s = Undef"
| "parseblock (Suc n) b s =
     (case peek b s ''('' of (s, yes) \<Rightarrow>
        if \<not> yes then Panic ''parseblock''
        else case gettoken b s of (_, _, _, s) \<Rightarrow>
          bind_ok (parseline n b s) (\<lambda>(c, s).
            case peek b s '')'' of (s, yes) \<Rightarrow>
              if \<not> yes then Panic ''syntax - missing )''
              else case gettoken b s of (_, _, _, s) \<Rightarrow> parseredirs b c s))"
| "parseexec 0 b s = Undef"
| "parseexec (Suc n) b s =
     (case peek b s ''('' of (s, yes) \<Rightarrow>
        if yes then parseblock n b s
        else bind_ok (parseredirs b (Execcmd []) s) (\<lambda>(rt, s). parseargs b rt 0 s))"

declare parseline.simps [simp del] parsepipe.simps [simp del] parseblock.simps [simp del] parseexec.simps [simp del]

text \<open>The line with a NUL written after every string of the command.\<close>

fun nulterminate :: "cmd \<Rightarrow> string \<Rightarrow> string" where
  "nulterminate (Execcmd argv) buf = fold (\<lambda>(q, eq) buf. buf[eq := CHR 0x00]) argv buf"
| "nulterminate (Redircmd c f ef mode fd) buf = (nulterminate c buf)[ef := CHR 0x00]"
| "nulterminate (Pipecmd l r) buf = nulterminate r (nulterminate l buf)"
| "nulterminate (Listcmd l r) buf = nulterminate r (nulterminate l buf)"
| "nulterminate (Backcmd c) buf = nulterminate c buf"

text \<open>The command and the new contents of the memory of the line, with its NUL at the end.\<close>

definition parsecmd :: "string \<Rightarrow> (cmd \<times> string) outcome" where
  "parsecmd b =
     bind_ok (parseline (4 * length b + 4) b 0) (\<lambda>(c, s).
       case peek b s [] of (s, _) \<Rightarrow>
         if s \<noteq> length b then Panic ''syntax'' else Ok (c, nulterminate c (b @ [CHR 0x00])))"

end
