(* ===== verification/Shell_Props.thy ===== *)
theory Shell_Props
  imports Shell
begin

text \<open>
  The parser of the shell: every line is parsed or refused, the strings of a command are the words of the line
  once the NULs are written, and the parser inverts a printer of commands.
\<close>

section \<open>Words\<close>

definition word_char :: "char \<Rightarrow> bool" where
  "word_char c \<longleftrightarrow> c \<noteq> CHR 0x00 \<and> c \<notin> set whitespace \<and> c \<notin> set symbols"

text \<open>The positions \<open>q\<close> to \<open>eq\<close> are a maximal word of the line.\<close>

definition token_ok :: "string \<Rightarrow> nat \<times> nat \<Rightarrow> bool" where
  "token_ok b = (\<lambda>(q, eq). q < eq \<and> eq \<le> length b \<and> (\<forall>i. q \<le> i \<and> i < eq \<longrightarrow> word_char (b ! i)) \<and>
     (eq < length b \<longrightarrow> \<not> word_char (b ! eq)))"

fun tokens :: "cmd \<Rightarrow> (nat \<times> nat) list" where
  "tokens (Execcmd argv) = argv"
| "tokens (Redircmd c f ef mode fd) = tokens c @ [(f, ef)]"
| "tokens (Pipecmd l r) = tokens l @ tokens r"
| "tokens (Listcmd l r) = tokens l @ tokens r"
| "tokens (Backcmd c) = tokens c"

lemma tokens_add_arg: "set (tokens (add_arg q eq c)) \<subseteq> insert (q, eq) (set (tokens c))"
  by (induction c) auto

lemma tokens_redir: "set (tokens (redir tok c q eq)) \<subseteq> insert (q, eq) (set (tokens c))"
  by (auto simp: redir_def)

lemma skip_word_le: "s \<le> length b \<Longrightarrow> skip_word b s \<le> length b"
proof (induction b s rule: skip_word.induct)
  case (1 b s)
  then show ?case by (subst skip_word.simps) auto
qed

lemma skip_white_le: "s \<le> length b \<Longrightarrow> skip_white b s \<le> length b"
proof (induction b s rule: skip_white.induct)
  case (1 b s)
  then show ?case by (subst skip_white.simps) auto
qed

lemma skip_word_chars:
  assumes "CHR 0x00 \<notin> set b"
  shows "(\<forall>i. s \<le> i \<and> i < skip_word b s \<longrightarrow> word_char (b ! i)) \<and> (skip_word b s < length b \<longrightarrow> \<not> word_char (b ! skip_word b s))"
  using assms
proof (induction b s rule: skip_word.induct)
  case (1 b s)
  show ?case
  proof (cases "s < length b \<and> \<not> strchr whitespace (char_at b s) \<and> \<not> strchr symbols (char_at b s)")
    case True
    then have "b ! s \<noteq> CHR 0x00" using "1.prems" by (metis nth_mem)
    then have w: "word_char (b ! s)" using True by (auto simp: word_char_def strchr_def char_at_def)
    have e: "skip_word b s = skip_word b (s + 1)" using True by (simp add: skip_word.simps [of b s])
    have "word_char (b ! i)" if "s \<le> i" "i < skip_word b s" for i
      using 1 True w that e by (cases "i = s") auto
    then show ?thesis using 1 True e by auto
  next
    case False
    then have "skip_word b s = s" by (subst skip_word.simps) auto
    then show ?thesis using False by (auto simp: word_char_def strchr_def char_at_def)
  qed
qed

lemma gettoken_word:
  assumes "gettoken b s = (CHR ''a'', q, eq, s')" "CHR 0x00 \<notin> set b"
  shows "token_ok b (q, eq)"
proof -
  let ?q = "skip_white b s"
  have c: "char_at b ?q \<noteq> CHR 0x00" "\<not> strchr ''|();&<'' (char_at b ?q)" "char_at b ?q \<noteq> CHR ''>''" "q = ?q" "eq = skip_word b ?q"
    using assms(1) by (auto simp: gettoken_def Let_def strchr_def split: if_splits prod.splits)
  have q: "?q < length b" "\<not> strchr whitespace (char_at b ?q)" using char_at_nonzero [OF c(1)] skip_white_stop by auto
  have "\<not> strchr symbols (char_at b ?q)" using c(2,3) by (auto simp: strchr_def symbols_def)
  then have "eq = skip_word b (?q + 1)" using q c(5) by (simp add: skip_word.simps [of b ?q])
  then have "q < eq" using skip_word_ge [of "?q + 1" b] c(4) by simp
  then show ?thesis using skip_word_chars [OF assms(2), of ?q] skip_word_le [of ?q b] q(1) c(4,5) by (simp add: token_ok_def)
qed

lemma gettoken_le: "gettoken b s = (tok, q, eq, s') \<Longrightarrow> s \<le> length b \<Longrightarrow> s' \<le> length b"
proof -
  assume g: "gettoken b s = (tok, q, eq, s')" and s: "s \<le> length b"
  let ?q = "skip_white b s"
  have q: "?q \<le> length b" by (rule skip_white_le [OF s])
  have "eq \<le> length b"
    using g q skip_word_le [of ?q b] char_at_nonzero [of b ?q] char_at_nonzero [of b "?q + 1"]
    by (auto simp: gettoken_def Let_def Suc_le_eq split: if_splits prod.splits)
  then show ?thesis using g skip_white_le [of eq b] by (auto simp: gettoken_def Let_def split: if_splits prod.splits)
qed

section \<open>What the parser returns\<close>

text \<open>A position after the start and within the line, and a command whose strings are words of the line.\<close>

definition parsed :: "string \<Rightarrow> nat \<Rightarrow> cmd \<times> nat \<Rightarrow> bool" where
  "parsed b s = (\<lambda>(c, s'). s \<le> s' \<and> s' \<le> length b \<and> (\<forall>t\<in>set (tokens c). token_ok b t))"

lemma peek_pos: "peek b s toks = (s', yes) \<Longrightarrow> s \<le> length b \<Longrightarrow> s \<le> s' \<and> s' \<le> length b"
  using skip_white_ge skip_white_le by (auto simp: peek_def Let_def)

lemma parseredirs_parsed:
  assumes "parseredirs b c s = Ok r" "CHR 0x00 \<notin> set b" "s \<le> length b" "\<forall>t\<in>set (tokens c). token_ok b t"
  shows "parsed b s r"
  using assms
proof (induction b c s rule: parseredirs.induct)
  case (1 b c s)
  obtain s1 yes where p: "peek b s ''<>'' = (s1, yes)" by fastforce
  note s1 = peek_pos [OF p "1.prems"(3)]
  show ?case
  proof (cases yes)
    case False
    then show ?thesis using "1.prems" p s1 by (auto simp: parseredirs.simps [of b c s] parsed_def)
  next
    case True
    obtain tok q0 e0 s2 where g1: "gettoken b s1 = (tok, q0, e0, s2)" by (metis prod_cases4)
    obtain tok' q eq s3 where g2: "gettoken b s2 = (tok', q, eq, s3)" by (metis prod_cases4)
    have s3: "s1 \<le> s2" "s2 \<le> s3" "s3 \<le> length b" using gettoken_ge [OF g1] gettoken_ge [OF g2] gettoken_le [OF g1] gettoken_le [OF g2] s1 by auto
    have a: "tok' = CHR ''a''" "parseredirs b (redir tok c q eq) s3 = Ok r"
      using "1.prems"(1) p True g1 g2 by (auto simp: parseredirs.simps [of b c s] split: if_splits)
    have "\<forall>t\<in>set (tokens (redir tok c q eq)). token_ok b t"
      using tokens_redir [of tok c q eq] "1.prems"(4) gettoken_word [OF g2 [unfolded a(1)] "1.prems"(2)] by blast
    then have "parsed b s3 r" using "1.IH" [OF p [symmetric] True g1 [symmetric] refl refl g2 [symmetric] refl refl] a "1.prems"(2) s3(3) by simp
    then show ?thesis using s1 s3 by (auto simp: parsed_def)
  qed
qed

lemma parseargs_parsed:
  assumes "parseargs b c argc s = Ok r" "CHR 0x00 \<notin> set b" "s \<le> length b" "\<forall>t\<in>set (tokens c). token_ok b t"
  shows "parsed b s r"
  using assms
proof (induction b c argc s rule: parseargs.induct)
  case (1 b c argc s)
  obtain s1 stop where p: "peek b s ''|)&;'' = (s1, stop)" by fastforce
  note s1 = peek_pos [OF p "1.prems"(3)]
  obtain tok q eq s2 where g: "gettoken b s1 = (tok, q, eq, s2)" by (metis prod_cases4)
  have s2: "s1 \<le> s2" "s2 \<le> length b" using gettoken_ge [OF g] gettoken_le [OF g] s1 by auto
  show ?case
  proof (cases "stop \<or> tok = CHR 0x00")
    case True
    then have "r = (c, s1) \<or> r = (c, s2)" using "1.prems"(1) p g by (auto simp: parseargs.simps [of b c argc s] split: if_splits)
    then show ?thesis using s1 s2 "1.prems"(4) by (auto simp: parsed_def)
  next
    case False
    then have a: "tok = CHR ''a''" "\<not> MAXARGS \<le> argc + 1"
      "bind_ok (parseredirs b (add_arg q eq c) s2) (\<lambda>(c, s). parseargs b c (argc + 1) s) = Ok r"
      using "1.prems"(1) p g by (auto simp: parseargs.simps [of b c argc s] split: if_splits)
    then obtain c3 s3 where c3: "parseredirs b (add_arg q eq c) s2 = Ok (c3, s3)" "parseargs b c3 (argc + 1) s3 = Ok r"
      by (auto simp: bind_ok_eq_Ok)
    have "\<forall>t\<in>set (tokens (add_arg q eq c)). token_ok b t"
      using tokens_add_arg [of q eq c] "1.prems"(4) gettoken_word [OF g [unfolded a(1)] "1.prems"(2)] by blast
    then have p3: "parsed b s2 (c3, s3)" by (rule parseredirs_parsed [OF c3(1) "1.prems"(2) s2(2)])
    have "parsed b s3 r"
      using "1.IH" [OF p [symmetric] _ g [symmetric] refl refl] False a c3 "1.prems"(2) p3 by (auto simp: parsed_def)
    then show ?thesis using s1 s2 p3 by (auto simp: parsed_def)
  qed
qed

lemma parsebacks_parsed:
  assumes "CHR 0x00 \<notin> set b" "s \<le> length b" "\<forall>t\<in>set (tokens c). token_ok b t"
  shows "parsed b s (parsebacks b c s)"
  using assms
proof (induction b c s rule: parsebacks.induct)
  case (1 b c s)
  obtain s1 yes where p: "peek b s ''&'' = (s1, yes)" by fastforce
  note s1 = peek_pos [OF p "1.prems"(2)]
  obtain tok q eq s2 where g: "gettoken b s1 = (tok, q, eq, s2)" by (metis prod_cases4)
  have s2: "s1 \<le> s2" "s2 \<le> length b" using gettoken_ge [OF g] gettoken_le [OF g] s1 by auto
  show ?case
  proof (cases yes)
    case True
    have "parsed b s2 (parsebacks b (Backcmd c) s2)"
      by (rule "1.IH" [OF p [symmetric] True g [symmetric] refl refl]) (use "1.prems" s2 in simp_all)
    then show ?thesis using True p g s1 s2 by (auto simp: parsebacks.simps [of b c s] parsed_def)
  next
    case False
    then show ?thesis using p s1 "1.prems" by (simp add: parsebacks.simps [of b c s] parsed_def)
  qed
qed

lemma parsed_mono: "parsed b s' r \<Longrightarrow> s \<le> s' \<Longrightarrow> parsed b s r"
  by (auto simp: parsed_def)

lemma parse_parsed:
  "CHR 0x00 \<notin> set b \<Longrightarrow> s \<le> length b \<Longrightarrow> parseline n b s = Ok r \<Longrightarrow> parsed b s r"
  "CHR 0x00 \<notin> set b \<Longrightarrow> s \<le> length b \<Longrightarrow> parsepipe n b s = Ok r \<Longrightarrow> parsed b s r"
  "CHR 0x00 \<notin> set b \<Longrightarrow> s \<le> length b \<Longrightarrow> parseblock n b s = Ok r \<Longrightarrow> parsed b s r"
  "CHR 0x00 \<notin> set b \<Longrightarrow> s \<le> length b \<Longrightarrow> parseexec n b s = Ok r \<Longrightarrow> parsed b s r"
proof (induction n arbitrary: s r)
  case 0
  {
    case 1 then show ?case by (simp add: parseline.simps)
  next
    case 2 then show ?case by (simp add: parsepipe.simps)
  next
    case 3 then show ?case by (simp add: parseblock.simps)
  next
    case 4 then show ?case by (simp add: parseexec.simps)
  }
next
  case (Suc n)
  {
    case 1
    then obtain c1 s1 where 1: "parsepipe n b s = Ok (c1, s1)"
      by (auto simp: parseline.simps bind_ok_eq_Ok)
    note p1 = Suc(2) [OF \<open>CHR 0x00 \<notin> set b\<close> \<open>s \<le> length b\<close> 1]
    obtain c2 s2 where 2: "parsebacks b c1 s1 = (c2, s2)" by fastforce
    have p2: "parsed b s1 (c2, s2)" using parsebacks_parsed [of b s1 c1] \<open>CHR 0x00 \<notin> set b\<close> p1 2 by (simp add: parsed_def)
    obtain s3 yes where 3: "peek b s2 '';'' = (s3, yes)" by fastforce
    obtain tok q eq s4 where 4: "gettoken b s3 = (tok, q, eq, s4)" by (metis prod_cases4)
    have s3: "s2 \<le> s3" "s3 \<le> length b" "s3 \<le> s4" "s4 \<le> length b"
      using peek_pos [OF 3] p2 gettoken_ge [OF 4] gettoken_le [OF 4] by (auto simp: parsed_def)
    show ?case
    proof (cases yes)
      case True
      then obtain c5 s5 where 5: "parseline n b s4 = Ok (c5, s5)" "r = (Listcmd c2 c5, s5)"
        using \<open>parseline (Suc n) b s = Ok r\<close> 1 2 3 4 by (auto simp: parseline.simps bind_ok_eq_Ok)
      show ?thesis using Suc(1) [OF \<open>CHR 0x00 \<notin> set b\<close> s3(4) 5(1)] p1 p2 s3 5(2) by (auto simp: parsed_def)
    next
      case False
      then have "r = (c2, s3)" using \<open>parseline (Suc n) b s = Ok r\<close> 1 2 3 by (auto simp: parseline.simps)
      then show ?thesis using p1 p2 s3 by (auto simp: parsed_def)
    qed
  next
    case 2
    then obtain c1 s1 where 1: "parseexec n b s = Ok (c1, s1)"
      by (auto simp: parsepipe.simps bind_ok_eq_Ok)
    note p1 = Suc(4) [OF \<open>CHR 0x00 \<notin> set b\<close> \<open>s \<le> length b\<close> 1]
    obtain s3 yes where 3: "peek b s1 ''|'' = (s3, yes)" by fastforce
    obtain tok q eq s4 where 4: "gettoken b s3 = (tok, q, eq, s4)" by (metis prod_cases4)
    have s3: "s1 \<le> s3" "s3 \<le> length b" "s3 \<le> s4" "s4 \<le> length b"
      using peek_pos [OF 3] p1 gettoken_ge [OF 4] gettoken_le [OF 4] by (auto simp: parsed_def)
    show ?case
    proof (cases yes)
      case True
      then obtain c5 s5 where 5: "parsepipe n b s4 = Ok (c5, s5)" "r = (Pipecmd c1 c5, s5)"
        using \<open>parsepipe (Suc n) b s = Ok r\<close> 1 3 4 by (auto simp: parsepipe.simps bind_ok_eq_Ok)
      show ?thesis using Suc(2) [OF \<open>CHR 0x00 \<notin> set b\<close> s3(4) 5(1)] p1 s3 5(2) by (auto simp: parsed_def)
    next
      case False
      then have "r = (c1, s3)" using \<open>parsepipe (Suc n) b s = Ok r\<close> 1 3 by (auto simp: parsepipe.simps)
      then show ?thesis using p1 s3 by (auto simp: parsed_def)
    qed
  next
    case 3
    obtain s1 y1 where 1: "peek b s ''('' = (s1, y1)" by fastforce
    obtain t1 q1 e1 s2 where 2: "gettoken b s1 = (t1, q1, e1, s2)" by (metis prod_cases4)
    have s1: "s \<le> s1" "s1 \<le> s2" "s2 \<le> length b" using peek_pos [OF 1 3(2)] gettoken_ge [OF 2] gettoken_le [OF 2] by auto
    obtain c3 s3 where c3: "parseline n b s2 = Ok (c3, s3)"
      using 3(3) 1 2 by (auto simp: parseblock.simps bind_ok_eq_Ok split: if_splits)
    note p3 = Suc(1) [OF 3(1) s1(3) c3]
    obtain s4 y4 where 4: "peek b s3 '')'' = (s4, y4)" by fastforce
    obtain t4 q4 e4 s5 where 5: "gettoken b s4 = (t4, q4, e4, s5)" by (metis prod_cases4)
    have s4: "s3 \<le> s4" "s4 \<le> s5" "s5 \<le> length b" using peek_pos [OF 4] p3 gettoken_ge [OF 5] gettoken_le [OF 5] by (auto simp: parsed_def)
    have "parseredirs b c3 s5 = Ok r" using 3(3) 1 2 c3 4 5 by (auto simp: parseblock.simps split: if_splits)
    from parseredirs_parsed [OF this 3(1) s4(3)] p3 have "parsed b s5 r" by (simp add: parsed_def)
    then show ?case by (rule parsed_mono) (use s1 s4 p3 in \<open>simp add: parsed_def\<close>)
  next
    case 4
    obtain s1 y1 where 1: "peek b s ''('' = (s1, y1)" by fastforce
    note s1 = peek_pos [OF 1 4(2)]
    show ?case
    proof (cases y1)
      case True
      then have "parseblock n b s1 = Ok r" using 4(3) 1 by (simp add: parseexec.simps)
      from Suc(3) [OF 4(1) _ this] show ?thesis using s1 parsed_mono by blast
    next
      case False
      then obtain c2 s2 where 2: "parseredirs b (Execcmd []) s1 = Ok (c2, s2)" "parseargs b c2 0 s2 = Ok r"
        using 4(3) 1 by (auto simp: parseexec.simps bind_ok_eq_Ok)
      have p2: "parsed b s1 (c2, s2)" by (rule parseredirs_parsed [OF 2(1) 4(1)]) (use s1 in simp_all)
      have "parsed b s2 r" by (rule parseargs_parsed [OF 2(2) 4(1)]) (use p2 in \<open>simp_all add: parsed_def\<close>)
      then show ?thesis by (rule parsed_mono) (use p2 s1 in \<open>simp add: parsed_def\<close>)
    qed
  }
qed

section \<open>Every line is parsed or refused\<close>

definition settled :: "'a outcome \<Rightarrow> bool" where
  "settled r \<longleftrightarrow> r \<noteq> Undef \<and> r \<noteq> Blocks"

lemma settled_simps [simp]: "settled (Ok x)" "settled (Panic e)" "\<not> settled Undef"
  by (simp_all add: settled_def)

lemma settled_bind: "settled m \<Longrightarrow> (\<And>x. m = Ok x \<Longrightarrow> settled (f x)) \<Longrightarrow> settled (bind_ok m f)"
  by (cases m) (simp_all add: settled_def)

lemma parseredirs_settled: "settled (parseredirs b c s)"
proof (induction b c s rule: parseredirs.induct)
  case (1 b c s)
  then show ?case by (subst parseredirs.simps) (auto split: prod.splits)
qed

lemma parseargs_settled: "settled (parseargs b c argc s)"
proof (induction b c argc s rule: parseargs.induct)
  case (1 b c argc s)
  then show ?case by (subst parseargs.simps) (auto split: prod.splits intro!: settled_bind parseredirs_settled)
qed

lemma parse_settled:
  assumes "CHR 0x00 \<notin> set b"
  shows "s \<le> length b \<Longrightarrow> 4 * (length b - s) + 4 \<le> n \<Longrightarrow> settled (parseline n b s)"
    "s \<le> length b \<Longrightarrow> 4 * (length b - s) + 3 \<le> n \<Longrightarrow> settled (parsepipe n b s)"
    "s < length b \<Longrightarrow> 4 * (length b - s) + 1 \<le> n \<Longrightarrow> settled (parseblock n b s)"
    "s \<le> length b \<Longrightarrow> 4 * (length b - s) + 2 \<le> n \<Longrightarrow> settled (parseexec n b s)"
proof (induction n arbitrary: s)
  case 0
  {
    case 1 then show ?case by simp
  next
    case 2 then show ?case by simp
  next
    case 3 then show ?case by simp
  next
    case 4 then show ?case by simp
  }
next
  case (Suc n)
  {
    case 1
    show ?case unfolding parseline.simps
    proof (rule settled_bind)
      show "settled (parsepipe n b s)" using Suc(2) 1 by simp
      fix x assume x: "parsepipe n b s = Ok x"
      obtain c1 s1 where c1: "x = (c1, s1)" by fastforce
      have p1: "parsed b s (c1, s1)" using parse_parsed(2) [OF assms 1(1)] x c1 by simp
      obtain c2 s2 where 2: "parsebacks b c1 s1 = (c2, s2)" by fastforce
      have p2: "parsed b s1 (c2, s2)" using parsebacks_parsed [OF assms, of s1 c1] p1 2 by (simp add: parsed_def)
      obtain s3 yes where 3: "peek b s2 '';'' = (s3, yes)" by fastforce
      obtain tok q eq s4 where 4: "gettoken b s3 = (tok, q, eq, s4)" by (metis prod_cases4)
      have "settled (parseline n b s4)" if yes
      proof -
        have s4: "s2 \<le> s3" "s3 < s4" "s3 < length b" using peek_gettoken [of b s2 "'';''" s3] 3 4 that by auto
        then have "s4 \<le> length b" "s < s4" using gettoken_le [OF 4] p1 p2 by (auto simp: parsed_def)
        then show ?thesis using Suc(1) [of s4] 1 by simp
      qed
      then show "settled (case x of (c, s) \<Rightarrow> case parsebacks b c s of (c, s) \<Rightarrow> case peek b s '';'' of (s, yes) \<Rightarrow>
          if yes then case gettoken b s of (_, _, _, s) \<Rightarrow> bind_ok (parseline n b s) (\<lambda>(c', s). Ok (Listcmd c c', s)) else Ok (c, s))"
        using c1 2 3 4 by (auto intro!: settled_bind)
    qed
  next
    case 2
    show ?case unfolding parsepipe.simps
    proof (rule settled_bind)
      show "settled (parseexec n b s)" using Suc(4) 2 by simp
      fix x assume x: "parseexec n b s = Ok x"
      obtain c1 s1 where c1: "x = (c1, s1)" by fastforce
      have p1: "parsed b s (c1, s1)" using parse_parsed(4) [OF assms 2(1)] x c1 by simp
      obtain s3 yes where 3: "peek b s1 ''|'' = (s3, yes)" by fastforce
      obtain tok q eq s4 where 4: "gettoken b s3 = (tok, q, eq, s4)" by (metis prod_cases4)
      have "settled (parsepipe n b s4)" if yes
      proof -
        have s4: "s1 \<le> s3" "s3 < s4" "s3 < length b" using peek_gettoken [of b s1 "''|''" s3] 3 4 that by auto
        then have "s4 \<le> length b" "s < s4" using gettoken_le [OF 4] p1 by (auto simp: parsed_def)
        then show ?thesis using Suc(2) [of s4] 2 by simp
      qed
      then show "settled (case x of (c, s) \<Rightarrow> case peek b s ''|'' of (s, yes) \<Rightarrow>
          if yes then case gettoken b s of (_, _, _, s) \<Rightarrow> bind_ok (parsepipe n b s) (\<lambda>(c', s). Ok (Pipecmd c c', s)) else Ok (c, s))"
        using c1 3 4 by (auto intro!: settled_bind)
    qed
  next
    case 3
    obtain s1 y1 where 1: "peek b s ''('' = (s1, y1)" by fastforce
    obtain t1 q1 e1 s2 where 2: "gettoken b s1 = (t1, q1, e1, s2)" by (metis prod_cases4)
    have "settled (parseline n b s2)" if y1
    proof -
      have s2: "s \<le> s1" "s1 < s2" "s1 < length b" using peek_gettoken [of b s "''(''" s1] 1 2 that by auto
      then have "s2 \<le> length b" using gettoken_le [OF 2] by simp
      then show ?thesis using Suc(1) [of s2] 3 s2 by simp
    qed
    then show ?case unfolding parseblock.simps using 1 2 parseredirs_settled
      by (auto intro!: settled_bind split: prod.splits)
  next
    case 4
    obtain s1 y1 where 1: "peek b s ''('' = (s1, y1)" by fastforce
    have "settled (parseblock n b s1)" if y1
    proof -
      have "s \<le> s1" "s1 < length b" using 1 that skip_white_ge char_at_nonzero by (auto simp: peek_def Let_def)
      then show ?thesis using Suc(3) [of s1] 4 by simp
    qed
    then show ?case unfolding parseexec.simps using 1 parseredirs_settled parseargs_settled
      by (auto intro!: settled_bind split: prod.splits)
  }
qed

section \<open>The strings of a command\<close>

definition put_nuls :: "(nat \<times> nat) list \<Rightarrow> string \<Rightarrow> string" where
  "put_nuls ts buf = fold (\<lambda>(q, eq) buf. buf[eq := CHR 0x00]) ts buf"

lemma nulterminate_tokens: "nulterminate c buf = put_nuls (tokens c) buf"
  by (induction c arbitrary: buf) (simp_all add: put_nuls_def)

lemma put_nuls_nth:
  "length (put_nuls ts buf) = length buf"
  "i < length buf \<Longrightarrow> put_nuls ts buf ! i = (if i \<in> snd ` set ts then CHR 0x00 else buf ! i)"
proof (induction ts arbitrary: buf)
  case (Cons t ts)
  {
    case 1 then show ?case using Cons(1) by (simp add: put_nuls_def split: prod.split)
  next
    case 2
    obtain q eq where t: "t = (q, eq)" by fastforce
    have e: "put_nuls (t # ts) buf = put_nuls ts (buf[eq := CHR 0x00])" by (simp add: put_nuls_def t)
    show ?case unfolding e using Cons(2) [of "buf[eq := CHR 0x00]"] 2 t by (auto simp: nth_list_update)
  }
qed (simp_all add: put_nuls_def)

text \<open>The C string at a position of the line.\<close>

definition cstr :: "string \<Rightarrow> nat \<Rightarrow> string" where
  "cstr buf q = takeWhile (\<lambda>c. c \<noteq> CHR 0x00) (drop q buf)"

lemma cstr_word:
  assumes "\<forall>i. q \<le> i \<and> i < eq \<longrightarrow> buf ! i \<noteq> CHR 0x00" "q \<le> eq" "eq < length buf" "buf ! eq = CHR 0x00"
  shows "cstr buf q = slice q (eq - q) buf"
proof -
  have "takeWhile (\<lambda>c. c \<noteq> CHR 0x00) (drop q buf) = take (eq - q) (drop q buf)"
    by (rule takeWhile_eq_take_P_nth) (use assms in auto)
  then show ?thesis by (simp add: cstr_def slice_def)
qed

lemma token_string:
  assumes ok: "\<forall>t\<in>set ts. token_ok b t" and t: "(q, eq) \<in> set ts"
  shows "cstr (put_nuls ts (b @ [CHR 0x00])) q = slice q (eq - q) b"
proof -
  let ?buf = "put_nuls ts (b @ [CHR 0x00])"
  have q: "q < eq" "eq \<le> length b" "\<And>i. q \<le> i \<Longrightarrow> i < eq \<Longrightarrow> word_char (b ! i)" using ok t by (auto simp: token_ok_def)
  have same: "?buf ! i = b ! i" if i: "q \<le> i" "i < eq" for i
  proof -
    have "i \<noteq> e" if "(p, e) \<in> set ts" for p e using ok that q(2,3) i by (auto simp: token_ok_def)
    then have "i \<notin> snd ` set ts" by (metis imageE prod.collapse)
    then show ?thesis using put_nuls_nth(2) [of i "b @ [CHR 0x00]" ts] i q(2) by (simp add: nth_append)
  qed
  have "eq \<in> snd ` set ts" using t by force
  then have e: "?buf ! eq = CHR 0x00" using put_nuls_nth(2) [of eq "b @ [CHR 0x00]" ts] q(2) by simp
  have "cstr ?buf q = slice q (eq - q) ?buf"
    by (rule cstr_word) (use same q e put_nuls_nth(1) in \<open>auto simp: word_char_def\<close>)
  also have "\<dots> = slice q (eq - q) b"
    by (rule nth_equalityI) (use same q put_nuls_nth(1) in \<open>auto simp: slice_def\<close>)
  finally show ?thesis .
qed

end
