(* ===== verification/Shell_Print.thy ===== *)
theory Shell_Print
  imports Shell_Props
begin

text \<open>
  A printer of shell commands and the proof that the parser of \<^verbatim>\<open>user/sh.c\<close> inverts it. A command is printed with
  parentheses where the grammar needs them.
\<close>

section \<open>Commands with their strings\<close>

datatype scmd =
  SExec "string list"
| SRedir scmd string u32 int
| SPipe scmd scmd
| SList scmd scmd
| SBack scmd

text \<open>The command with its strings read from the memory of the line.\<close>

fun text_of :: "(nat \<times> nat \<Rightarrow> string) \<Rightarrow> cmd \<Rightarrow> scmd" where
  "text_of str (Execcmd argv) = SExec (map str argv)"
| "text_of str (Redircmd c f ef mode fd) = SRedir (text_of str c) (str (f, ef)) mode fd"
| "text_of str (Pipecmd l r) = SPipe (text_of str l) (text_of str r)"
| "text_of str (Listcmd l r) = SList (text_of str l) (text_of str r)"
| "text_of str (Backcmd c) = SBack (text_of str c)"

lemma text_of_cong: "(\<And>t. t \<in> set (tokens c) \<Longrightarrow> str t = str' t) \<Longrightarrow> text_of str c = text_of str' c"
  by (induction c) simp_all

text \<open>0 for a list, 1 for a background command, 2 for a pipe, 3 for a simple command with redirections.\<close>

fun level :: "scmd \<Rightarrow> nat" where
  "level (SExec ws) = 3"
| "level (SRedir c f m d) = 3"
| "level (SPipe l r) = 2"
| "level (SBack c) = 1"
| "level (SList l r) = 0"

definition wrap :: "nat \<Rightarrow> scmd \<Rightarrow> string \<Rightarrow> string" where
  "wrap n t s = (if level t < n then ''('' @ s @ '')'' else s)"

definition redir_text :: "u32 \<Rightarrow> int \<Rightarrow> string" where
  "redir_text m d = (if d = 0 then ''<'' else if m = (O_WRONLY OR O_CREATE) then ''>>'' else ''>'')"

primrec body :: "scmd \<Rightarrow> string" where
  "body (SExec ws) = concat (map (\<lambda>w. w @ '' '') ws)"
| "body (SRedir c f m d) = wrap 3 c (body c) @ redir_text m d @ f @ '' ''"
| "body (SPipe l r) = wrap 3 l (body l) @ ''|'' @ wrap 2 r (body r)"
| "body (SBack c) = wrap 1 c (body c) @ ''&''"
| "body (SList l r) = wrap 1 l (body l) @ '';'' @ wrap 0 r (body r)"

definition pr :: "nat \<Rightarrow> scmd \<Rightarrow> string" where
  "pr n t = wrap n t (body t)"

definition print_cmd :: "scmd \<Rightarrow> string" where
  "print_cmd t = pr 0 t"

definition word_ok :: "string \<Rightarrow> bool" where
  "word_ok w \<longleftrightarrow> w \<noteq> [] \<and> (\<forall>c\<in>set w. word_char c)"

fun scmd_ok :: "scmd \<Rightarrow> bool" where
  "scmd_ok (SExec ws) \<longleftrightarrow> length ws < MAXARGS \<and> (\<forall>w\<in>set ws. word_ok w)"
| "scmd_ok (SRedir c f m d) \<longleftrightarrow> scmd_ok c \<and> word_ok f \<and>
     (m, d) \<in> {(O_RDONLY, 0), (O_WRONLY OR O_CREATE OR O_TRUNC, 1), (O_WRONLY OR O_CREATE, 1)}"
| "scmd_ok (SPipe l r) \<longleftrightarrow> scmd_ok l \<and> scmd_ok r"
| "scmd_ok (SBack c) \<longleftrightarrow> scmd_ok c"
| "scmd_ok (SList l r) \<longleftrightarrow> scmd_ok l \<and> scmd_ok r"

section \<open>Enough calls\<close>

lemma settled_bindD: "settled (bind_ok m f) \<Longrightarrow> settled m"
  by (cases m) (simp_all add: settled_def)

lemma bind_mono:
  assumes "settled (bind_ok m f)" "settled m \<Longrightarrow> m' = m" "\<And>x. m = Ok x \<Longrightarrow> settled (f x) \<Longrightarrow> f' x = f x"
  shows "bind_ok m' f' = bind_ok m f"
  using assms by (cases m) (auto simp: settled_def)

lemma parse_Suc:
  "settled (parseline n b s) \<Longrightarrow> parseline (Suc n) b s = parseline n b s"
  "settled (parsepipe n b s) \<Longrightarrow> parsepipe (Suc n) b s = parsepipe n b s"
  "settled (parseblock n b s) \<Longrightarrow> parseblock (Suc n) b s = parseblock n b s"
  "settled (parseexec n b s) \<Longrightarrow> parseexec (Suc n) b s = parseexec n b s"
proof (induction n arbitrary: s)
  case 0
  {
    case 1 then show ?case by (simp add: parseline.simps)
  next
    case 2 then show ?case by (simp add: parsepipe.simps)
  next
    case 3 then show ?case by (simp add: parseblock.simps)
  next
    case 4 then show ?case by (simp add: parseexec.simps)
  }
next
  case (Suc n)
  {
    case 1
    show ?case unfolding parseline.simps(2) [of "Suc n" b s] parseline.simps(2) [of n b s]
      by (rule bind_mono [OF 1 [unfolded parseline.simps(2) [of n b s]] Suc(2)])
        (auto split: prod.splits intro!: bind_mono Suc(1))
  next
    case 2
    show ?case unfolding parsepipe.simps(2) [of "Suc n" b s] parsepipe.simps(2) [of n b s]
      by (rule bind_mono [OF 2 [unfolded parsepipe.simps(2) [of n b s]] Suc(4)])
        (auto split: prod.splits intro!: bind_mono Suc(2))
  next
    case 3
    then show ?case unfolding parseblock.simps(2) [of "Suc n" b s] parseblock.simps(2) [of n b s]
      by (auto split: prod.splits intro!: bind_mono Suc(1))
  next
    case 4
    then show ?case unfolding parseexec.simps(2) [of "Suc n" b s] parseexec.simps(2) [of n b s]
      by (auto split: prod.splits intro!: Suc(3))
  }
qed

lemma parse_mono:
  "n \<le> m \<Longrightarrow> settled (parseline n b s) \<Longrightarrow> parseline m b s = parseline n b s"
  "n \<le> m \<Longrightarrow> settled (parsepipe n b s) \<Longrightarrow> parsepipe m b s = parsepipe n b s"
  "n \<le> m \<Longrightarrow> settled (parseblock n b s) \<Longrightarrow> parseblock m b s = parseblock n b s"
  "n \<le> m \<Longrightarrow> settled (parseexec n b s) \<Longrightarrow> parseexec m b s = parseexec n b s"
proof -
  show "n \<le> m \<Longrightarrow> settled (parseline n b s) \<Longrightarrow> parseline m b s = parseline n b s"
    by (induction m rule: dec_induct) (metis parse_Suc(1))+
  show "n \<le> m \<Longrightarrow> settled (parsepipe n b s) \<Longrightarrow> parsepipe m b s = parsepipe n b s"
    by (induction m rule: dec_induct) (metis parse_Suc(2))+
  show "n \<le> m \<Longrightarrow> settled (parseblock n b s) \<Longrightarrow> parseblock m b s = parseblock n b s"
    by (induction m rule: dec_induct) (metis parse_Suc(3))+
  show "n \<le> m \<Longrightarrow> settled (parseexec n b s) \<Longrightarrow> parseexec m b s = parseexec n b s"
    by (induction m rule: dec_induct) (metis parse_Suc(4))+
qed

section \<open>Reading tokens\<close>

abbreviation white :: "char \<Rightarrow> bool" where "white c \<equiv> c \<in> set whitespace"

text \<open>From position \<open>s\<close> on the line is \<open>xs\<close>, up to white space in front of it.\<close>

definition here :: "string \<Rightarrow> nat \<Rightarrow> string \<Rightarrow> bool" where
  "here b s xs \<longleftrightarrow> s \<le> length b \<and> dropWhile white (drop s b) = dropWhile white xs"

declare dropWhile_eq_Nil_conv [simp del]

lemma dropWhile_twice [simp]: "dropWhile P (dropWhile P xs) = dropWhile P xs"
  by (induction xs) simp_all

lemma drop_skip_white: "s \<le> length b \<Longrightarrow> drop (skip_white b s) b = dropWhile white (drop s b)"
proof (induction b s rule: skip_white.induct)
  case (1 b s)
  show ?case
  proof (cases "s < length b")
    case True
    then have "drop s b = b ! s # drop (s + 1) b" by (simp add: Cons_nth_drop_Suc)
    then show ?thesis using 1 True by (cases "strchr whitespace (char_at b s)") (simp_all add: skip_white.simps [of b s] strchr_def char_at_def)
  next
    case False
    then have "skip_white b s = s" by (intro skip_white_id) simp
    then show ?thesis using False by simp
  qed
qed

lemma here_skip: "here b s xs \<Longrightarrow> here b (skip_white b s) xs \<and> drop (skip_white b s) b = dropWhile white xs"
  using drop_skip_white [of s b] skip_white_le [of s b] by (simp add: here_def dropWhile_twice)

lemma here_head:
  assumes "here b s xs" "dropWhile white xs = c # ys"
  shows "skip_white b s < length b" "char_at b (skip_white b s) = c" "drop (skip_white b s + 1) b = ys"
proof -
  have d: "drop (skip_white b s) b = c # ys" using here_skip [OF assms(1)] assms(2) by simp
  then show l: "skip_white b s < length b" by (metis drop_eq_Nil linorder_not_le list.distinct(1))
  show "char_at b (skip_white b s) = c" using d l by (simp add: char_at_def nth_via_drop)
  show "drop (skip_white b s + 1) b = ys" using d by (metis drop_drop add.commute drop_Suc_Cons drop0 One_nat_def)
qed

lemma here_end:
  assumes "here b s xs" "dropWhile white xs = []"
  shows "skip_white b s = length b" "char_at b (skip_white b s) = CHR 0x00"
proof -
  have "drop (skip_white b s) b = []" using here_skip [OF assms(1)] assms(2) by simp
  then have l: "length b \<le> skip_white b s" by simp
  then show "skip_white b s = length b" using here_skip [OF assms(1)] by (simp add: here_def)
  show "char_at b (skip_white b s) = CHR 0x00" using l by (simp add: char_at_def)
qed

text \<open>The first character that is not white, if any, is one of \<open>cs\<close>.\<close>

definition follow :: "string \<Rightarrow> string \<Rightarrow> bool" where
  "follow cs xs \<longleftrightarrow> (case dropWhile white xs of [] \<Rightarrow> True | c # _ \<Rightarrow> c \<in> set cs)"

lemma follow_mono: "follow cs xs \<Longrightarrow> set cs \<subseteq> set cs' \<Longrightarrow> follow cs' xs"
  by (auto simp: follow_def split: list.splits)

lemma peek_here:
  assumes "here b s xs" "CHR 0x00 \<notin> set b"
  obtains s' where "peek b s toks = (s', \<exists>c ys. dropWhile white xs = c # ys \<and> c \<in> set toks)" "here b s' xs"
proof -
  have "peek b s toks = (skip_white b s, \<exists>c ys. dropWhile white xs = c # ys \<and> c \<in> set toks)"
  proof (cases "dropWhile white xs")
    case Nil
    then show ?thesis using here_end [OF assms(1)] by (simp add: peek_def Let_def)
  next
    case (Cons c ys)
    have "c \<in> set b" using here_head [OF assms(1) Cons] by (auto simp: char_at_def)
    then have "c \<noteq> CHR 0x00" using assms(2) by auto
    then show ?thesis using here_head [OF assms(1) Cons] Cons by (simp add: peek_def strchr_def Let_def)
  qed
  then show thesis using that here_skip [OF assms(1)] by blast
qed

lemma peek_no:
  assumes "here b s xs" "CHR 0x00 \<notin> set b" "follow cs xs" "set cs \<inter> set toks = {}"
  obtains s' where "peek b s toks = (s', False)" "here b s' xs"
proof -
  obtain s' where "peek b s toks = (s', \<exists>c ys. dropWhile white xs = c # ys \<and> c \<in> set toks)" "here b s' xs" by (rule peek_here [OF assms(1,2)])
  moreover have "\<not> (\<exists>c ys. dropWhile white xs = c # ys \<and> c \<in> set toks)" using assms(3,4) by (auto simp: follow_def)
  ultimately show thesis using that by simp
qed

lemma peek_yes:
  assumes "here b s (c # xs)" "CHR 0x00 \<notin> set b" "\<not> white c" "c \<in> set toks"
  obtains s' where "peek b s toks = (s', True)" "here b s' (c # xs)"
proof -
  obtain s' where "peek b s toks = (s', \<exists>d ys. dropWhile white (c # xs) = d # ys \<and> d \<in> set toks)" "here b s' (c # xs)" by (rule peek_here [OF assms(1,2)])
  moreover have "\<exists>d ys. dropWhile white (c # xs) = d # ys \<and> d \<in> set toks" using assms(3,4) by simp
  ultimately show thesis using that by simp
qed

lemma here_at: "s \<le> length b \<Longrightarrow> drop s b = xs \<Longrightarrow> here b (skip_white b s) xs"
  using drop_skip_white [of s b] skip_white_le [of s b] by (simp add: here_def dropWhile_twice)

lemma get_symbol:
  assumes "here b s (c # xs)" "c \<in> set ''|();&<''" "CHR 0x00 \<notin> set b"
  obtains q e s' where "gettoken b s = (c, q, e, s')" "here b s' xs"
proof -
  let ?q = "skip_white b s"
  have "dropWhile white (c # xs) = c # xs" using assms(2) by (auto simp: whitespace_def)
  note h = here_head [OF assms(1) this]
  have "c \<noteq> CHR 0x00" using assms(2) by auto
  then have "gettoken b s = (c, ?q, ?q + 1, skip_white b (?q + 1))" using h(2) assms(2) by (simp add: gettoken_def strchr_def Let_def)
  moreover have "here b (skip_white b (?q + 1)) xs" by (rule here_at) (use h in simp_all)
  ultimately show thesis using that by blast
qed

lemma get_redir:
  assumes "here b s (redir_text m d @ f @ xs)" "CHR 0x00 \<notin> set b" "word_ok f"
    "(m, d) \<in> {(O_RDONLY, 0), (O_WRONLY OR O_CREATE OR O_TRUNC, 1), (O_WRONLY OR O_CREATE, 1)}"
  obtains tok q e s' where "gettoken b s = (tok, q, e, s')" "here b s' (f @ xs)" "\<forall>c q e. redir tok c q e = Redircmd c q e m d"
proof -
  let ?q = "skip_white b s"
  obtain x f' where f: "f = x # f'" "word_char x" using assms(3) by (cases f) (auto simp: word_ok_def)
  then have x: "x \<noteq> CHR ''>''" by (auto simp: word_char_def symbols_def)
  have ne: "(O_WRONLY OR O_CREATE OR O_TRUNC) \<noteq> (O_WRONLY OR O_CREATE)"
    by (simp add: O_WRONLY_def O_CREATE_def O_TRUNC_def)
  consider "redir_text m d = ''<''" "m = O_RDONLY" "d = 0" | "redir_text m d = ''>''" "m = O_WRONLY OR O_CREATE OR O_TRUNC" "d = 1"
    | "redir_text m d = ''>>''" "m = O_WRONLY OR O_CREATE" "d = 1"
    using assms(4) ne by (auto simp: redir_text_def)
  then show thesis
  proof cases
    case 1
    have "here b s (CHR ''<'' # (f @ xs))" using assms(1) 1 by simp
    then obtain q e s' where "gettoken b s = (CHR ''<'', q, e, s')" "here b s' (f @ xs)" by (rule get_symbol) (use assms(2) in simp_all)
    then show thesis using that 1 by (simp add: redir_def)
  next
    case 2
    have w: "dropWhile white (''>'' @ f @ xs) = CHR ''>'' # f @ xs" by (simp add: whitespace_def)
    note h = here_head [OF assms(1) [unfolded 2(1)] w]
    have d: "drop (?q + 1) b = x # f' @ xs" using h(3) f(1) by simp
    then have "?q + 1 < length b" by (metis drop_eq_Nil linorder_not_le list.distinct(1))
    then have "char_at b (?q + 1) = x" using d by (simp add: char_at_def nth_via_drop)
    then have "gettoken b s = (CHR ''>'', ?q, ?q + 1, skip_white b (?q + 1))" using h(2) x by (simp add: gettoken_def strchr_def Let_def)
    moreover have "here b (skip_white b (?q + 1)) (f @ xs)" by (rule here_at) (use h in simp_all)
    ultimately show thesis using that 2 by (simp add: redir_def)
  next
    case 3
    have w: "dropWhile white (''>>'' @ f @ xs) = CHR ''>'' # CHR ''>'' # f @ xs" by (simp add: whitespace_def)
    note h = here_head [OF assms(1) [unfolded 3(1)] w]
    have l: "?q + 1 < length b" using h(3) by (metis drop_eq_Nil linorder_not_le list.distinct(1))
    then have "char_at b (?q + 1) = CHR ''>''" using h(3) by (simp add: char_at_def nth_via_drop)
    then have "gettoken b s = (CHR ''+'', ?q, ?q + 2, skip_white b (?q + 2))" using h(2) by (simp add: gettoken_def strchr_def Let_def)
    moreover have "drop (?q + 2) b = f @ xs" using h(3) by (metis add_2_eq_Suc' drop_Suc tl_drop list.sel(3) Suc_eq_plus1)
    then have "here b (skip_white b (?q + 2)) (f @ xs)" by (intro here_at) (use l in simp_all)
    ultimately show thesis using that 3 by (simp add: redir_def)
  qed
qed

lemma skip_word_over:
  assumes "drop s b = w @ xs" "s \<le> length b" "\<forall>c\<in>set w. word_char c" "xs = [] \<or> \<not> word_char (hd xs)" "CHR 0x00 \<notin> set b"
  shows "skip_word b s = s + length w"
  using assms
proof (induction w arbitrary: s)
  case Nil
  have "\<not> (s < length b \<and> \<not> strchr whitespace (char_at b s) \<and> \<not> strchr symbols (char_at b s))"
  proof (cases xs)
    case Nil
    then show ?thesis using \<open>drop s b = [] @ xs\<close> by simp
  next
    case (Cons c ys)
    then have "s < length b" "b ! s = c" using Nil.prems(1) by (auto simp: nth_via_drop) (metis drop_eq_Nil linorder_not_le list.distinct(1))
    moreover from this have "c \<noteq> CHR 0x00" using Nil.prems(5) by (metis nth_mem)
    ultimately show ?thesis using Nil.prems(4) Cons by (auto simp: word_char_def strchr_def char_at_def)
  qed
  then show ?case by (subst skip_word.simps) auto
next
  case (Cons c w)
  have s: "s < length b" "b ! s = c" using Cons.prems(1) by (auto simp: nth_via_drop) (metis drop_eq_Nil linorder_not_le list.distinct(1))
  have "drop (s + 1) b = w @ xs" using Cons.prems(1) by (metis Suc_eq_plus1 append_Cons drop_Suc list.sel(3) tl_drop)
  then have "skip_word b (s + 1) = s + 1 + length w" using Cons.IH [of "s + 1"] Cons.prems s by simp
  then show ?case using s Cons.prems(3) by (simp add: skip_word.simps [of b s] word_char_def strchr_def char_at_def)
qed

lemma get_word:
  assumes "here b s (w @ xs)" "word_ok w" "xs = [] \<or> \<not> word_char (hd xs)" "CHR 0x00 \<notin> set b"
  obtains q e s' where "gettoken b s = (CHR ''a'', q, e, s')" "here b s' xs" "slice q (e - q) b = w"
proof -
  let ?q = "skip_white b s"
  obtain c w' where w: "w = c # w'" "word_char c" using assms(2) by (cases w) (auto simp: word_ok_def)
  then have d: "dropWhile white (w @ xs) = c # w' @ xs" by (simp add: word_char_def)
  note h = here_head [OF assms(1) d]
  have dq: "drop ?q b = w @ xs" using here_skip [OF assms(1)] d w(1) by simp
  have e: "skip_word b ?q = ?q + length w" by (rule skip_word_over [OF dq _ _ assms(3,4)]) (use h(1) assms(2) in \<open>auto simp: word_ok_def\<close>)
  have "c \<noteq> CHR 0x00" "c \<notin> set ''|();&<''" "c \<noteq> CHR ''>''" using w(2) by (auto simp: word_char_def symbols_def)
  then have "gettoken b s = (CHR ''a'', ?q, ?q + length w, skip_white b (?q + length w))" using h(2) e by (simp add: gettoken_def strchr_def Let_def)
  moreover have dl: "drop (?q + length w) b = xs" using dq by (metis append_eq_conv_conj drop_drop add.commute)
  then have "here b (skip_white b (?q + length w)) xs" by (intro here_at) (use e skip_word_le [of ?q b] h(1) in simp_all)
  moreover have "slice ?q (?q + length w - ?q) b = w" using dq by (simp add: slice_def)
  ultimately show thesis using that by blast
qed

section \<open>Redirections and arguments\<close>

abbreviation str_of :: "string \<Rightarrow> nat \<times> nat \<Rightarrow> string" where "str_of b \<equiv> (\<lambda>(q, e). slice q (e - q) b)"

lemma redirs_none:
  assumes "here b s xs" "CHR 0x00 \<notin> set b" "follow cs xs" "set cs \<inter> set ''<>'' = {}"
  obtains s' where "parseredirs b c s = Ok (c, s')" "here b s' xs"
proof -
  obtain s' where p: "peek b s ''<>'' = (s', False)" "here b s' xs" by (rule peek_no [OF assms])
  then show thesis using that by (simp add: parseredirs.simps [of b c s])
qed

lemma redirs_one:
  assumes "here b s (redir_text m d @ f @ '' '' @ xs)" "CHR 0x00 \<notin> set b" "word_ok f"
    "(m, d) \<in> {(O_RDONLY, 0), (O_WRONLY OR O_CREATE OR O_TRUNC, 1), (O_WRONLY OR O_CREATE, 1)}"
  obtains q e s' where "parseredirs b c s = parseredirs b (Redircmd c q e m d) s'" "here b s' xs" "slice q (e - q) b = f"
proof -
  obtain x y where r: "redir_text m d = x # y" "x \<in> set ''<>''" by (cases "redir_text m d") (auto simp: redir_text_def split: if_splits)
  then have "\<not> white x" by (auto simp: whitespace_def)
  then obtain s1 where 1: "peek b s ''<>'' = (s1, True)" "here b s1 (redir_text m d @ f @ '' '' @ xs)"
    using peek_yes [of b s x "y @ f @ '' '' @ xs" "''<>''"] assms(1,2) r by (metis append_Cons)
  obtain tok q0 e0 s2 where 2: "gettoken b s1 = (tok, q0, e0, s2)" "here b s2 (f @ '' '' @ xs)" "\<forall>c q e. redir tok c q e = Redircmd c q e m d"
    by (rule get_redir [OF 1(2) assms(2-4)])
  obtain q e s3 where 3: "gettoken b s2 = (CHR ''a'', q, e, s3)" "here b s3 ('' '' @ xs)" "slice q (e - q) b = f"
    by (rule get_word [OF 2(2) assms(3) _ assms(2)]) (simp add: word_char_def whitespace_def)
  have "here b s3 xs" using 3(2) by (simp add: here_def whitespace_def)
  moreover have "parseredirs b c s = parseredirs b (Redircmd c q e m d) s3"
    using 1(1) 2(1,3) 3(1) by (simp add: parseredirs.simps [of b c s])
  ultimately show thesis using that 3(3) by blast
qed

lemma args_words:
  assumes "here b s (concat (map (\<lambda>w. w @ '' '') ws) @ rest)" "CHR 0x00 \<notin> set b" "follow ''<>|)&;'' rest"
    "k + length ws < MAXARGS" "\<forall>w\<in>set ws. word_ok w"
  shows "\<exists>av' s'. bind_ok (parseredirs b (Execcmd av) s) (\<lambda>(c, s). parseargs b c k s) =
      bind_ok (parseredirs b (Execcmd (av @ av')) s') (\<lambda>(c, s). parseargs b c (k + length ws) s) \<and> here b s' rest \<and> map (str_of b) av' = ws"
  using assms
proof (induction ws arbitrary: s av k)
  case Nil
  then show ?case by (intro exI [of _ "[]"] exI [of _ s]) simp
next
  case (Cons w ws)
  let ?rest = "concat (map (\<lambda>w. w @ '' '') ws) @ rest"
  have h: "here b s (w @ '' '' @ ?rest)" using Cons.prems(1) by simp
  have w: "word_ok w" using Cons.prems(5) by simp
  then obtain c w' where c: "w = c # w'" "word_char c" by (cases w) (auto simp: word_ok_def)
  have f: "follow [c] (w @ '' '' @ ?rest)" using c by (simp add: follow_def word_char_def)
  have ns: "set [c] \<inter> set ''<>'' = {}" "set [c] \<inter> set ''|)&;'' = {}" using c(2) by (auto simp: word_char_def symbols_def)
  obtain s1 where 1: "parseredirs b (Execcmd av) s = Ok (Execcmd av, s1)" "here b s1 (w @ '' '' @ ?rest)"
    by (rule redirs_none [OF h Cons.prems(2) f ns(1)])
  obtain s2 where 2: "peek b s1 ''|)&;'' = (s2, False)" "here b s2 (w @ '' '' @ ?rest)" by (rule peek_no [OF 1(2) Cons.prems(2) f ns(2)])
  obtain q e s3 where 3: "gettoken b s2 = (CHR ''a'', q, e, s3)" "here b s3 ('' '' @ ?rest)" "slice q (e - q) b = w"
    by (rule get_word [OF 2(2) w _ Cons.prems(2)]) (simp add: word_char_def whitespace_def)
  have h3: "here b s3 ?rest" using 3(2) by (simp add: here_def whitespace_def)
  have "bind_ok (parseredirs b (Execcmd av) s) (\<lambda>(c, s). parseargs b c k s) =
      bind_ok (parseredirs b (Execcmd (av @ [(q, e)])) s3) (\<lambda>(c, s). parseargs b c (k + 1) s)"
    using 1(1) 2(1) 3(1) Cons.prems(4) by (simp add: parseargs.simps [of b "Execcmd av" k s1])
  moreover obtain av' s' where "bind_ok (parseredirs b (Execcmd (av @ [(q, e)])) s3) (\<lambda>(c, s). parseargs b c (k + 1) s) =
      bind_ok (parseredirs b (Execcmd ((av @ [(q, e)]) @ av')) s') (\<lambda>(c, s). parseargs b c (k + 1 + length ws) s)" "here b s' rest" "map (str_of b) av' = ws"
    using Cons.IH [OF h3 Cons.prems(2,3), of "k + 1" "av @ [(q, e)]"] Cons.prems(4,5) by auto
  ultimately show ?case using 3(3) by (intro exI [of _ "(q, e) # av'"] exI [of _ s']) simp
qed

section \<open>The parser on printed commands\<close>

definition parses_exec :: "string \<Rightarrow> nat \<Rightarrow> cmd \<Rightarrow> nat \<Rightarrow> bool" where
  "parses_exec b s c s' \<longleftrightarrow> (\<exists>n. parseexec n b s = Ok (c, s'))"

definition parses_pipe :: "string \<Rightarrow> nat \<Rightarrow> cmd \<Rightarrow> nat \<Rightarrow> bool" where
  "parses_pipe b s c s' \<longleftrightarrow> (\<exists>n. parsepipe n b s = Ok (c, s'))"

definition parses_line :: "string \<Rightarrow> nat \<Rightarrow> cmd \<Rightarrow> nat \<Rightarrow> bool" where
  "parses_line b s c s' \<longleftrightarrow> (\<exists>n. parseline n b s = Ok (c, s'))"

lemma parses_pipe_one:
  assumes "parses_exec b s c s1" "peek b s1 ''|'' = (s2, False)"
  shows "parses_pipe b s c s2"
proof -
  obtain n where "parseexec n b s = Ok (c, s1)" using assms(1) by (auto simp: parses_exec_def)
  then have "parsepipe (Suc n) b s = Ok (c, s2)" using assms(2) by (simp add: parsepipe.simps)
  then show ?thesis unfolding parses_pipe_def by blast
qed

lemma parses_pipe_two:
  assumes "parses_exec b s c s1" "peek b s1 ''|'' = (s2, True)" "gettoken b s2 = (x, y, z, s3)" "parses_pipe b s3 c' s4"
  shows "parses_pipe b s (Pipecmd c c') s4"
proof -
  obtain n where n: "parseexec n b s = Ok (c, s1)" using assms(1) by (auto simp: parses_exec_def)
  obtain m where m: "parsepipe m b s3 = Ok (c', s4)" using assms(4) by (auto simp: parses_pipe_def)
  have "parseexec (max n m) b s = Ok (c, s1)" "parsepipe (max n m) b s3 = Ok (c', s4)"
    using parse_mono(4) [of n "max n m" b s] parse_mono(2) [of m "max n m" b s3] n m by simp_all
  then have "parsepipe (Suc (max n m)) b s = Ok (Pipecmd c c', s4)" using assms(2,3) by (simp add: parsepipe.simps)
  then show ?thesis unfolding parses_pipe_def by blast
qed

lemma parses_line_one:
  assumes "parses_pipe b s c0 s0" "parsebacks b c0 s0 = (c, s1)" "peek b s1 '';'' = (s2, False)"
  shows "parses_line b s c s2"
proof -
  obtain n where "parsepipe n b s = Ok (c0, s0)" using assms(1) by (auto simp: parses_pipe_def)
  then have "parseline (Suc n) b s = Ok (c, s2)" using assms(2,3) by (simp add: parseline.simps)
  then show ?thesis unfolding parses_line_def by blast
qed

lemma parses_line_two:
  assumes "parses_pipe b s c0 s0" "parsebacks b c0 s0 = (c, s1)" "peek b s1 '';'' = (s2, True)" "gettoken b s2 = (x, y, z, s3)" "parses_line b s3 c' s4"
  shows "parses_line b s (Listcmd c c') s4"
proof -
  obtain n where n: "parsepipe n b s = Ok (c0, s0)" using assms(1) by (auto simp: parses_pipe_def)
  obtain m where m: "parseline m b s3 = Ok (c', s4)" using assms(5) by (auto simp: parses_line_def)
  have "parsepipe (max n m) b s = Ok (c0, s0)" "parseline (max n m) b s3 = Ok (c', s4)"
    using parse_mono(2) [of n "max n m" b s] parse_mono(1) [of m "max n m" b s3] n m by simp_all
  then have "parseline (Suc (max n m)) b s = Ok (Listcmd c c', s4)" using assms(2-4) by (simp add: parseline.simps)
  then show ?thesis unfolding parses_line_def by blast
qed

text \<open>What is left to do after the redirections is done at the end of a simple command.\<close>

definition finishes :: "string \<Rightarrow> (cmd \<times> nat \<Rightarrow> (cmd \<times> nat) outcome) \<Rightarrow> bool" where
  "finishes b K \<longleftrightarrow> (\<forall>c s rest. here b s rest \<longrightarrow> follow ''|)&;'' rest \<longrightarrow> (\<exists>s'. K (c, s) = Ok (c, s') \<and> here b s' rest))"

lemma finishes_Ok: "finishes b Ok"
  by (auto simp: finishes_def)

lemma finishes_args:
  assumes "CHR 0x00 \<notin> set b"
  shows "finishes b (\<lambda>(c, s). parseargs b c k s)"
  unfolding finishes_def
proof (intro allI impI)
  fix c s rest assume h: "here b s rest" and f: "follow ''|)&;'' rest"
  obtain s1 where p: "peek b s ''|)&;'' = (s1, \<exists>x ys. dropWhile white rest = x # ys \<and> x \<in> set ''|)&;'')" "here b s1 rest"
    by (rule peek_here [OF h assms])
  show "\<exists>s'. (case (c, s) of (c, s) \<Rightarrow> parseargs b c k s) = Ok (c, s') \<and> here b s' rest"
  proof (cases "dropWhile white rest")
    case (Cons x ys)
    then have "peek b s ''|)&;'' = (s1, True)" using p(1) f by (simp add: follow_def)
    then show ?thesis using p(2) by (simp add: parseargs.simps [of b c k s])
  next
    case Nil
    then have "peek b s ''|)&;'' = (s1, False)" using p(1) by simp
    moreover obtain q e where g: "gettoken b s1 = (CHR 0x00, q, e, skip_white b (skip_white b s1))"
      using here_end [OF p(2) Nil] by (auto simp: gettoken_def Let_def)
    moreover have "here b (skip_white b (skip_white b s1)) rest" using here_skip [OF p(2)] by simp
    ultimately show ?thesis by (simp add: parseargs.simps [of b c k s])
  qed
qed

text \<open>The claims for each level of the grammar.\<close>

definition reads_redirs :: "string \<Rightarrow> scmd \<Rightarrow> bool" where
  "reads_redirs b t \<longleftrightarrow> (\<forall>s rest. here b s (pr 3 t @ rest) \<longrightarrow> follow ''<>|)&;'' rest \<longrightarrow>
     (\<exists>n c s' K. parseexec n b s = bind_ok (parseredirs b c s') K \<and> finishes b K \<and> here b s' rest \<and> text_of (str_of b) c = t))"

definition reads_exec :: "string \<Rightarrow> scmd \<Rightarrow> bool" where
  "reads_exec b t \<longleftrightarrow> (\<forall>s rest. here b s (pr 3 t @ rest) \<longrightarrow> follow ''|)&;'' rest \<longrightarrow>
     (\<exists>c s'. parses_exec b s c s' \<and> here b s' rest \<and> text_of (str_of b) c = t))"

definition reads_pipe :: "string \<Rightarrow> scmd \<Rightarrow> bool" where
  "reads_pipe b t \<longleftrightarrow> (\<forall>s rest. here b s (pr 2 t @ rest) \<longrightarrow> follow '')&;'' rest \<longrightarrow>
     (\<exists>c s'. parses_pipe b s c s' \<and> here b s' rest \<and> text_of (str_of b) c = t))"

definition reads_back :: "string \<Rightarrow> scmd \<Rightarrow> bool" where
  "reads_back b t \<longleftrightarrow> (\<forall>s rest. here b s (pr 1 t @ rest) \<longrightarrow> follow '')&;'' rest \<longrightarrow>
     (\<exists>c0 s0 c s'. parses_pipe b s c0 s0 \<and> parsebacks b c0 s0 = parsebacks b c s' \<and> here b s' rest \<and> text_of (str_of b) c = t))"

definition reads_line :: "string \<Rightarrow> scmd \<Rightarrow> bool" where
  "reads_line b t \<longleftrightarrow> (\<forall>s rest. here b s (pr 0 t @ rest) \<longrightarrow> follow '')'' rest \<longrightarrow>
     (\<exists>c s'. parses_line b s c s' \<and> here b s' rest \<and> text_of (str_of b) c = t))"

lemma redirs_exec:
  assumes nb: "CHR 0x00 \<notin> set b" and r: "reads_redirs b t"
  shows "reads_exec b t"
  unfolding reads_exec_def
proof (intro allI impI)
  fix s rest assume h: "here b s (pr 3 t @ rest)" and f: "follow ''|)&;'' rest"
  have "follow ''<>|)&;'' rest" by (rule follow_mono [OF f]) auto
  then obtain n c s1 K where 1: "parseexec n b s = bind_ok (parseredirs b c s1) K" "finishes b K" "here b s1 rest" "text_of (str_of b) c = t"
    using r h unfolding reads_redirs_def by blast
  obtain s2 where 2: "parseredirs b c s1 = Ok (c, s2)" "here b s2 rest" by (rule redirs_none [OF 1(3) nb f]) auto
  obtain s3 where 3: "K (c, s2) = Ok (c, s3)" "here b s3 rest" using 1(2) 2(2) f unfolding finishes_def by blast
  have "parseexec n b s = Ok (c, s3)" using 1(1) 2(1) 3(1) by simp
  then show "\<exists>c s'. parses_exec b s c s' \<and> here b s' rest \<and> text_of (str_of b) c = t"
    using 3(2) 1(4) unfolding parses_exec_def by blast
qed

lemma exec_pipe:
  assumes nb: "CHR 0x00 \<notin> set b" and r: "reads_exec b t" and l: "pr 2 t = pr 3 t"
  shows "reads_pipe b t"
  unfolding reads_pipe_def l
proof (intro allI impI)
  fix s rest assume h: "here b s (pr 3 t @ rest)" and f: "follow '')&;'' rest"
  have "follow ''|)&;'' rest" by (rule follow_mono [OF f]) auto
  then obtain c s1 where 1: "parses_exec b s c s1" "here b s1 rest" "text_of (str_of b) c = t"
    using r h unfolding reads_exec_def by blast
  obtain s2 where "peek b s1 ''|'' = (s2, False)" "here b s2 rest" by (rule peek_no [OF 1(2) nb f]) auto
  then show "\<exists>c s'. parses_pipe b s c s' \<and> here b s' rest \<and> text_of (str_of b) c = t"
    using parses_pipe_one [OF 1(1)] 1(3) by blast
qed

lemma pipe_back:
  assumes "reads_pipe b t" "pr 1 t = pr 2 t"
  shows "reads_back b t"
  using assms(1) unfolding reads_pipe_def reads_back_def assms(2) by blast

lemma backs_end:
  assumes "here b s rest" "CHR 0x00 \<notin> set b" "follow '');'' rest"
  obtains s' where "parsebacks b c s = (c, s')" "here b s' rest"
proof -
  obtain s' where "peek b s ''&'' = (s', False)" "here b s' rest" by (rule peek_no [OF assms]) auto
  then show thesis using that by (simp add: parsebacks.simps [of b c s])
qed

lemma back_line:
  assumes nb: "CHR 0x00 \<notin> set b" and r: "reads_back b t" and l: "pr 0 t = pr 1 t"
  shows "reads_line b t"
  unfolding reads_line_def l
proof (intro allI impI)
  fix s rest assume h: "here b s (pr 1 t @ rest)" and f: "follow '')'' rest"
  have f': "follow '')&;'' rest" "follow '');'' rest" by (rule follow_mono [OF f]; auto)+
  then obtain c0 s0 c s1 where 1: "parses_pipe b s c0 s0" "parsebacks b c0 s0 = parsebacks b c s1" "here b s1 rest" "text_of (str_of b) c = t"
    using r h unfolding reads_back_def by blast
  obtain s2 where 2: "parsebacks b c s1 = (c, s2)" "here b s2 rest" by (rule backs_end [OF 1(3) nb f'(2)])
  obtain s3 where 3: "peek b s2 '';'' = (s3, False)" "here b s3 rest" by (rule peek_no [OF 2(2) nb f]) auto
  show "\<exists>c s'. parses_line b s c s' \<and> here b s' rest \<and> text_of (str_of b) c = t"
    using parses_line_one [OF 1(1) _ 3(1)] 1(2,4) 2(1) 3(2) by auto
qed

lemma symbol_char:
  "c \<in> set symbols \<Longrightarrow> \<not> white c" "c \<in> set [c]"
  by (auto simp: symbols_def whitespace_def)

lemma line_redirs:
  assumes nb: "CHR 0x00 \<notin> set b" and r: "reads_line b t" and l: "level t < 3"
  shows "reads_redirs b t"
  unfolding reads_redirs_def
proof (intro allI impI)
  fix s rest assume h: "here b s (pr 3 t @ rest)" and f: "follow ''<>|)&;'' rest"
  have h0: "here b s (CHR ''('' # (pr 0 t @ CHR '')'' # rest))" using h l by (simp add: pr_def wrap_def)
  obtain s1 where 1: "peek b s ''('' = (s1, True)" "here b s1 (CHR ''('' # (pr 0 t @ CHR '')'' # rest))"
    by (rule peek_yes [OF h0 nb symbol_char]) (simp add: symbols_def)
  obtain s1' where 6: "peek b s1 ''('' = (s1', True)" "here b s1' (CHR ''('' # (pr 0 t @ CHR '')'' # rest))"
    by (rule peek_yes [OF 1(2) nb symbol_char]) (simp add: symbols_def)
  obtain q e s2 where 2: "gettoken b s1' = (CHR ''('', q, e, s2)" "here b s2 (pr 0 t @ CHR '')'' # rest)"
    by (rule get_symbol [OF 6(2) _ nb]) simp
  have "follow '')'' (CHR '')'' # rest)" by (simp add: follow_def whitespace_def)
  then obtain c s3 where 3: "parses_line b s2 c s3" "here b s3 (CHR '')'' # rest)" "text_of (str_of b) c = t"
    using r 2(2) unfolding reads_line_def by blast
  obtain s4 where 4: "peek b s3 '')'' = (s4, True)" "here b s4 (CHR '')'' # rest)"
    by (rule peek_yes [OF 3(2) nb symbol_char]) (simp add: symbols_def)
  obtain q' e' s5 where 5: "gettoken b s4 = (CHR '')'', q', e', s5)" "here b s5 rest" by (rule get_symbol [OF 4(2) _ nb]) simp
  obtain n where n: "parseline n b s2 = Ok (c, s3)" using 3(1) by (auto simp: parses_line_def)
  have "parseexec (Suc (Suc n)) b s = parseredirs b c s5"
    using 1(1) 6(1) 2(1) n 4(1) 5(1) by (simp add: parseexec.simps parseblock.simps)
  then have "parseexec (Suc (Suc n)) b s = bind_ok (parseredirs b c s5) Ok" by (simp add: bind_ok_def split: outcome.split)
  then show "\<exists>n c s' K. parseexec n b s = bind_ok (parseredirs b c s') K \<and> finishes b K \<and> here b s' rest \<and> text_of (str_of b) c = t"
    using finishes_Ok 5(2) 3(3) by blast
qed

lemma reads_SExec:
  assumes nb: "CHR 0x00 \<notin> set b" and ok: "scmd_ok (SExec ws)"
  shows "reads_redirs b (SExec ws)"
  unfolding reads_redirs_def
proof (intro allI impI)
  fix s rest assume h: "here b s (pr 3 (SExec ws) @ rest)" and f: "follow ''<>|)&;'' rest"
  have h': "here b s (concat (map (\<lambda>w. w @ '' '') ws) @ rest)" using h by (simp add: pr_def wrap_def)
  have fw: "\<exists>cs. follow cs (concat (map (\<lambda>w. w @ '' '') ws) @ rest) \<and> set cs \<inter> set ''('' = {}"
  proof (cases ws)
    case Nil
    then show ?thesis using f by (intro exI [of _ "''<>|)&;''"]) simp
  next
    case (Cons w ws')
    then obtain c w' where c: "w = c # w'" "word_char c" using ok by (cases w) (auto simp: word_ok_def)
    then show ?thesis using Cons by (intro exI [of _ "[c]"]) (auto simp: follow_def word_char_def symbols_def)
  qed
  then obtain cs where cs: "follow cs (concat (map (\<lambda>w. w @ '' '') ws) @ rest)" "set cs \<inter> set ''('' = {}" by blast
  obtain s1 where 1: "peek b s ''('' = (s1, False)" "here b s1 (concat (map (\<lambda>w. w @ '' '') ws) @ rest)"
    by (rule peek_no [OF h' nb cs])
  have "0 + length ws < MAXARGS" "\<forall>w\<in>set ws. word_ok w" using ok by simp_all
  from args_words [OF 1(2) nb f this, of "[]"] obtain av s2 where
    2: "bind_ok (parseredirs b (Execcmd []) s1) (\<lambda>(c, s). parseargs b c 0 s) =
      bind_ok (parseredirs b (Execcmd av) s2) (\<lambda>(c, s). parseargs b c (length ws) s)" "here b s2 rest" "map (str_of b) av = ws" by auto
  have "parseexec (Suc 0) b s = bind_ok (parseredirs b (Execcmd av) s2) (\<lambda>(c, s). parseargs b c (length ws) s)"
    using 1(1) 2(1) by (simp add: parseexec.simps)
  then show "\<exists>n c s' K. parseexec n b s = bind_ok (parseredirs b c s') K \<and> finishes b K \<and> here b s' rest \<and> text_of (str_of b) c = SExec ws"
    using finishes_args [OF nb, of "length ws"] 2(2,3)
    by (intro exI [of _ "Suc 0"] exI [of _ "Execcmd av"] exI [of _ s2] exI [of _ "\<lambda>(c, s). parseargs b c (length ws) s"]) simp
qed

lemma reads_SRedir:
  assumes nb: "CHR 0x00 \<notin> set b" and r: "reads_redirs b t" and ok: "scmd_ok (SRedir t f m d)"
  shows "reads_redirs b (SRedir t f m d)"
  unfolding reads_redirs_def
proof (intro allI impI)
  fix s rest assume h: "here b s (pr 3 (SRedir t f m d) @ rest)" and fo: "follow ''<>|)&;'' rest"
  have h': "here b s (pr 3 t @ (redir_text m d @ f @ '' '' @ rest))" using h by (simp add: pr_def wrap_def)
  have "follow ''<>|)&;'' (redir_text m d @ f @ '' '' @ rest)" by (auto simp: follow_def redir_text_def whitespace_def)
  then obtain n c s1 K where 1: "parseexec n b s = bind_ok (parseredirs b c s1) K" "finishes b K"
    "here b s1 (redir_text m d @ f @ '' '' @ rest)" "text_of (str_of b) c = t"
    using r h' unfolding reads_redirs_def by blast
  obtain q e s2 where 2: "parseredirs b c s1 = parseredirs b (Redircmd c q e m d) s2" "here b s2 rest" "slice q (e - q) b = f"
    by (rule redirs_one [OF 1(3) nb]) (use ok in simp_all)
  have "text_of (str_of b) (Redircmd c q e m d) = SRedir t f m d" using 1(4) 2(3) by simp
  then show "\<exists>n c s' K. parseexec n b s = bind_ok (parseredirs b c s') K \<and> finishes b K \<and> here b s' rest \<and> text_of (str_of b) c = SRedir t f m d"
    using 1(1,2) 2(1,2) by (intro exI [of _ n] exI [of _ "Redircmd c q e m d"] exI [of _ s2] exI [of _ K]) simp
qed

lemma reads_SPipe:
  assumes nb: "CHR 0x00 \<notin> set b" and l: "reads_exec b l" and r: "reads_pipe b r"
  shows "reads_pipe b (SPipe l r)"
  unfolding reads_pipe_def
proof (intro allI impI)
  fix s rest assume h: "here b s (pr 2 (SPipe l r) @ rest)" and f: "follow '')&;'' rest"
  have h': "here b s (pr 3 l @ CHR ''|'' # (pr 2 r @ rest))" using h by (simp add: pr_def wrap_def)
  have "follow ''|)&;'' (CHR ''|'' # (pr 2 r @ rest))" by (simp add: follow_def whitespace_def)
  then obtain c1 s1 where 1: "parses_exec b s c1 s1" "here b s1 (CHR ''|'' # (pr 2 r @ rest))" "text_of (str_of b) c1 = l"
    using l h' unfolding reads_exec_def by blast
  obtain s2 where 2: "peek b s1 ''|'' = (s2, True)" "here b s2 (CHR ''|'' # (pr 2 r @ rest))"
    by (rule peek_yes [OF 1(2) nb symbol_char]) (simp add: symbols_def)
  obtain q e s3 where 3: "gettoken b s2 = (CHR ''|'', q, e, s3)" "here b s3 (pr 2 r @ rest)" by (rule get_symbol [OF 2(2) _ nb]) simp
  obtain c2 s4 where 4: "parses_pipe b s3 c2 s4" "here b s4 rest" "text_of (str_of b) c2 = r" using r 3(2) f unfolding reads_pipe_def by blast
  show "\<exists>c s'. parses_pipe b s c s' \<and> here b s' rest \<and> text_of (str_of b) c = SPipe l r"
    using parses_pipe_two [OF 1(1) 2(1) 3(1) 4(1)] 4(2,3) 1(3)
    by (intro exI [of _ "Pipecmd c1 c2"] exI [of _ s4]) simp
qed

lemma reads_SBack:
  assumes nb: "CHR 0x00 \<notin> set b" and r: "reads_back b t"
  shows "reads_back b (SBack t)"
  unfolding reads_back_def
proof (intro allI impI)
  fix s rest assume h: "here b s (pr 1 (SBack t) @ rest)" and f: "follow '')&;'' rest"
  have h': "here b s (pr 1 t @ CHR ''&'' # rest)" using h by (simp add: pr_def wrap_def)
  have "follow '')&;'' (CHR ''&'' # rest)" by (simp add: follow_def whitespace_def)
  then obtain c0 s0 c s1 where 1: "parses_pipe b s c0 s0" "parsebacks b c0 s0 = parsebacks b c s1" "here b s1 (CHR ''&'' # rest)" "text_of (str_of b) c = t"
    using r h' unfolding reads_back_def by blast
  obtain s2 where 2: "peek b s1 ''&'' = (s2, True)" "here b s2 (CHR ''&'' # rest)"
    by (rule peek_yes [OF 1(3) nb symbol_char]) (simp add: symbols_def)
  obtain q e s3 where 3: "gettoken b s2 = (CHR ''&'', q, e, s3)" "here b s3 rest" by (rule get_symbol [OF 2(2) _ nb]) simp
  have "parsebacks b c s1 = parsebacks b (Backcmd c) s3" using 2(1) 3(1) by (simp add: parsebacks.simps [of b c s1])
  moreover have "text_of (str_of b) (Backcmd c) = SBack t" using 1(4) by simp
  ultimately show "\<exists>c0 s0 c s'. parses_pipe b s c0 s0 \<and> parsebacks b c0 s0 = parsebacks b c s' \<and> here b s' rest \<and> text_of (str_of b) c = SBack t"
    using 1(1,2) 3(2) by (intro exI [of _ c0] exI [of _ s0] exI [of _ "Backcmd c"] exI [of _ s3]) simp
qed

lemma reads_SList:
  assumes nb: "CHR 0x00 \<notin> set b" and l: "reads_back b l" and r: "reads_line b r"
  shows "reads_line b (SList l r)"
  unfolding reads_line_def
proof (intro allI impI)
  fix s rest assume h: "here b s (pr 0 (SList l r) @ rest)" and f: "follow '')'' rest"
  have h': "here b s (pr 1 l @ CHR '';'' # (pr 0 r @ rest))" using h by (simp add: pr_def wrap_def)
  have f': "follow '')&;'' (CHR '';'' # (pr 0 r @ rest))" "follow '');'' (CHR '';'' # (pr 0 r @ rest))" by (simp_all add: follow_def whitespace_def)
  then obtain c0 s0 c1 s1 where 1: "parses_pipe b s c0 s0" "parsebacks b c0 s0 = parsebacks b c1 s1" "here b s1 (CHR '';'' # (pr 0 r @ rest))" "text_of (str_of b) c1 = l"
    using l h' unfolding reads_back_def by blast
  obtain s2 where 2: "parsebacks b c1 s1 = (c1, s2)" "here b s2 (CHR '';'' # (pr 0 r @ rest))" by (rule backs_end [OF 1(3) nb f'(2)])
  obtain s3 where 3: "peek b s2 '';'' = (s3, True)" "here b s3 (CHR '';'' # (pr 0 r @ rest))"
    by (rule peek_yes [OF 2(2) nb symbol_char]) (simp add: symbols_def)
  obtain q e s4 where 4: "gettoken b s3 = (CHR '';'', q, e, s4)" "here b s4 (pr 0 r @ rest)" by (rule get_symbol [OF 3(2) _ nb]) simp
  obtain c2 s5 where 5: "parses_line b s4 c2 s5" "here b s5 rest" "text_of (str_of b) c2 = r" using r 4(2) f unfolding reads_line_def by blast
  have "parsebacks b c0 s0 = (c1, s2)" using 1(2) 2(1) by simp
  from parses_line_two [OF 1(1) this 3(1) 4(1) 5(1)] show "\<exists>c s'. parses_line b s c s' \<and> here b s' rest \<and> text_of (str_of b) c = SList l r"
    using 5(2,3) 1(4) by (intro exI [of _ "Listcmd c1 c2"] exI [of _ s5]) simp
qed

lemma pr_levels: "level t \<ge> n \<Longrightarrow> m \<le> n \<Longrightarrow> pr m t = pr n t" "level t < m \<Longrightarrow> m \<le> n \<Longrightarrow> pr m t = pr n t"
  by (simp_all add: pr_def wrap_def)

lemma reads_all:
  assumes nb: "CHR 0x00 \<notin> set b"
  shows "scmd_ok t \<Longrightarrow> reads_redirs b t \<and> reads_exec b t \<and> reads_pipe b t \<and> reads_back b t \<and> reads_line b t"
proof (induction t)
  case (SExec ws)
  note e = reads_SExec [OF nb SExec]
  note x = redirs_exec [OF nb e]
  note p = exec_pipe [OF nb x pr_levels(1) [of 3]]
  note k = pipe_back [OF p pr_levels(1) [of 2]]
  show ?case using e x p k back_line [OF nb k pr_levels(1) [of 1]] by simp
next
  case (SRedir t f m d)
  then have "reads_redirs b t" by simp
  note e = reads_SRedir [OF nb this SRedir.prems]
  note x = redirs_exec [OF nb e]
  note p = exec_pipe [OF nb x pr_levels(1) [of 3]]
  note k = pipe_back [OF p pr_levels(1) [of 2]]
  show ?case using e x p k back_line [OF nb k pr_levels(1) [of 1]] by simp
next
  case (SPipe l r)
  then have "reads_exec b l" "reads_pipe b r" by simp_all
  note p = reads_SPipe [OF nb this]
  note k = pipe_back [OF p pr_levels(1) [of 2]]
  note li = back_line [OF nb k pr_levels(1) [of 1]]
  note e = line_redirs [OF nb li]
  show ?case using p k li e redirs_exec [OF nb e] by simp
next
  case (SList l r)
  then have "reads_back b l" "reads_line b r" by simp_all
  note li = reads_SList [OF nb this]
  note e = line_redirs [OF nb li]
  note x = redirs_exec [OF nb e]
  note p = exec_pipe [OF nb x pr_levels(2) [of _ 2 3]]
  note k = pipe_back [OF p pr_levels(2) [of _ 1 2]]
  show ?case using li e x p k by simp
next
  case (SBack t)
  then have "reads_back b t" by simp
  note k = reads_SBack [OF nb this]
  note li = back_line [OF nb k pr_levels(1) [of 1]]
  note e = line_redirs [OF nb li]
  note x = redirs_exec [OF nb e]
  note p = exec_pipe [OF nb x pr_levels(2) [of _ 2 3]]
  show ?case using li e x p k by simp
qed

section \<open>Properties\<close>

lemma parseline_enough:
  assumes "CHR 0x00 \<notin> set b" "parses_line b 0 c s"
  shows "parseline (4 * length b + 4) b 0 = Ok (c, s)"
proof -
  obtain n where n: "parseline n b 0 = Ok (c, s)" using assms(2) by (auto simp: parses_line_def)
  let ?m = "4 * length b + 4"
  have "settled (parseline ?m b 0)" using parse_settled(1) [OF assms(1), of 0 ?m] by simp
  then have "parseline (max n ?m) b 0 = parseline ?m b 0" by (intro parse_mono(1)) simp_all
  moreover have "parseline (max n ?m) b 0 = Ok (c, s)" using parse_mono(1) [of n "max n ?m" b 0] n by simp
  ultimately show ?thesis by simp
qed

lemma print_no_nul: "scmd_ok t \<Longrightarrow> CHR 0x00 \<notin> set (body t)"
proof (induction t)
  case (SExec ws)
  then show ?case by (auto simp: word_ok_def word_char_def)
next
  case (SRedir t f m d)
  then show ?case by (auto simp: wrap_def redir_text_def word_ok_def word_char_def)
qed (auto simp: wrap_def)

text \<open>C37: The parser of the shell inverts a printer of commands: for every command tree whose words are not empty
  and have no white space, symbols or NULs, with at most nine arguments for each program, the printed line is
  parsed to that tree, and each string of the tree is found in the memory of the line as a C string once
  \<^verbatim>\<open>nulterminate\<close> has written its NULs.\<close>

theorem parsecmd_print:
  assumes "scmd_ok t"
  shows "\<exists>c buf. parsecmd (print_cmd t) = Ok (c, buf) \<and> text_of (\<lambda>(q, e). cstr buf q) c = t"
proof -
  let ?b = "print_cmd t"
  have nb: "CHR 0x00 \<notin> set ?b" using print_no_nul [OF assms] by (simp add: print_cmd_def pr_def wrap_def)
  have "here ?b 0 (pr 0 t @ [])" "follow '')'' []" by (simp_all add: here_def print_cmd_def follow_def)
  then obtain c s where 1: "parses_line ?b 0 c s" "here ?b s []" "text_of (str_of ?b) c = t"
    using reads_all [OF nb assms] unfolding reads_line_def by blast
  note l = parseline_enough [OF nb 1(1)]
  have ok: "\<forall>u\<in>set (tokens c). token_ok ?b u" using parse_parsed(1) [OF nb _ l] by (simp add: parsed_def)
  let ?buf = "nulterminate c (?b @ [CHR 0x00])"
  have "skip_white ?b s = length ?b" by (rule here_end(1) [OF 1(2)]) simp
  then have "parsecmd ?b = Ok (c, ?buf)" unfolding parsecmd_def l by (simp add: peek_def Let_def)
  moreover have "text_of (\<lambda>(q, e). cstr ?buf q) c = text_of (str_of ?b) c"
    by (rule text_of_cong) (use token_string [OF ok] in \<open>auto simp: nulterminate_tokens\<close>)
  ultimately show ?thesis using 1(3) by auto
qed

theorem parsecmd_print_witness:
  "\<exists>c buf. parsecmd ''ls |wc -l >>f &;(a &)|b '' = Ok (c, buf) \<and>
    text_of (\<lambda>(q, e). cstr buf q) c =
      SList (SBack (SPipe (SExec [''ls'']) (SRedir (SExec [''wc'', ''-l'']) ''f'' (O_WRONLY OR O_CREATE) 1)))
        (SPipe (SBack (SExec [''a''])) (SExec [''b'']))"
proof -
  let ?t = "SList (SBack (SPipe (SExec [''ls'']) (SRedir (SExec [''wc'', ''-l'']) ''f'' (O_WRONLY OR O_CREATE) 1)))
      (SPipe (SBack (SExec [''a''])) (SExec [''b'']))"
  have "scmd_ok ?t" by (simp add: word_ok_def word_char_def whitespace_def symbols_def MAXARGS_def)
  moreover have "print_cmd ?t = ''ls |wc -l >>f &;(a &)|b ''" by (simp add: print_cmd_def pr_def wrap_def redir_text_def)
  ultimately show ?thesis using parsecmd_print [of ?t] by simp
qed



end
