(* ===== verification/Spec2Isabelle.thy ===== *)
theory Spec2Isabelle
  imports Kstring Uvm_Props Fs_Props Console_Props Virtio Sched Grep Syscall_Props Shell_Print
begin

text \<open>
  A model of the xv6 kernel of this repository, and of some of its user programs, with the theorems
  that make it correct.

  \<^bold>\<open>The program.\<close> xv6 is a small Unix for RISC-V. User programs (\<^verbatim>\<open>user/\<close>) enter the kernel
  (\<^verbatim>\<open>kernel/\<close>) by system calls. \<^verbatim>\<open>syscall.c\<close> fetches the arguments from the trap frame, calls the
  function of the table and traces the call if the process asked for it. \<^verbatim>\<open>sysproc.c\<close> and \<^verbatim>\<open>sysfile.c\<close>
  are the system calls; they use processes (\<^verbatim>\<open>proc.c\<close>, \<^verbatim>\<open>exec.c\<close>) and open files (\<^verbatim>\<open>file.c\<close>,
  \<^verbatim>\<open>pipe.c\<close>). Files are inodes (\<^verbatim>\<open>fs.c\<close>), whose blocks are written through the log (\<^verbatim>\<open>log.c\<close>) and
  the buffer cache (\<^verbatim>\<open>bio.c\<close>) to the disk (\<^verbatim>\<open>virtio_disk.c\<close>). The console (\<^verbatim>\<open>console.c\<close>) edits lines
  from the UART (\<^verbatim>\<open>uart.c\<close>). Memory is pages from \<^verbatim>\<open>kalloc.c\<close>, mapped by \<^verbatim>\<open>vm.c\<close>. Several CPUs
  share all of this under spin locks (\<^verbatim>\<open>spinlock.c\<close>) and the scheduler.

  \<^bold>\<open>How the code is modelled.\<close> The static data of a component is a record, and the records
  extend one another in the order in which the components use each other, so that an operation on
  pages also acts on the state of the whole kernel:
  \<open>kmem\<close> (physical memory and the free list), \<open>bcache\<close> (disk and buffers), \<open>logst\<close>, \<open>fsst\<close>
  (superblock and inode table), \<open>procst\<close> (process table), \<open>filest\<close> (open files and pipes), \<open>consst\<close>
  (console and UART), with \<open>vdisk\<close> beside for the disk driver. Every C function is a function on
  such states. Its result is an \<open>outcome\<close>: \<open>Ok\<close> with a value, \<open>Panic\<close> with the message, \<open>Blocks\<close>
  where the caller waits for a lock or for room that only another process can give, and \<open>Undef\<close>
  where the C code would use memory out of bounds. Machine integers are words of their width, with
  signed overflow the outcome \<open>Undef\<close> where a counter could reach it (\<^verbatim>\<open>noff\<close>); reference counts and process
  numbers, which the sizes of the tables keep far from it, are plain integers. A
  call that sleeps in the middle of its work returns how far it came (\<open>progress\<close>). In this model the
  code between the acquisition and the release of a lock is one step; \<open>Spinlock\<close> and \<open>Sched\<close>
  justify that, where the single memory accesses of several CPUs interleave.

  \<^bold>\<open>The theories\<close>, in the order of the code they need:

  \<^item> \<open>Xv6_Prelude\<close>: outcomes, loops over them, little-endian loads and stores, word lemmas.
  \<^item> \<open>Kstring\<close> (\<^verbatim>\<open>string.c\<close>), \<open>Memlayout\<close> (\<^verbatim>\<open>param.h\<close>, \<^verbatim>\<open>riscv.h\<close>, \<^verbatim>\<open>memlayout.h\<close>).
  \<^item> \<open>Kalloc\<close> (\<^verbatim>\<open>kalloc.c\<close>): the free list threaded through the pages; \<open>kmem_inv\<close> says that it is a
    list of distinct good pages. \<^verbatim>\<open>kinit\<close>, \<^verbatim>\<open>kalloc\<close>, \<^verbatim>\<open>kfree\<close> and the count of free memory are exact.
  \<^item> \<open>Vm\<close> (\<^verbatim>\<open>vm.c\<close>); \<open>Vm_Tables\<close>, \<open>Uvm\<close>, \<open>Uvm_Ops\<close>, \<open>Uvm_Alloc\<close>, \<open>Uvm_Free\<close>, \<open>Uvm_Copy\<close>,
    \<open>Uvm_Fork\<close>, \<open>Uvm_Props\<close>: page tables as trees of pages, the invariant \<open>uvm\<close> of a user address
    space, growing, freeing and copying without loss of pages, and user memory as bytes.
    \<open>User_Mem\<close> is the interface the file layers use.
  \<^item> \<open>Disk_Layout\<close> (\<^verbatim>\<open>fs.h\<close>), \<open>Bio\<close> (\<^verbatim>\<open>bio.c\<close>, \<^verbatim>\<open>sleeplock.c\<close>): the doubly linked list of buffers as
    a list in order of use; a buffer returned by \<^verbatim>\<open>bread\<close> has the contents of its block.
  \<^item> \<open>Log\<close> (\<^verbatim>\<open>log.c\<close>), \<open>Log_Spec\<close>, \<open>Log_Props\<close>: the history of disk writes of a commit; a crash
    after any prefix of them, followed by recovery, gives all or nothing of the operations.
  \<^item> \<open>Fs\<close> (\<^verbatim>\<open>fs.c\<close>), \<open>Proc\<close> and \<open>Proc_Life\<close> (\<^verbatim>\<open>proc.c\<close>), \<open>File\<close> (\<^verbatim>\<open>pipe.c\<close>, \<^verbatim>\<open>file.c\<close>), \<open>Exec\<close> (\<^verbatim>\<open>exec.c\<close>),
    \<open>Sysfile\<close> (\<^verbatim>\<open>sysfile.c\<close>), \<open>Syscall\<close> (\<^verbatim>\<open>sysproc.c\<close>, \<^verbatim>\<open>syscall.c\<close>).
  \<^item> \<open>Fs_Tx\<close>, \<open>Fs_Blocks\<close>, \<open>Fs_Files\<close>, \<open>Fs_Bmap\<close>, \<open>Fs_Data\<close>, \<open>Fs_Props\<close>: the file system within a
    transaction. Blocks are read and changed through the log; \<^verbatim>\<open>balloc\<close> and \<^verbatim>\<open>bfree\<close> against the set that the
    bitmap marks; \<^verbatim>\<open>bmap\<close>, \<^verbatim>\<open>readi\<close> and \<^verbatim>\<open>writei\<close> against the bytes of a file, with the blocks that a write
    adds to the log counted.
  \<^item> \<open>Proc_Mem\<close>, \<open>Fork_Props\<close>, \<open>Syscall_Props\<close>: the memory of a process from \<^verbatim>\<open>allocproc\<close> to \<^verbatim>\<open>freeproc\<close>, \<^verbatim>\<open>fork\<close> as
    a whole with every failure undone, and the call \<^verbatim>\<open>sysinfo\<close> from the registers to its results.
  \<^item> \<open>Ring\<close>: bounded queues and ring buffers as locales. \<open>Pipe_Props\<close> and \<open>Console_Props\<close> interpret
    them on pipes, on the console input and on the UART, and show that bytes arrive in order.
  \<^item> \<open>Kprintf\<close> (\<^verbatim>\<open>printf.c\<close>), \<open>Console\<close> (\<^verbatim>\<open>console.c\<close>, \<^verbatim>\<open>uart.c\<close>), \<open>Virtio\<close> (\<^verbatim>\<open>virtio_disk.c\<close>).
    The UART loses a byte that is written while it has no room, and regains room at any pace; no
    output is lost. The disk is a parameter: with a device that serves well-formed requests, whose
    form \<open>blk_request\<close> spells out, the driver has the effect that \<open>Bio\<close> assumes of the disk.
  \<^item> \<open>Spinlock\<close> (\<^verbatim>\<open>spinlock.c\<close>), \<open>Sched\<close> (\<^verbatim>\<open>proc.c\<close>): step relations of interleaved CPUs, with mutual
    exclusion, one CPU per process stack and no lost wakeup. Interrupts come wherever no lock is
    held, also at the end of \<^verbatim>\<open>sleep\<close>, and may yield.
  \<^item> \<open>Grep\<close> (\<^verbatim>\<open>user/grep.c\<close>): the matcher against the meaning of patterns, and the loop over the input.
  \<^item> \<open>Shell\<close>, \<open>Shell_Props\<close>, \<open>Shell_Print\<close> (\<^verbatim>\<open>user/sh.c\<close>): the parser of the shell. It handles every line, it
    inverts a printer of command trees, and the NULs it writes cut each word where it ends.

  \<^bold>\<open>Loops and bounds.\<close> Loops are recursive functions with termination proofs. \<open>availmemory\<close> follows
  the free list, which could be cyclic, and is a partial function that is proved to return.
  \<open>freewalk\<close> recurses over three levels, which is the depth of a page table. The functions of the shell's
  parser that call each other count their nested calls; a line of \<open>n\<close> characters needs no more than
  \<open>4 * n + 4\<close>, the number that \<open>parsecmd\<close> starts with. \<open>free_chain\<close> follows at most \<open>NUM + 1\<close> descriptors, since it
  frees each and a free one is a panic. Array sizes are those of
  \<^verbatim>\<open>param.h\<close>.

  \<^bold>\<open>Not modelled.\<close> Assembly (\<^verbatim>\<open>entry.S\<close>, \<^verbatim>\<open>kernelvec.S\<close>, \<^verbatim>\<open>swtch.S\<close>, \<^verbatim>\<open>trampoline.S\<close>,
  \<^verbatim>\<open>initcode.S\<close>), since there is no model of the processor; \<^verbatim>\<open>start.c\<close> and \<^verbatim>\<open>main.c\<close>, which
  set control registers and call the initialisations; \<^verbatim>\<open>trap.c\<close> and \<^verbatim>\<open>plic.c\<close>, which read and set control
  registers and call the modelled handlers; of \<^verbatim>\<open>sh.c\<close> the part that runs commands; the other user programs
  and the user library, and \<^verbatim>\<open>mkfs.c\<close>, which runs on the host; the test programs \<^verbatim>\<open>usertests.c\<close>, \<^verbatim>\<open>grind.c\<close>,
  \<^verbatim>\<open>forktest.c\<close>, \<^verbatim>\<open>stressfs.c\<close> and \<^verbatim>\<open>sysinfotest.c\<close>, which only call the system.
\<close>

end
